(* ===== verification/Anima_Prelude.thy ===== *)
theory Anima_Prelude
  imports Main "HOL-Library.Word" "HOL-Library.AList"
begin

text \<open>
  Shared vocabulary of the development: the machine integers of the Rust sources with the
  standard library's saturating and checked arithmetic, hash maps as association lists, and the
  generic contracts (operation machines, life cycles) that the components discharge for their own
  operations.
\<close>

named_theorems uint_simps \<open>reading machine-integer operations through unat\<close>
named_theorems store_simps \<open>hash-map operations read through map_of\<close>

section \<open>Machine integers\<close>

type_synonym u8 = "8 word"
type_synonym u16 = "16 word"
type_synonym u32 = "32 word"
type_synonym u64 = "64 word"
type_synonym usize = "64 word"

abbreviation u64_max :: u64 where "u64_max \<equiv> - 1"
abbreviation u32_max :: u32 where "u32_max \<equiv> - 1"

text \<open>Rust's \<^verbatim>\<open>saturating_add\<close>, \<^verbatim>\<open>saturating_sub\<close>, \<^verbatim>\<open>saturating_mul\<close>,
  \<^verbatim>\<open>checked_add\<close>, \<^verbatim>\<open>checked_sub\<close> on an unsigned type of any width.\<close>

definition saturating_add :: "'a::len word \<Rightarrow> 'a word \<Rightarrow> 'a word" where
  "saturating_add a b = (if unat a + unat b < 2 ^ LENGTH('a) then a + b else - 1)"

definition saturating_sub :: "'a::len word \<Rightarrow> 'a word \<Rightarrow> 'a word" where
  "saturating_sub a b = (if a < b then 0 else a - b)"

definition saturating_mul :: "'a::len word \<Rightarrow> 'a word \<Rightarrow> 'a word" where
  "saturating_mul a b = (if unat a * unat b < 2 ^ LENGTH('a) then a * b else - 1)"

definition checked_add :: "'a::len word \<Rightarrow> 'a word \<Rightarrow> 'a word option" where
  "checked_add a b = (if unat a + unat b < 2 ^ LENGTH('a) then Some (a + b) else None)"

definition checked_sub :: "'a::len word \<Rightarrow> 'a word \<Rightarrow> 'a word option" where
  "checked_sub a b = (if a < b then None else Some (a - b))"

lemma unat_minus_one_word_max: "unat (- 1 :: 'a::len word) = 2 ^ LENGTH('a) - 1"
  by (simp add: unsigned_minus_1_eq_mask mask_eq_exp_minus_1)

lemma unat_lt_pow: "unat (a :: 'a::len word) < 2 ^ LENGTH('a)"
  by simp

lemma unat_saturating_add [uint_simps]:
  fixes a b :: "'a::len word"
  shows "unat (saturating_add a b) = min (unat a + unat b) (2 ^ LENGTH('a) - 1)"
  by (auto simp: saturating_add_def unat_word_ariths unat_minus_one_word_max)

lemma saturating_add_ge: "unat a \<le> unat (saturating_add a b)"
  using unat_lt_pow [of a] unfolding unat_saturating_add by linarith

lemma unat_saturating_sub [uint_simps]:
  "unat (saturating_sub a b) = unat a - unat b"
  by (auto simp: saturating_sub_def unat_sub word_less_nat_alt not_less word_le_nat_alt)

lemma unat_saturating_mul [uint_simps]:
  fixes a b :: "'a::len word"
  shows "unat (saturating_mul a b) = min (unat a * unat b) (2 ^ LENGTH('a) - 1)"
  by (auto simp: saturating_mul_def unat_word_ariths unat_minus_one_word_max)

lemma unat_min [uint_simps]: "unat (min a b) = min (unat a) (unat b)"
  by (auto simp: min_def word_le_nat_alt)

lemma unat_max [uint_simps]: "unat (max a b) = max (unat a) (unat b)"
  by (auto simp: max_def word_le_nat_alt)

lemma checked_add_Some_iff [uint_simps]:
  fixes a b :: "'a::len word"
  shows "checked_add a b = Some c \<longleftrightarrow> unat a + unat b < 2 ^ LENGTH('a) \<and> c = a + b"
  by (auto simp: checked_add_def)

lemma checked_add_unat:
  fixes a b :: "'a::len word"
  assumes "checked_add a b = Some c" shows "unat c = unat a + unat b"
  using assms by (auto simp: checked_add_def unat_word_ariths split: if_splits)

lemma checked_sub_unat:
  "checked_sub a b = Some c \<Longrightarrow> unat b \<le> unat a \<and> unat c = unat a - unat b"
  by (auto simp: checked_sub_def unat_sub word_less_nat_alt word_le_nat_alt not_less
      split: if_splits)

lemma unat_add_exact:
  "unat a + unat b < 2 ^ LENGTH('a) \<Longrightarrow> unat (a + b) = unat a + unat (b :: 'a::len word)"
  by (simp add: unat_word_ariths)

lemma unat_add_le:
  fixes a b c :: "'a::len word"
  shows "unat a + unat b \<le> unat c \<Longrightarrow> unat (a + b) = unat a + unat b"
  by (rule unat_add_exact, erule le_less_trans, rule unat_lt_pow)

lemma unat_ucast_u32_u64 [simp]: "unat (ucast (n :: u32) :: u64) = unat n"
proof -
  have "unat n < 2 ^ LENGTH(32)" by (rule unat_lt_pow)
  then have "unat n < 2 ^ 64" by simp
  then show ?thesis by (simp add: unsigned_ucast_eq take_bit_nat_eq_self)
qed

lemmas uint_order = word_le_nat_alt word_less_nat_alt

section \<open>Hash maps\<close>

text \<open>
  A \<^verbatim>\<open>HashMap\<close> is an association list with distinct keys: the order of the list stands for
  the map's iteration order, which Rust leaves unspecified, so every result is stated for any list.
\<close>

definition hm_wf :: "('k \<times> 'v) list \<Rightarrow> bool" where
  "hm_wf m \<longleftrightarrow> distinct (map fst m)"

abbreviation hm_get :: "('k \<times> 'v) list \<Rightarrow> 'k \<Rightarrow> 'v option" where
  "hm_get m k \<equiv> map_of m k"

abbreviation hm_insert :: "'k \<Rightarrow> 'v \<Rightarrow> ('k \<times> 'v) list \<Rightarrow> ('k \<times> 'v) list" where
  "hm_insert k v m \<equiv> AList.update k v m"

abbreviation hm_remove :: "'k \<Rightarrow> ('k \<times> 'v) list \<Rightarrow> ('k \<times> 'v) list" where
  "hm_remove k m \<equiv> AList.delete k m"

definition hm_contains :: "('k \<times> 'v) list \<Rightarrow> 'k \<Rightarrow> bool" where
  "hm_contains m k \<longleftrightarrow> map_of m k \<noteq> None"

lemma hm_wf_Nil [simp]: "hm_wf []"
  by (simp add: hm_wf_def)

lemma hm_wf_insert [store_simps]: "hm_wf m \<Longrightarrow> hm_wf (hm_insert k v m)"
  by (simp add: hm_wf_def distinct_update)

lemma hm_wf_remove [store_simps]: "hm_wf m \<Longrightarrow> hm_wf (hm_remove k m)"
  by (simp add: hm_wf_def distinct_delete)

lemma hm_get_insert [store_simps]:
  "hm_get (hm_insert k v m) k' = (if k' = k then Some v else hm_get m k')"
  by (simp add: update_conv')

lemma hm_get_remove [store_simps]:
  "hm_get (hm_remove k m) k' = (if k' = k then None else hm_get m k')"
  by (simp add: delete_conv')

lemma hm_length_insert_new:
  "\<not> hm_contains m k \<Longrightarrow> length (hm_insert k v m) = Suc (length m)"
  by (induction m) (auto simp: hm_contains_def split: if_splits)

lemma hm_length_insert_old:
  "hm_contains m k \<Longrightarrow> length (hm_insert k v m) = length m"
  by (induction m) (auto simp: hm_contains_def split: if_splits)

lemma hm_length_remove:
  "hm_wf m \<Longrightarrow> hm_contains m k \<Longrightarrow> Suc (length (hm_remove k m)) = length m"
proof (induction m)
  case Nil
  then show ?case by (simp add: hm_contains_def)
next
  case (Cons x m)
  obtain a b where x: "x = (a, b)" by (cases x)
  show ?case
  proof (cases "a = k")
    case True
    with Cons.prems x have "k \<notin> fst ` set m" by (simp add: hm_wf_def)
    then have "hm_remove k m = m" by (simp add: delete_id)
    with True x show ?thesis by simp
  next
    case False
    with Cons x show ?thesis by (simp add: hm_wf_def hm_contains_def)
  qed
qed

lemma hm_contains_iff: "hm_contains m k \<longleftrightarrow> k \<in> fst ` set m"
  unfolding hm_contains_def by (simp only: map_of_eq_None_iff) simp

lemma hm_contains_insert: "hm_contains (hm_insert k v m) x \<longleftrightarrow> x = k \<or> hm_contains m x"
  by (simp add: hm_contains_def hm_get_insert)

lemma hm_contains_remove: "hm_contains (hm_remove k m) x \<longleftrightarrow> x \<noteq> k \<and> hm_contains m x"
  by (simp add: hm_contains_def hm_get_remove)

lemma hm_insert_new: "\<not> hm_contains m k \<Longrightarrow> hm_insert k v m = m @ [(k, v)]"
  by (induction m) (auto simp: hm_contains_def split: if_splits)

lemma set_hm_remove: "set (hm_remove k m) \<subseteq> set m"
  by (auto simp: AList.delete_eq)

lemma length_hm_remove_le: "length (hm_remove k m) \<le> length m"
  by (simp add: AList.delete_eq)

lemma set_hm_insert: "set (hm_insert k v m) \<subseteq> insert (k, v) (set m)"
  by (induction m) (auto split: if_splits)

section \<open>ASCII text\<close>

definition is_space :: "char \<Rightarrow> bool" where
  "is_space c \<longleftrightarrow> c = CHR '' '' \<or> (9 \<le> (of_char c :: nat) \<and> (of_char c :: nat) \<le> 13)"

text \<open>Rust's \<^verbatim>\<open>str::trim\<close>.\<close>

definition trim :: "string \<Rightarrow> string" where
  "trim s = rev (dropWhile is_space (rev (dropWhile is_space s)))"

lemma trim_empty_iff: "trim s = [] \<longleftrightarrow> list_all is_space s"
  by (auto simp: trim_def list_all_iff dropWhile_eq_Nil_conv dest: set_dropWhileD)
    (metis dropWhile_eq_Nil_conv dropWhile_eq_Cons_conv hd_dropWhile list.set_sel(1))

section \<open>FIFO buffers\<close>

text \<open>The contract of a first-in first-out buffer, and what it gives a client: over any sequence of puts
  and takes, what was taken followed by what is left is what was put, in order.\<close>

locale fifo_buffer =
  fixes content :: "'s \<Rightarrow> 'a list" and put :: "'s \<Rightarrow> 'a \<Rightarrow> 's" and take_front :: "'s \<Rightarrow> 'a option \<times> 's"
  assumes content_put: "content (put s x) = content s @ [x]"
    and take_empty: "content s = [] \<Longrightarrow> take_front s = (None, s)"
    and take_front: "content s = x # xs \<Longrightarrow> fst (take_front s) = Some x \<and> content (snd (take_front s)) = xs"
begin

lemma take_conserves: "(case fst (take_front s) of None \<Rightarrow> [] | Some x \<Rightarrow> [x]) @ content (snd (take_front s)) = content s"
  by (cases "content s") (simp_all add: take_empty take_front)

lemma take_None_iff: "fst (take_front s) = None \<longleftrightarrow> content s = []"
  by (cases "content s") (simp_all add: take_empty take_front)

end

section \<open>Operation machines\<close>

text \<open>
  The contract of a component that is driven by a sequence of calls: one step function over the
  calls, and an invariant that every call keeps.
\<close>

locale op_machine =
  fixes step :: "'s \<Rightarrow> 'o \<Rightarrow> 's"
    and inv :: "'s \<Rightarrow> bool"
  assumes step_inv: "inv s \<Longrightarrow> inv (step s x)"
begin

lemma run_inv: "inv s \<Longrightarrow> inv (foldl step s xs)"
  by (induction xs arbitrary: s) (simp_all add: step_inv)

end

text \<open>An operation machine with a counter that no call lowers.\<close>

locale monotone_machine = op_machine step inv
  for step :: "'s \<Rightarrow> 'o \<Rightarrow> 's" and inv :: "'s \<Rightarrow> bool" +
  fixes gauge :: "'s \<Rightarrow> nat"
  assumes step_mono: "inv s \<Longrightarrow> gauge s \<le> gauge (step s x)"
begin

lemma run_mono: "inv s \<Longrightarrow> gauge s \<le> gauge (foldl step s xs)"
proof (induction xs arbitrary: s)
  case Nil
  then show ?case by simp
next
  case (Cons x xs)
  then have "gauge (step s x) \<le> gauge (foldl step (step s x) xs)"
    by (simp add: step_inv)
  with step_mono [OF Cons.prems, of x] show ?case by simp
qed

end

section \<open>Life cycles\<close>

text \<open>
  The contract of a status field: the edges its operations can take, and the terminal states no
  operation leaves.
\<close>

locale life_cycle =
  fixes edge :: "'s \<Rightarrow> 's \<Rightarrow> bool"
    and terminal :: "'s \<Rightarrow> bool"
  assumes no_exit: "terminal s \<Longrightarrow> edge s t \<Longrightarrow> t = s"
begin

lemma terminal_absorbing: "edge\<^sup>*\<^sup>* s t \<Longrightarrow> terminal s \<Longrightarrow> t = s"
  by (induction rule: rtranclp_induct) (auto dest: no_exit)

end

end
