(* ===== verification/Atomic_Cursor.thy ===== *)
theory Atomic_Cursor
  imports Anima_Prelude
begin

text \<open>
  The lock-free cursor both allocators of the \<^verbatim>\<open>corpus\<close> crate are built on: the
  standard library's \<^verbatim>\<open>AtomicUsize::fetch_update\<close>, its compare-and-swap loop as an
  interleaved step relation over any number of threads, and the contract of a bump arena with the
  facts its clients rely on. Nothing here is specific to one allocator; the allocators interpret
  the locale \<open>bump_arena\<close>.
\<close>

section \<open>fetch\_update\<close>

text \<open>\<open>Inr old\<close> when the closure accepts the current value, \<open>Inl old\<close> when it declines.\<close>

definition fetch_update :: "('c \<Rightarrow> 'c option) \<Rightarrow> 'c \<Rightarrow> ('c + 'c) \<times> 'c" where
  "fetch_update f cur = (case f cur of None \<Rightarrow> (Inl cur, cur) | Some new \<Rightarrow> (Inr cur, new))"

text \<open>A sequence of requests served one after the other: the final cursor and the granted
  requests, each with the cursor value it was granted at.\<close>

fun serve :: "('r \<Rightarrow> 'c \<Rightarrow> 'c option) \<Rightarrow> 'c \<Rightarrow> 'r list \<Rightarrow> 'c \<times> ('r \<times> 'c) list" where
  "serve f c [] = (c, [])"
| "serve f c (r # rs) =
     (case fetch_update (f r) c of
        (Inl _, c') \<Rightarrow> serve f c' rs
      | (Inr old, c') \<Rightarrow> (let (c'', log) = serve f c' rs in (c'', (r, old) # log)))"

section \<open>The compare-and-swap loop under interleaving\<close>

datatype ('r, 'c) cas_thread = Idle | is_Loaded: Loaded 'r 'c | Refused 'r 'c | Granted 'r 'c

record ('r, 'c) cas_sys =
  cursor :: 'c
  thread :: "nat \<Rightarrow> ('r, 'c) cas_thread"
  grants :: "('r \<times> 'c) list"

text \<open>
  One thread moves at a time. A thread loads the cursor, applies the closure to the value it read,
  and then either gives up (the closure declined), swaps (the cursor still holds that value) or
  reloads: the weak compare-and-swap of the standard library fails when another thread was faster,
  and may fail without a reason too, so nothing bounds the number of reloads. \<open>grants\<close> records the
  successful swaps in the order they took effect.
\<close>

inductive cas_step ::
  "('r \<Rightarrow> 'c \<Rightarrow> 'c option) \<Rightarrow> ('r, 'c) cas_sys \<Rightarrow> ('r, 'c) cas_sys \<Rightarrow> bool"
  for f :: "'r \<Rightarrow> 'c \<Rightarrow> 'c option" where
  load: "\<not> is_Loaded (thread s t) \<Longrightarrow>
    cas_step f s (s\<lparr>thread := (thread s)(t := Loaded r (cursor s))\<rparr>)"
| decline: "thread s t = Loaded r c \<Longrightarrow> f r c = None \<Longrightarrow>
    cas_step f s (s\<lparr>thread := (thread s)(t := Refused r c)\<rparr>)"
| swap: "thread s t = Loaded r c \<Longrightarrow> f r c = Some c' \<Longrightarrow> cursor s = c \<Longrightarrow>
    cas_step f s (s\<lparr>cursor := c', thread := (thread s)(t := Granted r c),
      grants := grants s @ [(r, c)]\<rparr>)"
| reload: "thread s t = Loaded r c \<Longrightarrow> f r c = Some c' \<Longrightarrow>
    cas_step f s (s\<lparr>thread := (thread s)(t := Loaded r (cursor s))\<rparr>)"

definition cas_init :: "'c \<Rightarrow> ('r, 'c) cas_sys" where
  "cas_init c = \<lparr>cursor = c, thread = (\<lambda>_. Idle), grants = []\<rparr>"

definition cas_reachable ::
  "('r \<Rightarrow> 'c \<Rightarrow> 'c option) \<Rightarrow> 'c \<Rightarrow> ('r, 'c) cas_sys \<Rightarrow> bool" where
  "cas_reachable f c s \<longleftrightarrow> (cas_step f)\<^sup>*\<^sup>* (cas_init c) s"

lemma cas_reachable_init: "cas_reachable f c (cas_init c)"
  by (simp add: cas_reachable_def)

lemma cas_reachable_step: "cas_reachable f c s \<Longrightarrow> cas_step f s u \<Longrightarrow> cas_reachable f c u"
  by (simp add: cas_reachable_def)

text \<open>Invariants by induction over the steps.\<close>

lemma cas_invariant:
  assumes "cas_reachable f c s" and "P (cas_init c)" and "\<And>s u. P s \<Longrightarrow> cas_step f s u \<Longrightarrow> P u"
  shows "P s"
  using assms(1) unfolding cas_reachable_def by (induction rule: rtranclp_induct) (use assms(2,3) in blast)+

text \<open>A thread that runs undisturbed can be served: its load and its swap both may go through.\<close>

lemma cas_serve_alone:
  assumes r: "cas_reachable f c s" and idle: "\<not> is_Loaded (thread s t)"
    and f: "f r (cursor s) = Some c'"
  shows "\<exists>u. cas_reachable f c u \<and> cursor u = c' \<and> grants u = grants s @ [(r, cursor s)]
    \<and> thread u = (thread s)(t := Granted r (cursor s))"
proof -
  let ?v = "s\<lparr>thread := (thread s)(t := Loaded r (cursor s))\<rparr>"
  have v: "cas_reachable f c ?v"
    using cas_reachable_step [OF r cas_step.load [where f = f, OF idle]] .
  have "thread ?v t = Loaded r (cursor s)" and "cursor ?v = cursor s" by simp_all
  from cas_reachable_step [OF v cas_step.swap [where f = f, OF this(1) f this(2)]]
  show ?thesis by (intro exI conjI, assumption) simp_all
qed

lemma serve_snoc:
  "serve f c (rs @ [r]) =
     (case serve f c rs of (c1, log) \<Rightarrow>
        (case fetch_update (f r) c1 of
           (Inl _, c2) \<Rightarrow> (c2, log) | (Inr old, c2) \<Rightarrow> (c2, log @ [(r, old)])))"
  by (induction rs arbitrary: c) (auto split: prod.splits sum.splits)

text \<open>
  Linearizability: whatever the interleaving, the cursor and the grants are those of serving the
  granted requests one after the other in the order of their swaps.
\<close>

lemma cas_linearizable:
  assumes "cas_reachable f c s"
  shows "serve f c (map fst (grants s)) = (cursor s, grants s)"
  using assms unfolding cas_reachable_def
proof (induction rule: rtranclp_induct)
  case base
  then show ?case by (simp add: cas_init_def)
next
  case (step s u)
  from step.hyps(2) step.IH show ?case
    by (cases rule: cas_step.cases) (simp_all add: serve_snoc fetch_update_def)
qed

text \<open>What a granted thread observed is on the log.\<close>

lemma cas_granted_logged:
  assumes "cas_reachable f c s" and "thread s t = Granted r old"
  shows "(r, old) \<in> set (grants s)"
proof -
  have "(cas_step f)\<^sup>*\<^sup>* (cas_init c) s \<Longrightarrow>
        \<forall>t r old. thread s t = Granted r old \<longrightarrow> (r, old) \<in> set (grants s)"
  proof (induction rule: rtranclp_induct)
    case base
    then show ?case by (simp add: cas_init_def)
  next
    case (step s u)
    from step.hyps(2) step.IH show ?case
      by (cases rule: cas_step.cases) auto
  qed
  with assms show ?thesis by (auto simp: cas_reachable_def)
qed

section \<open>Bump arenas\<close>

definition disjoint_spans :: "nat \<times> nat \<Rightarrow> nat \<times> nat \<Rightarrow> bool" where
  "disjoint_spans p q \<longleftrightarrow> snd p \<le> fst q \<or> snd q \<le> fst p"

text \<open>
  A bump arena: \<open>claim r c\<close> is the new cursor when request \<open>r\<close> fits, \<open>span r c\<close> the half-open
  range handed out, \<open>level\<close> the cursor read as a position and \<open>limit\<close> the end of the arena. A
  grant lies between the old and the new position, and the new position is inside the arena.
\<close>

locale bump_arena =
  fixes claim :: "'r \<Rightarrow> 'c \<Rightarrow> 'c option"
    and span :: "'r \<Rightarrow> 'c \<Rightarrow> nat \<times> nat"
    and level :: "'c \<Rightarrow> nat"
    and limit :: nat
    and good :: "'r \<Rightarrow> bool"
    and ok :: "'c \<Rightarrow> bool"
  assumes claim_ok: "good r \<Longrightarrow> ok c \<Longrightarrow> claim r c = Some c' \<Longrightarrow> ok c'"
    and claim_span: "good r \<Longrightarrow> ok c \<Longrightarrow> claim r c = Some c' \<Longrightarrow>
      level c \<le> fst (span r c) \<and> fst (span r c) \<le> snd (span r c) \<and> snd (span r c) \<le> level c'"
    and ok_limit: "ok c \<Longrightarrow> level c \<le> limit"
begin

lemma serve_level:
  "ok c \<Longrightarrow> list_all good rs \<Longrightarrow> ok (fst (serve claim c rs)) \<and> level c \<le> level (fst (serve claim c rs))"
proof (induction rs arbitrary: c)
  case Nil
  then show ?case by simp
next
  case (Cons r rs)
  show ?case
  proof (cases "claim r c")
    case None
    with Cons show ?thesis by (simp add: fetch_update_def)
  next
    case (Some c')
    from Cons.prems have "good r" and "ok c" by simp_all
    from claim_ok [OF this Some] claim_span [OF this Some] have "ok c'" and "level c \<le> level c'"
      by linarith+
    with Some Cons show ?thesis by (fastforce simp: fetch_update_def split: prod.splits)
  qed
qed

lemma serve_spans:
  assumes "ok c" and "list_all good rs" and "p \<in> set (snd (serve claim c rs))"
  shows "level c \<le> fst (case_prod span p) \<and> fst (case_prod span p) \<le> snd (case_prod span p)
    \<and> snd (case_prod span p) \<le> level (fst (serve claim c rs))"
  using assms
proof (induction rs arbitrary: c)
  case Nil
  then show ?case by simp
next
  case (Cons r rs)
  show ?case
  proof (cases "claim r c")
    case None
    with Cons show ?thesis by (simp add: fetch_update_def)
  next
    case (Some c')
    from Cons.prems have g: "good r" and "ok c" by simp_all
    note okc' = claim_ok [OF this Some] and sp = claim_span [OF this Some]
    from okc' Cons.prems have lvl: "level c' \<le> level (fst (serve claim c' rs))"
      using serve_level by simp
    have fst_eq: "fst (serve claim c (r # rs)) = fst (serve claim c' rs)"
      and snd_eq: "snd (serve claim c (r # rs)) = (r, c) # snd (serve claim c' rs)"
      using Some by (simp_all add: fetch_update_def split: prod.splits)
    show ?thesis
    proof (cases "p = (r, c)")
      case True
      with sp lvl fst_eq show ?thesis by auto
    next
      case False
      with Cons.prems snd_eq have "p \<in> set (snd (serve claim c' rs))" by simp
      with Cons.IH [OF okc'] Cons.prems sp fst_eq show ?thesis by (simp add: fst_eq)
    qed
  qed
qed

text \<open>Served one after the other, the granted ranges are pairwise disjoint.\<close>

lemma serve_disjoint:
  assumes "ok c" and "list_all good rs" and "i < j" and "j < length (snd (serve claim c rs))"
  shows "disjoint_spans (case_prod span (snd (serve claim c rs) ! i))
    (case_prod span (snd (serve claim c rs) ! j))"
  using assms
proof (induction rs arbitrary: c i j)
  case Nil
  then show ?case by simp
next
  case (Cons r rs)
  show ?case
  proof (cases "claim r c")
    case None
    with Cons show ?thesis by (simp add: fetch_update_def)
  next
    case (Some c')
    from Cons.prems have "good r" and "ok c" by simp_all
    note okc' = claim_ok [OF this Some] and sp = claim_span [OF this Some]
    have snd_eq: "snd (serve claim c (r # rs)) = (r, c) # snd (serve claim c' rs)"
      using Some by (simp add: fetch_update_def split: prod.splits)
    from Cons.prems obtain j' where j: "j = Suc j'" by (cases j) auto
    show ?thesis
    proof (cases i)
      case 0
      let ?q = "snd (serve claim c' rs) ! j'"
      from Cons.prems j snd_eq have "?q \<in> set (snd (serve claim c' rs))" by simp
      moreover from Cons.prems have "list_all good rs" by simp
      ultimately have "level c' \<le> fst (case_prod span ?q)" using serve_spans [OF okc'] by blast
      with 0 j snd_eq sp show ?thesis by (simp add: disjoint_spans_def)
    next
      case (Suc i')
      with Cons.IH [OF okc', of i' j'] Cons.prems j snd_eq show ?thesis by simp
    qed
  qed
qed

lemma serve_within_limit:
  assumes "ok c" and "list_all good rs" and "p \<in> set (snd (serve claim c rs))"
  shows "snd (case_prod span p) \<le> limit"
  using serve_spans [OF assms] serve_level [OF assms(1,2)] ok_limit by (meson order_trans)

text \<open>The same under any interleaving of the compare-and-swap loops.\<close>

lemma cas_disjoint:
  assumes "cas_reachable claim c s" and "ok c" and "list_all good (map fst (grants s))"
    and "i < j" and "j < length (grants s)"
  shows "disjoint_spans (case_prod span (grants s ! i)) (case_prod span (grants s ! j))
    \<and> snd (case_prod span (grants s ! i)) \<le> limit \<and> snd (case_prod span (grants s ! j)) \<le> limit"
proof -
  have eq: "snd (serve claim c (map fst (grants s))) = grants s"
    using cas_linearizable [OF assms(1)] by simp
  have "grants s ! i \<in> set (grants s)" and "grants s ! j \<in> set (grants s)"
    using assms by simp_all
  with serve_disjoint [OF assms(2,3,4)] serve_within_limit [OF assms(2,3)] assms(5) eq
  show ?thesis by simp
qed

end

end
