(* ===== verification/Frame_Allocator.thy ===== *)
theory Frame_Allocator
  imports Atomic_Cursor
begin

text \<open>
  The bump-style frame allocator of the boot trampoline
  (\<^verbatim>\<open>crates/corpus/src/frame_allocator.rs\<close>): its state, \<^verbatim>\<open>allocate\<close>, the
  bounds of every allocation and the disjointness of allocations, also when any number of threads
  race on the cursor.
\<close>

record FrameAllocation =
  start_frame :: usize
  frames :: usize

datatype FrameAllocatorError = OutOfMemory | ZeroSizedRequest

record FrameAllocator =
  fa_capacity :: usize
  fa_next :: usize

definition fa_new :: "usize \<Rightarrow> FrameAllocator" where
  "fa_new capacity = \<lparr>fa_capacity = capacity, fa_next = 0\<rparr>"

definition fa_allocated :: "FrameAllocator \<Rightarrow> usize" where
  "fa_allocated a = fa_next a"

text \<open>The closure given to \<^verbatim>\<open>fetch_update\<close>:
  \<^verbatim>\<open>cur.checked_add(frames).filter(|&end| end <= self.capacity)\<close>.\<close>

definition fa_claim :: "usize \<Rightarrow> usize \<Rightarrow> usize \<Rightarrow> usize option" where
  "fa_claim cap n cur =
     (case checked_add cur n of
        None \<Rightarrow> None
      | Some e \<Rightarrow> if e \<le> cap then Some e else None)"

definition fa_allocate ::
  "FrameAllocator \<Rightarrow> usize \<Rightarrow> (FrameAllocatorError + FrameAllocation) \<times> FrameAllocator" where
  "fa_allocate a n =
     (if n = 0 then (Inl ZeroSizedRequest, a)
      else case fetch_update (fa_claim (fa_capacity a) n) (fa_next a) of
             (Inr start, nx) \<Rightarrow> (Inr \<lparr>start_frame = start, frames = n\<rparr>, a\<lparr>fa_next := nx\<rparr>)
           | (Inl _, nx) \<Rightarrow> (Inl OutOfMemory, a\<lparr>fa_next := nx\<rparr>))"

text \<open>A run of allocation calls: the allocations granted, in order.\<close>

fun fa_run :: "FrameAllocator \<Rightarrow> usize list \<Rightarrow> FrameAllocator \<times> FrameAllocation list" where
  "fa_run a [] = (a, [])"
| "fa_run a (n # ns) =
     (case fa_allocate a n of
        (Inl _, a') \<Rightarrow> fa_run a' ns
      | (Inr x, a') \<Rightarrow> (let (a'', xs) = fa_run a' ns in (a'', x # xs)))"

definition fa_inv :: "FrameAllocator \<Rightarrow> bool" where
  "fa_inv a \<longleftrightarrow> fa_next a \<le> fa_capacity a"

definition fa_span :: "usize \<Rightarrow> usize \<Rightarrow> nat \<times> nat" where
  "fa_span n start = (unat start, unat start + unat n)"

lemma fa_claim_Some:
  "fa_claim cap n cur = Some e \<longleftrightarrow>
     unat cur + unat n \<le> unat cap \<and> unat e = unat cur + unat n"
proof -
  have "unat cur + unat n \<le> unat cap \<Longrightarrow> unat cur + unat n < 2 ^ LENGTH(64)"
    using unat_lt_pow [of cap] by linarith
  moreover have "unat cur + unat n < 2 ^ LENGTH(64) \<Longrightarrow> unat (cur + n) = unat cur + unat n"
    by (simp add: unat_word_ariths)
  ultimately show ?thesis
    by (auto simp: fa_claim_def checked_add_def word_le_nat_alt word_unat_eq_iff
        split: option.splits)
qed

interpretation fa_arena: bump_arena "fa_claim cap" fa_span unat "unat cap" "\<lambda>_. True" "\<lambda>c. c \<le> cap"
  by unfold_locales (auto simp: fa_claim_Some fa_span_def word_le_nat_alt)

lemma fa_allocate_cases:
  "fa_allocate a n =
     (if n = 0 then (Inl ZeroSizedRequest, a)
      else if unat (fa_next a) + unat n \<le> unat (fa_capacity a)
      then (Inr \<lparr>start_frame = fa_next a, frames = n\<rparr>, a\<lparr>fa_next := fa_next a + n\<rparr>)
      else (Inl OutOfMemory, a))"
proof (cases "fa_claim (fa_capacity a) n (fa_next a)")
  case None
  with fa_claim_Some [of "fa_capacity a" n "fa_next a" "fa_next a + n"] unat_lt_pow [of "fa_capacity a"]
  have "\<not> unat (fa_next a) + unat n \<le> unat (fa_capacity a)"
    by (auto simp: unat_word_ariths)
  with None show ?thesis by (simp add: fa_allocate_def fetch_update_def)
next
  case (Some e)
  then have "unat (fa_next a) + unat n \<le> unat (fa_capacity a)" and "e = fa_next a + n"
    by (auto simp: fa_claim_Some word_unat_eq_iff unat_add_le)
  with Some show ?thesis by (simp add: fa_allocate_def fetch_update_def)
qed

definition fa_step :: "FrameAllocator \<Rightarrow> usize \<Rightarrow> FrameAllocator" where
  "fa_step a n = snd (fa_allocate a n)"

interpretation fa_machine: monotone_machine fa_step fa_inv "\<lambda>a. unat (fa_allocated a)"
proof unfold_locales
  fix a :: FrameAllocator and n
  assume "fa_inv a"
  then show "fa_inv (fa_step a n)" and "unat (fa_allocated a) \<le> unat (fa_allocated (fa_step a n))"
    using unat_lt_pow [of "fa_capacity a"]
    by (auto simp: fa_inv_def fa_step_def fa_allocated_def fa_allocate_cases word_le_nat_alt
        unat_word_ariths)
qed

text \<open>\<^verbatim>\<open>FrameAllocator::allocate\<close> succeeds exactly when the request is non-zero and fits in
  the remaining frames (with no wrap-around of the cursor), hands out the frames from the old
  cursor on, and otherwise leaves the allocator unchanged with the error that applies.\<close>

theorem fa_allocate_spec:
  "(case fa_allocate a n of
      (Inr x, a') \<Rightarrow> n \<noteq> 0 \<and> unat (fa_allocated a) + unat n \<le> unat (fa_capacity a)
        \<and> start_frame x = fa_allocated a \<and> frames x = n
        \<and> unat (fa_allocated a') = unat (fa_allocated a) + unat n \<and> fa_capacity a' = fa_capacity a
    | (Inl ZeroSizedRequest, a') \<Rightarrow> n = 0 \<and> a' = a
    | (Inl OutOfMemory, a') \<Rightarrow>
        n \<noteq> 0 \<and> unat (fa_capacity a) < unat (fa_allocated a) + unat n \<and> a' = a)"
  using unat_lt_pow [of "fa_capacity a"]
  by (auto simp: fa_allocate_cases fa_allocated_def unat_word_ariths)

text \<open>C6: in every interleaving of racing \<^verbatim>\<open>allocate\<close> calls on a fresh allocator, any two
  granted frame ranges are disjoint and inside the capacity.\<close>

theorem fa_concurrent_disjoint:
  assumes "cas_reachable (fa_claim cap) 0 s" and "i < j" and "j < length (grants s)"
  shows "disjoint_spans (case_prod fa_span (grants s ! i)) (case_prod fa_span (grants s ! j))
    \<and> snd (case_prod fa_span (grants s ! i)) \<le> unat cap
    \<and> snd (case_prod fa_span (grants s ! j)) \<le> unat cap"
  using assms by (intro fa_arena.cas_disjoint) (auto simp: list_all_iff)

lemma fa_concurrent_disjoint_witness:
  "\<exists>s. cas_reachable (fa_claim 8) 0 s \<and> grants s = [(3, 0), (2, 3)]
     \<and> disjoint_spans (fa_span 3 0) (fa_span 2 3)"
proof -
  let ?f = "fa_claim 8"
  have "?f 3 (cursor (cas_init 0)) = Some 3" by (simp add: fa_claim_def checked_add_def cas_init_def)
  from cas_serve_alone [OF cas_reachable_init, where t = 0 and f = ?f, OF _ this]
  obtain u where u: "cas_reachable ?f 0 u" "cursor u = 3" "grants u = [(3, 0)]"
      "thread u = (\<lambda>_. Idle)(0 := Granted 3 0)"
    by (auto simp: cas_init_def)
  then have "?f 2 (cursor u) = Some 5" by (simp add: fa_claim_def checked_add_def)
  from cas_serve_alone [OF u(1) _ this, of 1] u
  obtain s where s: "cas_reachable ?f 0 s" "grants s = [(3, 0), (2, 3)]" by auto
  with fa_concurrent_disjoint [OF s(1), of 0 1] show ?thesis by auto
qed

section \<open>No frame is lost in a race\<close>

definition frames_granted :: "(usize \<times> usize) list \<Rightarrow> nat" where
  "frames_granted gs = sum_list (map (\<lambda>g. unat (fst g)) gs)"

lemma frames_granted_simps [simp]: "frames_granted [] = 0" "frames_granted (gs @ [(n, c)]) = frames_granted gs + unat n"
  by (simp_all add: frames_granted_def)

text \<open>Each grant starts where the ones before it end, the cursor is where the last one ends, and what a thread has loaded
  or was refused at is an earlier cursor.\<close>

definition races_inv :: "usize \<Rightarrow> (usize, usize) cas_sys \<Rightarrow> bool" where
  "races_inv cap s \<longleftrightarrow> unat (cursor s) = frames_granted (grants s) \<and> unat (cursor s) \<le> unat cap
     \<and> (\<forall>i < length (grants s). unat (snd (grants s ! i)) = frames_granted (take i (grants s)))
     \<and> (\<forall>t n c. thread s t = Loaded n c \<longrightarrow> unat c \<le> unat (cursor s))
     \<and> (\<forall>t n c. thread s t = Refused n c \<longrightarrow> unat c \<le> unat (cursor s) \<and> unat cap < unat c + unat n)"

lemma fa_claim_None: "fa_claim cap n cur = None \<longleftrightarrow> unat cap < unat cur + unat n"
proof -
  have "fa_claim cap n cur \<noteq> None \<longleftrightarrow> unat cur + unat n \<le> unat cap"
  proof
    assume "unat cur + unat n \<le> unat cap"
    moreover from this have "unat (cur + n) = unat cur + unat n" by (rule unat_add_le)
    ultimately show "fa_claim cap n cur \<noteq> None" using fa_claim_Some [of cap n cur "cur + n"] by simp
  qed (auto simp: fa_claim_Some)
  then show ?thesis by auto
qed

lemma races_inv_step:
  assumes "races_inv cap s" and "cas_step (fa_claim cap) s u"
  shows "races_inv cap u"
  using assms(2)
proof (cases rule: cas_step.cases)
  case (swap t n c c')
  then have "unat (cursor u) = unat (cursor s) + unat n" "unat (cursor u) \<le> unat cap" by (auto simp: fa_claim_Some)
  with swap assms(1) show ?thesis by (fastforce simp: races_inv_def nth_append less_Suc_eq split: if_splits)
qed (use assms(1) in \<open>auto simp: races_inv_def fa_claim_None split: if_splits\<close>)

text \<open>C30: racing \<^verbatim>\<open>allocate\<close> calls on a fresh allocator lose no frame and invent none, however their compare-and-swap
  loops interleave and whether or not a swap fails without a reason. The granted ranges follow one another from frame
  zero without a gap, in the order of the swaps; the cursor is the number of frames granted and never above the
  capacity; a call that was granted frames has them on that list; and a call that was refused asked for more than was
  left when it looked and so for more than is left now.\<close>

theorem fa_races_exact:
  assumes "cas_reachable (fa_claim cap) 0 s"
  shows "(\<forall>i < length (grants s). unat (snd (grants s ! i)) = frames_granted (take i (grants s)))
    \<and> unat (cursor s) = frames_granted (grants s) \<and> unat (cursor s) \<le> unat cap
    \<and> (\<forall>t n c. thread s t = Granted n c \<longrightarrow> (n, c) \<in> set (grants s) \<and> unat c + unat n \<le> unat (cursor s))
    \<and> (\<forall>t n c. thread s t = Refused n c \<longrightarrow> unat cap < unat c + unat n \<and> unat cap < unat (cursor s) + unat n)"
proof -
  have "races_inv cap (cas_init 0)" by (simp add: races_inv_def cas_init_def)
  with assms have inv: "races_inv cap s" by (rule cas_invariant) (rule races_inv_step)
  have "unat c + unat n \<le> unat (cursor s)" if g: "(n, c) \<in> set (grants s)" for n c
  proof -
    obtain i where i: "i < length (grants s)" "grants s ! i = (n, c)" using g by (auto simp: in_set_conv_nth)
    have "unat c = frames_granted (take i (grants s))" using inv i unfolding races_inv_def by (metis snd_conv)
    moreover have "grants s = take i (grants s) @ (n, c) # drop (Suc i) (grants s)" using i by (metis id_take_nth_drop)
    then have "frames_granted (grants s) = frames_granted (take i (grants s) @ (n, c) # drop (Suc i) (grants s))"
      by (rule arg_cong)
    then have "frames_granted (grants s) = frames_granted (take i (grants s)) + unat n + frames_granted (drop (Suc i) (grants s))"
      unfolding frames_granted_def map_append list.map sum_list_append sum_list.Cons fst_conv by linarith
    ultimately show ?thesis using inv by (simp add: races_inv_def)
  qed
  with inv cas_granted_logged [OF assms] show ?thesis unfolding races_inv_def by fastforce
qed

lemma fa_races_exact_witness:
  "\<exists>s. cas_reachable (fa_claim 8) 0 s \<and> thread s 0 = Granted 3 0 \<and> thread s 1 = Refused 6 3
     \<and> unat (cursor s) = 3 \<and> (3, 0) \<in> set (grants s)"
proof -
  let ?f = "fa_claim 8"
  have "?f 3 (cursor (cas_init 0)) = Some 3" by (simp add: fa_claim_def checked_add_def cas_init_def)
  from cas_serve_alone [OF cas_reachable_init, where t = 0 and f = ?f, OF _ this]
  obtain u where u: "cas_reachable ?f 0 u" "cursor u = 3" "grants u = [(3, 0)]" "thread u = (\<lambda>_. Idle)(0 := Granted 3 0)"
    by (auto simp: cas_init_def)
  let ?v = "u\<lparr>thread := (thread u)(1 := Loaded 6 3)\<rparr>" let ?w = "?v\<lparr>thread := (thread ?v)(1 := Refused 6 3)\<rparr>"
  have "cas_step ?f u ?v" using cas_step.load [of u 1 ?f 6] u by simp
  moreover have "cas_step ?f ?v ?w" by (rule cas_step.decline) (simp_all add: fa_claim_def checked_add_def)
  ultimately have r: "cas_reachable ?f 0 ?w" using u(1) by (blast intro: cas_reachable_step)
  have "thread ?w 0 = Granted 3 0" "thread ?w 1 = Refused 6 3" "grants ?w = [(3, 0)]" using u by simp_all
  with fa_races_exact [OF r] r show ?thesis by (intro exI [of _ ?w]) (simp add: frames_granted_def)
qed

end
