(* ===== verification/Heap_Allocator.thy ===== *)
theory Heap_Allocator
  imports Atomic_Cursor
begin

unbundle bit_operations_syntax

text \<open>
  The boot-time bump heap of the microVM kernel (\<^verbatim>\<open>crates/corpus/src/heap_allocator.rs\<close>):
  \<^verbatim>\<open>align_up\<close> with its wrapping arithmetic, \<^verbatim>\<open>init\<close> and \<^verbatim>\<open>GlobalAlloc::alloc\<close>. A
  null pointer is address \<open>0\<close>. A \<^verbatim>\<open>core::alloc::Layout\<close> guarantees a power-of-two alignment;
  \<open>layout_ok\<close> states that documented guarantee.
\<close>

record Layout =
  lsize :: usize
  lalign :: usize

definition layout_ok :: "Layout \<Rightarrow> bool" where
  "layout_ok l \<longleftrightarrow> (\<exists>k < 64. lalign l = 2 ^ k)"

definition align_up :: "usize \<Rightarrow> usize \<Rightarrow> usize" where
  "align_up addr align = (addr + align - 1) AND NOT (align - 1)"

record BumpAllocator =
  heap_start :: usize
  heap_end :: usize
  ba_cursor :: usize

definition ba_new :: BumpAllocator where
  "ba_new = \<lparr>heap_start = 0, heap_end = 0, ba_cursor = 0\<rparr>"

definition ba_init :: "BumpAllocator \<Rightarrow> usize \<Rightarrow> usize \<Rightarrow> BumpAllocator" where
  "ba_init a start sz =
     a\<lparr>heap_start := start, heap_end := saturating_add start sz, ba_cursor := 0\<rparr>"

definition allocated_bytes :: "BumpAllocator \<Rightarrow> usize" where
  "allocated_bytes a = ba_cursor a"

text \<open>The closure of \<^verbatim>\<open>alloc\<close>'s \<^verbatim>\<open>fetch_update\<close>, each \<^verbatim>\<open>?\<close> an early \<open>None\<close>.\<close>

definition ba_claim :: "usize \<Rightarrow> usize \<Rightarrow> Layout \<Rightarrow> usize \<Rightarrow> usize option" where
  "ba_claim h_start h_end l cur =
     Option.bind (checked_sub h_end h_start) (\<lambda>heap_size.
     Option.bind (checked_add h_start cur) (\<lambda>current_addr.
     Option.bind (checked_sub (align_up current_addr (lalign l)) h_start) (\<lambda>offset.
     Option.bind (checked_add offset (lsize l)) (\<lambda>alloc_end.
       if heap_size < alloc_end then None else Some alloc_end))))"

definition ba_alloc :: "BumpAllocator \<Rightarrow> Layout \<Rightarrow> usize \<times> BumpAllocator" where
  "ba_alloc a l =
     (if heap_start a = 0 then (0, a)
      else case fetch_update (ba_claim (heap_start a) (heap_end a) l) (ba_cursor a) of
             (Inr old, nx) \<Rightarrow>
               (align_up (heap_start a + old) (lalign l), a\<lparr>ba_cursor := nx\<rparr>)
           | (Inl _, nx) \<Rightarrow> (0, a\<lparr>ba_cursor := nx\<rparr>))"

definition ba_dealloc :: "BumpAllocator \<Rightarrow> usize \<Rightarrow> Layout \<Rightarrow> BumpAllocator" where
  "ba_dealloc a p l = a"

lemma layout_okI: "lalign l = 2 ^ k \<Longrightarrow> k < 64 \<Longrightarrow> layout_ok l"
  by (auto simp: layout_ok_def)

section \<open>Rounding up\<close>

lemma and_not_mask: "a AND NOT (mask n) = a - take_bit n (a :: 'a::len word)"
proof -
  have "a AND NOT (mask n) = push_bit n (drop_bit n a)"
    by (rule bit_eqI) (auto simp: bit_simps)
  also have "\<dots> = a - take_bit n a"
    using bits_ident [of n a] by (metis add_diff_cancel_right')
  finally show ?thesis .
qed

lemma unat_take_bit: "unat (take_bit n (a :: 'a::len word)) = unat a mod 2 ^ n"
  by (simp only: unsigned_take_bit_eq) (simp only: take_bit_eq_mod)

lemma unat_and_not_mask:
  fixes a :: "'a::len word"
  shows "unat (a AND NOT (mask n)) = unat a - unat a mod 2 ^ n"
proof -
  have "take_bit n a \<le> a" unfolding word_le_nat_alt unat_take_bit by (rule mod_less_eq_dividend)
  then show ?thesis by (simp only: and_not_mask unat_sub unat_take_bit)
qed

lemma unat_pow2: "k < 64 \<Longrightarrow> unat (2 ^ k :: usize) = 2 ^ k"
proof -
  assume "k < 64"
  then have "(2::nat) ^ k < 2 ^ 64" by (intro power_strict_increasing) auto
  moreover have "(2 ^ k :: usize) = of_nat (2 ^ k)" by simp
  ultimately show ?thesis by (simp only: unat_of_nat) simp
qed

lemma align_up_unat:
  assumes "k < 64"
  shows "unat (align_up addr (2 ^ k)) =
    (let m = (unat addr + 2 ^ k - 1) mod 2 ^ 64 in m - m mod 2 ^ k)"
proof -
  have pow: "unat (2 ^ k :: usize) = 2 ^ k" by (rule unat_pow2 [OF assms])
  have "unat (2 ^ k - 1 :: usize) = 2 ^ k - 1"
    using assms pow by (subst unat_sub) (auto simp: word_le_nat_alt)
  then have "unat (addr + (2 ^ k - 1)) = (unat addr + (2 ^ k - 1)) mod 2 ^ 64"
    by (simp add: unat_word_ariths)
  then have m: "unat (addr + 2 ^ k - 1) = (unat addr + 2 ^ k - 1) mod 2 ^ 64"
    by (simp add: add_diff_eq)
  have "align_up addr (2 ^ k) = (addr + 2 ^ k - 1) AND NOT (mask k)"
    by (simp add: align_up_def mask_eq_exp_minus_1)
  with m show ?thesis by (simp add: unat_and_not_mask Let_def)
qed

text \<open>Either the rounded address is the least multiple at or above \<open>addr\<close>, or the addition
  wrapped and the result is \<open>0\<close>.\<close>

lemma align_up_cases:
  assumes "k < 64"
  shows "align_up addr (2 ^ k) = 0 \<or>
    (unat addr \<le> unat (align_up addr (2 ^ k)) \<and> unat (align_up addr (2 ^ k)) < unat addr + 2 ^ k
     \<and> 2 ^ k dvd unat (align_up addr (2 ^ k)))"
proof -
  define m where "m = unat addr + 2 ^ k - 1"
  have lt: "unat addr < 2 ^ 64" using unat_lt_pow [of addr] by simp
  have k64: "(2::nat) ^ k \<le> 2 ^ 63" using assms by (intro power_increasing) auto
  have u: "unat (align_up addr (2 ^ k)) = m mod 2 ^ 64 - m mod 2 ^ 64 mod 2 ^ k"
    using align_up_unat [OF assms, of addr] by (simp add: m_def Let_def)
  show ?thesis
  proof (cases "m < 2 ^ 64")
    case True
    have "m mod 2 ^ k \<le> m" and "m mod 2 ^ k < 2 ^ k" by simp_all
    then have "unat addr \<le> m - m mod 2 ^ k" and "m - m mod 2 ^ k < unat addr + 2 ^ k"
      unfolding m_def by linarith+
    moreover have "2 ^ k dvd m - m mod 2 ^ k" by (rule dvd_minus_mod)
    ultimately show ?thesis using True u by simp
  next
    case False
    then have "m mod 2 ^ 64 = m - 2 ^ 64"
      using lt k64 m_def by (simp add: mod_if)
    moreover have "0 < (2::nat) ^ k" by simp
    then have "m - 2 ^ 64 < 2 ^ k" using lt False unfolding m_def by linarith
    ultimately have "unat (align_up addr (2 ^ k)) = 0" using u by simp
    then show ?thesis by (simp add: unat_eq_zero)
  qed
qed

section \<open>Allocation\<close>

lemma ba_claim_SomeD:
  assumes "layout_ok l" and "hs \<noteq> 0" and "ba_claim hs he l cur = Some e"
  defines "p \<equiv> align_up (hs + cur) (lalign l)"
  shows "unat hs + unat cur \<le> unat p" and "unat (lalign l) dvd unat p"
    and "unat p + unat (lsize l) = unat hs + unat e" and "unat hs + unat e \<le> unat he"
    and "p \<noteq> 0"
proof -
  from assms(1) obtain k where k: "k < 64" "lalign l = 2 ^ k" by (auto simp: layout_ok_def)
  from assms(3) obtain hsz ca off where
    hsz: "checked_sub he hs = Some hsz" and ca: "checked_add hs cur = Some ca"
    and off: "checked_sub (align_up ca (lalign l)) hs = Some off"
    and e: "checked_add off (lsize l) = Some e" and "\<not> hsz < e"
    by (auto simp: ba_claim_def bind_eq_Some_conv split: if_splits)
  have ca_eq: "ca = hs + cur" using ca by (auto simp: checked_add_def split: if_splits)
  note U = checked_sub_unat [OF hsz] checked_add_unat [OF ca] checked_sub_unat [OF off]
    checked_add_unat [OF e]
  from U(3) have "unat hs \<le> unat p" by (simp add: p_def ca_eq)
  moreover from assms(2) have "unat hs \<noteq> 0" by (simp add: unat_eq_zero)
  ultimately show nz: "p \<noteq> 0" by auto
  with align_up_cases [OF k(1), of "hs + cur"] k(2) U(2) ca_eq unat_pow2 [OF k(1)]
  show "unat hs + unat cur \<le> unat p" and "unat (lalign l) dvd unat p"
    by (auto simp: p_def)
  show pe: "unat p + unat (lsize l) = unat hs + unat e"
    using U(3,4) by (simp add: p_def ca_eq)
  show "unat hs + unat e \<le> unat he"
    using U(1) \<open>\<not> hsz < e\<close> unfolding word_less_nat_alt by linarith
qed

definition ba_span :: "usize \<Rightarrow> Layout \<Rightarrow> usize \<Rightarrow> nat \<times> nat" where
  "ba_span hs l cur =
     (let p = unat (align_up (hs + cur) (lalign l)) in (p, p + unat (lsize l)))"

definition heap_ok :: "usize \<Rightarrow> usize \<Rightarrow> usize \<Rightarrow> bool" where
  "heap_ok hs he cur \<longleftrightarrow> hs \<noteq> 0 \<and> unat hs + unat cur \<le> unat he"

interpretation ba_arena: bump_arena "ba_claim hs he" "ba_span hs"
  "\<lambda>c. unat hs + unat c" "unat he" layout_ok "heap_ok hs he"
proof unfold_locales
  fix l c c'
  assume "layout_ok l" "heap_ok hs he c" "ba_claim hs he l c = Some c'"
  note D = ba_claim_SomeD [OF this(1) _ this(3)]
  from \<open>heap_ok hs he c\<close> D show "heap_ok hs he c'" by (simp add: heap_ok_def)
  from \<open>heap_ok hs he c\<close> D
  show "unat hs + unat c \<le> fst (ba_span hs l c) \<and> fst (ba_span hs l c) \<le> snd (ba_span hs l c)
    \<and> snd (ba_span hs l c) \<le> unat hs + unat c'"
    by (simp add: heap_ok_def ba_span_def Let_def)
qed (simp add: heap_ok_def)

definition ba_inv :: "BumpAllocator \<Rightarrow> bool" where
  "ba_inv a \<longleftrightarrow> heap_start a = 0 \<or> heap_ok (heap_start a) (heap_end a) (ba_cursor a)"

lemma ba_init_inv: "ba_inv (ba_init a start sz)"
  using unat_lt_pow [of start]
  by (auto simp: ba_inv_def ba_init_def heap_ok_def unat_saturating_add)

lemma ba_alloc_frame:
  "heap_start (snd (ba_alloc a l)) = heap_start a" "heap_end (snd (ba_alloc a l)) = heap_end a"
  by (auto simp: ba_alloc_def fetch_update_def split: option.splits)

lemma ba_alloc_inv: "layout_ok l \<Longrightarrow> ba_inv a \<Longrightarrow> ba_inv (snd (ba_alloc a l))"
  using ba_arena.claim_ok [of l "heap_start a" "heap_end a" "ba_cursor a"]
  by (auto simp: ba_inv_def ba_alloc_def fetch_update_def heap_ok_def split: option.splits)

lemma ba_alloc_null:
  "heap_start a = 0 \<or> ba_claim (heap_start a) (heap_end a) l (ba_cursor a) = None \<Longrightarrow>
   ba_alloc a l = (0, a)"
  by (cases "heap_start a = 0") (auto simp: ba_alloc_def fetch_update_def)

text \<open>Every non-null pointer that \<^verbatim>\<open>BumpAllocator::alloc\<close> returns is aligned as the layout
  asks, and its block lies inside the heap, above every byte allocated before and below the new
  cursor; a null result leaves the allocator unchanged.\<close>

theorem ba_alloc_spec:
  assumes "layout_ok l" and "ba_inv a" and "ba_alloc a l = (p, a')"
  shows "if p = 0 then a' = a
    else unat (lalign l) dvd unat p
      \<and> unat (heap_start a) + unat (allocated_bytes a) \<le> unat p
      \<and> unat p + unat (lsize l) = unat (heap_start a) + unat (allocated_bytes a')
      \<and> unat p + unat (lsize l) \<le> unat (heap_end a)
      \<and> ba_inv a'"
proof (cases "heap_start a = 0 \<or> ba_claim (heap_start a) (heap_end a) l (ba_cursor a) = None")
  case True
  with assms(3) show ?thesis by (simp add: ba_alloc_null)
next
  case False
  then obtain e where nz: "heap_start a \<noteq> 0"
    and e: "ba_claim (heap_start a) (heap_end a) l (ba_cursor a) = Some e" by auto
  note D = ba_claim_SomeD [OF assms(1) nz e]
  from assms(3) nz e have p: "p = align_up (heap_start a + ba_cursor a) (lalign l)"
    and a': "a' = a\<lparr>ba_cursor := e\<rparr>"
    by (auto simp: ba_alloc_def fetch_update_def)
  have "ba_inv a'" using ba_alloc_inv [OF assms(1,2)] assms(3) by simp
  with D p a' show ?thesis by (simp add: allocated_bytes_def)
qed

lemma ba_alloc_spec_witness:
  "let a = ba_init ba_new 4099 100; l = \<lparr>lsize = 16, lalign = 8\<rparr> in
     ba_alloc a l = (4104, a\<lparr>ba_cursor := 21\<rparr>) \<and> 8 dvd unat (4104 :: usize)
     \<and> unat (4104 :: usize) + 16 \<le> unat (heap_end a)"
proof -
  define a where "a = ba_init ba_new 4099 100"
  define l where "l = \<lparr>lsize = 16 :: usize, lalign = 8\<rparr>"
  have "lalign l = 2 ^ 3" by (simp add: l_def)
  then have l: "layout_ok l" by (rule layout_okI) simp
  have i: "ba_inv a" by (simp add: a_def ba_init_inv)
  have r: "ba_alloc a l = (4104, a\<lparr>ba_cursor := 21\<rparr>)"
    by (simp add: a_def l_def ba_alloc_def ba_init_def ba_new_def fetch_update_def ba_claim_def
        checked_sub_def checked_add_def align_up_def saturating_add_def)
  from ba_alloc_spec [OF l i r] r show ?thesis
    by (simp add: a_def l_def Let_def)
qed

lemma ba_claim_eval:
  "ba_claim 4096 8192 \<lparr>lsize = 3, lalign = 4\<rparr> 0 = Some 3"
  "ba_claim 4096 8192 \<lparr>lsize = 8, lalign = 16\<rparr> 3 = Some 24"
  by (simp_all add: ba_claim_def checked_sub_def checked_add_def align_up_def)

text \<open>In every interleaving of racing \<^verbatim>\<open>alloc\<close> calls on an initialised heap, the blocks of any
  two successful calls do not overlap and both lie inside the heap.\<close>

theorem ba_concurrent_disjoint:
  assumes "cas_reachable (ba_claim hs he) 0 s" and "hs \<noteq> 0" and "hs \<le> he"
    and "list_all layout_ok (map fst (grants s))" and "i < j" and "j < length (grants s)"
  shows "disjoint_spans (case_prod (ba_span hs) (grants s ! i)) (case_prod (ba_span hs) (grants s ! j))
    \<and> snd (case_prod (ba_span hs) (grants s ! i)) \<le> unat he
    \<and> snd (case_prod (ba_span hs) (grants s ! j)) \<le> unat he"
  using assms by (intro ba_arena.cas_disjoint) (auto simp: heap_ok_def word_le_nat_alt)

lemma ba_concurrent_disjoint_witness:
  "\<exists>s. cas_reachable (ba_claim 4096 8192) 0 s
     \<and> grants s = [(\<lparr>lsize = 3, lalign = 4\<rparr>, 0), (\<lparr>lsize = 8, lalign = 16\<rparr>, 3)]
     \<and> disjoint_spans (ba_span 4096 \<lparr>lsize = 3, lalign = 4\<rparr> 0)
         (ba_span 4096 \<lparr>lsize = 8, lalign = 16\<rparr> 3)"
proof -
  let ?f = "ba_claim 4096 8192"
  let ?l = "\<lparr>lsize = 3 :: usize, lalign = 4\<rparr>" and ?m = "\<lparr>lsize = 8 :: usize, lalign = 16\<rparr>"
  have ok: "layout_ok ?l" "layout_ok ?m"
    by (rule layout_okI [of _ 2], simp_all) (rule layout_okI [of _ 4], simp_all)
  have "?f ?l (cursor (cas_init 0)) = Some 3" by (simp add: cas_init_def ba_claim_eval)
  from cas_serve_alone [OF cas_reachable_init, where t = 0 and f = ?f, OF _ this]
  obtain u where u: "cas_reachable ?f 0 u" "cursor u = 3" "grants u = [(?l, 0)]"
      "thread u = (\<lambda>_. Idle)(0 := Granted ?l 0)"
    by (auto simp: cas_init_def)
  then have "?f ?m (cursor u) = Some 24" by (simp add: ba_claim_eval)
  from cas_serve_alone [OF u(1) _ this, of 1] u
  obtain s where s: "cas_reachable ?f 0 s" "grants s = [(?l, 0), (?m, 3)]" by auto
  have "list_all layout_ok (map fst (grants s))" using s(2) ok by simp
  from ba_concurrent_disjoint [OF s(1) _ _ this, of 0 1] s show ?thesis by auto
qed

end
