(* ===== verification/Agent_Pcb.thy ===== *)
theory Agent_Pcb
  imports Frame_Allocator
begin

text \<open>
  The agent process control block (\<^verbatim>\<open>crates/corpus/src/pcb.rs\<close>) with its life-cycle graph, and
  the syscall surface (\<^verbatim>\<open>crates/corpus/src/syscall.rs\<close>): the syscalls, and \<^verbatim>\<open>dispatch\<close> over a
  handler that implements one method per syscall.
\<close>

section \<open>Process control block\<close>

type_synonym AgentPid = u32

datatype AgentState = New | Ready | Running | Blocked | Terminated

fun can_transition_to :: "AgentState \<Rightarrow> AgentState \<Rightarrow> bool" where
  "can_transition_to New Ready = True"
| "can_transition_to Ready Running = True"
| "can_transition_to Running Blocked = True"
| "can_transition_to Running Ready = True"
| "can_transition_to Blocked Ready = True"
| "can_transition_to Running Terminated = True"
| "can_transition_to Ready Terminated = True"
| "can_transition_to Blocked Terminated = True"
| "can_transition_to _ _ = False"

record TransitionError =
  from_state :: AgentState
  to_state :: AgentState

record AgentPcb =
  pid :: AgentPid
  state :: AgentState
  priority :: u8
  token_credits :: u32

definition pcb_new :: "AgentPid \<Rightarrow> u8 \<Rightarrow> u32 \<Rightarrow> AgentPcb" where
  "pcb_new p prio credits =
     \<lparr>pid = p, state = New, priority = prio, token_credits = credits\<rparr>"

definition transition :: "AgentPcb \<Rightarrow> AgentState \<Rightarrow> (TransitionError + AgentState) \<times> AgentPcb" where
  "transition b next =
     (if can_transition_to (state b) next then (Inr (state b), b\<lparr>state := next\<rparr>)
      else (Inl \<lparr>from_state = state b, to_state = next\<rparr>, b))"

definition mark_ready where "mark_ready b = transition b Ready"
definition mark_running where "mark_running b = transition b Running"
definition mark_blocked where "mark_blocked b = transition b Blocked"
definition mark_preempted where "mark_preempted b = transition b Ready"
definition mark_unblocked where "mark_unblocked b = transition b Ready"
definition terminate where "terminate b = transition b Terminated"

text \<open>The public operations as one alphabet, to speak of whole call sequences.\<close>

datatype pcb_op = MarkReady | MarkRunning | MarkBlocked | MarkPreempted | MarkUnblocked | Terminate

fun pcb_step :: "AgentPcb \<Rightarrow> pcb_op \<Rightarrow> AgentPcb" where
  "pcb_step b MarkReady = snd (mark_ready b)"
| "pcb_step b MarkRunning = snd (mark_running b)"
| "pcb_step b MarkBlocked = snd (mark_blocked b)"
| "pcb_step b MarkPreempted = snd (mark_preempted b)"
| "pcb_step b MarkUnblocked = snd (mark_unblocked b)"
| "pcb_step b Terminate = snd (terminate b)"

lemmas pcb_op_defs = mark_ready_def mark_running_def mark_blocked_def mark_preempted_def
  mark_unblocked_def terminate_def

lemma transition_frame:
  "pid (snd (transition b s)) = pid b" "priority (snd (transition b s)) = priority b"
  "token_credits (snd (transition b s)) = token_credits b"
  by (simp_all add: transition_def)

lemma transition_state:
  "state (snd (transition b s)) = (if can_transition_to (state b) s then s else state b)"
  by (simp add: transition_def)

lemma terminated_no_edge: "\<not> can_transition_to Terminated s"
  by (cases s) simp_all

interpretation pcb_life: life_cycle can_transition_to "\<lambda>s. s = Terminated"
  by unfold_locales (simp add: terminated_no_edge)

text \<open>Every call either follows one edge of the life-cycle graph or changes nothing.\<close>

lemma pcb_step_edge:
  "state (pcb_step b x) = state b \<or> can_transition_to (state b) (state (pcb_step b x))"
  by (cases x) (simp_all add: pcb_op_defs transition_state)

lemma pcb_step_frame: "pid (pcb_step b x) = pid b" "token_credits (pcb_step b x) = token_credits b"
  by (cases x; simp add: pcb_op_defs transition_frame)+

lemma pcb_run_path: "can_transition_to\<^sup>*\<^sup>* (state b) (state (foldl pcb_step b xs))"
proof (induction xs arbitrary: b)
  case Nil
  then show ?case by simp
next
  case (Cons x xs)
  from pcb_step_edge [of b x] have "can_transition_to\<^sup>*\<^sup>* (state b) (state (pcb_step b x))"
    by auto
  with Cons.IH [of "pcb_step b x"] show ?case by simp
qed

text \<open>Whatever calls are made on a process control block, its state moves only along the
  legal life-cycle edges, its identity and token credits are never touched, and a terminated agent
  stays terminated.\<close>

theorem pcb_run_legal:
  "can_transition_to\<^sup>*\<^sup>* (state b) (state (foldl pcb_step b xs))
   \<and> pid (foldl pcb_step b xs) = pid b \<and> token_credits (foldl pcb_step b xs) = token_credits b
   \<and> (state b = Terminated \<longrightarrow> foldl pcb_step b xs = b)"
proof (intro conjI impI)
  show "can_transition_to\<^sup>*\<^sup>* (state b) (state (foldl pcb_step b xs))" by (rule pcb_run_path)
  show "pid (foldl pcb_step b xs) = pid b" "token_credits (foldl pcb_step b xs) = token_credits b"
    by (induction xs arbitrary: b) (simp_all add: pcb_step_frame)
  assume t: "state b = Terminated"
  then have "pcb_step b x = b" for x
    by (cases x) (simp_all add: pcb_op_defs transition_def terminated_no_edge)
  then show "foldl pcb_step b xs = b" by (induction xs) simp_all
qed

lemma pcb_run_legal_witness:
  "let b = (pcb_new 7 0 100)\<lparr>state := Terminated\<rparr> in
     state b = Terminated \<and> foldl pcb_step b [MarkReady, MarkRunning] = b"
  using pcb_run_legal [of "(pcb_new 7 0 100)\<lparr>state := Terminated\<rparr>" "[MarkReady, MarkRunning]"]
  by (simp add: Let_def pcb_new_def)

section \<open>Syscalls\<close>

datatype SyscallEnum =
  Yield | SleepUntilTick | AllocateFrames usize | ReadSensoryPacket | DispatchTool u32

datatype SyscallError = PermissionDenied | Unavailable | Invalid

datatype SyscallOutcome =
  Yielded | Slept | FramesAllocated usize | SensoryPacket u64 | ToolDispatched u64

text \<open>A \<^verbatim>\<open>SyscallHandler\<close> over a state \<open>'h\<close>: one method per syscall, each returning its result and
  the updated handler.\<close>

record 'h SyscallHandler =
  yield_quantum :: "'h \<Rightarrow> (SyscallError + SyscallOutcome) \<times> 'h"
  sleep_until_tick :: "'h \<Rightarrow> (SyscallError + SyscallOutcome) \<times> 'h"
  allocate_frames :: "usize \<Rightarrow> 'h \<Rightarrow> (SyscallError + SyscallOutcome) \<times> 'h"
  read_sensory_packet :: "'h \<Rightarrow> (SyscallError + SyscallOutcome) \<times> 'h"
  dispatch_tool :: "u32 \<Rightarrow> 'h \<Rightarrow> (SyscallError + SyscallOutcome) \<times> 'h"

fun dispatch ::
  "SyscallEnum \<Rightarrow> 'h SyscallHandler \<Rightarrow> 'h \<Rightarrow> (SyscallError + SyscallOutcome) \<times> 'h" where
  "dispatch Yield m h = yield_quantum m h"
| "dispatch SleepUntilTick m h = sleep_until_tick m h"
| "dispatch (AllocateFrames n) m h = allocate_frames m n h"
| "dispatch ReadSensoryPacket m h = read_sensory_packet m h"
| "dispatch (DispatchTool t) m h = dispatch_tool m t h"

text \<open>The contract of a handler that screens syscalls with a policy: a denied call has no effect and no
  call changes the policy. Over a whole batch (each call with its own environment \<open>'t\<close>, such as clock
  readings), the denied calls could as well not have been made.\<close>

locale screened_handler =
  fixes handler :: "'t \<Rightarrow> 'h SyscallHandler" and allowed :: "'h \<Rightarrow> SyscallEnum \<Rightarrow> bool"
  assumes denied: "\<not> allowed h c \<Longrightarrow> dispatch c (handler t) h = (Inl PermissionDenied, h)"
    and policy_fixed: "allowed (snd (dispatch c (handler t) h)) = allowed h"
begin

lemma run_filtered:
  "foldl (\<lambda>h (t, c). snd (dispatch c (handler t) h)) h cs =
   foldl (\<lambda>h (t, c). snd (dispatch c (handler t) h)) h (filter (\<lambda>(t, c). allowed h c) cs)"
proof (induction cs arbitrary: h)
  case Nil
  then show ?case by simp
next
  case (Cons x cs)
  obtain t c where x: "x = (t, c)" by (cases x)
  show ?case
  proof (cases "allowed h c")
    case True
    with Cons [of "snd (dispatch c (handler t) h)"] show ?thesis by (simp add: x policy_fixed)
  next
    case False
    with Cons [of h] show ?thesis by (simp add: x denied)
  qed
qed

end

end
