(* ===== verification/Token_Pipe.thy ===== *)
theory Token_Pipe
  imports Anima_Prelude
begin

text \<open>
  The bounded token pipe with credit-based backpressure
  (\<^verbatim>\<open>crates/scheduler/src/token_pipe.rs\<close>). The counters keep their widths: credits are 32 bits,
  the running totals 64 bits and saturating.
\<close>

datatype TokenPipeError = BackpressureExceeded | OverRefund

record BoundedTokenPipe =
  capacity :: u32
  credits :: u32
  produced :: u64
  consumed :: u64

definition pipe_new :: "u32 \<Rightarrow> BoundedTokenPipe" where
  "pipe_new c = \<lparr>capacity = c, credits = c, produced = 0, consumed = 0\<rparr>"

definition available_credits :: "BoundedTokenPipe \<Rightarrow> u32" where
  "available_credits p = credits p"

definition pipe_push :: "BoundedTokenPipe \<Rightarrow> u32 \<Rightarrow> (TokenPipeError + unit) \<times> BoundedTokenPipe" where
  "pipe_push p n =
     (if credits p < n then (Inl BackpressureExceeded, p)
      else (Inr (), p\<lparr>credits := credits p - n,
                     produced := saturating_add (produced p) (ucast n)\<rparr>))"

definition pipe_refund :: "BoundedTokenPipe \<Rightarrow> u32 \<Rightarrow> (TokenPipeError + unit) \<times> BoundedTokenPipe" where
  "pipe_refund p n =
     (case checked_add (credits p) n of
        None \<Rightarrow> (Inl OverRefund, p)
      | Some new_credits \<Rightarrow>
          if capacity p < new_credits then (Inl OverRefund, p)
          else (Inr (), p\<lparr>credits := new_credits,
                         consumed := saturating_add (consumed p) (ucast n)\<rparr>))"

datatype pipe_op = Push u32 | Refund u32

fun pipe_step :: "BoundedTokenPipe \<Rightarrow> pipe_op \<Rightarrow> BoundedTokenPipe" where
  "pipe_step p (Push n) = snd (pipe_push p n)"
| "pipe_step p (Refund n) = snd (pipe_refund p n)"

text \<open>Credits out on loan, as a number.\<close>

definition in_flight :: "BoundedTokenPipe \<Rightarrow> nat" where
  "in_flight p = unat (capacity p) - unat (credits p)"

text \<open>The pipe invariant: credits within capacity, and (until the 64-bit total saturates) the
  tokens produced are those consumed plus those on loan.\<close>

definition pipe_inv :: "BoundedTokenPipe \<Rightarrow> bool" where
  "pipe_inv p \<longleftrightarrow> credits p \<le> capacity p \<and>
     (produced p \<noteq> u64_max \<longrightarrow> unat (produced p) = unat (consumed p) + in_flight p)"

lemma u64_not_max: "p \<noteq> u64_max \<longleftrightarrow> unat p < 2 ^ 64 - 1"
  using unat_lt_pow [of p] by (auto simp: word_unat_eq_iff unat_minus_one_word_max)

lemma pipe_push_eq:
  "pipe_push p n =
     (if unat n \<le> unat (credits p)
      then (Inr (), p\<lparr>credits := credits p - n, produced := saturating_add (produced p) (ucast n)\<rparr>)
      else (Inl BackpressureExceeded, p))"
  by (simp add: pipe_push_def word_less_nat_alt)

lemma pipe_refund_eq:
  "pipe_refund p n =
     (if unat (credits p) + unat n \<le> unat (capacity p)
      then (Inr (), p\<lparr>credits := credits p + n, consumed := saturating_add (consumed p) (ucast n)\<rparr>)
      else (Inl OverRefund, p))"
proof (cases "unat (credits p) + unat n < 2 ^ LENGTH(32)")
  case True
  then show ?thesis
    by (simp add: pipe_refund_def checked_add_def word_less_nat_alt unat_add_exact)
next
  case False
  moreover have "unat (capacity p) < 2 ^ LENGTH(32)" by (rule unat_lt_pow)
  ultimately have "\<not> unat (credits p) + unat n \<le> unat (capacity p)" by linarith
  with False show ?thesis by (simp add: pipe_refund_def checked_add_def)
qed

lemma pipe_push_credits:
  "unat n \<le> unat (credits p) \<Longrightarrow> unat (credits (snd (pipe_push p n))) = unat (credits p) - unat n"
  by (simp add: pipe_push_eq unat_sub word_le_nat_alt)

lemma pipe_refund_credits:
  "unat (credits p) + unat n \<le> unat (capacity p) \<Longrightarrow>
   unat (credits (snd (pipe_refund p n))) = unat (credits p) + unat n"
  by (simp add: pipe_refund_eq unat_add_le)

lemma pipe_push_inv:
  assumes "pipe_inv p" shows "pipe_inv (snd (pipe_push p n))"
proof (cases "unat n \<le> unat (credits p)")
  case True
  have "unat (credits p - n) = unat (credits p) - unat n"
    using True by (simp add: unat_sub word_le_nat_alt)
  moreover have "unat (saturating_add (produced p) (ucast n :: u64)) =
      min (unat (produced p) + unat n) (2 ^ 64 - 1)"
    by (simp add: unat_saturating_add)
  ultimately show ?thesis
    using assms True unfolding pipe_inv_def in_flight_def u64_not_max word_le_nat_alt
    by (simp add: pipe_push_eq) linarith
next
  case False
  then show ?thesis using assms by (simp add: pipe_push_eq)
qed

lemma pipe_refund_inv:
  assumes "pipe_inv p" shows "pipe_inv (snd (pipe_refund p n))"
proof (cases "unat (credits p) + unat n \<le> unat (capacity p)")
  case True
  moreover have "unat (saturating_add (consumed p) (ucast n :: u64)) =
      min (unat (consumed p) + unat n) (2 ^ 64 - 1)"
    by (simp add: unat_saturating_add)
  ultimately show ?thesis
    using assms unat_add_le [OF True] unfolding pipe_inv_def in_flight_def u64_not_max word_le_nat_alt
    by (simp add: pipe_refund_eq) linarith
next
  case False
  then show ?thesis using assms by (simp add: pipe_refund_eq)
qed

lemma pipe_new_inv: "pipe_inv (pipe_new c)"
  by (simp add: pipe_inv_def pipe_new_def in_flight_def)

interpretation pipe_machine: monotone_machine pipe_step pipe_inv "\<lambda>p. unat (produced p)"
proof unfold_locales
  fix p x
  assume inv: "pipe_inv p"
  then show "pipe_inv (pipe_step p x)"
    by (cases x) (simp_all add: pipe_push_inv pipe_refund_inv)
  show "unat (produced p) \<le> unat (produced (pipe_step p x))"
    by (cases x) (auto simp: pipe_push_eq pipe_refund_eq saturating_add_ge)
qed

text \<open>Whatever pushes and refunds a fresh pipe sees, its credits stay within its capacity, the
  number of tokens produced never goes down, and as long as the produced counter has not saturated
  it equals the tokens consumed plus the credits out on loan.\<close>

theorem pipe_run_conservation:
  fixes c :: u32 and xs ys :: "pipe_op list"
  defines "p \<equiv> foldl pipe_step (pipe_new c) xs" and "q \<equiv> foldl pipe_step (pipe_new c) (xs @ ys)"
  shows "credits p \<le> capacity p \<and> unat (produced p) \<le> unat (produced q)
    \<and> (produced p \<noteq> u64_max \<longrightarrow> unat (produced p) = unat (consumed p) + in_flight p)"
proof -
  have "pipe_inv p" unfolding p_def by (rule pipe_machine.run_inv) (rule pipe_new_inv)
  moreover have "q = foldl pipe_step p ys" by (simp add: p_def q_def)
  ultimately show ?thesis using pipe_machine.run_mono [of p ys] by (simp add: pipe_inv_def)
qed

lemma pipe_run_conservation_witness:
  "let p = foldl pipe_step (pipe_new 10) [Push 4, Refund 1] in
     produced p \<noteq> u64_max \<and> unat (produced p) = unat (consumed p) + in_flight p"
  using pipe_run_conservation [of 10 "[Push 4, Refund 1]" "[]"]
  by (simp add: Let_def pipe_push_def pipe_refund_def pipe_new_def checked_add_def saturating_add_def)

text \<open>A push succeeds exactly when the credits cover it, a refused push changes nothing, and a
  successful push followed by the refund of the same amount is accepted and restores the credits.\<close>

theorem pipe_push_refund_roundtrip:
  assumes "pipe_inv p"
  shows "(fst (pipe_push p n) = Inr () \<longleftrightarrow> n \<le> available_credits p)
    \<and> (available_credits p < n \<longrightarrow> pipe_push p n = (Inl BackpressureExceeded, p))
    \<and> (n \<le> available_credits p \<longrightarrow>
         fst (pipe_refund (snd (pipe_push p n)) n) = Inr ()
         \<and> available_credits (snd (pipe_refund (snd (pipe_push p n)) n)) = available_credits p)"
proof (cases "n \<le> available_credits p")
  case True
  let ?q = "snd (pipe_push p n)"
  from True have le: "unat n \<le> unat (credits p)" by (simp add: available_credits_def word_le_nat_alt)
  then have cap: "capacity ?q = capacity p" by (simp add: pipe_push_eq)
  have fits: "unat (credits ?q) + unat n \<le> unat (capacity ?q)"
    using assms le cap pipe_push_credits [OF le] by (simp add: pipe_inv_def word_le_nat_alt)
  with pipe_refund_credits [OF fits] pipe_push_credits [OF le] le True show ?thesis
    by (auto simp: pipe_push_eq pipe_refund_eq available_credits_def word_unat_eq_iff)
next
  case False
  then show ?thesis
    by (auto simp: pipe_push_def available_credits_def)
qed

lemma pipe_push_refund_roundtrip_witness:
  "pipe_inv (pipe_new 8) \<and> fst (pipe_push (pipe_new 8) 5) = Inr ()
   \<and> available_credits (snd (pipe_refund (snd (pipe_push (pipe_new 8) 5)) 5)) = 8"
  using pipe_push_refund_roundtrip [OF pipe_new_inv, of 8 5] pipe_new_inv [of 8]
  by (simp add: available_credits_def pipe_new_def)

end
