(* ===== verification/Mlfq.thy ===== *)
theory Mlfq
  imports Anima_Prelude "HOL-Library.Multiset"
begin

text \<open>
  The iteration-aware multi-level feedback queue (\<^verbatim>\<open>crates/scheduler/src/mlfq.rs\<close>): the three-tier
  task agenda, the periodic starvation boost, and the dispatch of one task to a language-model
  backend with token-slice accounting. The backend is a trait object; its completion for the prompt
  is an argument of \<open>dispatch_task\<close>.
\<close>

definition NUM_TIERS :: nat where "NUM_TIERS = 3"

datatype MlfqTier = High | Medium | Low

fun tier_index :: "MlfqTier \<Rightarrow> nat" where
  "tier_index High = 0" | "tier_index Medium = 1" | "tier_index Low = 2"

record Task =
  task_id :: u64
  mlfq_level :: u8
  prompt :: string
  token_budget :: "u32 option"

definition task_new :: "u64 \<Rightarrow> u8 \<Rightarrow> string \<Rightarrow> Task" where
  "task_new i lvl p = \<lparr>task_id = i, mlfq_level = lvl, prompt = p, token_budget = None\<rparr>"

definition with_token_budget :: "Task \<Rightarrow> u32 \<Rightarrow> Task" where
  "with_token_budget t b = t\<lparr>token_budget := Some b\<rparr>"

section \<open>Agenda\<close>

text \<open>\<open>[VecDeque<Task>; NUM_TIERS]\<close>: a list of queues, of length \<open>NUM_TIERS\<close> by \<open>agenda_ok\<close>.\<close>

record TaskAgenda =
  tiers :: "Task list list"

definition agenda_ok :: "TaskAgenda \<Rightarrow> bool" where
  "agenda_ok a \<longleftrightarrow> length (tiers a) = NUM_TIERS"

definition agenda_new :: TaskAgenda where
  "agenda_new = \<lparr>tiers = replicate NUM_TIERS []\<rparr>"

definition tier_of :: "Task \<Rightarrow> nat" where
  "tier_of t = min (unat (mlfq_level t)) (NUM_TIERS - 1)"

definition agenda_push :: "TaskAgenda \<Rightarrow> Task \<Rightarrow> TaskAgenda" where
  "agenda_push a t =
     a\<lparr>tiers := (tiers a)[tier_of t := tiers a ! tier_of t @ [t]]\<rparr>"

definition agenda_is_empty :: "TaskAgenda \<Rightarrow> bool" where
  "agenda_is_empty a \<longleftrightarrow> list_all (\<lambda>q. q = []) (tiers a)"

definition agenda_len :: "TaskAgenda \<Rightarrow> nat" where
  "agenda_len a = sum_list (map length (tiers a))"

fun pop_first :: "Task list list \<Rightarrow> Task option \<times> Task list list" where
  "pop_first [] = (None, [])"
| "pop_first ([] # qs) = (let (r, qs') = pop_first qs in (r, [] # qs'))"
| "pop_first ((t # q) # qs) = (Some t, q # qs)"

definition select_optimal_task :: "TaskAgenda \<Rightarrow> Task option \<times> TaskAgenda" where
  "select_optimal_task a = (let (r, qs) = pop_first (tiers a) in (r, a\<lparr>tiers := qs\<rparr>))"

text \<open>The inner \<^verbatim>\<open>while let Some(mut task) = pop_front()\<close> and the outer loop over the tiers below
  the top one.\<close>

fun drain_tier :: "Task list \<Rightarrow> Task list \<Rightarrow> nat \<Rightarrow> Task list \<times> nat" where
  "drain_tier high [] n = (high, n)"
| "drain_tier high (t # q) n = drain_tier (high @ [t\<lparr>mlfq_level := 0\<rparr>]) q (Suc n)"

fun drain_tiers :: "Task list \<Rightarrow> Task list list \<Rightarrow> nat \<Rightarrow> Task list \<times> nat" where
  "drain_tiers high [] n = (high, n)"
| "drain_tiers high (q # qs) n = (let (high', n') = drain_tier high q n in drain_tiers high' qs n')"

definition boost_all_to_high :: "TaskAgenda \<Rightarrow> nat \<times> TaskAgenda" where
  "boost_all_to_high a =
     (case tiers a of
        [] \<Rightarrow> (0, a)
      | q0 # qs \<Rightarrow> (let (high, n) = drain_tiers q0 qs 0
                    in (n, a\<lparr>tiers := high # map (\<lambda>_. []) qs\<rparr>)))"

section \<open>Dispatch\<close>

datatype StreamingCompletion = Token string | Done | Cancelled

datatype LlmBackendError = Provider string | BackendCancelled

record TaskOutcome =
  out_task :: Task
  response :: string
  tokens_emitted :: u32

record IterationAwareMlfq =
  dispatched_tasks :: "Task list"
  max_dispatched_tasks :: nat
  tier_counters :: "u64 list"
  total_tokens_dispatched :: u64
  boost_interval :: u32
  dispatch_count :: u64

definition DEFAULT_MAX_DISPATCHED_TASKS :: nat where
  "DEFAULT_MAX_DISPATCHED_TASKS = 10000"

definition mlfq_default :: IterationAwareMlfq where
  "mlfq_default = \<lparr>dispatched_tasks = [], max_dispatched_tasks = DEFAULT_MAX_DISPATCHED_TASKS,
     tier_counters = replicate NUM_TIERS 0, total_tokens_dispatched = 0, boost_interval = 0,
     dispatch_count = 0\<rparr>"

definition with_boost_interval :: "u32 \<Rightarrow> IterationAwareMlfq" where
  "with_boost_interval b = mlfq_default\<lparr>boost_interval := b\<rparr>"

definition with_max_dispatched_tasks :: "IterationAwareMlfq \<Rightarrow> nat \<Rightarrow> IterationAwareMlfq" where
  "with_max_dispatched_tasks m k = m\<lparr>max_dispatched_tasks := k\<rparr>"

definition check_and_boost :: "IterationAwareMlfq \<Rightarrow> TaskAgenda \<Rightarrow> nat \<times> TaskAgenda" where
  "check_and_boost m a =
     (if boost_interval m = 0 \<or> dispatch_count m = 0 then (0, a)
      else if unat (dispatch_count m) mod unat (boost_interval m) = 0 then boost_all_to_high a
      else (0, a))"

text \<open>\<^verbatim>\<open>while len > max { pop_front() }\<close>.\<close>

fun evict_oldest :: "nat \<Rightarrow> 'a list \<Rightarrow> 'a list" where
  "evict_oldest k [] = []"
| "evict_oldest k (x # xs) = (if k < length (x # xs) then evict_oldest k xs else x # xs)"

text \<open>The stream loop: tokens so far and text so far; \<open>None\<close> is the early return on a cancelled
  stream.\<close>

fun collect_stream ::
  "u32 option \<Rightarrow> u32 \<Rightarrow> string \<Rightarrow> StreamingCompletion list \<Rightarrow> (u32 \<times> string) option" where
  "collect_stream budget n acc [] = Some (n, acc)"
| "collect_stream budget n acc (Token t # es) =
     (let n' = saturating_add n 1; acc' = acc @ t
      in case budget of
           Some b \<Rightarrow> if b \<le> n' then Some (n', acc') else collect_stream budget n' acc' es
         | None \<Rightarrow> collect_stream budget n' acc' es)"
| "collect_stream budget n acc (Done # es) = collect_stream budget n acc es"
| "collect_stream budget n acc (Cancelled # es) = None"

definition dispatch_task ::
  "IterationAwareMlfq \<Rightarrow> Task \<Rightarrow> (LlmBackendError + StreamingCompletion list)
   \<Rightarrow> (LlmBackendError + TaskOutcome) \<times> IterationAwareMlfq" where
  "dispatch_task m t completion =
     (let tier = tier_of t;
          counters = (tier_counters m)[tier := saturating_add (tier_counters m ! tier) 1];
          hist = dispatched_tasks m @ [t];
          hist' = (if 0 < max_dispatched_tasks m then evict_oldest (max_dispatched_tasks m) hist
                   else hist);
          m1 = m\<lparr>tier_counters := counters, dispatched_tasks := hist',
                 dispatch_count := saturating_add (dispatch_count m) 1\<rparr>
      in case completion of
           Inl e \<Rightarrow> (Inl e, m1)
         | Inr stream \<Rightarrow>
             (case collect_stream (token_budget t) 0 [] stream of
                None \<Rightarrow> (Inl BackendCancelled, m1)
              | Some (n, txt) \<Rightarrow>
                  (Inr \<lparr>out_task = t, response = txt, tokens_emitted = n\<rparr>,
                   m1\<lparr>total_tokens_dispatched :=
                        saturating_add (total_tokens_dispatched m1) (ucast n)\<rparr>)))"

section \<open>Agenda lemmas\<close>

definition promote :: "Task \<Rightarrow> Task" where
  "promote t = t\<lparr>mlfq_level := 0\<rparr>"

definition agenda_tasks :: "TaskAgenda \<Rightarrow> Task multiset" where
  "agenda_tasks a = mset (concat (tiers a))"

lemma tier_of_lt: "tier_of t < NUM_TIERS"
  by (auto simp: tier_of_def NUM_TIERS_def min_def)

lemma drain_tier_eq: "drain_tier high q n = (high @ map promote q, n + length q)"
  by (induction q arbitrary: high n) (simp_all add: promote_def)

lemma drain_tiers_eq:
  "drain_tiers high qs n = (high @ map promote (concat qs), n + length (concat qs))"
  by (induction qs arbitrary: high n) (simp_all add: drain_tier_eq)

lemma boost_eq:
  "tiers a = q0 # qs \<Longrightarrow>
   boost_all_to_high a =
     (length (concat qs), a\<lparr>tiers := (q0 @ map promote (concat qs)) # map (\<lambda>_. []) qs\<rparr>)"
  by (simp add: boost_all_to_high_def drain_tiers_eq)

lemma agenda_len_size: "agenda_len a = size (agenda_tasks a)"
  by (simp add: agenda_len_def agenda_tasks_def length_concat)

lemma concat_update_snoc:
  "i < length qs \<Longrightarrow> mset (concat (qs[i := qs ! i @ [t]])) = add_mset t (mset (concat qs))"
  by (induction qs arbitrary: i) (auto split: nat.splits)

lemma agenda_push_tasks:
  "agenda_ok a \<Longrightarrow> agenda_tasks (agenda_push a t) = add_mset t (agenda_tasks a)"
  using tier_of_lt [of t] by (simp add: agenda_tasks_def agenda_push_def agenda_ok_def concat_update_snoc)

lemma agenda_push_ok: "agenda_ok a \<Longrightarrow> agenda_ok (agenda_push a t)"
  by (simp add: agenda_push_def agenda_ok_def)

lemma pop_first_length: "length (snd (pop_first qs)) = length qs"
  by (induction qs rule: pop_first.induct) (auto split: prod.splits)

lemma pop_first_Some:
  "pop_first qs = (Some t, qs') \<Longrightarrow>
     \<exists>k q post. qs = replicate k [] @ (t # q) # post \<and> qs' = replicate k [] @ q # post"
proof (induction qs arbitrary: qs' rule: pop_first.induct)
  case 1
  then show ?case by simp
next
  case (2 qs)
  then obtain r where "pop_first qs = (Some t, r)" and "qs' = [] # r" by (auto split: prod.splits)
  with "2.IH" [of r] obtain k q post
    where "qs = replicate k [] @ (t # q) # post" "qs' = [] # replicate k [] @ q # post" by auto
  then show ?case by (intro exI [of _ "Suc k"]) simp
next
  case (3 u q qs)
  then show ?case by (intro exI [of _ 0]) simp
qed

lemma pop_first_None: "fst (pop_first qs) = None \<longleftrightarrow> list_all (\<lambda>q. q = []) qs"
  by (induction qs rule: pop_first.induct) (auto split: prod.splits)

lemma pop_first_mset:
  "pop_first qs = (Some t, qs') \<Longrightarrow> mset (concat qs) = add_mset t (mset (concat qs'))"
  by (induction qs arbitrary: qs' rule: pop_first.induct) (auto split: prod.splits)

section \<open>The agenda as a stable priority list\<close>

text \<open>The contract the somatic loop relies on: one list of waiting tasks, ordered by tier and by
  arrival within a tier, with insertion behind the equals and removal at the front.\<close>

fun stable_insert :: "('a \<Rightarrow> nat) \<Rightarrow> 'a \<Rightarrow> 'a list \<Rightarrow> 'a list" where
  "stable_insert key x [] = [x]"
| "stable_insert key x (y # ys) =
     (if key y \<le> key x then y # stable_insert key x ys else x # y # ys)"

locale stable_priority_queue =
  fixes push :: "'q \<Rightarrow> 'a \<Rightarrow> 'q"
    and select :: "'q \<Rightarrow> 'a option \<times> 'q"
    and view :: "'q \<Rightarrow> 'a list"
    and key :: "'a \<Rightarrow> nat"
    and inv :: "'q \<Rightarrow> bool"
  assumes view_push: "inv q \<Longrightarrow> view (push q x) = stable_insert key x (view q)"
    and inv_push: "inv q \<Longrightarrow> inv (push q x)"
    and inv_select: "inv q \<Longrightarrow> inv (snd (select q))"
    and select_Nil: "inv q \<Longrightarrow> view q = [] \<Longrightarrow> fst (select q) = None"
    and select_Cons: "inv q \<Longrightarrow> view q = x # xs \<Longrightarrow>
      fst (select q) = Some x \<and> view (snd (select q)) = xs"
    and view_sorted: "inv q \<Longrightarrow> sorted (map key (view q))"
begin

lemma select_least:
  "inv q \<Longrightarrow> fst (select q) = Some x \<Longrightarrow> y \<in> set (view q) \<Longrightarrow> key x \<le> key y"
  using select_Nil [of q] select_Cons [of q] view_sorted [of q] by (cases "view q") auto

lemma select_Some_iff: "inv q \<Longrightarrow> fst (select q) \<noteq> None \<longleftrightarrow> view q \<noteq> []"
  using select_Nil [of q] select_Cons [of q] by (cases "view q") auto

end

definition agenda_view :: "TaskAgenda \<Rightarrow> Task list" where
  "agenda_view a = concat (tiers a)"

definition tiered :: "Task list list \<Rightarrow> bool" where
  "tiered qs \<longleftrightarrow> (\<forall>i < length qs. \<forall>t \<in> set (qs ! i). tier_of t = i)"

definition agenda_inv :: "TaskAgenda \<Rightarrow> bool" where
  "agenda_inv a \<longleftrightarrow> agenda_ok a \<and> tiered (tiers a)"

lemma agenda_invE:
  assumes "agenda_inv a"
  obtains q0 q1 q2 where "tiers a = [q0, q1, q2]" "\<forall>t \<in> set q0. tier_of t = 0"
    "\<forall>t \<in> set q1. tier_of t = 1" "\<forall>t \<in> set q2. tier_of t = 2"
proof -
  from assms obtain q0 q1 q2 where "tiers a = [q0, q1, q2]"
    by (auto simp: agenda_inv_def agenda_ok_def NUM_TIERS_def numeral_3_eq_3 length_Suc_conv)
  with assms that show ?thesis by (fastforce simp: agenda_inv_def tiered_def nth_Cons')
qed

lemma agenda_invI:
  "tiers a = [q0, q1, q2] \<Longrightarrow> \<forall>t \<in> set q0. tier_of t = 0 \<Longrightarrow> \<forall>t \<in> set q1. tier_of t = 1 \<Longrightarrow>
   \<forall>t \<in> set q2. tier_of t = 2 \<Longrightarrow> agenda_inv a"
  by (auto simp: agenda_inv_def agenda_ok_def NUM_TIERS_def tiered_def nth_Cons' less_Suc_eq
      split: if_splits)

lemma tier_of_cases: "tier_of t = 0 \<or> tier_of t = 1 \<or> tier_of t = 2"
  using tier_of_lt [of t] by (auto simp: NUM_TIERS_def)

lemma stable_insert_le:
  "\<forall>y \<in> set ys. key y \<le> key x \<Longrightarrow> stable_insert key x (ys @ zs) = ys @ stable_insert key x zs"
  by (induction ys) simp_all

lemma stable_insert_gt:
  "\<forall>z \<in> set zs. key x < key z \<Longrightarrow> stable_insert key x zs = x # zs"
  by (cases zs) auto

lemma agenda_push_tiers:
  assumes "tiers a = [q0, q1, q2]"
  shows "tiers (agenda_push a t) =
    (if tier_of t = 0 then [q0 @ [t], q1, q2] else if tier_of t = 1 then [q0, q1 @ [t], q2]
     else [q0, q1, q2 @ [t]])"
  using assms tier_of_cases [of t] by (auto simp: agenda_push_def)

lemma agenda_push_inv:
  assumes "agenda_inv a" shows "agenda_inv (agenda_push a t)"
proof -
  from assms obtain q0 q1 q2 where q: "tiers a = [q0, q1, q2]" "\<forall>t \<in> set q0. tier_of t = 0"
    "\<forall>t \<in> set q1. tier_of t = 1" "\<forall>t \<in> set q2. tier_of t = 2" by (rule agenda_invE)
  show ?thesis
    by (rule agenda_invI [of _ "if tier_of t = 0 then q0 @ [t] else q0"
          "if tier_of t = 1 then q1 @ [t] else q1" "if tier_of t = 2 then q2 @ [t] else q2"])
      (use q tier_of_cases [of t] agenda_push_tiers [OF q(1), of t] in auto)
qed

lemma agenda_push_view:
  assumes "agenda_inv a"
  shows "agenda_view (agenda_push a t) = stable_insert tier_of t (agenda_view a)"
proof -
  from assms obtain q0 q1 q2 where q: "tiers a = [q0, q1, q2]" "\<forall>t \<in> set q0. tier_of t = 0"
    "\<forall>t \<in> set q1. tier_of t = 1" "\<forall>t \<in> set q2. tier_of t = 2" by (rule agenda_invE)
  let ?ins = "stable_insert tier_of t"
  have i0: "?ins (q0 @ q1 @ q2) = q0 @ ?ins (q1 @ q2)"
    by (rule stable_insert_le) (simp add: q)
  consider (0) "tier_of t = 0" | (1) "tier_of t = 1" | (2) "tier_of t = 2"
    using tier_of_cases [of t] by auto
  then have "?ins (q1 @ q2) = (if tier_of t = 0 then t # q1 @ q2 else if tier_of t = 1 then q1 @ t # q2
      else q1 @ q2 @ [t])"
  proof cases
    case 0
    have "?ins (q1 @ q2) = t # q1 @ q2" by (rule stable_insert_gt) (use q 0 in auto)
    with 0 show ?thesis by simp
  next
    case 1
    have "?ins (q1 @ q2) = q1 @ ?ins q2" by (rule stable_insert_le) (use q 1 in auto)
    moreover have "?ins q2 = t # q2" by (rule stable_insert_gt) (use q 1 in auto)
    ultimately show ?thesis using 1 by simp
  next
    case 2
    have "?ins ((q1 @ q2) @ []) = (q1 @ q2) @ ?ins []"
      by (rule stable_insert_le) (use q 2 in auto)
    with 2 show ?thesis by simp
  qed
  with i0 q agenda_push_tiers [OF q(1), of t] show ?thesis by (simp add: agenda_view_def)
qed

lemma select_inv: "agenda_inv a \<Longrightarrow> agenda_inv (snd (select_optimal_task a))"
proof (elim agenda_invE)
  fix q0 q1 q2
  assume "tiers a = [q0, q1, q2]" "\<forall>t \<in> set q0. tier_of t = 0" "\<forall>t \<in> set q1. tier_of t = 1"
    "\<forall>t \<in> set q2. tier_of t = 2"
  then show ?thesis
    by (intro agenda_invI [of _ "if q0 = [] then q0 else tl q0"
          "if q0 = [] \<and> q1 \<noteq> [] then tl q1 else q1" "if q0 = [] \<and> q1 = [] then tl q2 else q2"])
      (cases q0; cases q1; cases q2; auto simp: select_optimal_task_def)+
qed

lemma pop_first_skip: "pop_first ([] # qs) = (fst (pop_first qs), [] # snd (pop_first qs))"
  by (simp add: case_prod_unfold Let_def)

lemma pop_first_view:
  "fst (pop_first qs) = (case concat qs of [] \<Rightarrow> None | t # _ \<Rightarrow> Some t)"
  "concat (snd (pop_first qs)) = tl (concat qs)"
  by (induction qs rule: pop_first.induct) (simp_all only: pop_first_skip, simp_all)

lemma select_view:
  "fst (select_optimal_task a) = (case agenda_view a of [] \<Rightarrow> None | t # _ \<Rightarrow> Some t)"
  "agenda_view (snd (select_optimal_task a)) = tl (agenda_view a)"
  by (simp_all add: select_optimal_task_def agenda_view_def pop_first_view case_prod_unfold)

lemma sorted_map_const: "\<forall>x \<in> set xs. f x = (c :: nat) \<Longrightarrow> sorted (map f xs)"
  by (induction xs) simp_all

lemma agenda_sorted: "agenda_inv a \<Longrightarrow> sorted (map tier_of (agenda_view a))"
  by (elim agenda_invE) (auto simp: agenda_view_def sorted_append intro: sorted_map_const)

interpretation agenda_pq: stable_priority_queue agenda_push select_optimal_task agenda_view tier_of agenda_inv
  by unfold_locales
    (simp_all add: agenda_push_view agenda_push_inv select_inv agenda_sorted select_view)

text \<open>C20: the three-tier agenda implements a stable priority list: pushing a task puts it behind
  every waiting task of the same or a higher tier and before the lower ones, and selecting takes
  the first of the list, so the selected task is of the highest waiting tier and the oldest there.\<close>

theorem agenda_refines_priority_list:
  assumes "agenda_inv a"
  shows "agenda_view (agenda_push a t) = stable_insert tier_of t (agenda_view a)
    \<and> agenda_inv (agenda_push a t) \<and> agenda_inv (snd (select_optimal_task a))
    \<and> (case select_optimal_task a of
         (None, a') \<Rightarrow> agenda_view a = [] \<and> agenda_view a' = []
       | (Some x, a') \<Rightarrow> agenda_view a = x # agenda_view a'
           \<and> (\<forall>y \<in> set (agenda_view a). tier_of x \<le> tier_of y))"
proof -
  obtain r a' where sel: "select_optimal_task a = (r, a')" by fastforce
  have "case r of None \<Rightarrow> agenda_view a = [] \<and> agenda_view a' = []
     | Some x \<Rightarrow> agenda_view a = x # agenda_view a' \<and> (\<forall>y \<in> set (agenda_view a). tier_of x \<le> tier_of y)"
    using select_view [of a] agenda_pq.select_least [OF assms] sel
    by (auto split: option.splits list.splits)
  with sel show ?thesis
    using agenda_pq.view_push [OF assms] agenda_pq.inv_push [OF assms] agenda_pq.inv_select [OF assms]
    by (simp split: option.splits)
qed

lemma agenda_new_inv: "agenda_inv agenda_new"
  by (simp add: agenda_inv_def agenda_new_def agenda_ok_def tiered_def)

lemma agenda_refines_priority_list_witness:
  "agenda_inv agenda_new \<and>
   agenda_view (agenda_push agenda_new (task_new 1 250 [])) = [task_new 1 250 []]"
  using agenda_refines_priority_list [OF agenda_new_inv, of "task_new 1 250 []"] agenda_new_inv
  by (simp add: agenda_view_def agenda_new_def)

section \<open>Starvation\<close>

lemma promote_tier [simp]: "tier_of (promote t) = 0"
  by (simp add: promote_def tier_of_def)

lemma boost_inv:
  assumes "agenda_inv a" shows "agenda_inv (snd (boost_all_to_high a))"
proof -
  from assms obtain q0 q1 q2 where q: "tiers a = [q0, q1, q2]" "\<forall>t \<in> set q0. tier_of t = 0"
    by (rule agenda_invE)
  show ?thesis
    by (rule agenda_invI [of _ "q0 @ map promote (q1 @ q2)" "[]" "[]"])
      (use q in \<open>auto simp: boost_eq\<close>)
qed

text \<open>The calls the scheduler loop makes on the agenda, and the tasks they return.\<close>

datatype agenda_op = PushTask Task | SelectTask | BoostAll

fun agenda_step :: "TaskAgenda \<Rightarrow> agenda_op \<Rightarrow> Task option \<times> TaskAgenda" where
  "agenda_step a (PushTask t) = (None, agenda_push a t)"
| "agenda_step a SelectTask = select_optimal_task a"
| "agenda_step a BoostAll = (None, snd (boost_all_to_high a))"

fun agenda_run :: "TaskAgenda \<Rightarrow> agenda_op list \<Rightarrow> TaskAgenda" where
  "agenda_run a [] = a"
| "agenda_run a (x # xs) = agenda_run (snd (agenda_step a x)) xs"

fun selects :: "agenda_op list \<Rightarrow> nat" where
  "selects [] = 0"
| "selects (SelectTask # xs) = Suc (selects xs)"
| "selects (_ # xs) = selects xs"

lemma agenda_step_high:
  assumes "agenda_inv a" and "tiers a ! 0 = pre @ t # post"
    and "x = SelectTask \<longrightarrow> pre \<noteq> []"
  shows "\<exists>post'. tiers (snd (agenda_step a x)) ! 0 = (if x = SelectTask then tl pre else pre) @ t # post'"
proof -
  from assms(1) obtain q0 q1 q2 where q: "tiers a = [q0, q1, q2]" by (rule agenda_invE)
  with assms(2) have q0: "q0 = pre @ t # post" by simp
  show ?thesis
  proof (cases x)
    case (PushTask u)
    with q q0 agenda_push_tiers [OF q, of u] show ?thesis by auto
  next
    case SelectTask
    with assms(3) q q0 show ?thesis by (cases pre) (auto simp: select_optimal_task_def)
  next
    case BoostAll
    with q q0 show ?thesis by (auto simp: boost_eq)
  qed
qed

lemma agenda_step_inv: "agenda_inv a \<Longrightarrow> agenda_inv (snd (agenda_step a x))"
  by (cases x) (simp_all add: agenda_push_inv select_inv boost_inv)

lemma agenda_run_high:
  assumes "agenda_inv a" and "tiers a ! 0 = pre @ t # post" and "selects xs = length pre"
  shows "agenda_inv (agenda_run a xs) \<and> (\<exists>post'. tiers (agenda_run a xs) ! 0 = t # post')"
  using assms
proof (induction xs arbitrary: a pre post)
  case Nil
  then show ?case by simp
next
  case (Cons x xs)
  have ne: "x = SelectTask \<longrightarrow> pre \<noteq> []" using Cons.prems(3) by auto
  from agenda_step_high [OF Cons.prems(1,2) ne] obtain post'
    where "tiers (snd (agenda_step a x)) ! 0 = (if x = SelectTask then tl pre else pre) @ t # post'" ..
  moreover have "selects xs = length (if x = SelectTask then tl pre else pre)"
    using Cons.prems(3) by (cases x) auto
  ultimately show ?case
    using Cons.IH [OF agenda_step_inv [OF Cons.prems(1)]] by simp
qed

text \<open>C37: no starvation after a boost. Once a due starvation boost has run, every waiting task is in
  the top tier in an order that keeps the previous one, and the task at position \<open>k\<close> is the one
  selected next after exactly \<open>k\<close> further selections, whatever is pushed or boosted in between.\<close>

theorem boosted_task_selected:
  assumes "agenda_inv a" and "boost_interval m \<noteq> 0" and "dispatch_count m \<noteq> 0"
    and "unat (dispatch_count m) mod unat (boost_interval m) = 0"
    and "k < agenda_len a" and "selects xs = k"
  defines "b \<equiv> snd (check_and_boost m a)"
  shows "map task_id (agenda_view b) = map task_id (agenda_view a)
    \<and> map task_id (tiers b ! 0) = map task_id (agenda_view a)
    \<and> map_option task_id (fst (select_optimal_task (agenda_run b xs)))
        = Some (task_id (agenda_view a ! k))"
proof -
  from assms(1) obtain q0 q1 q2 where q: "tiers a = [q0, q1, q2]" by (rule agenda_invE)
  have b: "b = snd (boost_all_to_high a)" using assms(2-4) by (simp add: b_def check_and_boost_def)
  then have t0: "tiers b ! 0 = q0 @ map promote (q1 @ q2)" and vb: "agenda_view b = tiers b ! 0"
    using q by (simp_all add: boost_eq agenda_view_def)
  have ids: "map task_id (tiers b ! 0) = map task_id (agenda_view a)"
    using q by (simp add: t0 agenda_view_def promote_def)
  have klen: "k < length (tiers b ! 0)"
    using assms(5) q by (simp add: t0 agenda_len_def)
  from id_take_nth_drop [OF klen]
  have split: "tiers b ! 0 = take k (tiers b ! 0) @ (tiers b ! 0) ! k # drop (Suc k) (tiers b ! 0)" .
  have "agenda_inv b" using boost_inv [OF assms(1)] b by simp
  from agenda_run_high [OF this split] assms(6) klen obtain post' where
    inv': "agenda_inv (agenda_run b xs)" and
    h: "tiers (agenda_run b xs) ! 0 = (tiers b ! 0) ! k # post'" by auto
  from inv' obtain r0 r1 r2 where "tiers (agenda_run b xs) = [r0, r1, r2]" by (rule agenda_invE)
  with h have "fst (select_optimal_task (agenda_run b xs)) = Some ((tiers b ! 0) ! k)"
    by (auto simp: select_view agenda_view_def)
  moreover have "task_id ((tiers b ! 0) ! k) = task_id (agenda_view a ! k)"
    using ids klen by (metis length_map nth_map)
  ultimately show ?thesis using ids vb by simp
qed

lemma boosted_task_selected_witness:
  "let a = agenda_push (agenda_push agenda_new (task_new 1 2 [])) (task_new 2 0 []);
       m = mlfq_default\<lparr>boost_interval := 3, dispatch_count := 6\<rparr>;
       b = snd (check_and_boost m a)
   in map_option task_id (fst (select_optimal_task
        (agenda_run b [SelectTask, PushTask (task_new 3 0 [])]))) = Some 1"
proof -
  let ?a = "agenda_push (agenda_push agenda_new (task_new 1 2 [])) (task_new 2 0 [])"
  let ?m = "mlfq_default\<lparr>boost_interval := 3, dispatch_count := 6\<rparr>"
  have v: "agenda_view ?a = [task_new 2 0 [], task_new 1 2 []]"
    by (simp add: agenda_view_def agenda_push_def agenda_new_def tier_of_def NUM_TIERS_def task_new_def
        numeral_3_eq_3)
  have inv: "agenda_inv ?a" by (intro agenda_push_inv agenda_new_inv)
  from boosted_task_selected [OF inv, of ?m 1 "[SelectTask, PushTask (task_new 3 0 [])]"] v
  show ?thesis by (simp add: Let_def agenda_len_size agenda_tasks_def flip: agenda_view_def)
      (simp add: task_new_def)
qed

text \<open>The module's header promises that no task is blocked for longer than \<open>boost_interval\<close>
  dispatches. With an interval of one and two top-tier tasks ahead, a low task is still waiting
  after a dispatch and the boost that follows it.\<close>

lemma boost_interval_no_bound:
  "let a = agenda_push (agenda_push (agenda_push agenda_new (task_new 1 0 [])) (task_new 2 0 []))
             (task_new 3 2 []);
       a1 = snd (select_optimal_task a);
       m = mlfq_default\<lparr>boost_interval := 1, dispatch_count := 1\<rparr>;
       a2 = snd (check_and_boost m a1)
   in map_option task_id (fst (select_optimal_task a2)) = Some 2"
  by (simp add: Let_def agenda_push_def agenda_new_def tier_of_def NUM_TIERS_def task_new_def
      numeral_3_eq_3 select_optimal_task_def check_and_boost_def boost_all_to_high_def mlfq_default_def)

section \<open>Dispatch accounting\<close>

fun stream_tokens :: "StreamingCompletion list \<Rightarrow> string list" where
  "stream_tokens [] = []"
| "stream_tokens (Token t # es) = t # stream_tokens es"
| "stream_tokens (_ # es) = stream_tokens es"

lemma evict_oldest_eq: "evict_oldest k xs = drop (length xs - k) xs"
  by (induction xs) (auto simp: Suc_diff_le)

lemma unat_succ_sat: "unat (saturating_add n (1 :: u32)) = min (Suc (unat n)) (2 ^ 32 - 1)"
  by (simp add: unat_saturating_add)

text \<open>The loop takes a prefix of the tokens: all of them, or as many as the budget allows.\<close>

lemma collect_stream_prefix:
  assumes "collect_stream budget n acc es = Some (n', acc')"
  shows "\<exists>k \<le> length (stream_tokens es).
     acc' = acc @ concat (take k (stream_tokens es)) \<and> unat n' = min (unat n + k) (2 ^ 32 - 1)
     \<and> (\<forall>b. budget = Some b \<longrightarrow> unat n < unat b \<longrightarrow> unat n' \<le> unat b)
     \<and> (k < length (stream_tokens es) \<longrightarrow> (\<exists>b. budget = Some b \<and> unat b \<le> unat n'))"
  using assms
proof (induction budget n acc es arbitrary: n' acc' rule: collect_stream.induct)
  case (1 budget n acc)
  have "unat n < 2 ^ LENGTH(32)" by (rule unat_lt_pow)
  with 1 show ?case by auto
next
  case (2 budget n acc t es)
  let ?n = "saturating_add n 1"
  have lt: "unat n < 2 ^ LENGTH(32)" by (rule unat_lt_pow)
  show ?case
  proof (cases "\<exists>b. budget = Some b \<and> b \<le> ?n")
    case True
    with "2.prems" have "n' = ?n" "acc' = acc @ t" by (auto simp: Let_def)
    with True lt show ?thesis
      by (intro exI [of _ 1]) (auto simp: unat_succ_sat word_le_nat_alt)
  next
    case False
    then have c: "collect_stream budget ?n (acc @ t) es = Some (n', acc')"
      using "2.prems" by (auto simp: Let_def split: option.splits if_splits)
    have "\<exists>k \<le> length (stream_tokens es).
       acc' = (acc @ t) @ concat (take k (stream_tokens es)) \<and> unat n' = min (unat ?n + k) (2 ^ 32 - 1)
       \<and> (\<forall>b. budget = Some b \<longrightarrow> unat ?n < unat b \<longrightarrow> unat n' \<le> unat b)
       \<and> (k < length (stream_tokens es) \<longrightarrow> (\<exists>b. budget = Some b \<and> unat b \<le> unat n'))"
      using False c by (cases budget) (use "2.IH" in \<open>auto simp: Let_def\<close>)
    then obtain k where k: "k \<le> length (stream_tokens es)"
      "acc' = (acc @ t) @ concat (take k (stream_tokens es))" "unat n' = min (unat ?n + k) (2 ^ 32 - 1)"
      "\<forall>b. budget = Some b \<longrightarrow> unat ?n < unat b \<longrightarrow> unat n' \<le> unat b"
      "k < length (stream_tokens es) \<longrightarrow> (\<exists>b. budget = Some b \<and> unat b \<le> unat n')" by blast
    have "\<forall>b. budget = Some b \<longrightarrow> unat ?n < unat b" using False by (auto simp: word_le_nat_alt)
    with k lt show ?thesis
      by (intro exI [of _ "Suc k"]) (auto simp: unat_succ_sat)
  qed
qed auto

lemma collect_stream_cancelled:
  "budget = None \<Longrightarrow> collect_stream budget n acc es = None \<longleftrightarrow> Cancelled \<in> set es"
  by (induction budget n acc es rule: collect_stream.induct) (auto simp: Let_def)

text \<open>A dispatch is recorded whether it succeeds or not (tier counter, dispatch count, the
  history capped at its bound with the newest task kept), and on success the response is the
  concatenation of a prefix of the streamed tokens, the reported count is the length of that prefix,
  a positive token budget is never exceeded and the stream is cut short only by the budget.\<close>

theorem dispatch_task_accounting:
  assumes "length (tier_counters m) = NUM_TIERS" and "dispatch_task m t completion = (r, m')"
  shows "tier_counters m' ! tier_of t = saturating_add (tier_counters m ! tier_of t) 1
    \<and> dispatch_count m' = saturating_add (dispatch_count m) 1
    \<and> dispatched_tasks m' = (let h = dispatched_tasks m @ [t] in
          if max_dispatched_tasks m = 0 then h else drop (length h - max_dispatched_tasks m) h)
    \<and> (0 < max_dispatched_tasks m \<longrightarrow> length (dispatched_tasks m') \<le> max_dispatched_tasks m)
    \<and> (\<forall>e. r = Inl e \<longrightarrow> total_tokens_dispatched m' = total_tokens_dispatched m)
    \<and> (\<forall>out. r = Inr out \<longrightarrow>
         (\<exists>stream k. completion = Inr stream \<and> k \<le> length (stream_tokens stream)
            \<and> response out = concat (take k (stream_tokens stream))
            \<and> unat (tokens_emitted out) = min k (2 ^ 32 - 1)
            \<and> (\<forall>b. token_budget t = Some b \<longrightarrow> 0 < b \<longrightarrow> tokens_emitted out \<le> b)
            \<and> (k < length (stream_tokens stream) \<longrightarrow>
                 (\<exists>b. token_budget t = Some b \<and> b \<le> tokens_emitted out))
            \<and> total_tokens_dispatched m' =
                saturating_add (total_tokens_dispatched m) (ucast (tokens_emitted out))))"
proof -
  have lt: "tier_of t < length (tier_counters m)" using assms(1) tier_of_lt by simp
  have rec: "tier_counters m' ! tier_of t = saturating_add (tier_counters m ! tier_of t) 1
    \<and> dispatch_count m' = saturating_add (dispatch_count m) 1
    \<and> dispatched_tasks m' = (let h = dispatched_tasks m @ [t] in
          if max_dispatched_tasks m = 0 then h else drop (length h - max_dispatched_tasks m) h)"
    using assms(2) lt
    by (auto simp: dispatch_task_def Let_def evict_oldest_eq split: sum.splits option.splits prod.splits)
  have err: "\<forall>e. r = Inl e \<longrightarrow> total_tokens_dispatched m' = total_tokens_dispatched m"
    using assms(2) by (auto simp: dispatch_task_def Let_def split: sum.splits option.splits prod.splits)
  have "\<exists>stream k. completion = Inr stream \<and> k \<le> length (stream_tokens stream)
            \<and> response out = concat (take k (stream_tokens stream))
            \<and> unat (tokens_emitted out) = min k (2 ^ 32 - 1)
            \<and> (\<forall>b. token_budget t = Some b \<longrightarrow> 0 < b \<longrightarrow> tokens_emitted out \<le> b)
            \<and> (k < length (stream_tokens stream) \<longrightarrow>
                 (\<exists>b. token_budget t = Some b \<and> b \<le> tokens_emitted out))
            \<and> total_tokens_dispatched m' =
                saturating_add (total_tokens_dispatched m) (ucast (tokens_emitted out))"
    if r: "r = Inr out" for out
  proof -
    from assms(2) r obtain stream n resp where c: "completion = Inr stream"
        "collect_stream (token_budget t) 0 [] stream = Some (n, resp)"
      and outq: "out = \<lparr>out_task = t, response = resp, tokens_emitted = n\<rparr>"
      and tot: "total_tokens_dispatched m' = saturating_add (total_tokens_dispatched m) (ucast n)"
      by (auto simp: dispatch_task_def Let_def split: sum.splits option.splits prod.splits)
    from collect_stream_prefix [OF c(2)] c(1) outq tot show ?thesis
      by (auto simp: word_le_nat_alt word_less_nat_alt)
  qed
  with rec err show ?thesis by (auto simp: Let_def)
qed

lemma dispatch_task_accounting_witness:
  "let t = with_token_budget (task_new 9 0 []) 2;
       r = dispatch_task mlfq_default t (Inr [Token ''a'', Token ''b'', Token ''c'', Done])
   in length (tier_counters mlfq_default) = NUM_TIERS
      \<and> map_sum id tokens_emitted (fst r) = Inr 2 \<and> dispatch_count (snd r) = 1"
proof -
  define t where "t = with_token_budget (task_new 9 0 []) 2"
  define c :: "LlmBackendError + StreamingCompletion list"
    where "c = Inr [Token ''a'', Token ''b'', Token ''c'', Done]"
  have len: "length (tier_counters mlfq_default) = NUM_TIERS" by (simp add: mlfq_default_def)
  have "dispatch_count (snd (dispatch_task mlfq_default t c)) = saturating_add 0 1"
    using dispatch_task_accounting [OF len, of t c, OF prod.collapse [symmetric]]
    by (simp add: mlfq_default_def)
  moreover have "map_sum id tokens_emitted (fst (dispatch_task mlfq_default t c)) = Inr 2"
    by (simp add: t_def c_def dispatch_task_def with_token_budget_def task_new_def Let_def
        saturating_add_def word_le_nat_alt)
  ultimately show ?thesis using len by (simp add: Let_def saturating_add_def flip: t_def c_def)
qed

text \<open>A budget of zero still lets one token through: the check comes after the token is taken.\<close>

lemma zero_budget_emits_one:
  "map_sum id tokens_emitted
     (fst (dispatch_task mlfq_default (with_token_budget (task_new 9 0 []) 0) (Inr [Token ''a'']))) = Inr 1"
  by (simp add: dispatch_task_def with_token_budget_def task_new_def mlfq_default_def
      saturating_add_def Let_def)

end
