(* ===== verification/Context_Window.thy ===== *)
theory Context_Window
  imports Token_Pipe
begin

text \<open>
  The L1 context window in PagedAttention blocks (\<^verbatim>\<open>crates/memory/src/lib.rs\<close>) and the
  memory-pressure events it emits into the scheduler's token pipe
  (\<^verbatim>\<open>crates/memory/src/pressure.rs\<close>).
\<close>

definition DEFAULT_BLOCK_SIZE :: u32 where "DEFAULT_BLOCK_SIZE = 16"

record VirtualContextManager =
  l1_token_count :: u32
  max_context :: u32
  block_size :: u32
  high_water_blocks :: u32

definition with_blocks :: "u32 \<Rightarrow> u32 \<Rightarrow> u32 \<Rightarrow> VirtualContextManager" where
  "with_blocks tokens maxc bs =
     (let bs' = max bs 1; maxc' = max maxc bs'; total = maxc' div bs'
      in \<lparr>l1_token_count = min tokens maxc', max_context = maxc', block_size = bs',
          high_water_blocks = max (saturating_mul total 3 div 4) 1\<rparr>)"

definition with_capacity :: "u32 \<Rightarrow> u32 \<Rightarrow> VirtualContextManager" where
  "with_capacity tokens maxc = with_blocks tokens maxc DEFAULT_BLOCK_SIZE"

definition vcm_new :: "u32 \<Rightarrow> VirtualContextManager" where
  "vcm_new tokens = with_capacity tokens u32_max"

definition set_high_water_blocks :: "VirtualContextManager \<Rightarrow> u32 \<Rightarrow> VirtualContextManager" where
  "set_high_water_blocks v b = v\<lparr>high_water_blocks := b\<rparr>"

definition set_l1_token_count :: "VirtualContextManager \<Rightarrow> u32 \<Rightarrow> VirtualContextManager" where
  "set_l1_token_count v n = v\<lparr>l1_token_count := min n (max_context v)\<rparr>"

definition add_tokens :: "VirtualContextManager \<Rightarrow> u32 \<Rightarrow> VirtualContextManager" where
  "add_tokens v n =
     v\<lparr>l1_token_count := min (saturating_add (l1_token_count v) n) (max_context v)\<rparr>"

definition total_blocks :: "VirtualContextManager \<Rightarrow> u32" where
  "total_blocks v = max_context v div block_size v"

text \<open>\<^verbatim>\<open>u32::div_ceil\<close>.\<close>

definition div_ceil :: "u32 \<Rightarrow> u32 \<Rightarrow> u32" where
  "div_ceil a b = (if 0 < a mod b then a div b + 1 else a div b)"

definition occupied_blocks :: "VirtualContextManager \<Rightarrow> u32" where
  "occupied_blocks v = (if l1_token_count v = 0 then 0 else div_ceil (l1_token_count v) (block_size v))"

definition free_blocks :: "VirtualContextManager \<Rightarrow> u32" where
  "free_blocks v = saturating_sub (total_blocks v) (occupied_blocks v)"

datatype MemoryPressureEvent = Normal | HighWater | Critical

text \<open>\<^verbatim>\<open>#[derive(PartialOrd, Ord)]\<close>: the order of declaration.\<close>

fun pressure_rank :: "MemoryPressureEvent \<Rightarrow> nat" where
  "pressure_rank Normal = 0" | "pressure_rank HighWater = 1" | "pressure_rank Critical = 2"

lemma pressure_rank_inj: "pressure_rank a = pressure_rank b \<longleftrightarrow> a = b"
  by (cases a; cases b) simp_all

instantiation MemoryPressureEvent :: linorder
begin

definition less_eq_MemoryPressureEvent where "a \<le> b \<longleftrightarrow> pressure_rank a \<le> pressure_rank b"
definition less_MemoryPressureEvent where "a < b \<longleftrightarrow> pressure_rank a < pressure_rank b"

instance
  by standard (auto simp: less_eq_MemoryPressureEvent_def less_MemoryPressureEvent_def
      simp flip: pressure_rank_inj)

end

fun is_elevated :: "MemoryPressureEvent \<Rightarrow> bool" where
  "is_elevated HighWater = True" | "is_elevated Critical = True" | "is_elevated Normal = False"

definition check_pressure :: "VirtualContextManager \<Rightarrow> MemoryPressureEvent" where
  "check_pressure v =
     (let blocks = occupied_blocks v
      in if total_blocks v \<le> blocks then Critical
         else if high_water_blocks v \<le> blocks then HighWater
         else Normal)"

definition emit_to_pipe :: "VirtualContextManager \<Rightarrow> BoundedTokenPipe \<Rightarrow> BoundedTokenPipe" where
  "emit_to_pipe v p =
     (case check_pressure v of
        Normal \<Rightarrow> p
      | HighWater \<Rightarrow>
          (let n = max (capacity p div 4) 1 in snd (pipe_push p (min n (available_credits p))))
      | Critical \<Rightarrow> snd (pipe_push p (available_credits p)))"

section \<open>The window invariant\<close>

definition vcm_inv :: "VirtualContextManager \<Rightarrow> bool" where
  "vcm_inv v \<longleftrightarrow> 1 \<le> unat (block_size v) \<and> unat (block_size v) \<le> unat (max_context v)
     \<and> unat (l1_token_count v) \<le> unat (max_context v)"

datatype vcm_op = SetHighWater u32 | SetTokens u32 | AddTokens u32

fun vcm_step :: "VirtualContextManager \<Rightarrow> vcm_op \<Rightarrow> VirtualContextManager" where
  "vcm_step v (SetHighWater b) = set_high_water_blocks v b"
| "vcm_step v (SetTokens n) = set_l1_token_count v n"
| "vcm_step v (AddTokens n) = add_tokens v n"

lemma with_blocks_inv: "vcm_inv (with_blocks tokens maxc bs)"
  by (auto simp: vcm_inv_def with_blocks_def Let_def unat_max unat_min)

interpretation vcm_machine: op_machine vcm_step vcm_inv
proof unfold_locales
  fix v x assume "vcm_inv v"
  then show "vcm_inv (vcm_step v x)"
    by (cases x) (auto simp: vcm_inv_def set_high_water_blocks_def set_l1_token_count_def
        add_tokens_def unat_min)
qed

lemma unat_div_ceil:
  assumes "b \<noteq> 0" shows "unat (div_ceil a b) = (unat a + unat b - 1) div unat b"
proof -
  have b: "0 < unat b" using assms by (simp add: unat_gt_0)
  have eq: "unat a = unat b * (unat a div unat b) + unat a mod unat b" by simp
  show ?thesis
  proof (cases "unat a mod unat b = 0")
    case True
    have "unat a + unat b - 1 = unat b * (unat a div unat b) + (unat b - 1)"
      using eq True b by linarith
    then have "(unat a + unat b - 1) div unat b = unat a div unat b"
      using b by (intro div_nat_eqI) simp_all
    with True show ?thesis by (simp add: div_ceil_def word_less_nat_alt unat_mod unat_div)
  next
    case False
    have q: "unat a div unat b < 2 ^ LENGTH(32) - 1"
    proof (cases "unat b = 1")
      case True
      with False show ?thesis by simp
    next
      case False
      with b have "unat a div unat b \<le> unat a div 2" by (intro div_le_mono2) auto
      with unat_lt_pow [of a] show ?thesis by simp
    qed
    have "unat a + unat b - 1 = unat b * (unat a div unat b + 1) + (unat a mod unat b - 1)"
      using eq False b distrib_left [of "unat b" "unat a div unat b" 1] by linarith
    moreover have "unat a mod unat b - 1 < unat b"
      using b mod_less_divisor [OF b, of "unat a"] by linarith
    ultimately have "(unat a + unat b - 1) div unat b = unat a div unat b + 1"
      using b by (intro div_nat_eqI) simp_all
    with False q show ?thesis
      by (simp add: div_ceil_def word_less_nat_alt unat_mod unat_div unat_word_ariths)
  qed
qed

lemma occupied_blocks_unat:
  assumes "vcm_inv v"
  shows "unat (occupied_blocks v) =
    (unat (l1_token_count v) + unat (block_size v) - 1) div unat (block_size v)"
proof -
  have "block_size v \<noteq> 0" using assms by (auto simp: vcm_inv_def)
  moreover have "0 < unat (block_size v)" using assms by (simp add: vcm_inv_def)
  ultimately show ?thesis by (simp add: occupied_blocks_def unat_div_ceil)
qed

lemma total_blocks_pos: "vcm_inv v \<Longrightarrow> 0 < unat (total_blocks v)"
  by (simp add: vcm_inv_def total_blocks_def unat_div div_greater_zero_iff)

text \<open>The window's accounting. Every call keeps the token count within the context window; a
  block counts as occupied as soon as one of its tokens is used (so the occupied blocks are the
  least number that holds the tokens), and pressure is critical exactly when no free block
  remains.\<close>

theorem vcm_accounting:
  fixes tokens maxc bs :: u32 and xs :: "vcm_op list"
  defines "v \<equiv> foldl vcm_step (with_blocks tokens maxc bs) xs"
  shows "l1_token_count v \<le> max_context v
    \<and> unat (l1_token_count v) \<le> unat (occupied_blocks v) * unat (block_size v)
    \<and> unat (occupied_blocks v) * unat (block_size v) < unat (l1_token_count v) + unat (block_size v)
    \<and> (check_pressure v = Critical \<longleftrightarrow> free_blocks v = 0)
    \<and> 0 < total_blocks v"
proof -
  have inv: "vcm_inv v" unfolding v_def by (rule vcm_machine.run_inv) (rule with_blocks_inv)
  let ?b = "unat (block_size v)" and ?t = "unat (l1_token_count v)"
  have b: "0 < ?b" using inv by (simp add: vcm_inv_def)
  have m: "?b * ((?t + ?b - 1) div ?b) + (?t + ?b - 1) mod ?b = ?t + ?b - 1" by simp
  have r: "(?t + ?b - 1) mod ?b < ?b" using b by simp
  have occ: "unat (occupied_blocks v) * ?b = ?b * ((?t + ?b - 1) div ?b)"
    by (simp add: occupied_blocks_unat [OF inv])
  have "?t \<le> unat (occupied_blocks v) * ?b" and "unat (occupied_blocks v) * ?b < ?t + ?b"
    using m r occ b by linarith+
  moreover have "l1_token_count v \<le> max_context v"
    using inv by (simp add: vcm_inv_def word_le_nat_alt)
  moreover have "check_pressure v = Critical \<longleftrightarrow> free_blocks v = 0"
    by (auto simp: check_pressure_def free_blocks_def Let_def word_unat_eq_iff unat_saturating_sub
        word_le_nat_alt)
  moreover have "0 < total_blocks v" using total_blocks_pos [OF inv] by (simp add: word_less_nat_alt)
  ultimately show ?thesis by blast
qed

section \<open>Pressure into the pipe\<close>

text \<open>What \<open>emit_to_pipe\<close> needs of the sink: a push of at most the available credits always goes
  through and takes exactly that many.\<close>

locale credit_sink =
  fixes push :: "'p \<Rightarrow> u32 \<Rightarrow> 'p"
    and avail :: "'p \<Rightarrow> u32"
    and inv :: "'p \<Rightarrow> bool"
  assumes push_avail: "n \<le> avail p \<Longrightarrow> unat (avail (push p n)) = unat (avail p) - unat n"
    and push_keeps: "inv p \<Longrightarrow> inv (push p n)"
begin

lemma push_min: "unat (avail (push p (min n (avail p)))) = unat (avail p) - unat n"
  using push_avail [of "min n (avail p)" p] by (simp add: unat_min)

lemma push_all: "avail (push p (avail p)) = 0"
  using push_avail [of "avail p" p] by (simp add: unat_eq_zero)

end

interpretation pipe_sink: credit_sink "\<lambda>p n. snd (pipe_push p n)" available_credits pipe_inv
  by unfold_locales (simp_all add: available_credits_def word_le_nat_alt pipe_push_credits pipe_push_inv)

lemma max_one_pos: "0 < unat (max (n :: u32) 1)"
  by (simp add: unat_max)

text \<open>Pressure drains the pipe in proportion: none at normal pressure, a quarter of the
  capacity (at least one credit, at most what is left) at the high-water mark, everything when the
  window is critical; the push is never refused and the pipe invariant is kept.\<close>

theorem emit_to_pipe_effect:
  assumes "pipe_inv p"
  shows "pipe_inv (emit_to_pipe v p)
    \<and> unat (available_credits (emit_to_pipe v p)) =
        (case check_pressure v of
           Normal \<Rightarrow> unat (available_credits p)
         | HighWater \<Rightarrow> unat (available_credits p) - max (unat (capacity p) div 4) 1
         | Critical \<Rightarrow> 0)
    \<and> capacity (emit_to_pipe v p) = capacity p
    \<and> (is_elevated (check_pressure v) \<longrightarrow> 0 < available_credits p \<longrightarrow>
         available_credits (emit_to_pipe v p) < available_credits p)"
proof -
  have cap: "capacity (snd (pipe_push p n)) = capacity p" for n by (simp add: pipe_push_def)
  have q: "unat (available_credits (snd (pipe_push p (min (max (capacity p div 4) 1) (available_credits p)))))
      = unat (available_credits p) - max (unat (capacity p) div 4) 1"
    using pipe_sink.push_min [of p "max (capacity p div 4) 1"] by (simp add: unat_max unat_div)
  show ?thesis
    using assms cap q pipe_sink.push_all [of p] pipe_sink.push_keeps [OF assms]
    by (cases "check_pressure v") (auto simp: emit_to_pipe_def Let_def word_less_nat_alt)
qed

lemma emit_to_pipe_effect_witness:
  "let p = pipe_new 100; v = with_blocks 60 64 16 in
     pipe_inv p \<and> check_pressure v = Critical \<and> available_credits (emit_to_pipe v p) = 0"
proof -
  have "check_pressure (with_blocks 60 64 16) = Critical"
    by (simp add: check_pressure_def with_blocks_def occupied_blocks_def total_blocks_def div_ceil_def
        Let_def word_le_nat_alt max_def min_def)
  with emit_to_pipe_effect [OF pipe_new_inv, of "with_blocks 60 64 16" 100] pipe_new_inv [of 100]
  show ?thesis by (simp add: Let_def unat_eq_zero)
qed

end
