(* ===== verification/Arc_Cache.thy ===== *)
theory Arc_Cache
  imports Anima_Prelude "HOL-Library.Multiset"
begin

text \<open>
  The L2 warm cache (\<^verbatim>\<open>crates/memory/src/l2_cache.rs\<close>): the adaptive replacement cache with its
  recency list T1, frequency list T2 and the ghost lists B1 and B2. Front of a list is the least
  recently used entry. The public \<^verbatim>\<open>ArcCache\<close> takes the lock for the whole of each inner operation,
  so a call of it is one step here.
\<close>

datatype PromotionHint = Recency | Frequency

record ('k, 'v) ArcCacheInner =
  arc_capacity :: nat
  p :: nat
  t1 :: "('k \<times> 'v) list"
  t2 :: "('k \<times> 'v) list"
  b1 :: "'k list"
  b2 :: "'k list"

definition arc_new :: "nat \<Rightarrow> ('k, 'v) ArcCacheInner" where
  "arc_new c = \<lparr>arc_capacity = max c 1, p = 0, t1 = [], t2 = [], b1 = [], b2 = []\<rparr>"

definition total_live :: "('k, 'v) ArcCacheInner \<Rightarrow> nat" where
  "total_live c = length (t1 c) + length (t2 c)"

text \<open>\<^verbatim>\<open>if ghosts.len() >= capacity { ghosts.pop_front(); } ghosts.push_back(k)\<close>.\<close>

definition push_ghost :: "nat \<Rightarrow> 'k \<Rightarrow> 'k list \<Rightarrow> 'k list" where
  "push_ghost cap k gs = (if cap \<le> length gs then tl gs else gs) @ [k]"

definition arc_replace :: "('k, 'v) ArcCacheInner \<Rightarrow> ('k, 'v) ArcCacheInner" where
  "arc_replace c =
     (if (max (p c) 1 \<le> length (t1 c) \<or> t2 c = []) \<and> t1 c \<noteq> []
      then c\<lparr>t1 := tl (t1 c), b1 := push_ghost (arc_capacity c) (fst (hd (t1 c))) (b1 c)\<rparr>
      else if t2 c \<noteq> []
      then c\<lparr>t2 := tl (t2 c), b2 := push_ghost (arc_capacity c) (fst (hd (t2 c))) (b2 c)\<rparr>
      else c)"

text \<open>\<^verbatim>\<open>iter().position(..)\<close> and \<^verbatim>\<open>remove(pos)\<close>: the first match and the list without it.\<close>

fun take_key :: "'k \<Rightarrow> ('k \<times> 'v) list \<Rightarrow> ('v \<times> ('k \<times> 'v) list) option" where
  "take_key k [] = None"
| "take_key k ((k', v) # xs) =
     (if k' = k then Some (v, xs)
      else map_option (\<lambda>(w, ys). (w, (k', v) # ys)) (take_key k xs))"

definition arc_get ::
  "('k, 'v) ArcCacheInner \<Rightarrow> 'k \<Rightarrow> ('v \<times> PromotionHint) option \<times> ('k, 'v) ArcCacheInner" where
  "arc_get c k =
     (case take_key k (t1 c) of
        Some (v, xs) \<Rightarrow> (Some (v, Recency), c\<lparr>t1 := xs, t2 := t2 c @ [(k, v)]\<rparr>)
      | None \<Rightarrow>
          (case take_key k (t2 c) of
             Some (v, xs) \<Rightarrow> (Some (v, Frequency), c\<lparr>t2 := xs @ [(k, v)]\<rparr>)
           | None \<Rightarrow> (None, c)))"

text \<open>\<^verbatim>\<open>iter_mut().rev().find(..)\<close> with an assignment: the last match is overwritten.\<close>

fun set_first :: "'k \<Rightarrow> 'v \<Rightarrow> ('k \<times> 'v) list \<Rightarrow> ('k \<times> 'v) list" where
  "set_first k v [] = []"
| "set_first k v ((k', w) # xs) = (if k' = k then (k', v) # xs else (k', w) # set_first k v xs)"

definition set_last :: "'k \<Rightarrow> 'v \<Rightarrow> ('k \<times> 'v) list \<Rightarrow> ('k \<times> 'v) list" where
  "set_last k v xs = rev (set_first k v (rev xs))"

definition make_room :: "('k, 'v) ArcCacheInner \<Rightarrow> ('k, 'v) ArcCacheInner" where
  "make_room c = (if arc_capacity c \<le> total_live c then arc_replace c else c)"

text \<open>The eviction step of a complete miss: a live entry when the cache is full, otherwise one ghost
  of the longer ghost list when the directory is.\<close>

definition miss_room :: "('k, 'v) ArcCacheInner \<Rightarrow> ('k, 'v) ArcCacheInner" where
  "miss_room c =
     (let ghosts = length (b1 c) + length (b2 c)
      in if arc_capacity c \<le> total_live c then arc_replace c
         else if arc_capacity c * 2 \<le> total_live c + ghosts then
           (if length (b2 c) < length (b1 c) then c\<lparr>b1 := tl (b1 c)\<rparr> else c\<lparr>b2 := tl (b2 c)\<rparr>)
         else c)"

definition arc_insert :: "('k, 'v) ArcCacheInner \<Rightarrow> 'k \<Rightarrow> 'v \<Rightarrow> ('k, 'v) ArcCacheInner" where
  "arc_insert c k v =
     (case arc_get c k of
        (Some _, c') \<Rightarrow> c'\<lparr>t2 := set_last k v (t2 c')\<rparr>
      | (None, _) \<Rightarrow>
          if k \<in> set (b1 c) then
            (let g = remove1 k (b1 c);
                 delta = max (length (b2 c) div max (length g) 1) 1;
                 c1 = make_room (c\<lparr>b1 := g, p := min (p c + delta) (arc_capacity c)\<rparr>)
             in c1\<lparr>t2 := t2 c1 @ [(k, v)]\<rparr>)
          else if k \<in> set (b2 c) then
            (let g = remove1 k (b2 c);
                 delta = max (length (b1 c) div max (length g) 1) 1;
                 c1 = make_room (c\<lparr>b2 := g, p := p c - delta\<rparr>)
             in c1\<lparr>t2 := t2 c1 @ [(k, v)]\<rparr>)
          else
            (let c1 = miss_room c in c1\<lparr>t1 := t1 c1 @ [(k, v)]\<rparr>))"

definition arc_retain ::
  "('k \<Rightarrow> 'v \<Rightarrow> bool) \<Rightarrow> ('k, 'v) ArcCacheInner \<Rightarrow> nat \<times> ('k, 'v) ArcCacheInner" where
  "arc_retain f c =
     (let c' = c\<lparr>t1 := filter (case_prod f) (t1 c), t2 := filter (case_prod f) (t2 c)\<rparr>
      in (total_live c - total_live c', c'))"

text \<open>The hits of \<^verbatim>\<open>hit_rate_on_trace\<close>; the source divides them by the trace length.\<close>

fun trace_hits :: "('k, 'v) ArcCacheInner \<Rightarrow> 'v \<Rightarrow> 'k list \<Rightarrow> nat \<times> ('k, 'v) ArcCacheInner" where
  "trace_hits c d [] = (0, c)"
| "trace_hits c d (k # ks) =
     (case arc_get c k of
        (Some _, c') \<Rightarrow> (let (n, c'') = trace_hits c' d ks in (Suc n, c''))
      | (None, c') \<Rightarrow> trace_hits (arc_insert c' k d) d ks)"

datatype ('k, 'v) arc_op = Get 'k | Insert 'k 'v | Retain "'k \<Rightarrow> 'v \<Rightarrow> bool"

fun arc_step :: "('k, 'v) ArcCacheInner \<Rightarrow> ('k, 'v) arc_op \<Rightarrow> ('k, 'v) ArcCacheInner" where
  "arc_step c (Get k) = snd (arc_get c k)"
| "arc_step c (Insert k v) = arc_insert c k v"
| "arc_step c (Retain f) = snd (arc_retain f c)"

section \<open>Invariant\<close>

text \<open>A live key is not a ghost and sits in one list once; live entries and each ghost list are
  within the capacity, and so is the target \<open>p\<close>.\<close>

definition arc_keys :: "('k, 'v) ArcCacheInner \<Rightarrow> 'k list" where
  "arc_keys c = map fst (t1 c) @ map fst (t2 c) @ b1 c @ b2 c"

definition arc_inv :: "('k, 'v) ArcCacheInner \<Rightarrow> bool" where
  "arc_inv c \<longleftrightarrow> 1 \<le> arc_capacity c \<and> distinct (arc_keys c) \<and> total_live c \<le> arc_capacity c
     \<and> length (b1 c) \<le> arc_capacity c \<and> length (b2 c) \<le> arc_capacity c \<and> p c \<le> arc_capacity c"

text \<open>The value a lookup would return.\<close>

definition arc_value :: "('k, 'v) ArcCacheInner \<Rightarrow> 'k \<Rightarrow> 'v option" where
  "arc_value c = map_of (t1 c @ t2 c)"

lemma take_key_None: "take_key k xs = None \<longleftrightarrow> k \<notin> fst ` set xs"
  by (induction k xs rule: take_key.induct) auto

lemma take_key_Some:
  "take_key k xs = Some (v, ys) \<Longrightarrow>
     \<exists>pre post. xs = pre @ (k, v) # post \<and> ys = pre @ post \<and> k \<notin> fst ` set pre"
proof (induction xs arbitrary: ys)
  case Nil
  then show ?case by simp
next
  case (Cons x xs)
  obtain a w where x: "x = (a, w)" by (cases x)
  show ?case
  proof (cases "a = k")
    case True
    with Cons.prems x show ?thesis by (intro exI [of _ "[]"] exI [of _ xs]) auto
  next
    case False
    with Cons.prems x obtain zs where "take_key k xs = Some (v, zs)" "ys = (a, w) # zs" by auto
    with Cons.IH [of zs] obtain pre post where
      "xs = pre @ (k, v) # post" "zs = pre @ post" "k \<notin> fst ` set pre" by auto
    with x False \<open>ys = (a, w) # zs\<close> show ?thesis
      by (intro exI [of _ "(a, w) # pre"] exI [of _ post]) auto
  qed
qed

lemma set_first_keys: "map fst (set_first k v xs) = map fst xs"
  by (induction xs) auto

lemma set_last_keys: "map fst (set_last k v xs) = map fst xs"
  by (simp add: set_last_def set_first_keys flip: rev_map)

lemma set_last_snoc: "set_last k v (xs @ [(k, w)]) = xs @ [(k, v)]"
  by (simp add: set_last_def)

lemma push_ghost_length: "1 \<le> cap \<Longrightarrow> length gs \<le> cap \<Longrightarrow> length (push_ghost cap k gs) \<le> cap"
  by (auto simp: push_ghost_def)

lemma set_push_ghost: "set (push_ghost cap k gs) \<subseteq> insert k (set gs)"
  by (cases gs) (auto simp: push_ghost_def)

lemma distinct_push_ghost: "distinct gs \<Longrightarrow> k \<notin> set gs \<Longrightarrow> distinct (push_ghost cap k gs)"
  by (cases gs) (auto simp: push_ghost_def)

text \<open>The directory as a multiset: what each operation may add to it.\<close>

abbreviation keys_mset :: "('k, 'v) ArcCacheInner \<Rightarrow> 'k multiset" where
  "keys_mset c \<equiv> mset (arc_keys c)"

lemma distinct_submset: "mset xs \<subseteq># mset ys \<Longrightarrow> distinct ys \<Longrightarrow> distinct xs"
proof -
  assume "mset xs \<subseteq># mset ys" and d: "distinct ys"
  then obtain M where "mset ys = mset xs + M" by (auto simp: mset_subset_eq_exists_conv)
  then obtain zs where "mset ys = mset (xs @ zs)" using ex_mset [of M] by auto
  with d have "distinct (xs @ zs)" using mset_eq_imp_distinct_iff by blast
  then show "distinct xs" by simp
qed

lemma mset_push_ghost: "mset (push_ghost cap k gs) \<subseteq># add_mset k (mset gs)"
  by (cases gs) (auto simp: push_ghost_def)

lemma keys_replace: "keys_mset (arc_replace c) \<subseteq># keys_mset c"
proof (cases "t1 c")
  case (Cons x xs)
  then show ?thesis
    using mset_push_ghost [of "arc_capacity c" "fst x" "b1 c"]
      mset_push_ghost [of "arc_capacity c" "fst (hd (t2 c))" "b2 c"]
    by (cases "t2 c") (auto simp: arc_replace_def arc_keys_def subset_mset.add_mono add.assoc
        simp del: subset_mset.add_le_cancel_left)
next
  case Nil
  then show ?thesis
    using mset_push_ghost [of "arc_capacity c" "fst (hd (t2 c))" "b2 c"]
    by (cases "t2 c") (auto simp: arc_replace_def arc_keys_def)
qed

lemma replace_frame: "arc_capacity (arc_replace c) = arc_capacity c" "p (arc_replace c) = p c"
  by (simp_all add: arc_replace_def)

lemma replace_live: "0 < total_live c \<Longrightarrow> total_live (arc_replace c) = total_live c - 1"
  by (cases "t1 c"; cases "t2 c") (auto simp: arc_replace_def total_live_def)

lemma replace_ghosts:
  "1 \<le> arc_capacity c \<Longrightarrow> length (b1 c) \<le> arc_capacity c \<Longrightarrow> length (b2 c) \<le> arc_capacity c \<Longrightarrow>
   length (b1 (arc_replace c)) \<le> arc_capacity c \<and> length (b2 (arc_replace c)) \<le> arc_capacity c"
  by (auto simp: arc_replace_def push_ghost_length)

lemma keys_make_room: "keys_mset (make_room c) \<subseteq># keys_mset c"
  by (simp add: make_room_def keys_replace)

text \<open>After making room there is a free slot, and everything but the slot is still in bounds.\<close>

lemma make_room_ok:
  assumes "1 \<le> arc_capacity c" and "total_live c \<le> arc_capacity c"
    and "length (b1 c) \<le> arc_capacity c" and "length (b2 c) \<le> arc_capacity c"
  shows "total_live (make_room c) < arc_capacity c" and "arc_capacity (make_room c) = arc_capacity c"
    and "p (make_room c) = p c" and "length (b1 (make_room c)) \<le> arc_capacity c"
    and "length (b2 (make_room c)) \<le> arc_capacity c"
  using assms replace_live [of c] replace_ghosts [of c]
  by (auto simp: make_room_def replace_frame)

lemma keys_get: "keys_mset (snd (arc_get c k)) = keys_mset c"
  by (auto simp: arc_get_def arc_keys_def dest!: take_key_Some split: option.splits prod.splits)

lemma get_frame:
  "arc_capacity (snd (arc_get c k)) = arc_capacity c" "p (snd (arc_get c k)) = p c"
  "b1 (snd (arc_get c k)) = b1 c" "b2 (snd (arc_get c k)) = b2 c"
  "total_live (snd (arc_get c k)) = total_live c"
  by (auto simp: arc_get_def total_live_def dest!: take_key_Some split: option.splits prod.splits)

lemma get_inv: "arc_inv c \<Longrightarrow> arc_inv (snd (arc_get c k))"
  using mset_eq_imp_distinct_iff [OF keys_get [of c k]]
  by (simp add: arc_inv_def get_frame)

lemma get_None: "fst (arc_get c k) = None \<longleftrightarrow> k \<notin> fst ` set (t1 c) \<union> fst ` set (t2 c)"
  by (auto simp: arc_get_def take_key_None simp flip: take_key_None split: option.splits)

lemma get_None_same: "fst (arc_get c k) = None \<Longrightarrow> snd (arc_get c k) = c"
  by (auto simp: arc_get_def split: option.splits)

text \<open>The three paths of an insert that is not a live hit end in the same way: a key that is in no
  list joins a live list with a free slot.\<close>

lemma admit_inv:
  assumes "arc_inv c" and "keys_mset c1 \<subseteq># keys_mset c - {#k#}"
    and "total_live c1 < arc_capacity c" and "arc_capacity c1 = arc_capacity c"
    and "length (b1 c1) \<le> arc_capacity c" and "length (b2 c1) \<le> arc_capacity c"
    and "p c1 \<le> arc_capacity c"
  shows "arc_inv (c1\<lparr>t1 := t1 c1 @ [(k, v)]\<rparr>)" and "arc_inv (c1\<lparr>t2 := t2 c1 @ [(k, v)]\<rparr>)"
proof -
  have d: "distinct (arc_keys c)" using assms(1) by (simp add: arc_inv_def)
  have "count (keys_mset c) k \<le> 1" using d by (simp add: distinct_count_atmost_1)
  then have "k \<notin># keys_mset c - {#k#}" by (simp add: not_in_iff)
  with assms(2) have "k \<notin># keys_mset c1" using mset_subset_eqD by fast
  then have "k \<notin> set (arc_keys c1)" by simp
  moreover have "distinct (arc_keys c1)"
    using assms(2) d distinct_submset [of "arc_keys c1" "arc_keys c"]
    by (meson diff_subset_eq_self subset_mset.order_trans)
  ultimately show "arc_inv (c1\<lparr>t1 := t1 c1 @ [(k, v)]\<rparr>)" and "arc_inv (c1\<lparr>t2 := t2 c1 @ [(k, v)]\<rparr>)"
    using assms by (auto simp: arc_inv_def arc_keys_def total_live_def)
qed

lemma remove1_keys_b1:
  "k \<in> set (b1 c) \<Longrightarrow> keys_mset (c\<lparr>b1 := remove1 k (b1 c), p := q\<rparr>) = keys_mset c - {#k#}"
  by (simp add: arc_keys_def)

lemma remove1_keys_b2:
  "k \<in> set (b2 c) \<Longrightarrow> keys_mset (c\<lparr>b2 := remove1 k (b2 c), p := q\<rparr>) = keys_mset c - {#k#}"
  by (simp add: arc_keys_def)

lemma arc_get_cases:
  obtains (recency) v xs where "take_key k (t1 c) = Some (v, xs)"
      "arc_get c k = (Some (v, Recency), c\<lparr>t1 := xs, t2 := t2 c @ [(k, v)]\<rparr>)"
  | (frequency) v xs where "take_key k (t1 c) = None" "take_key k (t2 c) = Some (v, xs)"
      "arc_get c k = (Some (v, Frequency), c\<lparr>t2 := xs @ [(k, v)]\<rparr>)"
  | (miss) "take_key k (t1 c) = None" "take_key k (t2 c) = None" "arc_get c k = (None, c)"
proof (cases "take_key k (t1 c)")
  case (Some vx)
  obtain v xs where "vx = (v, xs)" by (cases vx)
  with Some show ?thesis by (intro recency [of v xs]) (simp_all add: arc_get_def)
next
  case n1: None
  show ?thesis
  proof (cases "take_key k (t2 c)")
    case (Some vx)
    obtain v xs where "vx = (v, xs)" by (cases vx)
    with n1 Some show ?thesis by (intro frequency [of v xs]) (simp_all add: arc_get_def)
  next
    case None
    with n1 show ?thesis by (intro miss) (simp_all add: arc_get_def)
  qed
qed

lemma insert_hit:
  assumes "fst (arc_get c k) \<noteq> None"
  shows "arc_insert c k v = (snd (arc_get c k))\<lparr>t2 := set_last k v (t2 (snd (arc_get c k)))\<rparr>"
proof -
  from assms obtain r c' where "arc_get c k = (Some r, c')" by (metis not_None_eq prod.collapse)
  then show ?thesis unfolding arc_insert_def by (simp only: prod.case option.case fst_conv snd_conv)
qed

text \<open>The three branches of an insert that misses.\<close>

lemma insert_b1:
  assumes "arc_get c k = (None, c')" "k \<in> set (b1 c)"
    and "c0 = c\<lparr>b1 := remove1 k (b1 c), p := min (p c + max (length (b2 c) div max (length (remove1 k (b1 c))) 1) 1) (arc_capacity c)\<rparr>"
  shows "arc_insert c k v = (make_room c0)\<lparr>t2 := t2 (make_room c0) @ [(k, v)]\<rparr>"
  unfolding arc_insert_def assms(1,3) Let_def by (simp only: prod.case option.case assms(2) if_True)

lemma insert_b2:
  assumes "arc_get c k = (None, c')" "k \<notin> set (b1 c)" "k \<in> set (b2 c)"
    and "c0 = c\<lparr>b2 := remove1 k (b2 c), p := p c - max (length (b1 c) div max (length (remove1 k (b2 c))) 1) 1\<rparr>"
  shows "arc_insert c k v = (make_room c0)\<lparr>t2 := t2 (make_room c0) @ [(k, v)]\<rparr>"
  unfolding arc_insert_def assms(1,4) Let_def by (simp only: prod.case option.case assms(2,3) if_True if_False)

lemma insert_new:
  assumes "arc_get c k = (None, c')" "k \<notin> set (b1 c)" "k \<notin> set (b2 c)"
  shows "arc_insert c k v = (miss_room c)\<lparr>t1 := t1 (miss_room c) @ [(k, v)]\<rparr>"
  unfolding arc_insert_def assms(1) Let_def by (simp only: prod.case option.case assms(2,3) if_False)

lemma inv_set_t2: "arc_inv c \<Longrightarrow> map fst ys = map fst (t2 c) \<Longrightarrow> arc_inv (c\<lparr>t2 := ys\<rparr>)"
proof -
  assume "arc_inv c" and m: "map fst ys = map fst (t2 c)"
  moreover from m have "length ys = length (t2 c)" by (metis length_map)
  ultimately show "arc_inv (c\<lparr>t2 := ys\<rparr>)" by (simp add: arc_inv_def arc_keys_def total_live_def)
qed

lemma keys_miss_room: "keys_mset (miss_room c) \<subseteq># keys_mset c"
proof -
  have "keys_mset (c\<lparr>b1 := tl (b1 c)\<rparr>) \<subseteq># keys_mset c" by (cases "b1 c") (simp_all add: arc_keys_def)
  moreover have "keys_mset (c\<lparr>b2 := tl (b2 c)\<rparr>) \<subseteq># keys_mset c"
    by (cases "b2 c") (simp_all add: arc_keys_def)
  ultimately show ?thesis using keys_replace [of c] by (simp add: miss_room_def Let_def)
qed

lemma miss_room_ok:
  assumes "arc_inv c"
  shows "total_live (miss_room c) < arc_capacity c" "arc_capacity (miss_room c) = arc_capacity c"
    "length (b1 (miss_room c)) \<le> arc_capacity c" "length (b2 (miss_room c)) \<le> arc_capacity c"
    "p (miss_room c) \<le> arc_capacity c"
proof -
  have live: "total_live (c\<lparr>b1 := g\<rparr>) = total_live c" "total_live (c\<lparr>b2 := g\<rparr>) = total_live c" for g
    by (simp_all add: total_live_def)
  have "arc_capacity c \<le> total_live c \<Longrightarrow> total_live (arc_replace c) < arc_capacity c"
    using assms replace_live [of c] by (simp add: arc_inv_def)
  with assms replace_ghosts [of c]
  show "total_live (miss_room c) < arc_capacity c" "arc_capacity (miss_room c) = arc_capacity c"
    "length (b1 (miss_room c)) \<le> arc_capacity c" "length (b2 (miss_room c)) \<le> arc_capacity c"
    "p (miss_room c) \<le> arc_capacity c"
    by (simp_all add: miss_room_def Let_def arc_inv_def replace_frame live le_trans [OF diff_le_self])
qed

lemma ghost_admit_inv:
  assumes inv: "arc_inv c" and keys: "keys_mset c0 = keys_mset c - {#k#}"
    and cap: "arc_capacity c0 = arc_capacity c" and live: "total_live c0 = total_live c"
    and gh: "length (b1 c0) \<le> arc_capacity c" "length (b2 c0) \<le> arc_capacity c"
    and p: "p c0 \<le> arc_capacity c"
  shows "arc_inv ((make_room c0)\<lparr>t2 := t2 (make_room c0) @ [(k, v)]\<rparr>)"
proof (rule admit_inv(2) [OF inv])
  have "1 \<le> arc_capacity c0" "total_live c0 \<le> arc_capacity c0"
    "length (b1 c0) \<le> arc_capacity c0" "length (b2 c0) \<le> arc_capacity c0"
    using inv cap live gh by (simp_all add: arc_inv_def)
  note m = make_room_ok [OF this]
  show "keys_mset (make_room c0) \<subseteq># keys_mset c - {#k#}" using keys_make_room [of c0] keys by simp
  show "total_live (make_room c0) < arc_capacity c" "arc_capacity (make_room c0) = arc_capacity c"
    "length (b1 (make_room c0)) \<le> arc_capacity c" "length (b2 (make_room c0)) \<le> arc_capacity c"
    "p (make_room c0) \<le> arc_capacity c"
    using m cap p by simp_all
qed

lemma insert_inv:
  assumes inv: "arc_inv c" shows "arc_inv (arc_insert c k v)"
proof (cases "fst (arc_get c k) = None")
  case False
  with get_inv [OF inv, of k] show ?thesis
    by (simp add: insert_hit inv_set_t2 set_last_keys)
next
  case True
  then have miss: "arc_get c k = (None, c)" using get_None_same [OF True] by (simp add: prod_eq_iff)
  from True have nl: "k \<notin> fst ` set (t1 c)" "k \<notin> fst ` set (t2 c)" by (simp_all add: get_None)
  note i = inv [unfolded arc_inv_def]
  show ?thesis
  proof (cases "k \<in> set (b1 c)")
    case b1: True
    let ?c0 = "c\<lparr>b1 := remove1 k (b1 c), p := min (p c + max (length (b2 c) div
      max (length (remove1 k (b1 c))) 1) 1) (arc_capacity c)\<rparr>"
    have "length (remove1 k (b1 c)) \<le> length (b1 c)" by (simp add: length_remove1)
    then have "arc_inv ((make_room ?c0)\<lparr>t2 := t2 (make_room ?c0) @ [(k, v)]\<rparr>)"
      using i by (intro ghost_admit_inv [OF inv remove1_keys_b1 [OF b1]]) (simp_all add: total_live_def)
    then show ?thesis by (simp only: insert_b1 [OF miss b1 refl])
  next
    case nb1: False
    show ?thesis
    proof (cases "k \<in> set (b2 c)")
      case b2: True
      let ?c0 = "c\<lparr>b2 := remove1 k (b2 c), p := p c - max (length (b1 c) div
        max (length (remove1 k (b2 c))) 1) 1\<rparr>"
      have "length (remove1 k (b2 c)) \<le> length (b2 c)" by (simp add: length_remove1)
      then have "arc_inv ((make_room ?c0)\<lparr>t2 := t2 (make_room ?c0) @ [(k, v)]\<rparr>)"
        using i by (intro ghost_admit_inv [OF inv remove1_keys_b2 [OF b2]])
          (simp_all add: total_live_def le_trans [OF diff_le_self])
      then show ?thesis by (simp only: insert_b2 [OF miss nb1 b2 refl])
    next
      case nb2: False
      have "keys_mset c - {#k#} = keys_mset c"
        using nl nb1 nb2 by (intro diff_single_trivial) (auto simp: arc_keys_def)
      with keys_miss_room [of c] miss_room_ok [OF inv]
      have "arc_inv ((miss_room c)\<lparr>t1 := t1 (miss_room c) @ [(k, v)]\<rparr>)"
        by (intro admit_inv(1) [OF inv]) simp_all
      then show ?thesis by (simp only: insert_new [OF miss nb1 nb2])
    qed
  qed
qed

lemma mset_fst_filter: "mset (map fst (filter P xs)) \<subseteq># mset (map fst xs)"
  by (simp add: image_mset_subseteq_mono multiset_filter_subset mset_filter)

lemma retain_inv: "arc_inv c \<Longrightarrow> arc_inv (snd (arc_retain f c))"
proof -
  assume inv: "arc_inv c"
  have "keys_mset (snd (arc_retain f c)) \<subseteq># keys_mset c"
    using subset_mset.add_mono [OF mset_fst_filter [of "case_prod f" "t1 c"] mset_fst_filter [of "case_prod f" "t2 c"]]
    by (simp add: arc_retain_def Let_def arc_keys_def del: mset_map)
  then have "distinct (arc_keys (snd (arc_retain f c)))"
    using inv distinct_submset by (auto simp: arc_inv_def)
  moreover have "total_live (snd (arc_retain f c)) \<le> total_live c"
    using add_mono [OF length_filter_le [of "case_prod f" "t1 c"] length_filter_le [of "case_prod f" "t2 c"]]
    by (simp add: arc_retain_def Let_def total_live_def)
  ultimately show ?thesis using inv
    by (simp add: arc_inv_def arc_retain_def Let_def)
qed

lemma arc_new_inv: "arc_inv (arc_new c)"
  by (simp add: arc_inv_def arc_new_def arc_keys_def total_live_def)

interpretation arc_machine: op_machine arc_step arc_inv
proof unfold_locales
  fix c :: "('a, 'b) ArcCacheInner" and x
  assume "arc_inv c"
  then show "arc_inv (arc_step c x)"
    by (cases x) (simp_all add: get_inv insert_inv retain_inv)
qed

section \<open>Behaviour\<close>

text \<open>C38: the cache stays well-formed under any sequence of lookups, inserts and retain passes: the
  live entries never exceed the capacity, no key is in two of the four lists or twice in one, each
  ghost list and the adaptive target stay within the capacity.\<close>

theorem arc_run_well_formed:
  fixes xs :: "('k, 'v) arc_op list" and cap :: nat
  defines "c \<equiv> foldl arc_step (arc_new cap) xs"
  shows "total_live c \<le> arc_capacity c \<and> distinct (map fst (t1 c) @ map fst (t2 c) @ b1 c @ b2 c)
    \<and> length (b1 c) \<le> arc_capacity c \<and> length (b2 c) \<le> arc_capacity c \<and> p c \<le> arc_capacity c"
proof -
  have "arc_inv c" unfolding c_def by (rule arc_machine.run_inv) (rule arc_new_inv)
  then show ?thesis by (simp add: arc_inv_def arc_keys_def)
qed

abbreviation live_set :: "('k, 'v) ArcCacheInner \<Rightarrow> ('k \<times> 'v) set" where
  "live_set c \<equiv> set (t1 c) \<union> set (t2 c)"

lemma arc_value_iff: "arc_inv c \<Longrightarrow> arc_value c k = Some v \<longleftrightarrow> (k, v) \<in> live_set c"
proof -
  assume "arc_inv c"
  then have "distinct (map fst (t1 c @ t2 c))" by (auto simp: arc_inv_def arc_keys_def)
  then show ?thesis unfolding arc_value_def
    by (simp only: map_of_eq_Some_iff set_append)
qed

lemma arc_value_eqI:
  "arc_inv c \<Longrightarrow> arc_inv d \<Longrightarrow> (\<And>v. (k, v) \<in> live_set c \<longleftrightarrow> (k, v) \<in> live_set d) \<Longrightarrow>
   arc_value c k = arc_value d k"
  by (metis arc_value_iff not_None_eq option.sel)

lemma live_get: "live_set (snd (arc_get c k)) = live_set c"
  by (cases k c rule: arc_get_cases) (auto dest!: take_key_Some)

lemma live_replace: "live_set (arc_replace c) \<subseteq> live_set c"
  by (cases "t1 c"; cases "t2 c") (auto simp: arc_replace_def)

lemma live_make_room: "live_set (make_room c) \<subseteq> live_set c"
  "total_live c < arc_capacity c \<Longrightarrow> live_set (make_room c) = live_set c"
  using live_replace [of c] by (simp_all add: make_room_def)

lemma live_miss_room: "live_set (miss_room c) \<subseteq> live_set c"
  "total_live c < arc_capacity c \<Longrightarrow> live_set (miss_room c) = live_set c"
  using live_replace [of c] by (simp_all add: miss_room_def Let_def)

lemma make_room_total: "total_live c \<le> Suc (total_live (make_room c))"
  using replace_live [of c] by (cases "total_live c = 0") (auto simp: make_room_def)

lemma miss_room_total: "total_live c \<le> Suc (total_live (miss_room c))"
  using replace_live [of c]
  by (cases "total_live c = 0") (auto simp: miss_room_def Let_def total_live_def)

lemma make_room_insert:
  assumes "live_set c0 = live_set c" "total_live c0 = total_live c" "arc_capacity c0 = arc_capacity c"
    and "u = (make_room c0)\<lparr>t2 := t2 (make_room c0) @ [(k, v)]\<rparr>"
  shows "live_set u = insert (k, v) (live_set (make_room c0))" "live_set (make_room c0) \<subseteq> live_set c"
    "total_live c < arc_capacity c \<Longrightarrow> live_set (make_room c0) = live_set c" "total_live c \<le> total_live u"
  using live_make_room [of c0] make_room_total [of c0] assms(1-3) unfolding assms(4) by (auto simp: total_live_def)

text \<open>An insert that is not a live hit adds its entry to what the eviction step left.\<close>

lemma insert_miss:
  assumes "arc_value c k = None"
  obtains c1 where "live_set (arc_insert c k v) = insert (k, v) (live_set c1)"
    "live_set c1 \<subseteq> live_set c" "total_live c < arc_capacity c \<Longrightarrow> live_set c1 = live_set c"
    "total_live c \<le> total_live (arc_insert c k v)"
proof -
  from assms have nl: "fst (arc_get c k) = None"
    by (auto simp: get_None arc_value_def map_of_eq_None_iff)
  then have miss: "arc_get c k = (None, c)" using get_None_same [OF nl] by (simp add: prod_eq_iff)
  show ?thesis
  proof (cases "k \<in> set (b1 c)")
    case True
    let ?c0 = "c\<lparr>b1 := remove1 k (b1 c), p := min (p c + max (length (b2 c) div
      max (length (remove1 k (b1 c))) 1) 1) (arc_capacity c)\<rparr>"
    have z: "live_set ?c0 = live_set c" "total_live ?c0 = total_live c" "arc_capacity ?c0 = arc_capacity c"
      by (simp_all add: total_live_def)
    from make_room_insert [OF z insert_b1 [OF miss True refl]] show ?thesis by (rule that)
  next
    case nb1: False
    show ?thesis
    proof (cases "k \<in> set (b2 c)")
      case True
      let ?c0 = "c\<lparr>b2 := remove1 k (b2 c), p := p c - max (length (b1 c) div
        max (length (remove1 k (b2 c))) 1) 1\<rparr>"
      have z: "live_set ?c0 = live_set c" "total_live ?c0 = total_live c" "arc_capacity ?c0 = arc_capacity c"
        by (simp_all add: total_live_def)
      from make_room_insert [OF z insert_b2 [OF miss nb1 True refl]] show ?thesis by (rule that)
    next
      case False
      have "arc_insert c k v = (miss_room c)\<lparr>t1 := t1 (miss_room c) @ [(k, v)]\<rparr>"
        by (rule insert_new [OF miss nb1 False])
      with live_miss_room [of c] miss_room_total [of c] show ?thesis
        by (intro that [of "miss_room c"]) (simp_all add: total_live_def)
    qed
  qed
qed

text \<open>Inserting stores the value (whatever list the key was in), leaves every other live entry
  as it is except for at most one victim, and evicts nothing when the key was live or a slot was
  free.\<close>

theorem arc_insert_lookup:
  assumes inv: "arc_inv c"
  shows "arc_value (arc_insert c k v) k = Some v
    \<and> (\<forall>j. j \<noteq> k \<longrightarrow> arc_value (arc_insert c k v) j \<in> {None, arc_value c j})
    \<and> (arc_value c k \<noteq> None \<or> total_live c < arc_capacity c \<longrightarrow>
         (\<forall>j. j \<noteq> k \<longrightarrow> arc_value (arc_insert c k v) j = arc_value c j))
    \<and> total_live c \<le> total_live (arc_insert c k v)"
proof (cases "arc_value c k")
  case None
  from insert_miss [OF None, of v] obtain c1 where
    l: "live_set (arc_insert c k v) = insert (k, v) (live_set c1)" "live_set c1 \<subseteq> live_set c"
    "total_live c < arc_capacity c \<Longrightarrow> live_set c1 = live_set c"
    and t: "total_live c \<le> total_live (arc_insert c k v)" by blast
  note val = arc_value_iff [OF insert_inv [OF inv]] arc_value_iff [OF inv]
  have "arc_value (arc_insert c k v) k = Some v" using l by (simp add: val)
  moreover have "arc_value (arc_insert c k v) j \<in> {None, arc_value c j}" if "j \<noteq> k" for j
  proof (cases "arc_value (arc_insert c k v) j")
    case (Some u)
    with that l have "arc_value c j = Some u" by (auto simp: val)
    with Some show ?thesis by simp
  qed simp
  moreover have "arc_value (arc_insert c k v) j = arc_value c j"
    if "j \<noteq> k" "total_live c < arc_capacity c" for j
    using that l by (intro arc_value_eqI insert_inv inv) auto
  ultimately show ?thesis using None t by simp
next
  case (Some w)
  then have "(k, w) \<in> live_set c" using arc_value_iff [OF inv] by blast
  then have hit: "fst (arc_get c k) \<noteq> None"
    unfolding get_None using image_eqI [of k fst "(k, w)"] by auto
  let ?d = "snd (arc_get c k)"
  obtain xs u where t2: "t2 ?d = xs @ [(k, u)]"
    using hit by (cases k c rule: arc_get_cases) auto
  have ins: "arc_insert c k v = ?d\<lparr>t2 := xs @ [(k, v)]\<rparr>" by (simp add: insert_hit [OF hit] t2 set_last_snoc)
  have other: "arc_value (arc_insert c k v) j = arc_value c j" if "j \<noteq> k" for j
    using that live_get [of c k] t2 by (intro arc_value_eqI insert_inv inv) (auto simp: ins)
  have "arc_value (arc_insert c k v) k = Some v"
    by (simp add: arc_value_iff [OF insert_inv [OF inv]]) (simp add: ins)
  moreover have "total_live (arc_insert c k v) = total_live c"
    using get_frame(5) [of c k] t2 by (simp add: ins total_live_def)
  ultimately show ?thesis using other by auto
qed

lemma arc_insert_lookup_witness:
  "arc_inv (arc_new 2 :: (nat, nat) ArcCacheInner) \<and> arc_value (arc_insert (arc_new 2) (5 :: nat) (7 :: nat)) 5 = Some 7"
  using arc_insert_lookup [OF arc_new_inv [of 2], of "5 :: nat" "7 :: nat"] arc_new_inv by blast

text \<open>A lookup returns exactly the stored value, with the hint that tells the two live lists
  apart, never changes what the cache holds, and moves the entry to the frequency list, so that the
  next lookup of the same key recommends promotion.\<close>

theorem arc_get_correct:
  assumes inv: "arc_inv c"
  shows "map_option fst (fst (arc_get c k)) = arc_value c k
    \<and> arc_value (snd (arc_get c k)) = arc_value c
    \<and> map_option snd (fst (arc_get c k)) =
        (if k \<in> fst ` set (t1 c) then Some Recency else if k \<in> fst ` set (t2 c) then Some Frequency else None)
    \<and> (arc_value c k = Some v \<longrightarrow> fst (arc_get (snd (arc_get c k)) k) = Some (v, Frequency))"
proof -
  let ?d = "snd (arc_get c k)"
  have hint: "map_option snd (fst (arc_get c k)) =
        (if k \<in> fst ` set (t1 c) then Some Recency else if k \<in> fst ` set (t2 c) then Some Frequency else None)"
    by (cases k c rule: arc_get_cases)
      (auto simp: take_key_None image_iff dest!: take_key_Some)
  have val: "map_option fst (fst (arc_get c k)) = arc_value c k" if "arc_inv c" for c :: "('a, 'b) ArcCacheInner"
  proof (cases k c rule: arc_get_cases)
    case (recency w xs)
    then show ?thesis using arc_value_iff [OF that, of k w] by (auto dest!: take_key_Some)
  next
    case (frequency w xs)
    then show ?thesis using arc_value_iff [OF that, of k w] by (auto dest!: take_key_Some)
  next
    case miss
    then have "map_of (t1 c @ t2 c) k = None" unfolding take_key_None map_of_eq_None_iff by auto
    with miss show ?thesis by (simp only: arc_value_def fst_conv option.map)
  qed
  have same: "arc_value ?d = arc_value c"
    by (rule ext, rule arc_value_eqI [OF get_inv [OF inv] inv]) (simp add: live_get [of c k])
  have "fst (arc_get ?d k) = Some (v, Frequency)" if v: "arc_value c k = Some v"
  proof -
    have dist: "distinct (map fst (t1 ?d) @ map fst (t2 ?d))"
      using get_inv [OF inv, of k] by (auto simp: arc_inv_def arc_keys_def)
    have "fst (arc_get c k) \<noteq> None" using v val [OF inv] by auto
    then obtain xs u where t2: "t2 ?d = xs @ [(k, u)]"
      by (cases k c rule: arc_get_cases) auto
    with dist have "k \<notin> fst ` set (t1 ?d)" by auto
    moreover have "map_option fst (fst (arc_get ?d k)) = Some v" using val [OF get_inv [OF inv]] same v by simp
    ultimately show ?thesis by (cases k ?d rule: arc_get_cases) (auto dest!: take_key_Some)
  qed
  with hint val [OF inv] same show ?thesis by blast
qed

lemma arc_get_correct_witness:
  "let c = arc_insert (arc_new 2) (5 :: nat) (7 :: nat) in
     arc_inv c \<and> fst (arc_get (snd (arc_get c 5)) 5) = Some (7, Frequency)"
proof -
  have inv: "arc_inv (arc_insert (arc_new 2) (5 :: nat) (7 :: nat))" by (intro insert_inv arc_new_inv)
  have "arc_value (arc_insert (arc_new 2) (5 :: nat) (7 :: nat)) 5 = Some 7"
    by (simp add: arc_value_def arc_insert_def arc_get_def arc_new_def miss_room_def total_live_def Let_def)
  with arc_get_correct [OF inv, of 5 7] inv show ?thesis by (simp add: Let_def)
qed

text \<open>The insert path keeps only the bounds above: with one slot, three distinct keys leave one live
  entry and two ghosts in the directory, more than twice the capacity.\<close>

lemma arc_directory_exceeds_double:
  "let c = arc_insert (arc_insert (snd (arc_get (arc_insert (arc_new 1) 1 ()) 1)) 2 ()) (3 :: nat) ()
   in arc_capacity c = 1 \<and> length (arc_keys c) = 3"
  by (simp add: Let_def arc_insert_def arc_get_def arc_new_def miss_room_def total_live_def arc_replace_def
      push_ghost_def arc_keys_def)

end
