(* ===== verification/Users.thy ===== *)
theory Users
  imports Anima_Prelude
begin

text \<open>
  Users (\<^verbatim>\<open>crates/users/src\<close>): trust tiers and profiles (\<^verbatim>\<open>profile.rs\<close>), consent records (\<^verbatim>\<open>consent.rs\<close>),
  the registry with its file (\<^verbatim>\<open>registry.rs\<close>); and the enforcement of consent (\<^verbatim>\<open>crates/consent/src/lib.rs\<close>). The
  clock is an argument. The serialiser and its parser are third-party code and arguments of the operations that use
  them; the raw content of the file is their type. Error texts are constructors.
\<close>

section \<open>Trust tiers\<close>

datatype TrustTier = Unknown | Verified | Trusted | Operator

fun tier_rank :: "TrustTier \<Rightarrow> nat" where
  "tier_rank Unknown = 0"
| "tier_rank Verified = 1"
| "tier_rank Trusted = 2"
| "tier_rank Operator = 3"

lemma tier_rank_inj: "tier_rank a = tier_rank b \<longleftrightarrow> a = b"
  by (cases a; cases b) simp_all

instantiation TrustTier :: linorder
begin

definition less_eq_TrustTier :: "TrustTier \<Rightarrow> TrustTier \<Rightarrow> bool" where
  "less_eq_TrustTier a b \<longleftrightarrow> tier_rank a \<le> tier_rank b"

definition less_TrustTier :: "TrustTier \<Rightarrow> TrustTier \<Rightarrow> bool" where
  "less_TrustTier a b \<longleftrightarrow> tier_rank a < tier_rank b"

instance
  by standard (auto simp: less_eq_TrustTier_def less_TrustTier_def tier_rank_inj)

end

fun tier_as_str :: "TrustTier \<Rightarrow> string" where
  "tier_as_str Unknown = ''unknown''"
| "tier_as_str Verified = ''verified''"
| "tier_as_str Trusted = ''trusted''"
| "tier_as_str Operator = ''operator''"

definition tier_at_least :: "TrustTier \<Rightarrow> TrustTier \<Rightarrow> bool" where
  "tier_at_least t minimum \<longleftrightarrow> minimum \<le> t"

definition tier_from_str :: "string \<Rightarrow> TrustTier option" where
  "tier_from_str s = (if s = ''unknown'' then Some Unknown else if s = ''verified'' then Some Verified
     else if s = ''trusted'' then Some Trusted else if s = ''operator'' then Some Operator else None)"

section \<open>Profiles\<close>

record UserProfile =
  profile_user_id :: string
  display_name :: string
  user_channel :: string
  user_tier :: TrustTier
  user_created_at_ns :: u64
  last_seen_ns :: u64
  facts :: "(string \<times> string) list"
  profile_schema_version :: u32

definition user_profile_new :: "string \<Rightarrow> string \<Rightarrow> string \<Rightarrow> u64 \<Rightarrow> UserProfile" where
  "user_profile_new i n c now = \<lparr>profile_user_id = i, display_name = n, user_channel = c, user_tier = Unknown, user_created_at_ns = now,
     last_seen_ns = now, facts = [], profile_schema_version = 1\<rparr>"

definition profile_make_id :: "string \<Rightarrow> string \<Rightarrow> string" where
  "profile_make_id channel platform = channel @ '':'' @ platform"

definition profile_set_fact :: "UserProfile \<Rightarrow> string \<Rightarrow> string \<Rightarrow> string option \<times> UserProfile" where
  "profile_set_fact p k v = (hm_get (facts p) k, p\<lparr>facts := hm_insert k v (facts p)\<rparr>)"

definition profile_get_fact :: "UserProfile \<Rightarrow> string \<Rightarrow> string option" where
  "profile_get_fact p k = hm_get (facts p) k"

definition profile_touch :: "UserProfile \<Rightarrow> u64 \<Rightarrow> UserProfile" where
  "profile_touch p now = p\<lparr>last_seen_ns := now\<rparr>"

section \<open>Consent records\<close>

datatype DataCategory = EpisodicMemory | IdentityFacts | UsageStats | KnowledgeCorpus

fun category_as_str :: "DataCategory \<Rightarrow> string" where
  "category_as_str EpisodicMemory = ''episodic_memory''"
| "category_as_str IdentityFacts = ''identity_facts''"
| "category_as_str UsageStats = ''usage_stats''"
| "category_as_str KnowledgeCorpus = ''knowledge_corpus''"

definition all_categories :: "DataCategory list" where
  "all_categories = [EpisodicMemory, IdentityFacts, UsageStats, KnowledgeCorpus]"

definition category_from_str :: "string \<Rightarrow> DataCategory option" where
  "category_from_str s = (if s = ''episodic_memory'' then Some EpisodicMemory
     else if s = ''identity_facts'' then Some IdentityFacts else if s = ''usage_stats'' then Some UsageStats
     else if s = ''knowledge_corpus'' then Some KnowledgeCorpus else None)"

record Grant =
  granted :: bool
  expires_at_ns :: "u64 option"
  grant_updated_at_ns :: u64

definition grant_perpetual :: "bool \<Rightarrow> u64 \<Rightarrow> Grant" where
  "grant_perpetual g now = \<lparr>granted = g, expires_at_ns = None, grant_updated_at_ns = now\<rparr>"

definition grant_until :: "bool \<Rightarrow> u64 \<Rightarrow> u64 \<Rightarrow> Grant" where
  "grant_until g e now = \<lparr>granted = g, expires_at_ns = Some e, grant_updated_at_ns = now\<rparr>"

definition grant_is_active :: "Grant \<Rightarrow> u64 \<Rightarrow> bool" where
  "grant_is_active g now \<longleftrightarrow> granted g \<and> (case expires_at_ns g of None \<Rightarrow> True | Some e \<Rightarrow> now < e)"

type_synonym ConsentRecord = "(string \<times> Grant) list"

definition consent_new :: ConsentRecord where
  "consent_new = []"

definition consent_set :: "ConsentRecord \<Rightarrow> DataCategory \<Rightarrow> bool \<Rightarrow> u64 \<Rightarrow> ConsentRecord" where
  "consent_set r c g now = hm_insert (category_as_str c) (grant_perpetual g now) r"

definition consent_set_until :: "ConsentRecord \<Rightarrow> DataCategory \<Rightarrow> bool \<Rightarrow> u64 \<Rightarrow> u64 \<Rightarrow> ConsentRecord" where
  "consent_set_until r c g e now = hm_insert (category_as_str c) (grant_until g e now) r"

definition is_consented :: "ConsentRecord \<Rightarrow> DataCategory \<Rightarrow> u64 \<Rightarrow> bool" where
  "is_consented r c now \<longleftrightarrow> (case hm_get r (category_as_str c) of None \<Rightarrow> False | Some g \<Rightarrow> grant_is_active g now)"

definition consented_count :: "ConsentRecord \<Rightarrow> u64 \<Rightarrow> nat" where
  "consented_count r now = length (filter (\<lambda>g. grant_is_active g now) (map snd r))"

section \<open>Registry\<close>

record UserRecord =
  profile :: UserProfile
  consent :: ConsentRecord

definition user_record_new :: "UserProfile \<Rightarrow> UserRecord" where
  "user_record_new p = \<lparr>profile = p, consent = consent_new\<rparr>"

datatype UserRegistryError = UserExists string | UserNotFound string | UserIo

record RegistryFile =
  registry_schema_version :: u32
  registry_users :: "(string \<times> UserRecord) list"

record 'raw UserRegistry =
  users :: "(string \<times> UserRecord) list"
  users_path :: bool
  users_file :: "'raw option"

definition users_open :: "('raw \<Rightarrow> RegistryFile option) \<Rightarrow> 'raw option \<Rightarrow> UserRegistryError + 'raw UserRegistry" where
  "users_open from_json f =
     (case f of
        None \<Rightarrow> Inr \<lparr>users = [], users_path = True, users_file = None\<rparr>
      | Some raw \<Rightarrow> (case from_json raw of
            None \<Rightarrow> Inl UserIo
          | Some rf \<Rightarrow> Inr \<lparr>users = registry_users rf, users_path = True, users_file = Some raw\<rparr>))"

definition users_in_memory :: "'raw option \<Rightarrow> 'raw UserRegistry" where
  "users_in_memory f = \<lparr>users = [], users_path = False, users_file = f\<rparr>"

definition user_register :: "'raw UserRegistry \<Rightarrow> UserProfile \<Rightarrow> (UserRegistryError + unit) \<times> 'raw UserRegistry" where
  "user_register r p =
     (if hm_contains (users r) (profile_user_id p) then (Inl (UserExists (profile_user_id p)), r)
      else (Inr (), r\<lparr>users := hm_insert (profile_user_id p) (user_record_new p) (users r)\<rparr>))"

definition user_upsert :: "'raw UserRegistry \<Rightarrow> UserProfile \<Rightarrow> bool \<times> 'raw UserRegistry" where
  "user_upsert r p =
     (case hm_get (users r) (profile_user_id p) of
        Some rec \<Rightarrow> (False, r\<lparr>users := hm_insert (profile_user_id p) (rec\<lparr>profile := p\<rparr>) (users r)\<rparr>)
      | None \<Rightarrow> (True, r\<lparr>users := hm_insert (profile_user_id p) (user_record_new p) (users r)\<rparr>))"

definition user_get :: "'raw UserRegistry \<Rightarrow> string \<Rightarrow> UserRecord option" where
  "user_get r i = hm_get (users r) i"

text \<open>What the callers do through \<^verbatim>\<open>get_mut\<close>: replace the consent of one user.\<close>

definition user_update_consent :: "'raw UserRegistry \<Rightarrow> string \<Rightarrow> (ConsentRecord \<Rightarrow> ConsentRecord) \<Rightarrow> 'raw UserRegistry" where
  "user_update_consent r i f =
     (case hm_get (users r) i of
        Some rec \<Rightarrow> r\<lparr>users := hm_insert i (rec\<lparr>consent := f (consent rec)\<rparr>) (users r)\<rparr>
      | None \<Rightarrow> r)"

definition user_remove :: "'raw UserRegistry \<Rightarrow> string \<Rightarrow> (UserRegistryError + UserRecord) \<times> 'raw UserRegistry" where
  "user_remove r i =
     (case hm_get (users r) i of
        Some rec \<Rightarrow> (Inr rec, r\<lparr>users := hm_remove i (users r)\<rparr>)
      | None \<Rightarrow> (Inl (UserNotFound i), r))"

definition user_set_trust ::
  "'raw UserRegistry \<Rightarrow> string \<Rightarrow> TrustTier \<Rightarrow> u64 \<Rightarrow> (UserRegistryError + TrustTier \<times> TrustTier) \<times> 'raw UserRegistry" where
  "user_set_trust r i t now =
     (case hm_get (users r) i of
        None \<Rightarrow> (Inl (UserNotFound i), r)
      | Some rec \<Rightarrow> (Inr (user_tier (profile rec), t),
          r\<lparr>users := hm_insert i (rec\<lparr>profile := profile_touch ((profile rec)\<lparr>user_tier := t\<rparr>) now\<rparr>) (users r)\<rparr>))"

definition user_set_fact ::
  "'raw UserRegistry \<Rightarrow> string \<Rightarrow> string \<Rightarrow> string \<Rightarrow> u64 \<Rightarrow> (UserRegistryError + string option) \<times> 'raw UserRegistry" where
  "user_set_fact r i k v now =
     (case hm_get (users r) i of
        None \<Rightarrow> (Inl (UserNotFound i), r)
      | Some rec \<Rightarrow> (let (old, p) = profile_set_fact (profile_touch (profile rec) now) k v in
          (Inr old, r\<lparr>users := hm_insert i (rec\<lparr>profile := p\<rparr>) (users r)\<rparr>)))"

definition users_len :: "'raw UserRegistry \<Rightarrow> nat" where
  "users_len r = length (users r)"

definition users_flush ::
  "(RegistryFile \<Rightarrow> 'raw option) \<Rightarrow> bool \<Rightarrow> 'raw UserRegistry \<Rightarrow> (UserRegistryError + unit) \<times> 'raw UserRegistry" where
  "users_flush to_json write_ok r =
     (if \<not> users_path r then (Inr (), r)
      else case to_json \<lparr>registry_schema_version = 1, registry_users = users r\<rparr> of
          None \<Rightarrow> (Inl UserIo, r)
        | Some raw \<Rightarrow> if write_ok then (Inr (), r\<lparr>users_file := Some raw\<rparr>) else (Inl UserIo, r))"

section \<open>Enforcement of consent\<close>

datatype ConsentCheckOutcome = WriteAllowed | WriteDenied string DataCategory

definition outcome_is_allowed :: "ConsentCheckOutcome \<Rightarrow> bool" where
  "outcome_is_allowed out \<longleftrightarrow> out = WriteAllowed"

definition check_write_allowed :: "string \<Rightarrow> DataCategory \<Rightarrow> ConsentRecord \<Rightarrow> u64 \<Rightarrow> ConsentCheckOutcome" where
  "check_write_allowed i c r now = (if is_consented r c now then WriteAllowed else WriteDenied i c)"

record RevocationDirective =
  rd_user_id :: string
  revoked_categories :: "string list"
  purge_sessions :: bool
  purge_episodic_memory :: bool
  purge_identity_facts :: bool
  purge_knowledge_corpus :: bool
  purge_usage_stats :: bool
  rd_created_at_ns :: u64

fun mark_purge :: "DataCategory \<Rightarrow> RevocationDirective \<Rightarrow> RevocationDirective" where
  "mark_purge EpisodicMemory d = d\<lparr>purge_episodic_memory := True, purge_sessions := True\<rparr>"
| "mark_purge IdentityFacts d = d\<lparr>purge_identity_facts := True\<rparr>"
| "mark_purge UsageStats d = d\<lparr>purge_usage_stats := True\<rparr>"
| "mark_purge KnowledgeCorpus d = d\<lparr>purge_knowledge_corpus := True\<rparr>"

definition build_revocation_directive :: "string \<Rightarrow> DataCategory list \<Rightarrow> u64 \<Rightarrow> RevocationDirective" where
  "build_revocation_directive i cs now =
     fold mark_purge cs
       \<lparr>rd_user_id = i, revoked_categories = map category_as_str cs, purge_sessions = False, purge_episodic_memory = False,
        purge_identity_facts = False, purge_knowledge_corpus = False, purge_usage_stats = False, rd_created_at_ns = now\<rparr>"

record ExpiredGrant =
  eg_user_id :: string
  eg_category :: string
  eg_expired_at_ns :: u64

record ExpiryReport =
  users_scanned :: nat
  expired_grants :: "ExpiredGrant list"
  directives :: "RevocationDirective list"

definition lapsed :: "u64 \<Rightarrow> Grant \<Rightarrow> bool" where
  "lapsed now g \<longleftrightarrow> granted g \<and> (case expires_at_ns g of None \<Rightarrow> False | Some e \<Rightarrow> e \<le> now)"

definition expired_grant :: "ConsentRecord \<Rightarrow> u64 \<Rightarrow> DataCategory \<Rightarrow> Grant option" where
  "expired_grant r now c = map_option snd (find (\<lambda>(k, g). k = category_as_str c \<and> lapsed now g) r)"

definition scan_user :: "u64 \<Rightarrow> string \<times> ConsentRecord \<Rightarrow> ExpiryReport \<Rightarrow> ExpiryReport" where
  "scan_user now u rep =
     (case u of (i, r) \<Rightarrow>
        let revoked = filter (\<lambda>c. expired_grant r now c \<noteq> None) all_categories;
            grants = map (\<lambda>c. \<lparr>eg_user_id = i, eg_category = category_as_str c,
               eg_expired_at_ns = (case expired_grant r now c of Some g \<Rightarrow>
                  (case expires_at_ns g of Some e \<Rightarrow> e | None \<Rightarrow> now) | None \<Rightarrow> now)\<rparr>) revoked in
        \<lparr>users_scanned = users_scanned rep + 1, expired_grants = expired_grants rep @ grants,
         directives = directives rep @ (if revoked \<noteq> [] then [build_revocation_directive i revoked now] else [])\<rparr>)"

definition scan_expired_grants :: "(string \<times> ConsentRecord) list \<Rightarrow> u64 \<Rightarrow> ExpiryReport" where
  "scan_expired_grants us now = fold (scan_user now) us \<lparr>users_scanned = 0, expired_grants = [], directives = []\<rparr>"

definition report_is_clean :: "ExpiryReport \<Rightarrow> bool" where
  "report_is_clean rep \<longleftrightarrow> expired_grants rep = []"

section \<open>Export bundles\<close>

record 'd DataExportSection =
  section_category :: string
  record_count :: nat
  section_data :: 'd

record 'd DataExportBundle =
  bundle_user_id :: string
  bundle_agent_id :: string
  exported_at_ns :: u64
  sections :: "'d DataExportSection list"
  total_records :: nat

definition add_raw_section :: "string \<Rightarrow> nat \<Rightarrow> 'd \<Rightarrow> 'd DataExportSection list \<Rightarrow> 'd DataExportSection list" where
  "add_raw_section c n d b = b @ [\<lparr>section_category = c, record_count = n, section_data = d\<rparr>]"

definition add_section :: "DataCategory \<Rightarrow> nat \<Rightarrow> 'd \<Rightarrow> 'd DataExportSection list \<Rightarrow> 'd DataExportSection list" where
  "add_section c n d b = b @ [\<lparr>section_category = category_as_str c, record_count = n, section_data = d\<rparr>]"

definition build_bundle :: "'d DataExportSection list \<Rightarrow> string \<Rightarrow> string \<Rightarrow> u64 \<Rightarrow> 'd DataExportBundle" where
  "build_bundle b i a now = \<lparr>bundle_user_id = i, bundle_agent_id = a, exported_at_ns = now, sections = b,
     total_records = sum_list (map record_count b)\<rparr>"

section \<open>Texts and tiers\<close>

lemma tier_roundtrip: "tier_from_str (tier_as_str t) = Some t"
  by (cases t) (simp_all add: tier_from_str_def)

lemma category_roundtrip [simp]: "category_from_str (category_as_str c) = Some c"
  by (cases c) (simp_all add: category_from_str_def)

lemma category_as_str_inj [simp]: "category_as_str a = category_as_str b \<longleftrightarrow> a = b"
  by (metis category_roundtrip option.inject)

lemma all_categories [simp]: "set all_categories = UNIV" "distinct all_categories"
  by (auto simp: all_categories_def) (metis DataCategory.exhaust)

section \<open>The last decision decides\<close>

datatype user_op =
    Register UserProfile
  | Upsert UserProfile
  | RemoveUser string
  | SetTrust string TrustTier u64
  | SetFact string string string u64
  | SetConsent string DataCategory bool u64
  | SetConsentUntil string DataCategory bool u64 u64

fun user_step :: "'raw UserRegistry \<Rightarrow> user_op \<Rightarrow> 'raw UserRegistry" where
  "user_step r (Register p) = snd (user_register r p)"
| "user_step r (Upsert p) = snd (user_upsert r p)"
| "user_step r (RemoveUser i) = snd (user_remove r i)"
| "user_step r (SetTrust i t now) = snd (user_set_trust r i t now)"
| "user_step r (SetFact i k v now) = snd (user_set_fact r i k v now)"
| "user_step r (SetConsent i c g now) = user_update_consent r i (\<lambda>x. consent_set x c g now)"
| "user_step r (SetConsentUntil i c g e now) = user_update_consent r i (\<lambda>x. consent_set_until x c g e now)"

text \<open>The decision a call makes on one category of one user, and the calls that end an earlier one.\<close>

fun decides :: "string \<Rightarrow> DataCategory \<Rightarrow> user_op \<Rightarrow> Grant option" where
  "decides i c (SetConsent j d g now) = (if j = i \<and> d = c then Some (grant_perpetual g now) else None)"
| "decides i c (SetConsentUntil j d g e now) = (if j = i \<and> d = c then Some (grant_until g e now) else None)"
| "decides i c _ = None"

fun removes :: "string \<Rightarrow> user_op \<Rightarrow> bool" where
  "removes i (RemoveUser j) \<longleftrightarrow> j = i"
| "removes i _ \<longleftrightarrow> False"

definition stored_grant :: "'raw UserRegistry \<Rightarrow> string \<Rightarrow> DataCategory \<Rightarrow> Grant option" where
  "stored_grant r i c = (case user_get r i of None \<Rightarrow> None | Some rec \<Rightarrow> hm_get (consent rec) (category_as_str c))"

lemma stored_grant_step:
  "stored_grant (user_step r x) i c =
     (if removes i x then None
      else if decides i c x \<noteq> None \<and> user_get r i \<noteq> None then decides i c x
      else stored_grant r i c)"
  by (cases x) (auto simp: stored_grant_def user_get_def user_register_def user_upsert_def user_remove_def user_set_trust_def
      user_set_fact_def user_update_consent_def user_record_new_def consent_new_def consent_set_def consent_set_until_def
      profile_set_fact_def hm_get_insert hm_get_remove hm_contains_def split: option.splits)

lemma ex_decompose_snoc:
  "(\<exists>b x a. xs @ [y] = b @ x # a \<and> D x \<and> E b \<and> list_all Q a)
   \<longleftrightarrow> (D y \<and> E xs) \<or> (Q y \<and> (\<exists>b x a. xs = b @ x # a \<and> D x \<and> E b \<and> list_all Q a))" (is "?l \<longleftrightarrow> ?r")
proof
  assume ?l
  then obtain b x a where "xs @ [y] = b @ x # a" "D x" "E b" "list_all Q a" by blast
  then show ?r by (cases a rule: rev_cases) (auto simp: list_all_append)
next
  assume ?r
  then show ?l
  proof
    assume "Q y \<and> (\<exists>b x a. xs = b @ x # a \<and> D x \<and> E b \<and> list_all Q a)"
    then obtain b x a where "xs = b @ x # a" "D x" "E b" "list_all Q a" "Q y" by blast
    then show ?l by (intro exI [of _ b] exI [of _ x] exI [of _ "a @ [y]"]) simp
  next
    assume "D y \<and> E xs"
    then show ?l by (intro exI [of _ xs] exI [of _ y] exI [of _ "[]"]) simp
  qed
qed

lemma stored_grant_run:
  assumes "users r0 = []"
  shows "stored_grant (foldl user_step r0 xs) i c = Some g \<longleftrightarrow>
     (\<exists>before x after. xs = before @ x # after \<and> decides i c x = Some g \<and> user_get (foldl user_step r0 before) i \<noteq> None
        \<and> list_all (\<lambda>y. \<not> removes i y \<and> decides i c y = None) after)"
proof (induction xs rule: rev_induct)
  case Nil
  with assms show ?case by (simp add: stored_grant_def user_get_def)
next
  case (snoc y xs)
  let ?r = "foldl user_step r0 xs"
  have "(\<exists>before x after. xs @ [y] = before @ x # after \<and> decides i c x = Some g \<and> user_get (foldl user_step r0 before) i \<noteq> None
        \<and> list_all (\<lambda>y. \<not> removes i y \<and> decides i c y = None) after)
     \<longleftrightarrow> (decides i c y = Some g \<and> user_get ?r i \<noteq> None) \<or> ((\<not> removes i y \<and> decides i c y = None) \<and> stored_grant ?r i c = Some g)"
    unfolding snoc.IH by (rule ex_decompose_snoc)
  moreover have "removes i y \<Longrightarrow> decides i c y = None" by (cases y) auto
  moreover have "user_get ?r i = None \<Longrightarrow> stored_grant ?r i c = None" by (simp add: stored_grant_def)
  ultimately show ?case by (auto simp: stored_grant_step)
qed

text \<open>C24: consent follows the last decision. From a registry without users, after any calls, a write in a category is
  allowed for a user exactly when some call granted it, with no expiry or one still ahead, while the user was
  registered, and no later call decided on that category again or removed the user. So nothing is retained by
  default, revocations and expiries take effect, and a user registered anew starts without consent.\<close>

theorem consent_last_decision:
  assumes "users r0 = []" and "r = foldl user_step r0 xs"
  shows "(\<exists>rec. user_get r i = Some rec \<and> check_write_allowed i c (consent rec) now = WriteAllowed) \<longleftrightarrow>
     (\<exists>before x after g. xs = before @ x # after \<and> decides i c x = Some g \<and> granted g
        \<and> (\<forall>e. expires_at_ns g = Some e \<longrightarrow> now < e)
        \<and> user_get (foldl user_step r0 before) i \<noteq> None
        \<and> list_all (\<lambda>y. \<not> removes i y \<and> decides i c y = None) after)"
proof -
  have "(\<exists>rec. user_get r i = Some rec \<and> check_write_allowed i c (consent rec) now = WriteAllowed)
      \<longleftrightarrow> (\<exists>g. stored_grant r i c = Some g \<and> grant_is_active g now)"
    by (auto simp: stored_grant_def check_write_allowed_def is_consented_def split: option.splits)
  also have "\<dots> \<longleftrightarrow> (\<exists>g. stored_grant r i c = Some g \<and> granted g \<and> (\<forall>e. expires_at_ns g = Some e \<longrightarrow> now < e))"
    by (auto simp: grant_is_active_def split: option.splits)
  finally show ?thesis unfolding assms(2) stored_grant_run [OF assms(1)] by blast
qed

lemma consent_last_decision_witness:
  "let p = user_profile_new ''t:1'' ''Ann'' ''t'' 0;
       r = foldl user_step (users_in_memory None :: string UserRegistry) [Register p, SetConsentUntil ''t:1'' UsageStats True 50 1]
   in \<exists>rec. user_get r ''t:1'' = Some rec \<and> check_write_allowed ''t:1'' UsageStats (consent rec) 49 = WriteAllowed"
proof -
  let ?p = "user_profile_new ''t:1'' ''Ann'' ''t'' 0"
  let ?r0 = "users_in_memory None :: string UserRegistry"
  have "users ?r0 = []" by (simp add: users_in_memory_def)
  from consent_last_decision [OF this refl, of "[Register ?p, SetConsentUntil ''t:1'' UsageStats True 50 1]" "''t:1''" UsageStats 49]
  show ?thesis unfolding Let_def
    by (elim iffD2 [OF _ exI [of _ "[Register ?p]"]])
      (intro exI [of _ "SetConsentUntil ''t:1'' UsageStats True 50 1"] exI [of _ "[]"] exI [of _ "grant_until True 50 1"],
       simp add: grant_until_def user_register_def users_in_memory_def user_profile_new_def hm_contains_def user_get_def)
qed

end
