(* ===== verification/Quota.thy ===== *)
theory Quota
  imports Users "HOL-Library.Char_ord" "HOL-Library.List_Lexorder"
begin

text \<open>
  Per-user token and request rate limits over rolling windows (\<^verbatim>\<open>crates/quota/src/lib.rs\<close>, with
  the trust tiers of \<^verbatim>\<open>crates/users/src/profile.rs\<close>). Times and counts are 64-bit words; the
  window sums wrap as an unchecked Rust sum does in a release build, and the refinement below shows
  where they do not. The specification is a log of every grant; the windows the code keeps and drains
  lazily are shown to decide exactly as the whole log would.
\<close>

section \<open>Data\<close>

definition HOUR_NS :: u64 where "HOUR_NS = 3600000000000"
definition DAY_NS :: u64 where "DAY_NS = 86400000000000"
definition DEFAULT_ESCALATION_THRESHOLD :: u32 where "DEFAULT_ESCALATION_THRESHOLD = 5"
definition DEFAULT_ESCALATION_COOLDOWN_NS :: u64 where "DEFAULT_ESCALATION_COOLDOWN_NS = 300000000000"

record TierLimits =
  tokens_per_hour :: u64
  tokens_per_day :: u64
  requests_per_hour :: u64

definition UNLIMITED :: TierLimits where
  "UNLIMITED = \<lparr>tokens_per_hour = u64_max, tokens_per_day = u64_max, requests_per_hour = u64_max\<rparr>"

definition is_unlimited :: "TierLimits \<Rightarrow> bool" where
  "is_unlimited l \<longleftrightarrow> tokens_per_hour l = u64_max \<and> tokens_per_day l = u64_max \<and> requests_per_hour l = u64_max"

record QuotaPolicy =
  unknown_limits :: TierLimits
  verified_limits :: TierLimits
  trusted_limits :: TierLimits
  operator_limits :: TierLimits
  escalation_threshold :: u32
  escalation_cooldown_ns :: u64

definition policy_default :: QuotaPolicy where
  "policy_default =
     \<lparr>unknown_limits = \<lparr>tokens_per_hour = 10000, tokens_per_day = 50000, requests_per_hour = 10\<rparr>,
      verified_limits = \<lparr>tokens_per_hour = 50000, tokens_per_day = 200000, requests_per_hour = 50\<rparr>,
      trusted_limits = \<lparr>tokens_per_hour = 200000, tokens_per_day = 1000000, requests_per_hour = 200\<rparr>,
      operator_limits = UNLIMITED,
      escalation_threshold = DEFAULT_ESCALATION_THRESHOLD,
      escalation_cooldown_ns = DEFAULT_ESCALATION_COOLDOWN_NS\<rparr>"

fun for_tier :: "QuotaPolicy \<Rightarrow> TrustTier \<Rightarrow> TierLimits" where
  "for_tier p Unknown = unknown_limits p"
| "for_tier p Verified = verified_limits p"
| "for_tier p Trusted = trusted_limits p"
| "for_tier p Operator = operator_limits p"

text \<open>Each reason carries the amount used and the limit.\<close>

datatype ExceededReason =
    HourlyTokenLimit u64 u64
  | DailyTokenLimit u64 u64
  | HourlyRequestLimit u64 u64

text \<open>\<^verbatim>\<open>Allowed\<close>: tokens left this hour, tokens left today, requests left this hour.
  \<^verbatim>\<open>Exceeded\<close>: user, reason, retry time.\<close>

datatype QuotaResult =
    Allowed u64 u64 u64
  | Exceeded string ExceededReason u64

fun is_allowed :: "QuotaResult \<Rightarrow> bool" where
  "is_allowed (Allowed _ _ _) = True"
| "is_allowed (Exceeded _ _ _) = False"

record UserUsage =
  hourly_tokens :: "(u64 \<times> u64) list"
  daily_tokens :: "(u64 \<times> u64) list"
  hourly_requests :: "u64 list"
  consecutive_violations :: u32
  last_escalation_ns :: u64

record UserQuotaTracker =
  policy :: QuotaPolicy
  usage :: "(string \<times> UserUsage) list"

record QuotaSnapshot =
  snap_user_id :: string
  snap_trust_tier :: TrustTier
  hourly_tokens_used_s :: u64
  hourly_tokens_limit :: u64
  daily_tokens_used_s :: u64
  daily_tokens_limit :: u64
  hourly_requests_used_s :: u64
  hourly_requests_limit :: u64
  snap_violations :: u32

section \<open>Operations\<close>

definition usage_new :: UserUsage where
  "usage_new = \<lparr>hourly_tokens = [], daily_tokens = [], hourly_requests = [],
     consecutive_violations = 0, last_escalation_ns = 0\<rparr>"

text \<open>The pop-front loops of \<^verbatim>\<open>drain_stale\<close>, on token events and on request times.\<close>

fun pop_stale_tokens :: "u64 \<Rightarrow> (u64 \<times> u64) list \<Rightarrow> (u64 \<times> u64) list" where
  "pop_stale_tokens cutoff [] = []"
| "pop_stale_tokens cutoff ((ts, t) # q) = (if ts < cutoff then pop_stale_tokens cutoff q else (ts, t) # q)"

fun pop_stale_requests :: "u64 \<Rightarrow> u64 list \<Rightarrow> u64 list" where
  "pop_stale_requests cutoff [] = []"
| "pop_stale_requests cutoff (ts # q) = (if ts < cutoff then pop_stale_requests cutoff q else ts # q)"

definition drain_stale :: "UserUsage \<Rightarrow> u64 \<Rightarrow> UserUsage" where
  "drain_stale u now_ns =
     (let hour_cutoff = saturating_sub now_ns HOUR_NS; day_cutoff = saturating_sub now_ns DAY_NS in
      u\<lparr>hourly_tokens := pop_stale_tokens hour_cutoff (hourly_tokens u),
        daily_tokens := pop_stale_tokens day_cutoff (daily_tokens u),
        hourly_requests := pop_stale_requests hour_cutoff (hourly_requests u)\<rparr>)"

definition hourly_tokens_used :: "UserUsage \<Rightarrow> u64" where
  "hourly_tokens_used u = sum_list (map snd (hourly_tokens u))"

definition daily_tokens_used :: "UserUsage \<Rightarrow> u64" where
  "daily_tokens_used u = sum_list (map snd (daily_tokens u))"

definition hourly_requests_used :: "UserUsage \<Rightarrow> u64" where
  "hourly_requests_used u = of_nat (length (hourly_requests u))"

definition hourly_tokens_used_at :: "UserUsage \<Rightarrow> u64 \<Rightarrow> u64" where
  "hourly_tokens_used_at u now_ns =
     (let cutoff = saturating_sub now_ns HOUR_NS in
      sum_list (map snd (filter (\<lambda>(ts, _). ts \<ge> cutoff) (hourly_tokens u))))"

definition daily_tokens_used_at :: "UserUsage \<Rightarrow> u64 \<Rightarrow> u64" where
  "daily_tokens_used_at u now_ns =
     (let cutoff = saturating_sub now_ns DAY_NS in
      sum_list (map snd (filter (\<lambda>(ts, _). ts \<ge> cutoff) (daily_tokens u))))"

definition hourly_requests_used_at :: "UserUsage \<Rightarrow> u64 \<Rightarrow> u64" where
  "hourly_requests_used_at u now_ns =
     (let cutoff = saturating_sub now_ns HOUR_NS in
      of_nat (length (filter (\<lambda>ts. ts \<ge> cutoff) (hourly_requests u))))"

definition tracker_new :: "QuotaPolicy \<Rightarrow> UserQuotaTracker" where
  "tracker_new pol = \<lparr>policy = pol, usage = []\<rparr>"

definition with_default_policy :: UserQuotaTracker where
  "with_default_policy = tracker_new policy_default"

text \<open>The scan for the first event whose expiry makes room: \<^verbatim>\<open>hint\<close> is what the loop leaves
  when no event does.\<close>

fun token_retry :: "u64 \<Rightarrow> u64 \<Rightarrow> u64 \<Rightarrow> u64 \<Rightarrow> u64 \<Rightarrow> u64 \<Rightarrow> (u64 \<times> u64) list \<Rightarrow> u64" where
  "token_retry used tokens limit window hint accumulated [] = hint"
| "token_retry used tokens limit window hint accumulated ((ts, t) # q) =
     (let accumulated = saturating_add accumulated t in
      if saturating_add (saturating_sub used accumulated) tokens \<le> limit then saturating_add ts window
      else token_retry used tokens limit window hint accumulated q)"

definition request_retry :: "u64 list \<Rightarrow> u64 \<Rightarrow> u64" where
  "request_retry q now_ns =
     (case q of [] \<Rightarrow> saturating_add now_ns HOUR_NS | ts # _ \<Rightarrow> saturating_add ts HOUR_NS)"

text \<open>The decision on one user's drained windows.\<close>

definition consume_usage ::
    "TierLimits \<Rightarrow> string \<Rightarrow> u64 \<Rightarrow> u64 \<Rightarrow> UserUsage \<Rightarrow> QuotaResult \<times> UserUsage" where
  "consume_usage limits user_id tokens now_ns u =
     (let hourly = hourly_tokens_used u; daily = daily_tokens_used u; reqs = hourly_requests_used u;
          denied = u\<lparr>consecutive_violations := consecutive_violations u + 1\<rparr> in
      if reqs \<ge> requests_per_hour limits then
        (Exceeded user_id (HourlyRequestLimit reqs (requests_per_hour limits))
           (request_retry (hourly_requests u) now_ns), denied)
      else if saturating_add hourly tokens > tokens_per_hour limits then
        (Exceeded user_id (HourlyTokenLimit hourly (tokens_per_hour limits))
           (if tokens > tokens_per_hour limits then u64_max
            else token_retry hourly tokens (tokens_per_hour limits) HOUR_NS
                   (saturating_add now_ns HOUR_NS) 0 (hourly_tokens u)), denied)
      else if saturating_add daily tokens > tokens_per_day limits then
        (Exceeded user_id (DailyTokenLimit daily (tokens_per_day limits))
           (if tokens > tokens_per_day limits then u64_max
            else token_retry daily tokens (tokens_per_day limits) DAY_NS
                   (saturating_add now_ns DAY_NS) 0 (daily_tokens u)), denied)
      else
        (Allowed (saturating_sub (tokens_per_hour limits) (saturating_add hourly tokens))
           (saturating_sub (tokens_per_day limits) (saturating_add daily tokens))
           (saturating_sub (requests_per_hour limits) (saturating_add reqs 1)),
         u\<lparr>hourly_tokens := hourly_tokens u @ [(now_ns, tokens)],
           daily_tokens := daily_tokens u @ [(now_ns, tokens)],
           hourly_requests := hourly_requests u @ [now_ns],
           consecutive_violations := 0\<rparr>))"

definition usage_entry :: "UserQuotaTracker \<Rightarrow> string \<Rightarrow> UserUsage" where
  "usage_entry q user_id = (case hm_get (usage q) user_id of None \<Rightarrow> usage_new | Some u \<Rightarrow> u)"

definition check_and_consume ::
    "UserQuotaTracker \<Rightarrow> string \<Rightarrow> TrustTier \<Rightarrow> u64 \<Rightarrow> u64 \<Rightarrow> QuotaResult \<times> UserQuotaTracker" where
  "check_and_consume q user_id tier tokens now_ns =
     (let limits = for_tier (policy q) tier in
      if is_unlimited limits then
        (Allowed u64_max u64_max u64_max,
         (case hm_get (usage q) user_id of
            None \<Rightarrow> q
          | Some u \<Rightarrow> q\<lparr>usage := hm_insert user_id (u\<lparr>consecutive_violations := 0\<rparr>) (usage q)\<rparr>))
      else
        (let (res, u) = consume_usage limits user_id tokens now_ns
                          (drain_stale (usage_entry q user_id) now_ns)
         in (res, q\<lparr>usage := hm_insert user_id u (usage q)\<rparr>)))"

definition violations_of :: "UserQuotaTracker \<Rightarrow> string \<Rightarrow> u32" where
  "violations_of q user_id =
     (case hm_get (usage q) user_id of None \<Rightarrow> 0 | Some u \<Rightarrow> consecutive_violations u)"

definition should_escalate :: "UserQuotaTracker \<Rightarrow> string \<Rightarrow> u64 \<Rightarrow> bool" where
  "should_escalate q user_id now_ns =
     (case hm_get (usage q) user_id of
        None \<Rightarrow> False
      | Some u \<Rightarrow> consecutive_violations u \<ge> escalation_threshold (policy q)
          \<and> saturating_sub now_ns (last_escalation_ns u) \<ge> escalation_cooldown_ns (policy q))"

definition record_escalation :: "UserQuotaTracker \<Rightarrow> string \<Rightarrow> u64 \<Rightarrow> UserQuotaTracker" where
  "record_escalation q user_id now_ns =
     (case hm_get (usage q) user_id of
        None \<Rightarrow> q
      | Some u \<Rightarrow> q\<lparr>usage := hm_insert user_id (u\<lparr>last_escalation_ns := now_ns\<rparr>) (usage q)\<rparr>)"

definition quota_reset :: "UserQuotaTracker \<Rightarrow> string \<Rightarrow> UserQuotaTracker" where
  "quota_reset q user_id = q\<lparr>usage := hm_remove user_id (usage q)\<rparr>"

definition snapshot :: "UserQuotaTracker \<Rightarrow> string \<Rightarrow> TrustTier \<Rightarrow> u64 \<Rightarrow> QuotaSnapshot" where
  "snapshot q user_id tier now_ns =
     (let limits = for_tier (policy q) tier;
          (h, d, r, v) = (case hm_get (usage q) user_id of
              None \<Rightarrow> (0, 0, 0, 0)
            | Some u \<Rightarrow> (hourly_tokens_used_at u now_ns, daily_tokens_used_at u now_ns,
                         hourly_requests_used_at u now_ns, consecutive_violations u))
      in \<lparr>snap_user_id = user_id, snap_trust_tier = tier,
          hourly_tokens_used_s = h, hourly_tokens_limit = tokens_per_hour limits,
          daily_tokens_used_s = d, daily_tokens_limit = tokens_per_day limits,
          hourly_requests_used_s = r, hourly_requests_limit = requests_per_hour limits,
          snap_violations = v\<rparr>)"

definition hourly_tokens_remaining :: "QuotaSnapshot \<Rightarrow> u64" where
  "hourly_tokens_remaining s = saturating_sub (hourly_tokens_limit s) (hourly_tokens_used_s s)"

definition daily_tokens_remaining :: "QuotaSnapshot \<Rightarrow> u64" where
  "daily_tokens_remaining s = saturating_sub (daily_tokens_limit s) (daily_tokens_used_s s)"

definition hourly_requests_remaining :: "QuotaSnapshot \<Rightarrow> u64" where
  "hourly_requests_remaining s = saturating_sub (hourly_requests_limit s) (hourly_requests_used_s s)"

definition all_tracked_users :: "UserQuotaTracker \<Rightarrow> string list" where
  "all_tracked_users q = sort (map fst (usage q))"

section \<open>Rolling windows\<close>

text \<open>The contract of a lazily drained window: on a queue in time order, draining at a cutoff keeps
  exactly the events at or after it.\<close>

locale rolling_window =
  fixes drain :: "u64 \<Rightarrow> 'e list \<Rightarrow> 'e list" and stamp :: "'e \<Rightarrow> u64"
  assumes drain_filter: "sorted (map stamp q) \<Longrightarrow> drain c q = filter (\<lambda>e. c \<le> stamp e) q"
begin

lemma sorted_window: "sorted (map stamp q) \<Longrightarrow> sorted (map stamp (filter P q))"
  by (rule sorted_filter)

lemma drain_window:
  assumes "sorted (map stamp q)" "c \<le> d"
  shows "drain d (filter (\<lambda>e. c \<le> stamp e) q) = filter (\<lambda>e. d \<le> stamp e) q"
proof -
  have "filter (\<lambda>e. d \<le> stamp e) (filter (\<lambda>e. c \<le> stamp e) q) = filter (\<lambda>e. d \<le> stamp e) q"
    using assms(2) by (auto intro: filter_cong)
  with assms(1) show ?thesis by (simp add: drain_filter sorted_window)
qed

end

interpretation tokens_window: rolling_window pop_stale_tokens fst
proof unfold_locales
  fix q :: "(u64 \<times> u64) list" and c
  show "sorted (map fst q) \<Longrightarrow> pop_stale_tokens c q = filter (\<lambda>e. c \<le> fst e) q"
    by (induction c q rule: pop_stale_tokens.induct) (auto simp: not_less intro!: filter_True [symmetric] intro: order_trans)
qed

interpretation requests_window: rolling_window pop_stale_requests "\<lambda>ts. ts"
proof unfold_locales
  fix q :: "u64 list" and c
  show "sorted (map (\<lambda>ts. ts) q) \<Longrightarrow> pop_stale_requests c q = filter (\<lambda>e. c \<le> e) q"
    by (induction c q rule: pop_stale_requests.induct) (auto simp: not_less intro!: filter_True [symmetric] intro: order_trans)
qed

section \<open>Specification: the log of grants\<close>

datatype quota_op =
    Consume string TrustTier u64 u64
  | RecordEscalation string u64
  | ResetUser string

fun quota_step :: "UserQuotaTracker \<Rightarrow> quota_op \<Rightarrow> UserQuotaTracker" where
  "quota_step q (Consume u tier tokens now) = snd (check_and_consume q u tier tokens now)"
| "quota_step q (RecordEscalation u now) = record_escalation q u now"
| "quota_step q (ResetUser u) = quota_reset q u"

type_synonym grant_log = "(string \<times> u64 \<times> u64) list"

definition user_log :: "grant_log \<Rightarrow> string \<Rightarrow> (u64 \<times> u64) list" where
  "user_log log u = map snd (filter (\<lambda>e. fst e = u) log)"

definition window :: "u64 \<Rightarrow> u64 \<Rightarrow> (u64 \<times> u64) list \<Rightarrow> (u64 \<times> u64) list" where
  "window width now L = filter (\<lambda>e. saturating_sub now width \<le> fst e) L"

definition granted :: "(u64 \<times> u64) list \<Rightarrow> nat" where
  "granted L = sum_list (map (unat \<circ> snd) L)"

definition spec_allows :: "TierLimits \<Rightarrow> (u64 \<times> u64) list \<Rightarrow> u64 \<Rightarrow> u64 \<Rightarrow> bool" where
  "spec_allows limits L tokens now \<longleftrightarrow>
     length (window HOUR_NS now L) + 1 \<le> unat (requests_per_hour limits)
   \<and> granted (window HOUR_NS now L) + unat tokens \<le> unat (tokens_per_hour limits)
   \<and> granted (window DAY_NS now L) + unat tokens \<le> unat (tokens_per_day limits)"

fun spec_step :: "QuotaPolicy \<Rightarrow> grant_log \<Rightarrow> quota_op \<Rightarrow> grant_log" where
  "spec_step pol log (Consume u tier tokens now) =
     (if \<not> is_unlimited (for_tier pol tier) \<and> spec_allows (for_tier pol tier) (user_log log u) tokens now
      then log @ [(u, now, tokens)] else log)"
| "spec_step pol log (RecordEscalation u now) = log"
| "spec_step pol log (ResetUser u) = filter (\<lambda>e. fst e \<noteq> u) log"

fun op_times :: "quota_op list \<Rightarrow> u64 list" where
  "op_times [] = []"
| "op_times (Consume u tier tokens now # ops) = now # op_times ops"
| "op_times (_ # ops) = op_times ops"

text \<open>No tier has a token limit at the sentinel unless all its limits are.\<close>

definition finite_limits :: "TierLimits \<Rightarrow> bool" where
  "finite_limits l \<longleftrightarrow> is_unlimited l \<or> tokens_per_hour l \<noteq> u64_max \<and> tokens_per_day l \<noteq> u64_max"

definition finite_policy :: "QuotaPolicy \<Rightarrow> bool" where
  "finite_policy p \<longleftrightarrow> list_all finite_limits
     [unknown_limits p, verified_limits p, trusted_limits p, operator_limits p]"

lemma finite_policy_tier: "finite_policy p \<Longrightarrow> finite_limits (for_tier p tier)"
  by (cases tier) (simp_all add: finite_policy_def)

section \<open>Simulation\<close>

lemma unat_sum_list:
  "sum_list (map unat ws) < 2 ^ LENGTH('a) \<Longrightarrow> unat (sum_list ws) = sum_list (map unat (ws :: 'a::len word list))"
  by (induction ws) (simp_all add: unat_add_exact)

lemma granted_filter_le: "granted (filter P L) \<le> granted L"
  by (induction L) (auto simp: granted_def)

lemma granted_snoc [simp]: "granted (L @ [(ts, t)]) = granted L + unat t"
  by (simp add: granted_def)

lemma unat_window_sum: "granted L < 2 ^ 64 \<Longrightarrow> unat (sum_list (map snd L)) = granted L"
  using unat_sum_list [of "map snd L"] by (simp add: granted_def)

lemma saturating_sub_mono: "a \<le> b \<Longrightarrow> saturating_sub a c \<le> saturating_sub b c"
  by (simp add: uint_order unat_saturating_sub diff_le_mono)

lemma saturating_sub_le: "saturating_sub a c \<le> a"
  by (simp add: uint_order unat_saturating_sub)

text \<open>One user's windows at their last drain, against the user's grants.\<close>

definition usage_rel :: "u64 \<Rightarrow> UserUsage \<Rightarrow> (u64 \<times> u64) list \<Rightarrow> bool" where
  "usage_rel T us L \<longleftrightarrow> sorted (map fst L) \<and> list_all (\<lambda>e. fst e \<le> T) L
     \<and> hourly_tokens us = window HOUR_NS T L \<and> daily_tokens us = window DAY_NS T L
     \<and> hourly_requests us = map fst (window HOUR_NS T L)
     \<and> granted (hourly_tokens us) < 2 ^ 64 \<and> granted (daily_tokens us) < 2 ^ 64
     \<and> length (hourly_requests us) < 2 ^ 64"

lemma sorted_windows: "sorted (map fst L) \<Longrightarrow> sorted (map fst (window w T L))"
  unfolding window_def by (rule tokens_window.sorted_window)

lemma window_window: "T \<le> now \<Longrightarrow> window w now (window w T L) = window w now L"
  using saturating_sub_mono [of T now w] unfolding window_def by (auto intro: filter_cong)

lemma drain_windows:
  assumes "sorted (map fst L)" "T \<le> now"
  shows "pop_stale_tokens (saturating_sub now w) (window w T L) = window w now L"
  and "pop_stale_requests (saturating_sub now w) (map fst (window w T L)) = map fst (window w now L)"
proof -
  note mono = saturating_sub_mono [OF assms(2), of w]
  show "pop_stale_tokens (saturating_sub now w) (window w T L) = window w now L"
    using tokens_window.drain_window [OF assms(1) mono] by (simp add: window_def)
  have "map fst (window w T L) = filter (\<lambda>e. saturating_sub T w \<le> e) (map fst L)" for T
    by (simp add: window_def filter_map comp_def)
  then show "pop_stale_requests (saturating_sub now w) (map fst (window w T L)) = map fst (window w now L)"
    using requests_window.drain_window [of "map fst L", OF _ mono] assms(1) by simp
qed

lemma window_filter: "window w now L = filter (\<lambda>e. saturating_sub now w \<le> fst e) L"
  by (simp add: window_def)

lemma usage_rel_drain:
  assumes "usage_rel T us L" "T \<le> now"
  shows "usage_rel now (drain_stale us now) L"
proof -
  from assms have s: "sorted (map fst L)" and le: "list_all (\<lambda>e. fst e \<le> now) L"
    by (auto simp: usage_rel_def list_all_iff intro: order_trans)
  have w: "granted (window w now L) \<le> granted (window w T L)"
    "length (window w now L) \<le> length (window w T L)" for w
    using granted_filter_le length_filter_le window_window [OF assms(2), of w L]
    by (metis window_filter)+
  show ?thesis
    using assms s le w [of HOUR_NS] w [of DAY_NS]
    by (auto simp: usage_rel_def drain_stale_def Let_def drain_windows intro: le_less_trans)
qed

lemma usage_rel_new: "usage_rel T usage_new []"
  by (simp add: usage_rel_def usage_new_def window_def granted_def)

lemma usage_rel_flags [simp]:
  "usage_rel T (u\<lparr>consecutive_violations := n\<rparr>) L = usage_rel T u L"
  "usage_rel T (u\<lparr>last_escalation_ns := ns\<rparr>) L = usage_rel T u L"
  by (simp_all add: usage_rel_def)

lemma saturating_over:
  fixes a b l :: u64 assumes "l \<noteq> u64_max"
  shows "saturating_add a b > l \<longleftrightarrow> unat l < unat a + unat b"
proof -
  have "unat l < 2 ^ 64 - 1" using assms unat_lt_pow [of l]
    by (auto simp: word_unat_eq_iff unat_minus_one_word_max)
  then show ?thesis by (auto simp: uint_order unat_saturating_add min_def)
qed

text \<open>On drained windows the decision is the specification's, and only a grant changes them.\<close>

lemma window_snoc: "window w now (L @ [(now, t)]) = window w now L @ [(now, t)]"
  by (simp add: window_def saturating_sub_le)

lemma consume_usage_spec:
  assumes rel: "usage_rel now u L" and lim: "finite_limits l" "\<not> is_unlimited l"
  shows "is_allowed (fst (consume_usage l user_id tokens now u)) \<longleftrightarrow> spec_allows l L tokens now"
    and "usage_rel now (snd (consume_usage l user_id tokens now u))
           (if spec_allows l L tokens now then L @ [(now, tokens)] else L)"
proof -
  from lim have fin: "tokens_per_hour l \<noteq> u64_max" "tokens_per_day l \<noteq> u64_max"
    by (auto simp: finite_limits_def)
  from rel have win: "hourly_tokens u = window HOUR_NS now L" "daily_tokens u = window DAY_NS now L"
    "hourly_requests u = map fst (window HOUR_NS now L)"
    and small: "granted (window HOUR_NS now L) < 2 ^ 64" "granted (window DAY_NS now L) < 2 ^ 64"
    "length (window HOUR_NS now L) < 2 ^ 64"
    and srt: "sorted (map fst L)" "list_all (\<lambda>e. fst e \<le> now) L"
    by (auto simp: usage_rel_def)
  have reqs: "unat (hourly_requests_used u) = length (window HOUR_NS now L)"
    using small(3) by (simp add: hourly_requests_used_def win unsigned_of_nat take_bit_nat_eq_self)
  have sums: "unat (hourly_tokens_used u) = granted (window HOUR_NS now L)"
    "unat (daily_tokens_used u) = granted (window DAY_NS now L)"
    using small by (simp_all add: hourly_tokens_used_def daily_tokens_used_def win unat_window_sum)
  have guards: "hourly_requests_used u \<ge> requests_per_hour l \<longleftrightarrow>
      \<not> length (window HOUR_NS now L) + 1 \<le> unat (requests_per_hour l)"
    "saturating_add (hourly_tokens_used u) tokens > tokens_per_hour l \<longleftrightarrow>
      \<not> granted (window HOUR_NS now L) + unat tokens \<le> unat (tokens_per_hour l)"
    "saturating_add (daily_tokens_used u) tokens > tokens_per_day l \<longleftrightarrow>
      \<not> granted (window DAY_NS now L) + unat tokens \<le> unat (tokens_per_day l)"
    by (auto simp: saturating_over fin uint_order(1) reqs sums)
  show dec: "is_allowed (fst (consume_usage l user_id tokens now u)) \<longleftrightarrow> spec_allows l L tokens now"
    unfolding consume_usage_def Let_def guards spec_allows_def by simp
  have "snd (consume_usage l user_id tokens now u) =
     (if spec_allows l L tokens now
      then u\<lparr>hourly_tokens := hourly_tokens u @ [(now, tokens)], daily_tokens := daily_tokens u @ [(now, tokens)],
             hourly_requests := hourly_requests u @ [now], consecutive_violations := 0\<rparr>
      else u\<lparr>consecutive_violations := consecutive_violations u + 1\<rparr>)"
    unfolding consume_usage_def Let_def guards spec_allows_def by simp
  moreover have "usage_rel now (u\<lparr>hourly_tokens := hourly_tokens u @ [(now, tokens)],
      daily_tokens := daily_tokens u @ [(now, tokens)], hourly_requests := hourly_requests u @ [now],
      consecutive_violations := 0\<rparr>) (L @ [(now, tokens)])" if ok: "spec_allows l L tokens now"
  proof -
    have "granted (window HOUR_NS now L) + unat tokens < 2 ^ 64"
      "granted (window DAY_NS now L) + unat tokens < 2 ^ 64"
      "length (window HOUR_NS now L) + 1 < 2 ^ 64"
      using ok unat_lt_pow [of "tokens_per_hour l"] unat_lt_pow [of "tokens_per_day l"]
        unat_lt_pow [of "requests_per_hour l"] by (auto simp: spec_allows_def)
    with srt show ?thesis by (simp add: usage_rel_def win window_snoc sorted_append list_all_iff)
  qed
  ultimately show "usage_rel now (snd (consume_usage l user_id tokens now u))
           (if spec_allows l L tokens now then L @ [(now, tokens)] else L)"
    using rel by simp
qed

definition tracker_rel :: "QuotaPolicy \<Rightarrow> u64 \<Rightarrow> UserQuotaTracker \<Rightarrow> grant_log \<Rightarrow> bool" where
  "tracker_rel pol clock q log \<longleftrightarrow> policy q = pol \<and>
     (\<forall>u. \<exists>T. T \<le> clock \<and> usage_rel T (usage_entry q u) (user_log log u))"

lemma user_log_simps [simp]:
  "user_log [] u = []"
  "user_log (log @ [(v, e)]) u = (if u = v then user_log log u @ [e] else user_log log u)"
  "user_log (filter (\<lambda>e. fst e \<noteq> v) log) u = (if u = v then [] else user_log log u)"
  by (auto simp: user_log_def filter_empty_conv intro!: arg_cong [of _ _ "map snd"] filter_cong)

lemma usage_entry_insert [simp]:
  "usage_entry (q\<lparr>usage := hm_insert u us (usage q)\<rparr>) v = (if v = u then us else usage_entry q v)"
  by (simp add: usage_entry_def store_simps)

lemma usage_entry_reset [simp]:
  "usage_entry (quota_reset q u) v = (if v = u then usage_new else usage_entry q v)"
  by (simp add: usage_entry_def quota_reset_def store_simps)

lemma tracker_rel_new: "tracker_rel pol 0 (tracker_new pol) []"
  by (auto simp: tracker_rel_def tracker_new_def usage_entry_def usage_rel_new)

lemma tracker_rel_flag:
  assumes rel: "tracker_rel pol c q log" and get: "hm_get (usage q) u = Some us"
    and f: "\<And>T. usage_rel T (f us) (user_log log u) = usage_rel T us (user_log log u)"
  shows "tracker_rel pol c (q\<lparr>usage := hm_insert u (f us) (usage q)\<rparr>) log"
proof -
  have "usage_entry q u = us" using get by (simp add: usage_entry_def)
  with rel f show ?thesis unfolding tracker_rel_def by (simp) metis
qed

lemma check_and_consume_rel:
  assumes rel: "tracker_rel pol c q log" and c: "c \<le> now" and fin: "finite_policy pol"
    and lim: "\<not> is_unlimited (for_tier pol tier)"
  shows "is_allowed (fst (check_and_consume q u tier tokens now)) \<longleftrightarrow>
           spec_allows (for_tier pol tier) (user_log log u) tokens now"
    and "tracker_rel pol now (snd (check_and_consume q u tier tokens now))
           (spec_step pol log (Consume u tier tokens now))"
proof -
  from rel have pol: "policy q = pol" by (simp add: tracker_rel_def)
  from rel obtain T where T: "T \<le> c" "usage_rel T (usage_entry q u) (user_log log u)"
    by (auto simp: tracker_rel_def)
  let ?d = "drain_stale (usage_entry q u) now"
  from T c have d: "usage_rel now ?d (user_log log u)" by (auto intro: usage_rel_drain)
  note cons = consume_usage_spec [OF d finite_policy_tier [OF fin] lim]
  show "is_allowed (fst (check_and_consume q u tier tokens now)) \<longleftrightarrow>
           spec_allows (for_tier pol tier) (user_log log u) tokens now"
    using cons(1) lim by (simp add: check_and_consume_def pol Let_def case_prod_beta)
  have snd_eq: "snd (check_and_consume q u tier tokens now) =
      q\<lparr>usage := hm_insert u (snd (consume_usage (for_tier pol tier) u tokens now ?d)) (usage q)\<rparr>"
    using lim by (simp add: check_and_consume_def pol Let_def case_prod_beta)
  have others: "\<exists>T. T \<le> now \<and> usage_rel T (usage_entry q v) (user_log log v)" for v
    using rel c unfolding tracker_rel_def by (meson order_trans)
  show "tracker_rel pol now (snd (check_and_consume q u tier tokens now))
           (spec_step pol log (Consume u tier tokens now))"
    unfolding tracker_rel_def snd_eq
  proof (intro conjI allI)
    fix v
    show "\<exists>T. T \<le> now \<and> usage_rel T (usage_entry (q\<lparr>usage := hm_insert u
        (snd (consume_usage (for_tier pol tier) u tokens now ?d)) (usage q)\<rparr>) v)
        (user_log (spec_step pol log (Consume u tier tokens now)) v)"
      using cons(2) [of u tokens] others [of v] lim by (cases "v = u") auto
  qed (simp add: pol)
qed

lemma tracker_rel_step:
  assumes rel: "tracker_rel pol c q log" and t: "sorted (c # op_times [x])" and fin: "finite_policy pol"
  shows "tracker_rel pol (last (c # op_times [x])) (quota_step q x) (spec_step pol log x)"
proof (cases x)
  case (Consume u tier tokens now)
  show ?thesis
  proof (cases "is_unlimited (for_tier pol tier)")
    case True
    have mono: "tracker_rel pol c q' log \<Longrightarrow> tracker_rel pol now q' log" for q'
      using t unfolding tracker_rel_def Consume by simp (meson order_trans)
    have "tracker_rel pol c (snd (check_and_consume q u tier tokens now)) log"
      using rel True tracker_rel_flag [OF rel, where f = "consecutive_violations_update (\<lambda>_. 0)"]
      by (auto simp: check_and_consume_def tracker_rel_def [of pol c q] Let_def split: option.splits)
    with True mono Consume show ?thesis by simp
  next
    case False
    with check_and_consume_rel(2) [OF rel _ fin False] t Consume show ?thesis by simp
  qed
next
  case (RecordEscalation u now)
  with rel tracker_rel_flag [OF rel, where f = "last_escalation_ns_update (\<lambda>_. now)"] show ?thesis
    by (auto simp: record_escalation_def split: option.splits)
next
  case (ResetUser u)
  have "T \<le> c \<Longrightarrow> \<exists>T. T \<le> c \<and> usage_rel T usage_new []" for T using usage_rel_new by blast
  with rel ResetUser show ?thesis
    by (auto simp: tracker_rel_def) (auto simp: quota_reset_def)
qed

lemma op_times_append: "op_times (xs @ ys) = op_times xs @ op_times ys"
  by (induction xs rule: op_times.induct) simp_all

lemma op_times_cons: "op_times (x # xs) = op_times [x] @ op_times xs"
  by (cases x) simp_all

lemma tracker_rel_run:
  assumes "tracker_rel pol c q log" "sorted (c # op_times xs)" "finite_policy pol"
  shows "tracker_rel pol (last (c # op_times xs)) (foldl quota_step q xs) (foldl (spec_step pol) log xs)"
  using assms
proof (induction xs arbitrary: c q log)
  case Nil
  then show ?case by simp
next
  case (Cons x xs)
  let ?c = "last (c # op_times [x])"
  have s: "sorted (c # op_times [x])" "sorted (?c # op_times xs)"
    using Cons.prems(2) unfolding op_times_cons [of x xs] by (cases x; simp)+
  have "last (c # op_times (x # xs)) = last (?c # op_times xs)"
    unfolding op_times_cons [of x xs] by (cases x; simp)
  with Cons.IH [OF tracker_rel_step [OF Cons.prems(1) s(1) Cons.prems(3)] s(2) Cons.prems(3)]
  show ?case by simp
qed

text \<open>The states of a tracker driven by calls in clock order, and what they are related to.\<close>

lemma tracker_reachable:
  assumes fin: "finite_policy pol" and t: "sorted (op_times xs @ [now])"
  obtains c where "c \<le> now"
    "tracker_rel pol c (foldl quota_step (tracker_new pol) xs) (foldl (spec_step pol) [] xs)"
proof -
  have "sorted (0 # op_times xs)" using t by (simp add: sorted_append)
  moreover have "last (0 # op_times xs) \<le> now" using t by (simp add: sorted_append last_in_set)
  ultimately show ?thesis using that tracker_rel_run [OF tracker_rel_new _ fin] by blast
qed

lemma decision_refines:
  assumes fin: "finite_policy pol" and t: "sorted (op_times xs @ [now])"
  shows "is_allowed (fst (check_and_consume (foldl quota_step (tracker_new pol) xs) u tier tokens now)) \<longleftrightarrow>
     is_unlimited (for_tier pol tier) \<or>
     spec_allows (for_tier pol tier) (user_log (foldl (spec_step pol) [] xs) u) tokens now"
proof -
  obtain c where c: "c \<le> now"
    and rel: "tracker_rel pol c (foldl quota_step (tracker_new pol) xs) (foldl (spec_step pol) [] xs)"
    using tracker_reachable [OF fin t] .
  show ?thesis
  proof (cases "is_unlimited (for_tier pol tier)")
    case True
    with rel show ?thesis by (simp add: check_and_consume_def tracker_rel_def Let_def)
  next
    case False
    with check_and_consume_rel(1) [OF rel c fin False] show ?thesis by simp
  qed
qed

section \<open>Behaviour\<close>

text \<open>C9: the tracker decides as the whole history would. After any calls in clock order (requests of
  any users and tiers, escalation records, resets), a request is allowed exactly when its tier is
  unlimited or, counting every grant ever made to the user since the last reset, the last hour holds
  a free request slot and enough tokens and the last day enough tokens.\<close>

theorem quota_refines_grant_log:
  assumes "finite_policy pol" and "sorted (op_times xs @ [now])"
  shows "is_allowed (fst (check_and_consume (foldl quota_step (tracker_new pol) xs) u tier tokens now)) \<longleftrightarrow>
     is_unlimited (for_tier pol tier) \<or>
     spec_allows (for_tier pol tier) (user_log (foldl (spec_step pol) [] xs) u) tokens now"
  using assms by (rule decision_refines)

lemma default_policy_finite: "finite_policy policy_default"
  by (simp add: finite_policy_def finite_limits_def policy_default_def UNLIMITED_def is_unlimited_def)

lemma quota_refines_grant_log_witness:
  "\<not> is_allowed (fst (check_and_consume (foldl quota_step (tracker_new policy_default)
       [Consume ''ann'' Unknown 9000 5]) ''ann'' Unknown 2000 7))"
  using quota_refines_grant_log [OF default_policy_finite,
      of "[Consume ''ann'' Unknown 9000 5]" 7 "''ann''" Unknown 2000]
  by (simp add: policy_default_def is_unlimited_def spec_allows_def window_def granted_def
      saturating_sub_def HOUR_NS_def DAY_NS_def user_log_def)

text \<open>A drained reading at \<^verbatim>\<open>now\<close> is the same whether the stale events are popped or skipped.\<close>

lemma used_at_rel:
  assumes "usage_rel T us L" "T \<le> now"
  shows "unat (hourly_tokens_used_at us now) = granted (window HOUR_NS now L)"
    and "unat (daily_tokens_used_at us now) = granted (window DAY_NS now L)"
    and "unat (hourly_requests_used_at us now) = length (window HOUR_NS now L)"
proof -
  from usage_rel_drain [OF assms]
  have small: "granted (window HOUR_NS now L) < 2 ^ 64" "granted (window DAY_NS now L) < 2 ^ 64"
    "length (window HOUR_NS now L) < 2 ^ 64" by (auto simp: usage_rel_def)
  have f: "filter (\<lambda>(ts, _). saturating_sub now w \<le> ts) (window w T L) = window w now L" for w
    using window_window [OF assms(2), of w L] unfolding window_def case_prod_beta .
  show "unat (hourly_tokens_used_at us now) = granted (window HOUR_NS now L)"
    "unat (daily_tokens_used_at us now) = granted (window DAY_NS now L)"
    using assms(1) small
    by (simp_all add: hourly_tokens_used_at_def daily_tokens_used_at_def usage_rel_def f unat_window_sum Let_def)
  have "length (filter ((\<le>) (saturating_sub now HOUR_NS)) (hourly_requests us)) = length (window HOUR_NS now L)"
    using assms(1) arg_cong [OF f [of HOUR_NS], of length, unfolded case_prod_beta]
    by (simp add: usage_rel_def filter_map comp_def)
  with small(3) show "unat (hourly_requests_used_at us now) = length (window HOUR_NS now L)"
    by (simp add: hourly_requests_used_at_def Let_def unsigned_of_nat take_bit_nat_eq_self)
qed

text \<open>A snapshot predicts the next decision. For a limited tier, a request for a positive number
  of tokens is allowed exactly when the snapshot taken at the same moment shows a remaining request
  and at least that many tokens remaining in both windows.\<close>

theorem snapshot_predicts_decision:
  assumes fin: "finite_policy pol" and t: "sorted (op_times xs @ [now])"
    and lim: "\<not> is_unlimited (for_tier pol tier)" and pos: "0 < tokens"
    and q: "q = foldl quota_step (tracker_new pol) xs"
  shows "is_allowed (fst (check_and_consume q u tier tokens now)) \<longleftrightarrow>
     1 \<le> hourly_requests_remaining (snapshot q u tier now)
     \<and> tokens \<le> hourly_tokens_remaining (snapshot q u tier now)
     \<and> tokens \<le> daily_tokens_remaining (snapshot q u tier now)"
proof -
  let ?L = "user_log (foldl (spec_step pol) [] xs) u"
  obtain c where c: "c \<le> now" and rel: "tracker_rel pol c q (foldl (spec_step pol) [] xs)"
    using tracker_reachable [OF fin t] unfolding q .
  then obtain T where T: "T \<le> now" "usage_rel T (usage_entry q u) ?L"
    unfolding tracker_rel_def by (meson order_trans)
  have z: "hourly_tokens_used_at usage_new n = 0" "daily_tokens_used_at usage_new n = 0"
    "hourly_requests_used_at usage_new n = 0" for n
    by (simp_all add: hourly_tokens_used_at_def daily_tokens_used_at_def hourly_requests_used_at_def
        usage_new_def)
  have snap: "snapshot q u tier now = \<lparr>snap_user_id = u, snap_trust_tier = tier,
      hourly_tokens_used_s = hourly_tokens_used_at (usage_entry q u) now,
      hourly_tokens_limit = tokens_per_hour (for_tier pol tier),
      daily_tokens_used_s = daily_tokens_used_at (usage_entry q u) now,
      daily_tokens_limit = tokens_per_day (for_tier pol tier),
      hourly_requests_used_s = hourly_requests_used_at (usage_entry q u) now,
      hourly_requests_limit = requests_per_hour (for_tier pol tier),
      snap_violations = violations_of q u\<rparr>"
    using rel z by (auto simp: snapshot_def usage_entry_def violations_of_def tracker_rel_def Let_def
        split: option.splits)
  have "0 < unat tokens" using pos by (simp add: word_less_nat_alt)
  with decision_refines [OF fin t, of u tier tokens, folded q] lim show ?thesis
    unfolding snap hourly_requests_remaining_def hourly_tokens_remaining_def daily_tokens_remaining_def
    by (auto simp: spec_allows_def uint_order unat_saturating_sub used_at_rel [OF T(2,1)])
qed

lemma snapshot_predicts_decision_witness:
  "is_allowed (fst (check_and_consume (tracker_new policy_default) ''bob'' Verified 50000 0)) \<longleftrightarrow>
     1 \<le> hourly_requests_remaining (snapshot (tracker_new policy_default) ''bob'' Verified 0)
     \<and> 50000 \<le> hourly_tokens_remaining (snapshot (tracker_new policy_default) ''bob'' Verified 0)
     \<and> 50000 \<le> daily_tokens_remaining (snapshot (tracker_new policy_default) ''bob'' Verified 0)"
  by (rule snapshot_predicts_decision [OF default_policy_finite, of "[]"])
    (simp_all add: policy_default_def is_unlimited_def)

text \<open>The retry time of a request-limit refusal is one nanosecond early. When requests are the
  limit (and the limit is not zero), retrying at exactly the reported \<^verbatim>\<open>retry_after_ns\<close> is refused
  again: the oldest request is still inside the window, whose start is inclusive.\<close>

theorem retry_after_still_refused:
  assumes fin: "finite_policy pol" and t: "sorted (op_times xs @ [now])"
    and q: "q = foldl quota_step (tracker_new pol) xs"
    and res: "check_and_consume q u tier tokens now = (Exceeded u (HourlyRequestLimit n limit) retry, q')"
    and pos: "0 < limit"
  shows "now \<le> retry \<and> \<not> is_allowed (fst (check_and_consume q' u tier tokens' retry))"
proof -
  let ?log = "foldl (spec_step pol) [] xs" and ?l = "for_tier pol tier"
  let ?L = "user_log ?log u"
  obtain c where c: "c \<le> now" and rel: "tracker_rel pol c q ?log"
    using tracker_reachable [OF fin t] unfolding q .
  then obtain T where T: "T \<le> now" "usage_rel T (usage_entry q u) ?L"
    unfolding tracker_rel_def by (meson order_trans)
  define d where "d = drain_stale (usage_entry q u) now"
  have d: "usage_rel now d ?L" unfolding d_def by (rule usage_rel_drain [OF T(2,1)])
  have lim: "\<not> is_unlimited ?l"
    using res rel by (auto simp: check_and_consume_def tracker_rel_def Let_def)
  then have "fst (consume_usage ?l u tokens now d) = Exceeded u (HourlyRequestLimit n limit) retry"
    using res rel by (simp add: check_and_consume_def tracker_rel_def Let_def d_def case_prod_beta)
  then have over: "requests_per_hour ?l \<le> hourly_requests_used d" "limit = requests_per_hour ?l"
    and r: "retry = request_retry (hourly_requests d) now"
    by (auto simp: consume_usage_def Let_def split: if_splits)
  have W: "hourly_requests d = map fst (window HOUR_NS now ?L)"
    "length (window HOUR_NS now ?L) < 2 ^ 64" using d by (auto simp: usage_rel_def)
  have len: "unat (requests_per_hour ?l) \<le> length (window HOUR_NS now ?L)"
    using over(1) W by (simp add: hourly_requests_used_def uint_order unsigned_of_nat take_bit_nat_eq_self)
  then obtain e es where es: "window HOUR_NS now ?L = e # es"
    using pos over(2) by (cases "window HOUR_NS now ?L") (auto simp: uint_order)
  then have retry: "retry = saturating_add (fst e) HOUR_NS" using r W by (simp add: request_retry_def)
  have cut: "saturating_sub retry HOUR_NS \<le> fst e"
    by (auto simp: retry uint_order unat_saturating_sub unat_saturating_add)
  have "e \<in> set (window HOUR_NS now ?L)" by (simp add: es)
  then have e: "saturating_sub now HOUR_NS \<le> fst e" by (simp add: window_def)
  then have later: "now \<le> retry" using unat_lt_pow [of now]
    by (auto simp: retry uint_order unat_saturating_sub unat_saturating_add)
  have "sorted (map fst (e # es))" using sorted_windows [of ?L HOUR_NS now] d es by (simp add: usage_rel_def)
  then have "\<forall>x\<in>set (window HOUR_NS now ?L). saturating_sub retry HOUR_NS \<le> fst x"
    using cut unfolding es by (auto intro: order_trans)
  then have "window HOUR_NS retry (window HOUR_NS now ?L) = window HOUR_NS now ?L"
    by (simp add: window_filter [of _ retry] filter_id_conv)
  then have "length (window HOUR_NS now ?L) = length (window HOUR_NS retry ?L)"
    using window_window [OF later, of HOUR_NS ?L] by simp
  with len have no: "\<not> spec_allows ?l ?L tok retry" for tok by (simp add: spec_allows_def)
  have "\<not> spec_allows ?l ?L tokens now" using len by (simp add: spec_allows_def)
  then have "tracker_rel pol now q' ?log"
    using check_and_consume_rel(2) [OF rel c fin lim, of u tokens] res by simp
  from check_and_consume_rel(1) [OF this later fin lim, of u tokens'] no later show ?thesis by simp
qed

lemma retry_after_still_refused_witness:
  "let pol = policy_default\<lparr>unknown_limits := \<lparr>tokens_per_hour = 100, tokens_per_day = 100, requests_per_hour = 1\<rparr>\<rparr>;
       q = snd (check_and_consume (tracker_new pol) ''eve'' Unknown 1 0)
   in fst (check_and_consume q ''eve'' Unknown 1 5) = Exceeded ''eve'' (HourlyRequestLimit 1 1) HOUR_NS
      \<and> \<not> is_allowed (fst (check_and_consume (snd (check_and_consume q ''eve'' Unknown 1 5)) ''eve'' Unknown 1 HOUR_NS))"
proof -
  let ?pol = "policy_default\<lparr>unknown_limits := \<lparr>tokens_per_hour = 100, tokens_per_day = 100, requests_per_hour = 1\<rparr>\<rparr>"
  let ?q = "foldl quota_step (tracker_new ?pol) [Consume ''eve'' Unknown 1 0]"
  have fin: "finite_policy ?pol"
    by (simp add: finite_policy_def finite_limits_def policy_default_def UNLIMITED_def is_unlimited_def)
  have res: "fst (check_and_consume ?q ''eve'' Unknown 1 5) = Exceeded ''eve'' (HourlyRequestLimit 1 1) HOUR_NS"
    by (simp add: check_and_consume_def tracker_new_def usage_entry_def usage_new_def drain_stale_def
        consume_usage_def is_unlimited_def policy_default_def hourly_tokens_used_def daily_tokens_used_def
        hourly_requests_used_def request_retry_def saturating_add_def saturating_sub_def HOUR_NS_def DAY_NS_def
        Let_def)
  then have "check_and_consume ?q ''eve'' Unknown 1 5 =
      (Exceeded ''eve'' (HourlyRequestLimit 1 1) HOUR_NS, snd (check_and_consume ?q ''eve'' Unknown 1 5))"
    by (simp add: prod_eq_iff)
  from retry_after_still_refused [OF fin _ refl this, of 1] res show ?thesis by (simp add: Let_def)
qed

end
