(* ===== verification/Ascii_Text.thy ===== *)
theory Ascii_Text
  imports Anima_Prelude "HOL-Library.Sublist"
begin

text \<open>
  The text operations of the Rust standard library that the components share: splitting, decimal numbers,
  letter case. Strings are lists of ASCII characters, so a character is a byte.
\<close>

section \<open>Splitting and parsing\<close>

fun split_ws_acc :: "string \<Rightarrow> string \<Rightarrow> string list" where
  "split_ws_acc acc [] = (if acc = [] then [] else [rev acc])"
| "split_ws_acc acc (c # cs) =
     (if is_space c then (if acc = [] then split_ws_acc [] cs else rev acc # split_ws_acc [] cs)
      else split_ws_acc (c # acc) cs)"

definition split_whitespace :: "string \<Rightarrow> string list" where
  "split_whitespace s = split_ws_acc [] s"

fun split_on :: "char \<Rightarrow> string \<Rightarrow> string list" where
  "split_on d [] = [[]]"
| "split_on d (c # cs) =
     (if c = d then [] # split_on d cs
      else (case split_on d cs of [] \<Rightarrow> [[c]] | p # ps \<Rightarrow> (c # p) # ps))"

fun split_once :: "char \<Rightarrow> string \<Rightarrow> (string \<times> string) option" where
  "split_once d [] = None"
| "split_once d (c # cs) =
     (if c = d then Some ([], cs) else map_option (\<lambda>(a, b). (c # a, b)) (split_once d cs))"

definition digit_of :: "char \<Rightarrow> nat option" where
  "digit_of c = (let n = of_char c :: nat in if 48 \<le> n \<and> n \<le> 57 then Some (n - 48) else None)"

text \<open>Rust's \<^verbatim>\<open>str::parse::<u64>\<close>: an optional plus sign, at least one digit, overflow is an error.\<close>

fun parse_digits :: "nat \<Rightarrow> string \<Rightarrow> nat option" where
  "parse_digits acc [] = Some acc"
| "parse_digits acc (c # cs) =
     (case digit_of c of
        None \<Rightarrow> None
      | Some d \<Rightarrow> if acc * 10 + d < 2 ^ 64 then parse_digits (acc * 10 + d) cs else None)"

definition parse_u64 :: "string \<Rightarrow> nat option" where
  "parse_u64 s =
     (let digits = (case s of c # cs \<Rightarrow> if c = CHR ''+'' then cs else s | [] \<Rightarrow> []) in
      if digits = [] then None else parse_digits 0 digits)"

section \<open>Case\<close>

definition to_lower :: "char \<Rightarrow> char" where
  "to_lower c = (let n = of_char c :: nat in if 65 \<le> n \<and> n \<le> 90 then char_of (n + 32) else c)"

abbreviation to_ascii_lowercase :: "string \<Rightarrow> string" where
  "to_ascii_lowercase s \<equiv> map to_lower s"

lemma of_char_to_lower: "of_char (to_lower c) = (let n = of_char c :: nat in if 65 \<le> n \<and> n \<le> 90 then n + 32 else n)"
  by (auto simp: to_lower_def Let_def of_char_of)

lemma to_lower_idem [simp]: "to_lower (to_lower c) = to_lower c"
  using of_char_to_lower [of c] unfolding to_lower_def [of "to_lower c"] by (auto simp: Let_def split: if_splits)

section \<open>Decimal numbers\<close>

definition digit :: "nat \<Rightarrow> char" where
  "digit d = char_of (48 + d)"

fun decimal :: "nat \<Rightarrow> string" where
  "decimal n = (if n < 10 then [digit n] else decimal (n div 10) @ [digit (n mod 10)])"

declare decimal.simps [simp del]

definition is_digit :: "char \<Rightarrow> bool" where
  "is_digit c \<longleftrightarrow> digit_of c \<noteq> None"

lemma digit_of_digit [simp]: "d < 10 \<Longrightarrow> digit_of (digit d) = Some d"
  by (simp add: digit_of_def digit_def Let_def)

lemma not_digits [simp]:
  "\<not> is_digit CHR ''*''" "\<not> is_digit CHR ''/''" "\<not> is_digit CHR '',''" "\<not> is_digit CHR ''-''" "\<not> is_digit CHR ''+''"
  by (simp_all add: is_digit_def digit_of_def)

lemma is_digit_digit [simp]: "d < 10 \<Longrightarrow> is_digit (digit d)"
  by (simp add: is_digit_def)

lemma decimal_digits: "list_all is_digit (decimal n)"
  by (induction n rule: decimal.induct) (subst decimal.simps, simp)

lemma decimal_ne [simp]: "decimal n \<noteq> []" "[] \<noteq> decimal n"
  by (subst decimal.simps, simp)+

lemma decimal_free: "\<not> is_digit c \<Longrightarrow> c \<notin> set (decimal n)"
  using decimal_digits [of n] by (auto simp: list_all_iff)

lemma decimal_hd: "\<not> is_digit c \<Longrightarrow> hd (decimal n) \<noteq> c"
  by (metis decimal_free decimal_ne(1) hd_in_set)

lemma parse_digits_append:
  "parse_digits acc (xs @ ys) = Option.bind (parse_digits acc xs) (\<lambda>a. parse_digits a ys)"
  by (induction acc xs rule: parse_digits.induct) (simp_all split: option.split)

lemma parse_digits_decimal: "n < 2 ^ 64 \<Longrightarrow> parse_digits 0 (decimal n) = Some n"
  by (induction n rule: decimal.induct) (subst decimal.simps, simp add: parse_digits_append)

lemma parse_decimal [simp]: "n < 2 ^ 64 \<Longrightarrow> parse_u64 (decimal n) = Some n"
proof -
  assume "n < 2 ^ 64"
  moreover have "hd (decimal n) \<noteq> CHR ''+''" by (simp add: decimal_hd)
  ultimately show ?thesis
    by (cases "decimal n") (simp_all add: parse_u64_def parse_digits_decimal [of n, symmetric])
qed

lemma split_once_free [simp]: "d \<notin> set xs \<Longrightarrow> split_once d xs = None"
  by (induction xs) auto

lemma split_once_append [simp]: "d \<notin> set xs \<Longrightarrow> split_once d (xs @ d # ys) = Some (xs, ys)"
  by (induction xs) auto

lemma split_on_free [simp]: "d \<notin> set xs \<Longrightarrow> split_on d xs = [xs]"
  by (induction xs) auto

lemma split_on_append [simp]: "d \<notin> set xs \<Longrightarrow> split_on d (xs @ d # ys) = xs # split_on d ys"
  by (induction xs) auto

lemma split_once_middle [simp]:
  "d \<notin> set xs \<Longrightarrow> d \<noteq> c \<Longrightarrow> d \<notin> set ys \<Longrightarrow> split_once d (xs @ c # ys @ d # zs) = Some (xs @ c # ys, zs)"
  using split_once_append [of d "xs @ c # ys" zs] by simp

section \<open>Searching\<close>

text \<open>\<^verbatim>\<open>str::find\<close> with a pattern string, and what is built on it.\<close>

fun find_str :: "string \<Rightarrow> string \<Rightarrow> nat option" where
  "find_str p [] = (if p = [] then Some 0 else None)"
| "find_str p (c # cs) = (if prefix p (c # cs) then Some 0 else map_option Suc (find_str p cs))"

definition contains_str :: "string \<Rightarrow> string \<Rightarrow> bool" where
  "contains_str s p \<longleftrightarrow> find_str p s \<noteq> None"

definition strip_prefix :: "string \<Rightarrow> string \<Rightarrow> string option" where
  "strip_prefix p s = (if prefix p s then Some (drop (length p) s) else None)"

definition split_once_str :: "string \<Rightarrow> string \<Rightarrow> (string \<times> string) option" where
  "split_once_str p s = map_option (\<lambda>i. (take i s, drop (i + length p) s)) (find_str p s)"

text \<open>\<^verbatim>\<open>str::lines\<close>: without the line ends, a carriage return before one included, and with no
  empty line after the last.\<close>

definition strip_cr :: "string \<Rightarrow> string" where
  "strip_cr s = (if s \<noteq> [] \<and> last s = CHR 0x0D then butlast s else s)"

definition lines :: "string \<Rightarrow> string list" where
  "lines s = (let ls = split_on CHR ''\<newline>'' s in map strip_cr (if last ls = [] then butlast ls else ls))"

lemma find_str_Some: "find_str p s = Some i \<Longrightarrow> \<exists>a b. s = a @ p @ b \<and> length a = i"
proof (induction p s arbitrary: i rule: find_str.induct)
  case (2 p c cs)
  show ?case
  proof (cases "prefix p (c # cs)")
    case True
    with 2 show ?thesis by (auto simp: prefix_def)
  next
    case False
    with 2 obtain j where "find_str p cs = Some j" "i = Suc j" by auto
    with 2(1) [OF False] obtain a b where "cs = a @ p @ b" "length a = j" by blast
    with \<open>i = Suc j\<close> show ?thesis by (intro exI [of _ "c # a"] exI [of _ b]) simp
  qed
qed (simp split: if_splits)

lemma find_str_None: "find_str p s = None \<Longrightarrow> s \<noteq> a @ p @ b"
proof (induction p s arbitrary: a rule: find_str.induct)
  case (2 p c cs)
  then show ?case by (cases a) (auto simp: prefix_def split: if_splits)
qed (simp split: if_splits)

lemma contains_str_iff: "contains_str s p \<longleftrightarrow> (\<exists>a b. s = a @ p @ b)"
  using find_str_Some [of p s] find_str_None [of p s] unfolding contains_str_def by blast

text \<open>\<^verbatim>\<open>[String]::join\<close>, which \<^verbatim>\<open>str::split\<close> undoes.\<close>

fun join_str :: "string \<Rightarrow> string list \<Rightarrow> string" where
  "join_str sep [] = []"
| "join_str sep [x] = x"
| "join_str sep (x # y # ys) = x @ sep @ join_str sep (y # ys)"

lemma split_on_join: "list_all (\<lambda>x. d \<notin> set x) xs \<Longrightarrow> xs \<noteq> [] \<Longrightarrow> split_on d (join_str [d] xs) = xs"
  by (induction "[d]" xs rule: join_str.induct) auto

lemma join_split_on: "join_str [d] (split_on d s) = s"
proof (induction d s rule: split_on.induct)
  case (2 d c cs)
  then show ?case by (cases "split_on d cs" rule: remdups_adj.cases) auto
qed simp

lemma split_on_parts: "list_all (\<lambda>x. d \<notin> set x) (split_on d s)"
  by (induction d s rule: split_on.induct) (auto split: list.split)

lemma split_on_chars: "p \<in> set (split_on d s) \<Longrightarrow> set p \<subseteq> set s"
proof (induction d s arbitrary: p rule: split_on.induct)
  case (2 d c cs)
  show ?case
  proof (cases "c = d")
    case True
    with 2 show ?thesis by auto
  next
    case False
    with 2 have IH: "q \<in> set (split_on d cs) \<Longrightarrow> set q \<subseteq> set cs" for q by blast
    show ?thesis
    proof (cases "split_on d cs")
      case (Cons q qs)
      then have "set q \<subseteq> set cs" "r \<in> set qs \<Longrightarrow> set r \<subseteq> set cs" for r using IH by simp_all
      with 2(3) False Cons show ?thesis by auto
    qed (use 2(3) False in simp)
  qed
qed simp

lemma join_str_append: "xs \<noteq> [] \<Longrightarrow> ys \<noteq> [] \<Longrightarrow> join_str sep (xs @ ys) = join_str sep xs @ sep @ join_str sep ys"
  by (induction sep xs rule: join_str.induct) (auto simp: neq_Nil_conv)

section \<open>Hexadecimal\<close>

definition hex_digit :: "nat \<Rightarrow> char" where
  "hex_digit d = (if d < 10 then char_of (48 + d) else char_of (87 + d))"

text \<open>\<^verbatim>\<open>format!("{w:016x}")\<close>.\<close>

definition hex16 :: "u64 \<Rightarrow> string" where
  "hex16 w = map (\<lambda>k. hex_digit (unat w div 16 ^ k mod 16)) (rev [0..<16])"

lemma hex_digit_inj: "a < 16 \<Longrightarrow> b < 16 \<Longrightarrow> hex_digit a = hex_digit b \<Longrightarrow> a = b"
proof -
  assume ab: "a < 16" "b < 16" "hex_digit a = hex_digit b"
  have code: "of_char (hex_digit d) = (if d < 10 then 48 + d else 87 + d)" if "d < 16" for d :: nat
    using that by (simp add: hex_digit_def of_char_of)
  have "(if a < 10 then 48 + a else 87 + a) = (if b < 10 then 48 + b else 87 + b)"
    unfolding code [OF ab(1), symmetric] code [OF ab(2), symmetric] ab(3) ..
  with ab(1,2) show ?thesis by (auto split: if_splits)
qed

lemma base16_unique: "(\<And>k. k < n \<Longrightarrow> a div 16 ^ k mod 16 = b div 16 ^ k mod 16) \<Longrightarrow> a mod 16 ^ n = b mod (16 :: nat) ^ n"
proof (induction n)
  case (Suc n)
  have "x mod 16 ^ Suc n = x mod 16 ^ n + 16 ^ n * (x div 16 ^ n mod 16)" for x :: nat
    using mod_mult2_eq [of x "16 ^ n" 16] by (simp add: mult.commute)
  with Suc show ?case by simp
qed simp

lemma hex16_inj: "hex16 a = hex16 b \<Longrightarrow> a = b"
proof -
  assume "hex16 a = hex16 b"
  then have "\<forall>k\<in>set (rev [0..<16]). hex_digit (unat a div 16 ^ k mod 16) = hex_digit (unat b div 16 ^ k mod 16)"
    unfolding hex16_def map_eq_conv .
  moreover have "k \<in> set (rev [0..<16])" if "k < 16" for k
    using that unfolding set_rev set_upt by simp
  ultimately have "hex_digit (unat a div 16 ^ k mod 16) = hex_digit (unat b div 16 ^ k mod 16)" if "k < 16" for k
    using that by (meson bspec)
  then have "unat a mod 16 ^ 16 = unat b mod 16 ^ 16"
    by (intro base16_unique) (auto intro: hex_digit_inj)
  moreover have "unat a < 16 ^ 16" "unat b < 16 ^ 16" using unat_lt_pow [of a] unat_lt_pow [of b] by simp_all
  ultimately show ?thesis by (simp add: word_unat_eq_iff)
qed

end
