(* ===== verification/Cron_Schedule.thy ===== *)
theory Cron_Schedule
  imports Ascii_Text
begin

text \<open>
  Job schedules and cron evaluation (\<^verbatim>\<open>crates/jobs/src/schedule.rs\<close>). Strings are lists of ASCII
  characters. The arithmetic of the calendar conversion only divides and subtracts values far below
  the width of its types, so it is written on naturals and integers, with the casts to 8 bits kept.
  The specifications are the Gregorian calendar (leap years and month lengths, summed from the
  epoch) for the conversion, and the documented meaning of a field for the matcher.
\<close>

section \<open>Calendar conversion\<close>

definition civil_era :: "int \<Rightarrow> int" where
  "civil_era z = (if z \<ge> 0 then z div 146097 else - ((146096 - z) div 146097))"

definition civil_yoe :: "nat \<Rightarrow> nat" where
  "civil_yoe doe = (doe - doe div 1460 + doe div 36524 - doe div 146096) div 365"

definition civil_doy :: "nat \<Rightarrow> nat" where
  "civil_doy doe = (let yoe = civil_yoe doe in doe - (365 * yoe + yoe div 4 - yoe div 100))"

definition civil_day :: "nat \<Rightarrow> nat" where
  "civil_day doy = (let mp = (5 * doy + 2) div 153 in (doy - (153 * mp + 2) div 5 + 1) mod 256)"

definition civil_month :: "nat \<Rightarrow> nat" where
  "civil_month doy = (let mp = (5 * doy + 2) div 153 in if mp < 10 then (mp + 3) mod 256 else (mp - 9) mod 256)"

definition decompose_unix_secs :: "nat \<Rightarrow> nat \<times> nat \<times> nat \<times> nat \<times> nat" where
  "decompose_unix_secs unix_secs =
     (let days = unix_secs div 86400;
          time_of_day = unix_secs mod 86400;
          hour = (time_of_day div 3600) mod 256;
          minute = ((time_of_day mod 3600) div 60) mod 256;
          weekday = ((days + 4) mod 7) mod 256;
          z = int days + 719468;
          era = civil_era z;
          doe = nat (z - era * 146097);
          doy = civil_doy doe
      in (minute, hour, civil_day doy, civil_month doy, weekday))"

section \<open>Cron evaluation\<close>

definition item_matches :: "string \<Rightarrow> nat \<Rightarrow> bool" where
  "item_matches item v =
     (let stepped = (case split_once CHR ''/'' item of
            Some (base, step_str) \<Rightarrow>
              (case parse_u64 step_str of Some n \<Rightarrow> if n > 0 then Some (base, Some n) else None | None \<Rightarrow> None)
          | None \<Rightarrow> Some (item, None))
      in case stepped of
           None \<Rightarrow> False
         | Some (base, step) \<Rightarrow>
             let in_range = (\<lambda>lo hi. \<not> (v < lo \<or> v > hi) \<and>
                   (case step of Some n \<Rightarrow> (v - lo) mod n = 0 | None \<Rightarrow> True)) in
             if base = ''*'' then in_range 0 (2 ^ 64 - 1)
             else (case split_once CHR ''-'' base of
                 Some (a, b) \<Rightarrow>
                   (case (parse_u64 a, parse_u64 b) of
                      (Some lo, Some hi) \<Rightarrow> lo \<le> hi \<and> in_range lo hi
                    | _ \<Rightarrow> False)
               | None \<Rightarrow> (case parse_u64 base of Some n \<Rightarrow> step = None \<and> n = v | None \<Rightarrow> False)))"

definition field_matches :: "string \<Rightarrow> nat \<Rightarrow> bool" where
  "field_matches field v \<longleftrightarrow> list_ex (\<lambda>item. item_matches item v) (split_on CHR '','' field)"

datatype CronError =
    FieldCount nat
  | EmptyField
  | EmptyListElement
  | BadStep
  | OutOfBounds nat nat nat
  | BadRangeStart
  | BadRangeEnd
  | ReversedRange nat nat
  | StepNeedsRange
  | NotANumber

definition in_bounds :: "nat \<Rightarrow> nat \<Rightarrow> nat \<Rightarrow> CronError + unit" where
  "in_bounds lo hi n = (if n < lo \<or> n > hi then Inl (OutOfBounds n lo hi) else Inr ())"

definition validate_item :: "string \<Rightarrow> nat \<Rightarrow> nat \<Rightarrow> CronError + unit" where
  "validate_item item lo hi =
     (if item = [] then Inl EmptyListElement
      else
        (let stepped = (case split_once CHR ''/'' item of
               Some (base, step_str) \<Rightarrow>
                 (case parse_u64 step_str of
                    Some n \<Rightarrow> if n > 0 then Some (base, True) else None
                  | None \<Rightarrow> None)
             | None \<Rightarrow> Some (item, False))
         in case stepped of
              None \<Rightarrow> Inl BadStep
            | Some (base, step) \<Rightarrow>
                if base = ''*'' then Inr ()
                else (case split_once CHR ''-'' base of
                    Some (a, b) \<Rightarrow>
                      (case parse_u64 a of
                         None \<Rightarrow> Inl BadRangeStart
                       | Some x \<Rightarrow>
                           (case parse_u64 b of
                              None \<Rightarrow> Inl BadRangeEnd
                            | Some y \<Rightarrow>
                                if x > y then Inl (ReversedRange x y)
                                else (case in_bounds lo hi x of
                                    Inl e \<Rightarrow> Inl e
                                  | Inr _ \<Rightarrow> in_bounds lo hi y)))
                  | None \<Rightarrow>
                      if step then Inl StepNeedsRange
                      else (case parse_u64 base of None \<Rightarrow> Inl NotANumber | Some n \<Rightarrow> in_bounds lo hi n))))"

fun validate_items :: "string list \<Rightarrow> nat \<Rightarrow> nat \<Rightarrow> CronError + unit" where
  "validate_items [] lo hi = Inr ()"
| "validate_items (item # items) lo hi =
     (case validate_item item lo hi of Inl e \<Rightarrow> Inl e | Inr _ \<Rightarrow> validate_items items lo hi)"

definition validate_field :: "string \<Rightarrow> nat \<Rightarrow> nat \<Rightarrow> CronError + unit" where
  "validate_field field lo hi =
     (if field = [] then Inl EmptyField else validate_items (split_on CHR '','' field) lo hi)"

text \<open>The domains of minute, hour, day of month, month and day of week.\<close>

definition cron_domains :: "(nat \<times> nat) list" where
  "cron_domains = [(0, 59), (0, 23), (1, 31), (1, 12), (0, 6)]"

fun validate_fields :: "string list \<Rightarrow> (nat \<times> nat) list \<Rightarrow> CronError + unit" where
  "validate_fields (f # fs) ((lo, hi) # ds) =
     (case validate_field f lo hi of Inl e \<Rightarrow> Inl e | Inr _ \<Rightarrow> validate_fields fs ds)"
| "validate_fields _ _ = Inr ()"

definition validate_cron :: "string \<Rightarrow> CronError + unit" where
  "validate_cron expression =
     (let parts = split_whitespace expression in
      if length parts \<noteq> 5 then Inl (FieldCount (length parts))
      else validate_fields parts cron_domains)"

definition is_cron_due :: "string \<Rightarrow> u64 \<Rightarrow> u64 \<Rightarrow> bool" where
  "is_cron_due expression now_ns last_fired_ns =
     (let secs = unat now_ns div 1000000000;
          (minute, hour, day, month, weekday) = decompose_unix_secs secs;
          parts = split_whitespace expression
      in if length parts \<noteq> 5 then False
         else if \<not> field_matches (parts ! 0) minute \<or> \<not> field_matches (parts ! 1) hour
              \<or> \<not> field_matches (parts ! 2) day \<or> \<not> field_matches (parts ! 3) month
              \<or> \<not> field_matches (parts ! 4) weekday then False
         else unat last_fired_ns < (secs div 60) * 60 * 1000000000)"

datatype JobSchedule = Immediate | Once u64 | Cron string

fun type_label :: "JobSchedule \<Rightarrow> string" where
  "type_label Immediate = ''immediate''"
| "type_label (Once _) = ''once''"
| "type_label (Cron _) = ''cron''"

fun is_due :: "JobSchedule \<Rightarrow> u64 \<Rightarrow> u64 \<Rightarrow> bool" where
  "is_due Immediate now_ns last_fired_ns \<longleftrightarrow> last_fired_ns = 0"
| "is_due (Once at_ns) now_ns last_fired_ns \<longleftrightarrow> now_ns \<ge> at_ns \<and> last_fired_ns = 0"
| "is_due (Cron expression) now_ns last_fired_ns \<longleftrightarrow> is_cron_due expression now_ns last_fired_ns"

section \<open>The calendar\<close>

definition is_leap :: "nat \<Rightarrow> bool" where
  "is_leap y \<longleftrightarrow> 4 dvd y \<and> \<not> 100 dvd y \<or> 400 dvd y"

definition year_len :: "nat \<Rightarrow> nat" where
  "year_len y = (if is_leap y then 366 else 365)"

definition month_len :: "nat \<Rightarrow> nat \<Rightarrow> nat" where
  "month_len y m = (if m = 2 then (if is_leap y then 29 else 28) else if m \<in> {4, 6, 9, 11} then 30 else 31)"

text \<open>Days from the first of January 1970 to day \<^term>\<open>d\<close> of month \<^term>\<open>m\<close> of year \<^term>\<open>y\<close>.\<close>

definition days_since_epoch :: "nat \<Rightarrow> nat \<Rightarrow> nat \<Rightarrow> nat" where
  "days_since_epoch y m d =
     sum_list (map year_len [1970..<y]) + sum_list (map (month_len y) [1..<m]) + (d - 1)"

text \<open>The days of the years 1 to \<^term>\<open>y\<close> in closed form.\<close>

definition year_days :: "nat \<Rightarrow> nat" where
  "year_days y = 365 * y + y div 4 + y div 400 - y div 100"

lemma div_le_div: "(y :: nat) div 100 \<le> y div 4"
  by (rule div_le_mono2) simp_all

lemma year_days_add: "year_days y + y div 100 = 365 * y + y div 4 + y div 400"
  using div_le_div [of y] by (simp add: year_days_def)

lemma year_days_Suc: "year_days (Suc y) = year_days y + year_len (Suc y)"
proof -
  have *: "400 dvd Suc y \<Longrightarrow> 100 dvd Suc y" "100 dvd Suc y \<Longrightarrow> 4 dvd Suc y"
    using dvd_trans [of 100 400 "Suc y"] dvd_trans [of 4 100 "Suc y"] by simp_all
  have d: "Suc y div n = y div n + (if n dvd Suc y then 1 else 0)" for n
    by (simp add: div_Suc dvd_eq_mod_eq_0)
  have arith: "n + (p + b) = 365 * Suc y + (u + a) + (w + c) \<Longrightarrow> v + p = 365 * y + u + w \<Longrightarrow>
      n + b = v + 365 + a + c" for n p b u a w c v :: nat by simp
  define a b c where "a = (if 4 dvd Suc y then 1 else 0 :: nat)"
    and "b = (if 100 dvd Suc y then 1 else 0 :: nat)" and "c = (if 400 dvd Suc y then 1 else 0 :: nat)"
  have "year_days (Suc y) + b = year_days y + 365 + a + c"
    by (rule arith [OF year_days_add [of "Suc y", unfolded d, folded a_def b_def c_def] year_days_add])
  moreover have "365 + a + c = year_len (Suc y) + b"
    using * unfolding a_def b_def c_def year_len_def is_leap_def
    by (cases "4 dvd Suc y"; cases "100 dvd Suc y"; cases "400 dvd Suc y") simp_all
  ultimately show ?thesis by linarith
qed

lemma year_days_mono: "x \<le> y \<Longrightarrow> year_days x \<le> year_days y"
  by (induction y rule: dec_induct) (simp_all add: year_days_Suc)

lemma year_days_sum: "sum_list (map year_len [1970..<1970 + k]) + 719162 = year_days (1969 + k)"
proof (induction k)
  case 0
  show ?case by (simp add: year_days_def)
next
  case (Suc k)
  have "[1970..<Suc (1970 + k)] = [1970..<1970 + k] @ [1970 + k]" by (rule upt_Suc_append) simp
  then have "sum_list (map year_len [1970..<1970 + Suc k]) =
      sum_list (map year_len [1970..<1970 + k]) + year_len (1970 + k)" by (simp only: add_Suc_right map_append) simp
  moreover have "year_days (1969 + Suc k) = year_days (1969 + k) + year_len (1970 + k)"
    using year_days_Suc [of "1969 + k"] by simp
  ultimately show ?case using Suc by linarith
qed

text \<open>A day of a 400-year era by century, four-year group, year and day of the year.\<close>

lemma era_split:
  assumes "doe < (146097 :: nat)"
  obtains c q r t where "c < 4" "q < 25" "r < 4" "t \<le> 365" "t = 365 \<longrightarrow> r = 3 \<and> (q \<noteq> 24 \<or> c = 3)"
    "doe = 36524 * c + 1461 * q + 365 * r + t"
proof -
  define c where "c = min (doe div 36524) 3"
  define m where "m = doe - 36524 * c"
  have c: "c < 4" "doe = 36524 * c + m" "m \<le> 36524" "c = 3 \<or> m < 36524"
    using assms by (auto simp: c_def m_def min_def)
  define q where "q = m div 1461"
  define s where "s = m mod 1461"
  have q: "q < 25" "m = 1461 * q + s" "s < 1461" using c(3) by (auto simp: q_def s_def)
  define r where "r = min (s div 365) 3"
  define t where "t = s - 365 * r"
  have r: "r < 4" "s = 365 * r + t" "t \<le> 365" "t = 365 \<longrightarrow> r = 3"
    using q(3) by (auto simp: r_def t_def min_def)
  have "t = 365 \<longrightarrow> q \<noteq> 24 \<or> c = 3" using c q r by auto
  with c q r show ?thesis by (intro that [of c q r t]) auto
qed

lemma civil_yoe_split:
  assumes "c < 4" "q < 25" "r < 4" "t \<le> 365" "t = 365 \<longrightarrow> r = 3 \<and> (q \<noteq> 24 \<or> c = 3)"
    and doe: "doe = 36524 * c + 1461 * q + 365 * r + t"
  shows "civil_yoe doe = 100 * c + 4 * q + r"
proof -
  define x where "x = 24 * c + q + 365 * r + t"
  define e where "e = (if x < 1460 then 0 else 1 :: nat)"
  have "doe = 1460 * (25 * c + q) + x" by (simp add: doe x_def)
  moreover have "x < 2920" using assms(1-4) by (simp add: x_def)
  ultimately have d1: "doe div 1460 = 25 * c + q + e" by (auto simp: e_def)
  have et: "e \<le> t" "t - e < 365" using assms(1-5) by (auto simp: e_def x_def)
  show ?thesis
  proof (cases "c = 3 \<and> q = 24 \<and> r = 3 \<and> t = 365")
    case True
    then show ?thesis by (simp add: civil_yoe_def doe)
  next
    case False
    then have rest: "1461 * q + 365 * r + t < 36524" using assms(1-5) by auto
    then have d2: "doe div 36524 = c" by (simp add: doe)
    have "doe < 146096" using rest assms(1) by (simp add: doe)
    then have "doe - doe div 1460 + doe div 36524 - doe div 146096 = (100 * c + 4 * q + r) * 365 + (t - e)"
      using et by (simp add: d1 d2) (simp add: doe)
    with et show ?thesis by (simp add: civil_yoe_def)
  qed
qed

lemma year_days_split:
  assumes "c < 4" "q < 25" "r < (4 :: nat)"
  shows "year_days (400 * e + 100 * c + 4 * q + r) = 146097 * e + 36524 * c + 1461 * q + 365 * r"
proof -
  let ?y = "400 * e + 100 * c + 4 * q + r"
  have "?y div 4 = 100 * e + 25 * c + q" "?y div 100 = 4 * e + c" "?y div 400 = e" using assms by auto
  with year_days_add [of ?y] show ?thesis by simp
qed

text \<open>The conversion finds the March-based year that contains the day.\<close>

lemma civil_year:
  assumes z: "z = 146097 * e + doe" "doe < 146097"
  defines "y \<equiv> 400 * e + civil_yoe doe"
  shows "z = year_days y + civil_doy doe" "civil_doy doe < year_len (Suc y)"
proof -
  obtain c q r t where s: "c < 4" "q < 25" "r < 4" "t \<le> 365" "t = 365 \<longrightarrow> r = 3 \<and> (q \<noteq> 24 \<or> c = 3)"
    "doe = 36524 * c + 1461 * q + 365 * r + t" using era_split [OF z(2)] .
  note yoe = civil_yoe_split [OF s]
  have "365 * civil_yoe doe + civil_yoe doe div 4 - civil_yoe doe div 100 = 36524 * c + 1461 * q + 365 * r"
    using year_days_split [OF s(1-3), of 0] s(1-3) by (simp add: yoe year_days_def)
  then have doy: "civil_doy doe = t" unfolding civil_doy_def Let_def using s(6) by linarith
  have y: "y = 400 * e + 100 * c + 4 * q + r" by (simp add: y_def yoe)
  show "z = year_days y + civil_doy doe"
    unfolding y doy year_days_split [OF s(1-3)] using z(1) s(6) by linarith
  have "is_leap (Suc y)" if "t = 365"
  proof (cases "q = 24")
    case True
    with that s(5) have "Suc y = 400 * Suc e" by (simp add: y)
    then show ?thesis unfolding is_leap_def by (metis dvd_triv_left)
  next
    case False
    from that s(5) have "Suc y = 4 * (100 * e + 25 * c + Suc q)" "Suc y = 100 * (4 * e + c) + 4 * Suc q"
      by (simp_all add: y)
    moreover have "\<not> 100 dvd 4 * Suc q" using False s(2) by (auto dest!: dvd_imp_le)
    then have "\<not> 100 dvd 100 * (4 * e + c) + 4 * Suc q" by (metis dvd_add_right_iff dvd_triv_left)
    ultimately show ?thesis unfolding is_leap_def by (metis dvd_triv_left)
  qed
  with s(4) show "civil_doy doe < year_len (Suc y)"
    by (cases "t = 365") (auto simp: doy year_len_def)
qed

text \<open>The March-based day of the year names month and day: ten months before the new year, then January
  and February.\<close>

lemma civil_month_cases:
  assumes "doy < 366"
  obtains mp where "mp < 12" "153 * mp \<le> 5 * doy + 2" "5 * doy + 2 < 153 * mp + 153"
    "civil_month doy = (if mp < 10 then mp + 3 else mp - 9)"
    "civil_day doy = doy - (153 * mp + 2) div 5 + 1"
proof (rule that)
  let ?mp = "(5 * doy + 2) div 153"
  show b: "?mp < 12" "153 * ?mp \<le> 5 * doy + 2" "5 * doy + 2 < 153 * ?mp + 153" using assms by linarith+
  show "civil_month doy = (if ?mp < 10 then ?mp + 3 else ?mp - 9)"
    using b(1) by (simp add: civil_month_def Let_def)
  have "doy \<le> (153 * ?mp + 2) div 5 + 31" using b(3) by linarith
  then show "civil_day doy = doy - (153 * ?mp + 2) div 5 + 1"
    by (simp add: civil_day_def Let_def)
qed

lemma upt_months:
  "[Suc 0..<2] = [1]" "[Suc 0..<3] = [1, 2]" "[3..<4] = [3 :: nat]" "[3..<5] = [3 :: nat, 4]"
  "[3..<6] = [3 :: nat, 4, 5]" "[3..<7] = [3 :: nat, 4, 5, 6]" "[3..<8] = [3 :: nat, 4, 5, 6, 7]"
  "[3..<9] = [3 :: nat, 4, 5, 6, 7, 8]" "[3..<10] = [3 :: nat, 4, 5, 6, 7, 8, 9]"
  "[3..<11] = [3 :: nat, 4, 5, 6, 7, 8, 9, 10]" "[3..<12] = [3 :: nat, 4, 5, 6, 7, 8, 9, 10, 11]"
  by (simp_all add: upt_rec_numeral upt_rec)

lemma civil_before_new_year:
  assumes "doy < 306"
  shows "3 \<le> civil_month doy \<and> civil_month doy \<le> 12
      \<and> sum_list (map (month_len y) [3..<civil_month doy]) + civil_day doy = Suc doy
      \<and> 1 \<le> civil_day doy \<and> civil_day doy \<le> month_len y (civil_month doy)"
proof -
  have "doy < 366" using assms by simp
  then obtain mp where mp: "mp < 12" "153 * mp \<le> 5 * doy + 2" "5 * doy + 2 < 153 * mp + 153"
    "civil_month doy = (if mp < 10 then mp + 3 else mp - 9)"
    "civil_day doy = doy - (153 * mp + 2) div 5 + 1" by (rule civil_month_cases)
  then have "mp < 10" using assms by linarith
  then have "mp = 0 \<or> mp = 1 \<or> mp = 2 \<or> mp = 3 \<or> mp = 4 \<or> mp = 5 \<or> mp = 6 \<or> mp = 7 \<or> mp = 8 \<or> mp = 9"
    by presburger
  then show ?thesis using mp(2-) assms
    by (elim disjE) (simp_all add: month_len_def upt_months)
qed

lemma civil_after_new_year:
  assumes "306 \<le> doy" "doy < year_len y"
  shows "1 \<le> civil_month doy \<and> civil_month doy \<le> 2
      \<and> 306 + sum_list (map (month_len y) [1..<civil_month doy]) + civil_day doy = Suc doy
      \<and> 1 \<le> civil_day doy \<and> civil_day doy \<le> month_len y (civil_month doy)"
proof -
  have "doy < 366" using assms by (simp add: year_len_def split: if_splits)
  then obtain mp where mp: "mp < 12" "153 * mp \<le> 5 * doy + 2" "5 * doy + 2 < 153 * mp + 153"
    "civil_month doy = (if mp < 10 then mp + 3 else mp - 9)"
    "civil_day doy = doy - (153 * mp + 2) div 5 + 1" by (rule civil_month_cases)
  then have "mp = 10 \<or> mp = 11" using assms by linarith
  then show ?thesis using mp(2-) assms
    by (elim disjE) (auto simp: month_len_def upt_months year_len_def split: if_splits)
qed

lemma epoch_before_new_year:
  assumes "1970 \<le> y" "doy < 306"
  shows "days_since_epoch y (civil_month doy) (civil_day doy) + 719468 = year_days y + doy"
proof -
  note m = civil_before_new_year [OF assms(2), of y]
  obtain k where k: "y = 1970 + k" using assms(1) le_Suc_ex by blast
  have ys: "sum_list (map year_len [1970..<y]) + 719162 = year_days (1969 + k)"
    unfolding k by (rule year_days_sum)
  have yd: "year_days y = year_days (1969 + k) + year_len y" using year_days_Suc [of "1969 + k"] by (simp add: k)
  obtain j where j: "civil_month doy = 3 + j" using m le_Suc_ex by blast
  have "[1..<3 + j] = [1..<3] @ [3..<3 + j]" by (rule upt_add_eq_append) simp
  then have "[1..<civil_month doy] = [1, 2] @ [3..<civil_month doy]"
    unfolding j One_nat_def upt_months(2) .
  then have "sum_list (map (month_len y) [1..<civil_month doy]) + 306 =
      year_len y + sum_list (map (month_len y) [3..<civil_month doy])"
    by (simp add: month_len_def year_len_def)
  with m ys yd show ?thesis unfolding days_since_epoch_def by linarith
qed

lemma epoch_after_new_year:
  assumes "1969 \<le> y" "306 \<le> doy" "doy < year_len (Suc y)"
  shows "days_since_epoch (Suc y) (civil_month doy) (civil_day doy) + 719468 = year_days y + doy"
proof -
  note m = civil_after_new_year [OF assms(2,3)]
  obtain k where k: "y = 1969 + k" using assms(1) le_Suc_ex by blast
  have "sum_list (map year_len [1970..<Suc y]) + 719162 = year_days y"
    using year_days_sum [of k] by (simp add: k)
  with m show ?thesis unfolding days_since_epoch_def by linarith
qed

text \<open>The conversion of Unix seconds is the Gregorian calendar. For every time there is a year from
  1970 on such that the month and day it returns exist in that year and lie exactly as many days after
  the epoch as the time does; minute, hour and weekday are in range and name the same moment.\<close>

theorem decompose_is_gregorian:
  "case decompose_unix_secs s of (minute, hour, day, month, weekday) \<Rightarrow>
     minute < 60 \<and> hour < 24 \<and> weekday < 7 \<and>
     (\<exists>y. 1970 \<le> y \<and> 1 \<le> month \<and> month \<le> 12 \<and> 1 \<le> day \<and> day \<le> month_len y month
        \<and> s = 86400 * days_since_epoch y month day + 3600 * hour + 60 * minute + s mod 60
        \<and> weekday = (days_since_epoch y month day + 4) mod 7)"
proof -
  define days where "days = s div 86400"
  define z where "z = days + 719468"
  define e where "e = z div 146097"
  define doe where "doe = z mod 146097"
  define doy where "doy = civil_doy doe"
  define y where "y = 400 * e + civil_yoe doe"
  have zed: "z = 146097 * e + doe" "doe < 146097" by (simp_all add: e_def doe_def)
  have year: "z = year_days y + doy" "doy < year_len (Suc y)"
    using civil_year [OF zed] by (simp_all add: y_def doy_def)
  have int_z: "int days + 719468 = int z" by (simp add: z_def)
  have "nat (int z - civil_era (int z) * 146097) = doe"
    by (simp add: civil_era_def doe_def minus_div_mult_eq_mod nat_mod_distrib)
  then have dec: "decompose_unix_secs s = (((s mod 86400) mod 3600) div 60, (s mod 86400) div 3600,
      civil_day doy, civil_month doy, (days + 4) mod 7)"
    unfolding decompose_unix_secs_def Let_def days_def [symmetric] int_z by (simp add: doy_def)
  have time: "s = 86400 * days + 3600 * ((s mod 86400) div 3600) + 60 * (((s mod 86400) mod 3600) div 60) + s mod 60"
  proof -
    have arith: "a = 86400 * d + r \<Longrightarrow> r = 3600 * h + q \<Longrightarrow> q = 60 * m + t \<Longrightarrow> t = u \<Longrightarrow>
        a = 86400 * d + 3600 * h + 60 * m + u" for a d r h q m t u :: nat by simp
    show ?thesis unfolding days_def
      by (rule arith [OF mult_div_mod_eq [symmetric] mult_div_mod_eq [symmetric] mult_div_mod_eq [symmetric]])
        (simp add: mod_mod_cancel)
  qed
  have late: "1969 \<le> y"
  proof (rule ccontr)
    assume "\<not> 1969 \<le> y"
    then have "year_days (Suc y) \<le> year_days 1969" by (intro year_days_mono) simp
    with year year_days_Suc [of y] show False by (simp add: z_def year_days_def)
  qed
  have "\<exists>y. 1970 \<le> y \<and> 1 \<le> civil_month doy \<and> civil_month doy \<le> 12 \<and> 1 \<le> civil_day doy
      \<and> civil_day doy \<le> month_len y (civil_month doy) \<and> days_since_epoch y (civil_month doy) (civil_day doy) = days"
  proof (cases "doy < 306")
    case True
    have "y \<noteq> 1969" using year(1) True by (auto simp: z_def year_days_def)
    then have "1970 \<le> y" using late by simp
    moreover note civil_before_new_year [OF True, of y] epoch_before_new_year [OF calculation True]
    ultimately show ?thesis using year(1) by (intro exI [of _ y]) (simp add: z_def)
  next
    case False
    then have "306 \<le> doy" by simp
    from civil_after_new_year [OF this year(2)] epoch_after_new_year [OF late this year(2)] late year(1)
    show ?thesis by (intro exI [of _ "Suc y"]) (simp add: z_def)
  qed
  then show ?thesis unfolding dec using time by auto
qed

section \<open>The meaning of a field\<close>

text \<open>The documented forms of an item, how they are written and what they mean.\<close>

datatype cron_item = Any | Val nat | Span nat nat | EveryAny nat | EverySpan nat nat nat

fun show_item :: "cron_item \<Rightarrow> string" where
  "show_item Any = ''*''"
| "show_item (Val n) = decimal n"
| "show_item (Span a b) = decimal a @ ''-'' @ decimal b"
| "show_item (EveryAny n) = ''*/'' @ decimal n"
| "show_item (EverySpan a b n) = (decimal a @ ''-'' @ decimal b) @ ''/'' @ decimal n"

fun show_field :: "cron_item list \<Rightarrow> string" where
  "show_field [] = []"
| "show_field [x] = show_item x"
| "show_field (x # xs) = show_item x @ '','' @ show_field xs"

fun item_denotes :: "cron_item \<Rightarrow> nat \<Rightarrow> bool" where
  "item_denotes Any v \<longleftrightarrow> True"
| "item_denotes (Val n) v \<longleftrightarrow> v = n"
| "item_denotes (Span a b) v \<longleftrightarrow> a \<le> v \<and> v \<le> b"
| "item_denotes (EveryAny n) v \<longleftrightarrow> n dvd v"
| "item_denotes (EverySpan a b n) v \<longleftrightarrow> a \<le> v \<and> v \<le> b \<and> n dvd v - a"

text \<open>Numbers a 64-bit parser accepts.\<close>

fun item_u64 :: "cron_item \<Rightarrow> bool" where
  "item_u64 Any \<longleftrightarrow> True"
| "item_u64 (Val n) \<longleftrightarrow> n < 2 ^ 64"
| "item_u64 (Span a b) \<longleftrightarrow> a < 2 ^ 64 \<and> b < 2 ^ 64"
| "item_u64 (EveryAny n) \<longleftrightarrow> n < 2 ^ 64"
| "item_u64 (EverySpan a b n) \<longleftrightarrow> a < 2 ^ 64 \<and> b < 2 ^ 64 \<and> n < 2 ^ 64"

fun item_ok :: "nat \<Rightarrow> nat \<Rightarrow> cron_item \<Rightarrow> bool" where
  "item_ok lo hi Any \<longleftrightarrow> True"
| "item_ok lo hi (Val n) \<longleftrightarrow> lo \<le> n \<and> n \<le> hi"
| "item_ok lo hi (Span a b) \<longleftrightarrow> lo \<le> a \<and> a \<le> b \<and> b \<le> hi"
| "item_ok lo hi (EveryAny n) \<longleftrightarrow> 0 < n"
| "item_ok lo hi (EverySpan a b n) \<longleftrightarrow> lo \<le> a \<and> a \<le> b \<and> b \<le> hi \<and> 0 < n"

lemma show_item_no_comma: "CHR '','' \<notin> set (show_item x)"
  by (cases x) (simp_all add: decimal_free)

lemma split_show_field: "xs \<noteq> [] \<Longrightarrow> split_on CHR '','' (show_field xs) = map show_item xs"
  by (induction xs rule: show_field.induct) (simp_all add: show_item_no_comma)

lemma show_item_ne: "show_item x \<noteq> []"
  by (cases x) simp_all

lemma show_field_ne: "xs \<noteq> [] \<Longrightarrow> show_field xs \<noteq> []"
  by (induction xs rule: show_field.induct) (simp_all add: show_item_ne)

lemma decimal_not_star [simp]: "decimal n @ ys \<noteq> ''*''" "decimal n \<noteq> ''*''"
proof -
  show "decimal n @ ys \<noteq> ''*''" for ys
    using decimal_hd [of "CHR ''*''" n] by (cases "decimal n") auto
  from this [of "[]"] show "decimal n \<noteq> ''*''" by simp
qed

lemma item_matches_show:
  assumes "item_u64 x" "v < 2 ^ 64" "item_ok lo hi x"
  shows "item_matches (show_item x) v \<longleftrightarrow> item_denotes x v"
  using assms
  by (cases x) (auto simp: item_matches_def decimal_free not_less dvd_eq_mod_eq_0)

lemma validate_item_show:
  assumes "item_u64 x"
  shows "validate_item (show_item x) lo hi = Inr () \<longleftrightarrow> item_ok lo hi x"
  using assms
  by (cases x) (auto simp: validate_item_def decimal_free in_bounds_def)

lemma validate_items_iff: "validate_items xs lo hi = Inr () \<longleftrightarrow> list_all (\<lambda>x. validate_item x lo hi = Inr ()) xs"
  by (induction xs) (simp_all split: sum.split)

text \<open>C18: the matcher and the validator agree with the documented cron syntax. For every list of items
  written in that syntax, the validator accepts the field exactly when all numbers lie in the field's
  domain, ranges are not reversed and steps are positive; and an accepted field matches a value exactly
  when one of its items denotes it.\<close>

theorem cron_field_meaning:
  assumes "xs \<noteq> []" and u64: "list_all item_u64 xs" and v: "v < 2 ^ 64"
  shows "(validate_field (show_field xs) lo hi = Inr () \<longleftrightarrow> list_all (item_ok lo hi) xs)
    \<and> (validate_field (show_field xs) lo hi = Inr () \<longrightarrow>
         field_matches (show_field xs) v = list_ex (\<lambda>x. item_denotes x v) xs)"
proof -
  have ok: "validate_field (show_field xs) lo hi = Inr () \<longleftrightarrow> list_all (item_ok lo hi) xs"
    using assms(1) u64 by (auto simp: validate_field_def show_field_ne split_show_field validate_items_iff
        list_all_iff validate_item_show)
  moreover have "field_matches (show_field xs) v = list_ex (\<lambda>x. item_denotes x v) xs"
    if "list_all (item_ok lo hi) xs"
    using assms(1) u64 v that item_matches_show [of _ v lo hi]
    by (auto simp: field_matches_def split_show_field list_ex_iff list_all_iff)
  ultimately show ?thesis by blast
qed

lemma cron_field_meaning_witness:
  "validate_field (show_field [EverySpan 0 30 10, Val 45]) 0 59 = Inr ()
   \<and> field_matches (show_field [EverySpan 0 30 10, Val 45]) 20"
  using cron_field_meaning [of "[EverySpan 0 30 10, Val 45]" 20 0 59] by simp

text \<open>A step on a wildcard counts from zero, so an accepted day-of-month step beyond the domain never
  matches any day.\<close>

lemma star_step_never_fires:
  "validate_field (show_field [EveryAny 40]) 1 31 = Inr ()"
  "1 \<le> d \<Longrightarrow> d \<le> 31 \<Longrightarrow> \<not> field_matches (show_field [EveryAny 40]) d"
  by (simp_all add: validate_field_def validate_item_def field_matches_def item_matches_def decimal_free)

end
