(* ===== verification/Job_Runner.thy ===== *)
theory Job_Runner
  imports Cron_Schedule "HOL-Library.Char_ord" "HOL-Library.List_Lexorder"
begin

unbundle bit_operations_syntax

text \<open>
  Scheduled jobs, their registry and the runner (\<^verbatim>\<open>crates/jobs/src/job.rs\<close>,
  \<^verbatim>\<open>registry.rs\<close>, \<^verbatim>\<open>runner.rs\<close>). Persistence of the registry to disk is left out. The runner
  answers which jobs are due and records outcomes; a poll round below is the loop its documentation
  asks of the caller, with the executions' outcomes as an argument.
\<close>

section \<open>Data\<close>

datatype JobStatus = Active | Paused | Completed | Failed

record RetryPolicy =
  max_attempts :: u32
  retry_delay_secs :: u64

definition retry_default :: RetryPolicy where
  "retry_default = \<lparr>max_attempts = 3, retry_delay_secs = 60\<rparr>"

record LastRun =
  fired_at_ns :: u64
  run_success :: bool
  run_duration_ms :: u64
  run_error :: "string option"
  run_attempt :: u32

record ScheduledJob =
  job_id :: string
  description :: string
  workspace_id :: string
  job_payload :: string
  schedule :: JobSchedule
  status :: JobStatus
  retry_policy :: RetryPolicy
  created_at_ns :: u64
  consecutive_failures :: u32
  last_run :: "LastRun option"

record RunResult =
  rr_job_id :: string
  success :: bool
  duration_ms :: u64
  error :: "string option"
  attempt :: u32

datatype JobRegistryError = AlreadyExists string | NotFound string | Io string

type_synonym JobRegistry = "(string \<times> ScheduledJob) list"

section \<open>Jobs\<close>

definition is_alphanumeric :: "char \<Rightarrow> bool" where
  "is_alphanumeric c \<longleftrightarrow> (let n = of_char c :: nat in
     48 \<le> n \<and> n \<le> 57 \<or> 65 \<le> n \<and> n \<le> 90 \<or> 97 \<le> n \<and> n \<le> 122)"

definition trim_end_hyphens :: "string \<Rightarrow> string" where
  "trim_end_hyphens s = rev (dropWhile (\<lambda>c. c = CHR ''-'') (rev s))"

definition trim_hyphens :: "string \<Rightarrow> string" where
  "trim_hyphens s = trim_end_hyphens (dropWhile (\<lambda>c. c = CHR ''-'') s)"

definition hex_digit :: "nat \<Rightarrow> char" where
  "hex_digit d = (if d < 10 then char_of (48 + d) else char_of (87 + d))"

fun hex :: "nat \<Rightarrow> string" where
  "hex n = (if n < 16 then [hex_digit n] else hex (n div 16) @ [hex_digit (n mod 16)])"

declare hex.simps [simp del]

text \<open>The process-wide counter is passed in; the caller's next value is one more.\<close>

definition make_job_id :: "u64 \<Rightarrow> string \<Rightarrow> u64 \<Rightarrow> string" where
  "make_job_id counter desc now_ns =
     (let slug = take 24 (trim_hyphens (map (\<lambda>c. let l = to_lower c in
                    if is_alphanumeric l then l else CHR ''-'') desc));
          slug = trim_end_hyphens slug;
          millis = now_ns div 1000000;
          suffix = push_bit 16 millis OR (counter AND 0xFFFF)
      in ''job-'' @ slug @ ''-'' @ hex (unat suffix))"

definition job_new :: "u64 \<Rightarrow> string \<Rightarrow> string \<Rightarrow> string \<Rightarrow> JobSchedule \<Rightarrow> u64 \<Rightarrow> ScheduledJob" where
  "job_new counter desc ws payload sched now_ns =
     \<lparr>job_id = make_job_id counter desc now_ns, description = desc, workspace_id = ws,
      job_payload = payload, schedule = sched, status = Active, retry_policy = retry_default,
      created_at_ns = now_ns, consecutive_failures = 0, last_run = None\<rparr>"

definition is_active :: "ScheduledJob \<Rightarrow> bool" where
  "is_active job \<longleftrightarrow> status job = Active"

section \<open>Registry\<close>

definition job_add :: "JobRegistry \<Rightarrow> ScheduledJob \<Rightarrow> (JobRegistryError + unit) \<times> JobRegistry" where
  "job_add reg job =
     (if hm_contains reg (job_id job) then (Inl (AlreadyExists (job_id job)), reg)
      else (Inr (), hm_insert (job_id job) job reg))"

definition job_remove :: "JobRegistry \<Rightarrow> string \<Rightarrow> ScheduledJob option \<times> JobRegistry" where
  "job_remove reg jid = (hm_get reg jid, hm_remove jid reg)"

section \<open>Runner\<close>

fun is_one_shot :: "JobSchedule \<Rightarrow> bool" where
  "is_one_shot Immediate = True"
| "is_one_shot (Once _) = True"
| "is_one_shot (Cron _) = False"

definition job_is_due :: "ScheduledJob \<Rightarrow> u64 \<Rightarrow> bool" where
  "job_is_due job now_ns =
     (case last_run job of
        None \<Rightarrow> is_due (schedule job) now_ns 0
      | Some l \<Rightarrow>
          if run_success l \<and> is_one_shot (schedule job) then False
          else if \<not> run_success l \<and> is_one_shot (schedule job) then
            now_ns \<ge> saturating_add (fired_at_ns l)
              (saturating_mul (retry_delay_secs (retry_policy job)) 1000000000)
          else is_due (schedule job) now_ns (fired_at_ns l))"

definition due_job_ids :: "JobRegistry \<Rightarrow> u64 \<Rightarrow> string list" where
  "due_job_ids reg now_ns =
     sort (map fst (filter (\<lambda>(_, job). job_is_due job now_ns) (filter (\<lambda>(_, job). is_active job) reg)))"

text \<open>The update of one job by \<^verbatim>\<open>record_run_result\<close>.\<close>

definition update_job :: "RunResult \<Rightarrow> u64 \<Rightarrow> ScheduledJob \<Rightarrow> ScheduledJob" where
  "update_job result now_ns job =
     (let job = job\<lparr>last_run := Some \<lparr>fired_at_ns = now_ns, run_success = success result,
            run_duration_ms = duration_ms result, run_error = error result, run_attempt = attempt result\<rparr>\<rparr>
      in if success result then
           (let job = job\<lparr>consecutive_failures := 0\<rparr> in
            if is_one_shot (schedule job) then job\<lparr>status := Completed\<rparr> else job)
         else
           (let job = job\<lparr>consecutive_failures := consecutive_failures job + 1\<rparr> in
            if consecutive_failures job \<ge> max_attempts (retry_policy job) then job\<lparr>status := Failed\<rparr> else job))"

definition record_run_result :: "JobRegistry \<Rightarrow> string \<Rightarrow> RunResult \<Rightarrow> u64 \<Rightarrow> JobRegistry" where
  "record_run_result reg jid result now_ns =
     (case hm_get reg jid of
        None \<Rightarrow> reg
      | Some job \<Rightarrow> hm_insert jid (update_job result now_ns job) reg)"

section \<open>Poll rounds\<close>

type_synonym round = "u64 \<times> (string \<Rightarrow> RunResult)"

fun poll_round :: "JobRegistry \<Rightarrow> round \<Rightarrow> JobRegistry" where
  "poll_round reg (now, out) =
     foldl (\<lambda>r jid. record_run_result r jid (out jid) now) reg (due_job_ids reg now)"

fun job_poll :: "ScheduledJob \<Rightarrow> u64 \<Rightarrow> RunResult \<Rightarrow> ScheduledJob" where
  "job_poll job now res = (if is_active job \<and> job_is_due job now then update_job res now job else job)"

text \<open>The firings of one job over a sequence of rounds: time and outcome.\<close>

fun firings :: "JobRegistry \<Rightarrow> round list \<Rightarrow> string \<Rightarrow> (u64 \<times> bool) list" where
  "firings reg [] jid = []"
| "firings reg ((now, out) # rs) jid =
     (if jid \<in> set (due_job_ids reg now) then [(now, success (out jid))] else [])
       @ firings (poll_round reg (now, out)) rs jid"

lemma set_due: "hm_wf reg \<Longrightarrow> jid \<in> set (due_job_ids reg now) \<longleftrightarrow>
    (\<exists>job. hm_get reg jid = Some job \<and> is_active job \<and> job_is_due job now)"
  by (force simp: due_job_ids_def hm_wf_def)

lemma distinct_due: "hm_wf reg \<Longrightarrow> distinct (due_job_ids reg now)"
  by (simp add: due_job_ids_def hm_wf_def distinct_map_filter)

lemma record_wf [store_simps]: "hm_wf reg \<Longrightarrow> hm_wf (record_run_result reg jid res now)"
  by (simp add: record_run_result_def store_simps split: option.split)

lemma record_get [store_simps]: "hm_get (record_run_result reg jid res now) j =
    (if j = jid then map_option (update_job res now) (hm_get reg j) else hm_get reg j)"
  by (simp add: record_run_result_def store_simps split: option.split)

lemma record_all:
  "hm_wf reg \<Longrightarrow> distinct ids \<Longrightarrow>
   hm_wf (foldl (\<lambda>r jid. record_run_result r jid (out jid) now) reg ids) \<and>
   hm_get (foldl (\<lambda>r jid. record_run_result r jid (out jid) now) reg ids) j =
     (if j \<in> set ids then map_option (update_job (out j) now) (hm_get reg j) else hm_get reg j)"
  by (induction ids arbitrary: reg) (auto simp: store_simps)

lemma poll_round_wf: "hm_wf reg \<Longrightarrow> hm_wf (poll_round reg (now, out))"
  using record_all distinct_due by simp

lemma poll_round_get:
  "hm_wf reg \<Longrightarrow> hm_get (poll_round reg (now, out)) j = map_option (\<lambda>job. job_poll job now (out j)) (hm_get reg j)"
  using record_all [of reg "due_job_ids reg now" out now j] distinct_due [of reg now] set_due [of reg j now]
  by (cases "hm_get reg j") auto

text \<open>One job's firings depend on that job alone.\<close>

fun job_firings :: "ScheduledJob \<Rightarrow> (u64 \<times> RunResult) list \<Rightarrow> (u64 \<times> bool) list" where
  "job_firings job [] = []"
| "job_firings job ((now, res) # rs) =
     (if is_active job \<and> job_is_due job now then [(now, success res)] else [])
       @ job_firings (job_poll job now res) rs"

lemma firings_job:
  "hm_wf reg \<Longrightarrow> hm_get reg jid = Some job \<Longrightarrow>
   firings reg rs jid = job_firings job (map (\<lambda>(now, out). (now, out jid)) rs)"
proof (induction rs arbitrary: reg job)
  case Nil
  then show ?case by simp
next
  case (Cons r rs)
  obtain now out where r: "r = (now, out)" by (cases r)
  have "hm_wf (poll_round reg (now, out))" "hm_get (poll_round reg (now, out)) jid = Some (job_poll job now (out jid))"
    using Cons.prems by (simp_all only: poll_round_wf poll_round_get option.map)
  from Cons.IH [OF this] Cons.prems show ?case by (simp add: r set_due)
qed

lemma inactive_never_fires: "\<not> is_active job \<Longrightarrow> job_firings job rs = []"
  by (induction rs) auto

section \<open>Recurring jobs\<close>

definition minute_of :: "u64 \<Rightarrow> nat" where
  "minute_of t = unat t div 60000000000"

lemma cron_due_minute:
  assumes "is_cron_due e now prev" shows "minute_of prev < minute_of now"
proof -
  have "unat prev < (unat now div 1000000000) div 60 * 60 * 1000000000"
    using assms by (simp add: is_cron_due_def Let_def case_prod_beta split: if_splits)
  also have "\<dots> = minute_of now * 60000000000" by (simp add: minute_of_def div_mult2_eq [symmetric])
  finally show ?thesis by (simp add: minute_of_def less_mult_imp_div_less)
qed

lemma cron_due_zero: "is_cron_due e now prev \<Longrightarrow> is_cron_due e now 0"
  by (auto simp: is_cron_due_def Let_def case_prod_beta split: if_splits)

lemma update_frame [simp]:
  "schedule (update_job res now job) = schedule job"
  "retry_policy (update_job res now job) = retry_policy job"
  by (simp_all add: update_job_def Let_def)

lemma last_run_update [simp]: "last_run (update_job res now job) = Some \<lparr>fired_at_ns = now,
    run_success = success res, run_duration_ms = duration_ms res, run_error = error res, run_attempt = attempt res\<rparr>"
  by (simp add: update_job_def Let_def)

lemma cron_job_firings:
  assumes "schedule job = Cron e"
  shows "sorted_wrt (<) (map (minute_of \<circ> fst) (job_firings job rs))
    \<and> (\<forall>f\<in>set (job_firings job rs). is_cron_due e (fst f) 0 \<and>
         (\<forall>l. last_run job = Some l \<longrightarrow> minute_of (fired_at_ns l) < minute_of (fst f)))"
  using assms
proof (induction rs arbitrary: job)
  case Nil
  then show ?case by simp
next
  case (Cons r rs)
  obtain now res where r: "r = (now, res)" by (cases r)
  have sched: "schedule (job_poll job now res) = Cron e" using Cons.prems by simp
  note IH = Cons.IH [OF sched]
  show ?case
  proof (cases "is_active job \<and> job_is_due job now")
    case True
    then obtain prev where prev: "is_cron_due e now prev" "\<And>l. last_run job = Some l \<Longrightarrow> prev = fired_at_ns l"
      using Cons.prems by (auto simp: job_is_due_def split: option.splits)
    then have "\<And>l. last_run job = Some l \<Longrightarrow> minute_of (fired_at_ns l) < minute_of now"
      using cron_due_minute by blast
    with IH prev(1) True show ?thesis by (force simp: r dest: cron_due_zero)
  next
    case False
    with IH show ?thesis by (auto simp: r)
  qed
qed

text \<open>A cron job fires at most once a minute. Over any sequence of poll rounds, whatever the clock
  does and whatever the executions return, the minutes in which a cron job fires strictly increase,
  and each firing is at a time its expression matches.\<close>

theorem cron_fires_once_per_minute:
  assumes "hm_wf reg" and "hm_get reg jid = Some job" and "schedule job = Cron e"
  shows "sorted_wrt (<) (map (minute_of \<circ> fst) (firings reg rs jid))
    \<and> (\<forall>f\<in>set (firings reg rs jid). is_cron_due e (fst f) 0)"
  using cron_job_firings [OF assms(3)] by (simp add: firings_job [OF assms(1,2)])

lemma cron_fires_once_per_minute_witness:
  "let reg = [(''j'', job_new 0 ''tick'' [] [] (Cron ''* * * * *'') 0)];
       out = (\<lambda>jid. \<lparr>rr_job_id = jid, success = True, duration_ms = 1, error = None, attempt = 1\<rparr>)
   in sorted_wrt (<) (map (minute_of \<circ> fst) (firings reg [(60000000000, out), (60000000001, out)] ''j''))"
proof -
  let ?job = "job_new 0 ''tick'' [] [] (Cron ''* * * * *'') 0"
  have "hm_wf [(''j'', ?job)]" "hm_get [(''j'', ?job)] ''j'' = Some ?job" "schedule ?job = Cron ''* * * * *''"
    by (simp_all add: hm_wf_def job_new_def)
  note r = cron_fires_once_per_minute [OF this, THEN conjunct1]
  show ?thesis unfolding Let_def by (rule r)
qed

section \<open>One-shot jobs\<close>

text \<open>What a one-shot job may still do: its failures so far, and the earliest next attempt.\<close>

definition retry_ns :: "ScheduledJob \<Rightarrow> u64" where
  "retry_ns job = saturating_mul (retry_delay_secs (retry_policy job)) 1000000000"

definition budget :: "ScheduledJob \<Rightarrow> nat" where
  "budget job = max 1 (unat (max_attempts (retry_policy job)))"

lemma not_active_after_success:
  "is_one_shot (schedule job) \<Longrightarrow> success res \<Longrightarrow> \<not> is_active (update_job res now job)"
  by (simp add: update_job_def is_active_def Let_def)

lemma failure_consumes_budget:
  assumes "unat (consecutive_failures job) < budget job" "\<not> success res"
    "is_active (update_job res now job)"
  shows "unat (consecutive_failures (update_job res now job)) = Suc (unat (consecutive_failures job))"
    and "Suc (unat (consecutive_failures job)) < budget job"
proof -
  have lt: "consecutive_failures job + 1 < max_attempts (retry_policy job)"
    using assms(2,3) by (auto simp: update_job_def is_active_def Let_def not_le split: if_splits)
  have "unat (consecutive_failures job) < 2 ^ 32 - 1"
  proof (rule ccontr)
    assume "\<not> unat (consecutive_failures job) < 2 ^ 32 - 1"
    with assms(1) unat_lt_pow [of "max_attempts (retry_policy job)"] show False by (simp add: budget_def)
  qed
  then have u: "unat (consecutive_failures job + 1) = Suc (unat (consecutive_failures job))"
    by (subst unat_add_exact) simp_all
  then show "unat (consecutive_failures (update_job res now job)) = Suc (unat (consecutive_failures job))"
    using assms(2) by (simp add: update_job_def Let_def)
  show "Suc (unat (consecutive_failures job)) < budget job"
    using lt u by (simp add: budget_def uint_order)
qed

lemma one_shot_job_firings:
  assumes "is_one_shot (schedule job)" "unat (consecutive_failures job) < budget job"
    and "\<And>l. last_run job = Some l \<Longrightarrow> is_active job \<Longrightarrow> \<not> run_success l"
  shows "length (job_firings job rs) + unat (consecutive_failures job) \<le> budget job
    \<and> list_all (Not \<circ> snd) (butlast (job_firings job rs))
    \<and> successively (\<lambda>a b. saturating_add (fst a) (retry_ns job) \<le> fst b) (job_firings job rs)
    \<and> (\<forall>l f fs. last_run job = Some l \<longrightarrow> job_firings job rs = f # fs \<longrightarrow>
         saturating_add (fired_at_ns l) (retry_ns job) \<le> fst f)"
  using assms
proof (induction rs arbitrary: job)
  case Nil
  then show ?case by simp
next
  case (Cons r rs)
  obtain now res where r: "r = (now, res)" by (cases r)
  show ?case
  proof (cases "is_active job \<and> job_is_due job now")
    case False
    then have eq: "job_firings job (r # rs) = job_firings job rs" by (auto simp: r)
    show ?thesis unfolding eq by (rule Cons.IH) (use Cons.prems in auto)
  next
    case True
    let ?j = "update_job res now job"
    have after: "\<And>l. last_run job = Some l \<Longrightarrow> saturating_add (fired_at_ns l) (retry_ns job) \<le> now"
      using True Cons.prems by (auto simp: job_is_due_def retry_ns_def split: if_splits)
    have fired: "job_firings job (r # rs) = (now, success res) # job_firings ?j rs" using True by (simp add: r)
    have frame: "schedule ?j = schedule job" "budget ?j = budget job" "retry_ns ?j = retry_ns job"
      by (simp_all add: budget_def retry_ns_def)
    show ?thesis
    proof (cases "is_active ?j")
      case False
      then have "job_firings ?j rs = []" by (rule inactive_never_fires)
      with fired after Cons.prems show ?thesis by simp
    next
      case act: True
      then have fail: "\<not> success res" using not_active_after_success Cons.prems(1) by blast
      note f = failure_consumes_budget [OF Cons.prems(2) fail act]
      from Cons.IH [of ?j] frame f Cons.prems(1) fail
      have IH: "length (job_firings ?j rs) + Suc (unat (consecutive_failures job)) \<le> budget job"
        "list_all (Not \<circ> snd) (butlast (job_firings ?j rs))"
        "successively (\<lambda>a b. saturating_add (fst a) (retry_ns job) \<le> fst b) (job_firings ?j rs)"
        "\<And>f fs. job_firings ?j rs = f # fs \<Longrightarrow> saturating_add now (retry_ns job) \<le> fst f"
        by (auto simp: comp_def)
      show ?thesis using IH after fail unfolding fired
        by (cases "job_firings ?j rs") (auto simp: comp_def)
    qed
  qed
qed

text \<open>A one-shot job stays within its retry budget. A fresh Immediate or Once job fires at most
  \<^verbatim>\<open>max_attempts\<close> times (once when that is zero) over any rounds, never again after a success, and
  waits at least the retry delay between attempts.\<close>

theorem one_shot_within_budget:
  assumes "hm_wf reg" and "hm_get reg jid = Some job" and "is_one_shot (schedule job)"
    and "consecutive_failures job = 0" and "last_run job = None"
  shows "length (firings reg rs jid) \<le> max 1 (unat (max_attempts (retry_policy job)))
    \<and> list_all (Not \<circ> snd) (butlast (firings reg rs jid))
    \<and> successively (\<lambda>a b. saturating_add (fst a)
          (saturating_mul (retry_delay_secs (retry_policy job)) 1000000000) \<le> fst b) (firings reg rs jid)"
  using one_shot_job_firings [OF assms(3), where rs = "map (\<lambda>(now, out). (now, out jid)) rs"] assms(4,5)
  by (simp add: firings_job [OF assms(1,2)] budget_def retry_ns_def)

lemma one_shot_within_budget_witness:
  "let reg = [(''j'', job_new 0 ''once'' [] [] (Once 5) 0)];
       out = (\<lambda>jid. \<lparr>rr_job_id = jid, success = False, duration_ms = 1, error = None, attempt = 1\<rparr>)
   in length (firings reg (replicate 9 (100000000000, out)) ''j'') \<le> 3"
proof -
  let ?job = "job_new 0 ''once'' [] [] (Once 5) 0"
  have "hm_wf [(''j'', ?job)]" "hm_get [(''j'', ?job)] ''j'' = Some ?job" "is_one_shot (schedule ?job)"
    "consecutive_failures ?job = 0" "last_run ?job = None"
    by (simp_all add: hm_wf_def job_new_def)
  note r = one_shot_within_budget [OF this, THEN conjunct1]
  have "max 1 (unat (max_attempts (retry_policy ?job))) = 3" by (simp add: job_new_def retry_default_def)
  with r show ?thesis unfolding Let_def by (simp only:)
qed

text \<open>A recorded success does not bring a failed recurring job back: its status stays Failed.\<close>

lemma failed_cron_stays_failed:
  "schedule job = Cron e \<Longrightarrow> status job = Failed \<Longrightarrow> status (update_job res now job) = Failed"
  by (simp add: update_job_def Let_def)

end
