(* ===== verification/Circuit_Breaker.thy ===== *)
theory Circuit_Breaker
  imports Anima_Prelude
begin

text \<open>
  The circuit breaker in front of a tool (\<^verbatim>\<open>crates/praxis/src/circuit.rs\<close>). Instants and durations
  are nanosecond counts of the monotonic clock, passed in where the source reads the clock. The
  specification is a small protocol machine: count consecutive failures, trip at the threshold, let one
  probe through after the cooldown.
\<close>

datatype ToolInvocationError = InvalidPayload | ExecutionFailed string | BreakerOpen

datatype BreakerState = BClosed | BOpen | HalfOpen

record CircuitBreaker =
  failure_count :: u32
  state :: BreakerState
  last_failure :: "nat option"
  cooldown :: nat

definition breaker_new :: CircuitBreaker where
  "breaker_new = \<lparr>failure_count = 0, state = BClosed, last_failure = None, cooldown = 30000000000\<rparr>"

definition with_cooldown :: "nat \<Rightarrow> CircuitBreaker" where
  "with_cooldown c = breaker_new\<lparr>cooldown := c\<rparr>"

definition record_failure :: "CircuitBreaker \<Rightarrow> u32 \<Rightarrow> nat \<Rightarrow> CircuitBreaker" where
  "record_failure b open_threshold now =
     (let b = b\<lparr>failure_count := saturating_add (failure_count b) 1, last_failure := Some now\<rparr>
      in if failure_count b \<ge> open_threshold then b\<lparr>state := BOpen\<rparr> else b)"

definition record_success :: "CircuitBreaker \<Rightarrow> CircuitBreaker" where
  "record_success b =
     (let b = b\<lparr>failure_count := 0\<rparr> in if state b = HalfOpen then b\<lparr>state := BClosed\<rparr> else b)"

definition verify_pathway_health :: "CircuitBreaker \<Rightarrow> nat \<Rightarrow> (ToolInvocationError + unit) \<times> CircuitBreaker" where
  "verify_pathway_health b now =
     (if state b = BOpen then
        (case last_failure b of
           Some last_fail \<Rightarrow>
             if now - last_fail > cooldown b then (Inr (), b\<lparr>state := HalfOpen\<rparr>)
             else (Inl BreakerOpen, b)
         | None \<Rightarrow> (Inl BreakerOpen, b))
      else (Inr (), b))"

text \<open>How a caller records an outcome: a refusal by the tool itself counts neither way.\<close>

fun record_outcome :: "CircuitBreaker \<Rightarrow> u32 \<Rightarrow> nat \<Rightarrow> ToolInvocationError + 'r \<Rightarrow> CircuitBreaker" where
  "record_outcome b threshold now (Inr _) = record_success b"
| "record_outcome b threshold now (Inl BreakerOpen) = b"
| "record_outcome b threshold now (Inl _) = record_failure b threshold now"

section \<open>Specification\<close>

text \<open>\<^term>\<open>Counting n\<close>: healthy after \<^term>\<open>n\<close> failures in a row. \<^term>\<open>Tripped t\<close>: blocked since \<^term>\<open>t\<close>.
  \<^term>\<open>Probing\<close>: a call was let through after the cooldown and has not been judged.\<close>

datatype protocol = Counting nat | Tripped nat | Probing

definition threshold_nat :: "u32 \<Rightarrow> nat" where
  "threshold_nat th = max 1 (unat th)"

fun spec_admit :: "nat \<Rightarrow> protocol \<Rightarrow> nat \<Rightarrow> bool \<times> protocol" where
  "spec_admit cool (Tripped t) now = (if now - t > cool then (True, Probing) else (False, Tripped t))"
| "spec_admit cool q now = (True, q)"

fun spec_judge :: "nat \<Rightarrow> protocol \<Rightarrow> nat \<Rightarrow> ToolInvocationError + 'r \<Rightarrow> protocol" where
  "spec_judge th q now (Inl BreakerOpen) = q"
| "spec_judge th (Tripped t) now (Inr _) = Tripped t"
| "spec_judge th q now (Inr _) = Counting 0"
| "spec_judge th (Counting n) now (Inl _) = (if Suc n \<ge> th then Tripped now else Counting (Suc n))"
| "spec_judge th q now (Inl _) = Tripped now"

definition spec_call :: "nat \<Rightarrow> nat \<Rightarrow> protocol \<Rightarrow> nat \<Rightarrow> nat \<Rightarrow> ToolInvocationError + 'r \<Rightarrow> bool \<times> protocol" where
  "spec_call th cool q t0 t1 r =
     (let (ok, q') = spec_admit cool q t0 in (ok, if ok then spec_judge th q' t1 r else q'))"

section \<open>Refinement of one call\<close>

text \<open>One call in sequence: check, invoke, record. The flag tells whether the tool was invoked.\<close>

definition breaker_call :: "u32 \<Rightarrow> CircuitBreaker \<Rightarrow> nat \<Rightarrow> nat \<Rightarrow> ToolInvocationError + 'r \<Rightarrow> bool \<times> CircuitBreaker" where
  "breaker_call th b t0 t1 r =
     (case verify_pathway_health b t0 of
        (Inl _, b') \<Rightarrow> (False, b')
      | (Inr _, b') \<Rightarrow> (True, record_outcome b' th t1 r))"

fun breaker_abs :: "CircuitBreaker \<Rightarrow> protocol" where
  "breaker_abs b = (case state b of
      BClosed \<Rightarrow> Counting (unat (failure_count b))
    | BOpen \<Rightarrow> Tripped (the (last_failure b))
    | HalfOpen \<Rightarrow> Probing)"

definition breaker_inv :: "u32 \<Rightarrow> CircuitBreaker \<Rightarrow> bool" where
  "breaker_inv th b \<longleftrightarrow>
     (case state b of
        BClosed \<Rightarrow> unat (failure_count b) < threshold_nat th
      | BOpen \<Rightarrow> last_failure b \<noteq> None \<and> th \<le> failure_count b
      | HalfOpen \<Rightarrow> th \<le> failure_count b)"

lemma breaker_new_inv: "breaker_inv th breaker_new" "breaker_abs breaker_new = Counting 0"
  by (simp_all add: breaker_inv_def breaker_new_def threshold_nat_def)

lemma failure_abs:
  assumes "breaker_inv th b" "state b \<noteq> BOpen"
  shows "breaker_inv th (record_failure b th now)"
    and "breaker_abs (record_failure b th now) = spec_judge (threshold_nat th) (breaker_abs b) now (Inl InvalidPayload)"
proof -
  let ?c = "saturating_add (failure_count b) 1"
  have c: "unat ?c = min (Suc (unat (failure_count b))) (2 ^ 32 - 1)" by (simp add: unat_saturating_add)
  have reach: "unat (failure_count b) < threshold_nat th \<Longrightarrow>
      th \<le> ?c \<longleftrightarrow> threshold_nat th \<le> Suc (unat (failure_count b))"
    "\<not> th \<le> ?c \<Longrightarrow> unat ?c = Suc (unat (failure_count b))"
    using c unat_lt_pow [of th] by (auto simp: threshold_nat_def uint_order)
  have mono: "th \<le> failure_count b \<Longrightarrow> th \<le> ?c"
    using saturating_add_ge [of "failure_count b" 1] by (simp add: uint_order)
  show "breaker_inv th (record_failure b th now)"
    "breaker_abs (record_failure b th now) = spec_judge (threshold_nat th) (breaker_abs b) now (Inl InvalidPayload)"
    using assms reach mono le_SucI [of "unat th" "unat (failure_count b)"]
    by (auto simp: breaker_inv_def record_failure_def Let_def threshold_nat_def word_le_nat_alt [of th "failure_count b"]
        split: BreakerState.splits)
qed

lemma success_abs:
  assumes "breaker_inv th b" "state b \<noteq> BOpen"
  shows "breaker_inv th (record_success b)"
    and "breaker_abs (record_success b) = spec_judge n (breaker_abs b) now (Inr v)"
  using assms by (auto simp: breaker_inv_def record_success_def threshold_nat_def Let_def split: BreakerState.splits)

lemma outcome_abs:
  assumes "breaker_inv th b" "state b \<noteq> BOpen"
  shows "breaker_inv th (record_outcome b th now r)"
    and "breaker_abs (record_outcome b th now r) = spec_judge (threshold_nat th) (breaker_abs b) now r"
proof (atomize (full), cases r)
  case (Inl e)
  show "breaker_inv th (record_outcome b th now r) \<and>
    breaker_abs (record_outcome b th now r) = spec_judge (threshold_nat th) (breaker_abs b) now r"
    using assms failure_abs [OF assms, of now] by (cases e; cases "breaker_abs b") (simp_all add: Inl)
next
  case (Inr v)
  show "breaker_inv th (record_outcome b th now r) \<and>
    breaker_abs (record_outcome b th now r) = spec_judge (threshold_nat th) (breaker_abs b) now r"
    using success_abs [OF assms] by (simp add: Inr)
qed

lemma breaker_call_refines:
  assumes inv: "breaker_inv th b"
  shows "breaker_inv th (snd (breaker_call th b t0 t1 r))"
    and "spec_call (threshold_nat th) (cooldown b) (breaker_abs b) t0 t1 r =
      (fst (breaker_call th b t0 t1 r), breaker_abs (snd (breaker_call th b t0 t1 r)))"
proof -
  obtain ok b' where v: "verify_pathway_health b t0 = (ok, b')" by force
  have adm: "spec_admit (cooldown b) (breaker_abs b) t0 = (\<not> isl ok, breaker_abs b')" "breaker_inv th b'"
    "\<not> isl ok \<Longrightarrow> state b' \<noteq> BOpen"
    using v inv by (auto simp: verify_pathway_health_def breaker_inv_def split: BreakerState.splits if_splits option.splits)
  show "breaker_inv th (snd (breaker_call th b t0 t1 r))"
    "spec_call (threshold_nat th) (cooldown b) (breaker_abs b) t0 t1 r =
      (fst (breaker_call th b t0 t1 r), breaker_abs (snd (breaker_call th b t0 t1 r)))"
    using adm outcome_abs [OF adm(2), of t1 r]
    by (auto simp: breaker_call_def v spec_call_def simp del: breaker_abs.simps split: sum.splits)
qed

lemma cooldown_call: "cooldown (snd (breaker_call th b t0 t1 r)) = cooldown b"
proof -
  have "cooldown (record_outcome b' th t1 r) = cooldown b'" for b'
    by (cases "(b', th, t1, r)" rule: record_outcome.cases)
      (simp_all add: record_success_def record_failure_def Let_def)
  then show ?thesis
    by (simp add: breaker_call_def verify_pathway_health_def split: option.split)
qed

section \<open>Behaviour\<close>

text \<open>A sequence of calls on one breaker and on the specification: which of them reach the tool.\<close>

type_synonym 'r call = "nat \<times> nat \<times> (ToolInvocationError + 'r)"

fun breaker_run :: "u32 \<Rightarrow> CircuitBreaker \<Rightarrow> 'r call list \<Rightarrow> bool list \<times> CircuitBreaker" where
  "breaker_run th b [] = ([], b)"
| "breaker_run th b ((t0, t1, r) # cs) =
     (let (ok, b') = breaker_call th b t0 t1 r; (oks, b'') = breaker_run th b' cs in (ok # oks, b''))"

fun spec_run :: "nat \<Rightarrow> nat \<Rightarrow> protocol \<Rightarrow> 'r call list \<Rightarrow> bool list \<times> protocol" where
  "spec_run th cool q [] = ([], q)"
| "spec_run th cool q ((t0, t1, r) # cs) =
     (let (ok, q') = spec_call th cool q t0 t1 r; (oks, q'') = spec_run th cool q' cs in (ok # oks, q''))"

lemma breaker_run_refines:
  "breaker_inv th b \<Longrightarrow> spec_run (threshold_nat th) (cooldown b) (breaker_abs b) cs =
     (fst (breaker_run th b cs), breaker_abs (snd (breaker_run th b cs)))"
proof (induction cs arbitrary: b)
  case Nil
  then show ?case by simp
next
  case (Cons c cs)
  obtain t0 t1 r where c: "c = (t0, t1, r)" by (cases c)
  let ?b = "snd (breaker_call th b t0 t1 r)"
  note ref = breaker_call_refines [OF Cons.prems, of t0 t1 r]
  from Cons.IH [OF ref(1)] ref(2) cooldown_call [of th b t0 t1 r] show ?case
    by (simp add: c Let_def case_prod_beta del: breaker_abs.simps)
qed

text \<open>C10: a fresh breaker follows the protocol. Over any sequence of calls, the calls that reach the tool
  are exactly those the protocol machine admits: it trips after the threshold of consecutive failures,
  blocks until the cooldown has passed, then probes, re-closes on success and trips again on a failed
  probe.\<close>

theorem breaker_follows_protocol:
  "spec_run (threshold_nat th) 30000000000 (Counting 0) cs =
     (fst (breaker_run th breaker_new cs), breaker_abs (snd (breaker_run th breaker_new cs)))"
  using breaker_run_refines [OF breaker_new_inv(1), of th cs]
  by (simp add: breaker_new_inv(2) del: breaker_abs.simps) (simp add: breaker_new_def)

text \<open>The refinement is about calls in sequence. When a success of an earlier call is recorded while
  the breaker is open, the count is cleared but the breaker stays open, and a failing probe after the
  cooldown leaves it half open instead of tripping it again.\<close>

lemma late_success_disarms_probe:
  "let b = record_success (record_failure (breaker_new\<lparr>failure_count := 4\<rparr>) 5 10);
       b' = snd (verify_pathway_health b 30000000011)
   in state b = BOpen \<and> state (record_failure b' 5 30000000012) = HalfOpen"
  by (simp add: Let_def record_failure_def record_success_def verify_pathway_health_def breaker_new_def
      saturating_add_def uint_order)

end
