(* ===== verification/Tool_Registry.thy ===== *)
theory Tool_Registry
  imports Circuit_Breaker "HOL-Library.Char_ord" "HOL-Library.List_Lexorder"
begin

text \<open>
  The tool registry (\<^verbatim>\<open>crates/praxis/src/registry.rs\<close>, with the error type and driver trait of
  \<^verbatim>\<open>lib.rs\<close> and the message envelopes of \<^verbatim>\<open>envelope.rs\<close>). A driver is its identifier, its schema and
  its behaviour, a function of the wall clock in milliseconds and the payload. Dispatch is the two
  critical sections of the source around the call of the driver: admission under the lock, and the
  recording of the outcome.
\<close>

type_synonym bytes = "u8 list"

datatype Bus = Mcp | A2a

record ToolEnvelope =
  bus :: Bus
  tool_id :: string
  payload :: bytes
  correlation_id :: u64

definition envelope_new :: "Bus \<Rightarrow> string \<Rightarrow> bytes \<Rightarrow> u64 \<Rightarrow> ToolEnvelope" where
  "envelope_new b t p c = \<lparr>bus = b, tool_id = t, payload = p, correlation_id = c\<rparr>"

type_synonym tool_result = "ToolInvocationError + bytes"

record ToolDriver =
  driver_id :: string
  invoke :: "u64 \<Rightarrow> bytes \<Rightarrow> tool_result"

section \<open>Built-in tools\<close>

fun le_bytes :: "nat \<Rightarrow> nat \<Rightarrow> bytes" where
  "le_bytes 0 n = []"
| "le_bytes (Suc k) n = of_nat (n mod 256) # le_bytes k (n div 256)"

definition ClockTool :: ToolDriver where
  "ClockTool = \<lparr>driver_id = ''clock'', invoke = (\<lambda>ms p. Inr (le_bytes 8 (unat ms)))\<rparr>"

definition EchoTool :: ToolDriver where
  "EchoTool = \<lparr>driver_id = ''echo'', invoke = (\<lambda>ms p. Inr p)\<rparr>"

definition is_cont :: "u8 \<Rightarrow> bool" where
  "is_cont b \<longleftrightarrow> 0x80 \<le> b \<and> b \<le> 0xBF"

text \<open>Well-formed UTF-8, as \<^verbatim>\<open>std::str::from_utf8\<close> accepts it.\<close>

fun utf8_valid :: "bytes \<Rightarrow> bool" where
  "utf8_valid [] = True"
| "utf8_valid (b # bs) =
     (if b < 0x80 then utf8_valid bs
      else if 0xC2 \<le> b \<and> b \<le> 0xDF then
        (case bs of c1 # r \<Rightarrow> is_cont c1 \<and> utf8_valid r | _ \<Rightarrow> False)
      else if 0xE0 \<le> b \<and> b \<le> 0xEF then
        (case bs of c1 # c2 # r \<Rightarrow>
            is_cont c1 \<and> is_cont c2 \<and> (b = 0xE0 \<longrightarrow> 0xA0 \<le> c1) \<and> (b = 0xED \<longrightarrow> c1 \<le> 0x9F) \<and> utf8_valid r
          | _ \<Rightarrow> False)
      else if 0xF0 \<le> b \<and> b \<le> 0xF4 then
        (case bs of c1 # c2 # c3 # r \<Rightarrow>
            is_cont c1 \<and> is_cont c2 \<and> is_cont c3 \<and> (b = 0xF0 \<longrightarrow> 0x90 \<le> c1) \<and> (b = 0xF4 \<longrightarrow> c1 \<le> 0x8F) \<and> utf8_valid r
          | _ \<Rightarrow> False)
      else False)"

definition TextIoTool :: ToolDriver where
  "TextIoTool = \<lparr>driver_id = ''text-io'',
     invoke = (\<lambda>ms p. if utf8_valid p then Inr (p @ [10]) else Inl InvalidPayload)\<rparr>"

section \<open>Registry\<close>

record RegistryEntry =
  driver :: ToolDriver
  breaker :: CircuitBreaker

type_synonym ToolRegistry = "(string \<times> RegistryEntry) list"

definition DEFAULT_OPEN_THRESHOLD :: u32 where
  "DEFAULT_OPEN_THRESHOLD = 5"

definition registry_empty :: ToolRegistry where
  "registry_empty = []"

definition tool_register :: "ToolRegistry \<Rightarrow> ToolDriver \<Rightarrow> ToolRegistry" where
  "tool_register reg d = hm_insert (driver_id d) \<lparr>driver = d, breaker = breaker_new\<rparr> reg"

definition registry_new :: ToolRegistry where
  "registry_new = tool_register (tool_register (tool_register registry_empty ClockTool) EchoTool) TextIoTool"

definition tool_lookup :: "ToolRegistry \<Rightarrow> string \<Rightarrow> ToolDriver option" where
  "tool_lookup reg tid = map_option driver (hm_get reg tid)"

definition tool_list :: "ToolRegistry \<Rightarrow> string list" where
  "tool_list reg = sort (map fst reg)"

text \<open>First critical section: find the entry and ask its breaker.\<close>

definition tool_admit :: "ToolRegistry \<Rightarrow> string \<Rightarrow> nat \<Rightarrow> (ToolInvocationError + ToolDriver) \<times> ToolRegistry" where
  "tool_admit reg tid now =
     (case hm_get reg tid of
        None \<Rightarrow> (Inl (ExecutionFailed (''unknown tool: '' @ tid)), reg)
      | Some e \<Rightarrow>
          (case verify_pathway_health (breaker e) now of
             (Inl err, b) \<Rightarrow> (Inl err, hm_insert tid (e\<lparr>breaker := b\<rparr>) reg)
           | (Inr _, b) \<Rightarrow> (Inr (driver e), hm_insert tid (e\<lparr>breaker := b\<rparr>) reg)))"

text \<open>Second critical section: record the outcome in the entry, if it is still there.\<close>

definition tool_record :: "ToolRegistry \<Rightarrow> string \<Rightarrow> nat \<Rightarrow> tool_result \<Rightarrow> ToolRegistry" where
  "tool_record reg tid now r =
     (case hm_get reg tid of
        None \<Rightarrow> reg
      | Some e \<Rightarrow> hm_insert tid (e\<lparr>breaker := record_outcome (breaker e) DEFAULT_OPEN_THRESHOLD now r\<rparr>) reg)"

text \<open>A dispatch: \<^term>\<open>t0\<close> and \<^term>\<open>t1\<close> are the monotonic clock at the two sections, \<^term>\<open>ms\<close> the wall
  clock the driver may read.\<close>

definition tool_dispatch ::
    "ToolRegistry \<Rightarrow> ToolEnvelope \<Rightarrow> nat \<Rightarrow> nat \<Rightarrow> u64 \<Rightarrow> tool_result \<times> ToolRegistry" where
  "tool_dispatch reg env t0 t1 ms =
     (case tool_admit reg (tool_id env) t0 of
        (Inl err, reg') \<Rightarrow> (Inl err, reg')
      | (Inr d, reg') \<Rightarrow>
          (let r = invoke d ms (payload env) in (r, tool_record reg' (tool_id env) t1 r)))"

definition breaker_state :: "ToolRegistry \<Rightarrow> string \<Rightarrow> BreakerState option" where
  "breaker_state reg tid = map_option (state \<circ> breaker) (hm_get reg tid)"

section \<open>Behaviour\<close>

text \<open>Every registered tool's breaker is in a state of the protocol, and entries sit under their
  driver's identifier.\<close>

definition registry_inv :: "ToolRegistry \<Rightarrow> bool" where
  "registry_inv reg \<longleftrightarrow> hm_wf reg \<and>
     (\<forall>tid e. hm_get reg tid = Some e \<longrightarrow> driver_id (driver e) = tid \<and> breaker_inv DEFAULT_OPEN_THRESHOLD (breaker e))"

lemma registry_inv_empty: "registry_inv registry_empty"
  by (simp add: registry_inv_def registry_empty_def)

lemma registry_inv_register: "registry_inv reg \<Longrightarrow> registry_inv (tool_register reg d)"
  by (simp add: registry_inv_def tool_register_def store_simps breaker_new_inv)

text \<open>A dispatch of a registered tool is one breaker call around the driver; other entries are untouched.\<close>

lemma dispatch_registered:
  fixes ms :: u64
  assumes "hm_get reg (tool_id env) = Some e"
  defines "r \<equiv> invoke (driver e) ms (payload env)"
  shows "fst (tool_dispatch reg env t0 t1 ms) =
      (if fst (breaker_call DEFAULT_OPEN_THRESHOLD (breaker e) t0 t1 r) then r else Inl BreakerOpen)"
    and "hm_get (snd (tool_dispatch reg env t0 t1 ms)) tid =
      (if tid = tool_id env
       then Some (e\<lparr>breaker := snd (breaker_call DEFAULT_OPEN_THRESHOLD (breaker e) t0 t1 r)\<rparr>)
       else hm_get reg tid)"
  using assms
  by (auto simp: tool_dispatch_def tool_admit_def tool_record_def breaker_call_def verify_pathway_health_def
      r_def Let_def store_simps split: option.split)

lemma dispatch_wf: "hm_wf reg \<Longrightarrow> hm_wf (snd (tool_dispatch reg env t0 t1 ms))"
  by (auto simp: tool_dispatch_def tool_admit_def tool_record_def Let_def store_simps
      split: option.split sum.split prod.split)

lemma registry_inv_dispatch:
  assumes "registry_inv reg" shows "registry_inv (snd (tool_dispatch reg env t0 t1 ms))"
proof (cases "hm_get reg (tool_id env)")
  case None
  with assms show ?thesis by (simp add: tool_dispatch_def tool_admit_def)
next
  case (Some e)
  with assms have e: "driver_id (driver e) = tool_id env" "breaker_inv DEFAULT_OPEN_THRESHOLD (breaker e)"
    by (auto simp: registry_inv_def)
  with assms breaker_call_refines(1) [OF e(2)] dispatch_wf [of reg env t0 t1 ms] show ?thesis
    unfolding registry_inv_def dispatch_registered(2) [OF Some, of t0 t1 ms] by auto
qed

datatype tool_op = RegisterOp ToolDriver | DispatchOp ToolEnvelope nat nat u64

fun tool_step :: "ToolRegistry \<Rightarrow> tool_op \<Rightarrow> ToolRegistry" where
  "tool_step reg (RegisterOp d) = tool_register reg d"
| "tool_step reg (DispatchOp env t0 t1 ms) = snd (tool_dispatch reg env t0 t1 ms)"

interpretation registry_machine: op_machine tool_step registry_inv
proof unfold_locales
  fix reg x
  assume "registry_inv reg"
  then show "registry_inv (tool_step reg x)"
    by (cases x) (simp_all add: registry_inv_register registry_inv_dispatch)
qed

text \<open>A failing tool is isolated. In any registry reached from the empty one by registrations and
  dispatches, a tool whose breaker is open is refused during the cooldown with the registry unchanged
  and without its driver being consulted, after the cooldown its driver runs again, and a dispatch
  never changes another tool's entry.\<close>

theorem open_breaker_isolates:
  assumes "reg = foldl tool_step registry_empty xs"
    and "hm_get reg (tool_id env) = Some e" and "state (breaker e) = BOpen"
  shows "\<exists>t. last_failure (breaker e) = Some t \<and>
      (t0 - t \<le> cooldown (breaker e) \<longrightarrow> tool_dispatch reg env t0 t1 ms = (Inl BreakerOpen, reg)) \<and>
      (cooldown (breaker e) < t0 - t \<longrightarrow> fst (tool_dispatch reg env t0 t1 ms) = invoke (driver e) ms (payload env)) \<and>
      (\<forall>tid. tid \<noteq> tool_id env \<longrightarrow> hm_get (snd (tool_dispatch reg env t0 t1 ms)) tid = hm_get reg tid)"
proof -
  have inv: "registry_inv reg"
    unfolding assms(1) by (rule registry_machine.run_inv) (rule registry_inv_empty)
  with assms(2) have "breaker_inv DEFAULT_OPEN_THRESHOLD (breaker e)" by (simp add: registry_inv_def)
  with assms(3) obtain t where t: "last_failure (breaker e) = Some t"
    by (auto simp: breaker_inv_def)
  have "hm_insert (tool_id env) e reg = reg" using assms(2) by (induction reg) (auto split: if_splits)
  with t assms(2,3) dispatch_registered [OF assms(2), of t0 t1 ms] show ?thesis
    by (auto simp: tool_dispatch_def tool_admit_def verify_pathway_health_def breaker_call_def Let_def)
qed

definition failing_tool :: ToolDriver where
  "failing_tool = \<lparr>driver_id = ''t'', invoke = (\<lambda>ms p. Inl (ExecutionFailed ''down''))\<rparr>"

lemma open_breaker_isolates_witness:
  "let env = envelope_new Mcp ''t'' [] 0;
       reg = foldl tool_step registry_empty (RegisterOp failing_tool # replicate 5 (DispatchOp env 0 0 0))
   in tool_dispatch reg env 7 7 0 = (Inl BreakerOpen, reg)"
proof -
  let ?env = "envelope_new Mcp ''t'' [] 0"
  let ?D = "DispatchOp ?env 0 0 0"
  let ?xs = "RegisterOp failing_tool # replicate 5 ?D"
  let ?e = "\<lambda>n s l. \<lparr>driver = failing_tool, breaker = \<lparr>failure_count = n, state = s, last_failure = l,
       cooldown = 30000000000\<rparr>\<rparr>"
  have five: "replicate 5 x = [x, x, x, x, x]" for x :: tool_op by (simp add: eval_nat_numeral)
  have reg1: "tool_step registry_empty (RegisterOp failing_tool) = [(''t'', ?e 0 BClosed None)]"
    by (simp add: tool_register_def registry_empty_def failing_tool_def breaker_new_def)
  have step: "tool_step [(''t'', ?e n BClosed l)] ?D = [(''t'', ?e (n + 1) (if n = 4 then BOpen else BClosed) (Some 0))]"
    if "n \<in> {0, 1, 2, 3, 4}" for n l
    using that by (auto simp: tool_dispatch_def tool_admit_def tool_record_def envelope_new_def failing_tool_def
        verify_pathway_health_def record_failure_def saturating_add_def DEFAULT_OPEN_THRESHOLD_def uint_order Let_def)
  have reg: "foldl tool_step registry_empty ?xs = [(''t'', ?e 5 BOpen (Some 0))]"
    using step [of 0] step [of 1] step [of 2] step [of 3] step [of 4] reg1
    by (simp add: five del: tool_step.simps)
  have "hm_get (foldl tool_step registry_empty ?xs) (tool_id ?env) = Some (?e 5 BOpen (Some 0))"
    "state (breaker (?e 5 BOpen (Some 0))) = BOpen"
    unfolding reg by (simp_all add: envelope_new_def)
  from open_breaker_isolates [OF refl this, of 7 7 0] show ?thesis by (simp only: Let_def reg) simp
qed

end
