(* ===== verification/Tool_Cache.thy ===== *)
theory Tool_Cache
  imports Tool_Registry
begin

unbundle bit_operations_syntax

text \<open>
  The tool response cache and the registry wrapper that uses it (\<^verbatim>\<open>crates/tool-cache/src/lib.rs\<close>).
  Every reading of the wall clock is an argument. Sums of times and counters wrap as in a release
  build. The cache promises that a hit is a response some earlier invocation of the same tool on the
  same payload returned, within its time to live.
\<close>

section \<open>Data\<close>

definition fnv1a_hash :: "bytes \<Rightarrow> u64" where
  "fnv1a_hash data = foldl (\<lambda>h b. (h XOR ucast b) * 1099511628211) 14695981039346656037 data"

type_synonym CacheKey = "string \<times> u64"

definition make_key :: "string \<Rightarrow> bytes \<Rightarrow> CacheKey" where
  "make_key tid p = (tid, fnv1a_hash p)"

record CacheConfig =
  default_ttl_ms :: u64
  max_entries :: nat
  bypass_tools :: "string list"
  tool_ttl_overrides :: "(string \<times> u64) list"

definition cache_config_default :: CacheConfig where
  "cache_config_default = \<lparr>default_ttl_ms = 60000, max_entries = 1024, bypass_tools = [''clock''],
     tool_ttl_overrides = []\<rparr>"

definition with_ttl :: "u64 \<Rightarrow> CacheConfig" where
  "with_ttl ttl = cache_config_default\<lparr>default_ttl_ms := ttl, bypass_tools := []\<rparr>"

record CacheEntry =
  entry_payload :: bytes
  response :: bytes
  expires_at_ms :: u64
  inserted_at_ms :: u64

definition is_expired :: "CacheEntry \<Rightarrow> u64 \<Rightarrow> bool" where
  "is_expired e now \<longleftrightarrow> now \<ge> expires_at_ms e"

definition age_ms :: "CacheEntry \<Rightarrow> u64 \<Rightarrow> u64" where
  "age_ms e now = saturating_sub now (inserted_at_ms e)"

record CacheStats =
  hits :: u64
  misses :: u64
  ttl_evictions :: u64
  capacity_evictions :: u64
  current_entries :: nat

definition stats_default :: CacheStats where
  "stats_default = \<lparr>hits = 0, misses = 0, ttl_evictions = 0, capacity_evictions = 0, current_entries = 0\<rparr>"

definition total_lookups :: "CacheStats \<Rightarrow> u64" where
  "total_lookups s = hits s + misses s"

datatype CacheOutcome = Hit u64 | Miss | Bypassed

record ToolCacheInner =
  entries :: "(CacheKey \<times> CacheEntry) list"
  stats :: CacheStats
  config :: CacheConfig

section \<open>Cache operations\<close>

definition ttl_for :: "CacheConfig \<Rightarrow> string \<Rightarrow> u64" where
  "ttl_for cfg tid = (case hm_get (tool_ttl_overrides cfg) tid of Some t \<Rightarrow> t | None \<Rightarrow> default_ttl_ms cfg)"

definition is_bypassed :: "ToolCacheInner \<Rightarrow> string \<Rightarrow> bool" where
  "is_bypassed c tid \<longleftrightarrow> list_ex (\<lambda>b. b = tid) (bypass_tools (config c))"

definition cache_new :: "CacheConfig \<Rightarrow> ToolCacheInner" where
  "cache_new cfg = \<lparr>entries = [], stats = stats_default, config = cfg\<rparr>"

definition cache_get :: "ToolCacheInner \<Rightarrow> string \<Rightarrow> bytes \<Rightarrow> u64 \<Rightarrow> CacheEntry option \<times> ToolCacheInner" where
  "cache_get c tid p now =
     (if is_bypassed c tid then (None, c)
      else
        (let key = make_key tid p; missed = (stats c)\<lparr>misses := misses (stats c) + 1\<rparr> in
         case hm_get (entries c) key of
           Some e \<Rightarrow>
             if is_expired e now then
               (let rest = hm_remove key (entries c) in
                (None, c\<lparr>entries := rest,
                   stats := missed\<lparr>ttl_evictions := ttl_evictions (stats c) + 1, current_entries := length rest\<rparr>\<rparr>))
             else if entry_payload e = p then (Some e, c\<lparr>stats := (stats c)\<lparr>hits := hits (stats c) + 1\<rparr>\<rparr>)
             else (None, c\<lparr>stats := missed\<rparr>)
         | None \<Rightarrow> (None, c\<lparr>stats := missed\<rparr>)))"

text \<open>\<^verbatim>\<open>min_by_key\<close>: the first entry in iteration order with the least insertion time.\<close>

fun oldest_key :: "(CacheKey \<times> CacheEntry) list \<Rightarrow> CacheKey option" where
  "oldest_key [] = None"
| "oldest_key ((k, e) # es) =
     Some (fst (foldl (\<lambda>m x. if inserted_at_ms (snd x) < inserted_at_ms (snd m) then x else m) (k, e) es))"

definition cache_insert :: "ToolCacheInner \<Rightarrow> string \<Rightarrow> bytes \<Rightarrow> bytes \<Rightarrow> u64 \<Rightarrow> ToolCacheInner" where
  "cache_insert c tid p resp now =
     (if is_bypassed c tid then c
      else
        (let ttl = ttl_for (config c) tid; key = make_key tid p;
             c = (if length (entries c) \<ge> max_entries (config c) \<and> \<not> hm_contains (entries c) key then
                    (case oldest_key (entries c) of
                       Some old \<Rightarrow> c\<lparr>entries := hm_remove old (entries c),
                          stats := (stats c)\<lparr>capacity_evictions := capacity_evictions (stats c) + 1\<rparr>\<rparr>
                     | None \<Rightarrow> c)
                  else c);
             es = hm_insert key \<lparr>entry_payload = p, response = resp, expires_at_ms = now + ttl, inserted_at_ms = now\<rparr>
                    (entries c)
         in c\<lparr>entries := es, stats := (stats c)\<lparr>current_entries := length es\<rparr>\<rparr>))"

definition evict_expired :: "ToolCacheInner \<Rightarrow> u64 \<Rightarrow> nat \<times> ToolCacheInner" where
  "evict_expired c now =
     (let es = filter (\<lambda>(_, e). \<not> is_expired e now) (entries c);
          evicted = length (entries c) - length es
      in (evicted, c\<lparr>entries := es,
            stats := (stats c)\<lparr>ttl_evictions := ttl_evictions (stats c) + of_nat evicted,
              current_entries := length es\<rparr>\<rparr>))"

definition cache_clear :: "ToolCacheInner \<Rightarrow> ToolCacheInner" where
  "cache_clear c = c\<lparr>entries := [], stats := (stats c)\<lparr>current_entries := 0\<rparr>\<rparr>"

section \<open>Cached registry\<close>

record CachedToolRegistry =
  registry :: ToolRegistry
  cache :: ToolCacheInner

definition cached_new :: "ToolRegistry \<Rightarrow> CacheConfig \<Rightarrow> CachedToolRegistry" where
  "cached_new reg cfg = \<lparr>registry = reg, cache = cache_new cfg\<rparr>"

text \<open>The clock readings of one dispatch: lookup, age, the registry's two and the driver's, insertion.\<close>

record readings =
  at_get :: u64
  at_age :: u64
  at_admit :: nat
  at_record :: nat
  at_invoke :: u64
  at_insert :: u64

definition dispatch_with_outcome ::
    "CachedToolRegistry \<Rightarrow> ToolEnvelope \<Rightarrow> readings \<Rightarrow> (tool_result \<times> CacheOutcome) \<times> CachedToolRegistry" where
  "dispatch_with_outcome s env t =
     (if is_bypassed (cache s) (tool_id env) then
        (let (r, reg) = tool_dispatch (registry s) env (at_admit t) (at_record t) (at_invoke t)
         in ((r, Bypassed), s\<lparr>registry := reg\<rparr>))
      else
        (case cache_get (cache s) (tool_id env) (payload env) (at_get t) of
           (Some e, c) \<Rightarrow> ((Inr (response e), Hit (age_ms e (at_age t))), s\<lparr>cache := c\<rparr>)
         | (None, c) \<Rightarrow>
             (let (r, reg) = tool_dispatch (registry s) env (at_admit t) (at_record t) (at_invoke t)
              in ((r, Miss),
                  s\<lparr>registry := reg,
                    cache := (case r of
                        Inr resp \<Rightarrow> cache_insert c (tool_id env) (payload env) resp (at_insert t)
                      | Inl _ \<Rightarrow> c)\<rparr>))))"

definition cached_dispatch :: "CachedToolRegistry \<Rightarrow> ToolEnvelope \<Rightarrow> readings \<Rightarrow> tool_result \<times> CachedToolRegistry" where
  "cached_dispatch s env t = (let ((r, _), s') = dispatch_with_outcome s env t in (r, s'))"

section \<open>What the cache holds\<close>

text \<open>Invariant: keys are distinct and belong to their payload, no bypassed tool is stored, the entry
  count is recorded and within the configured bound (one slot at least).\<close>

definition entry_ok :: "ToolCacheInner \<Rightarrow> (CacheKey \<times> CacheEntry) \<Rightarrow> bool" where
  "entry_ok c x \<longleftrightarrow> fst x = make_key (fst (fst x)) (entry_payload (snd x))
     \<and> \<not> is_bypassed c (fst (fst x))
     \<and> expires_at_ms (snd x) = inserted_at_ms (snd x) + ttl_for (config c) (fst (fst x))"

definition cache_inv :: "ToolCacheInner \<Rightarrow> bool" where
  "cache_inv c \<longleftrightarrow> hm_wf (entries c) \<and> (\<forall>x\<in>set (entries c). entry_ok c x)
     \<and> current_entries (stats c) = length (entries c)
     \<and> length (entries c) \<le> max 1 (max_entries (config c))"

lemma is_bypassed_cong [simp]:
  "is_bypassed (c\<lparr>entries := es\<rparr>) tid = is_bypassed c tid" "is_bypassed (c\<lparr>stats := st\<rparr>) tid = is_bypassed c tid"
  by (simp_all add: is_bypassed_def)

lemma entry_ok_cong [simp]:
  "entry_ok (c\<lparr>entries := es\<rparr>) x = entry_ok c x" "entry_ok (c\<lparr>stats := st\<rparr>) x = entry_ok c x"
  by (simp_all add: entry_ok_def)

lemma cache_inv_new: "cache_inv (cache_new cfg)"
  by (simp add: cache_inv_def cache_new_def stats_default_def)

lemma config_cache_get [simp]: "config (snd (cache_get c tid p now)) = config c"
  by (simp add: cache_get_def Let_def split: option.split)

lemma cache_get_entries: "set (entries (snd (cache_get c tid p now))) \<subseteq> set (entries c)"
  using set_hm_remove [of "make_key tid p" "entries c"]
  by (auto simp: cache_get_def Let_def split: option.split)

lemma cache_inv_get: "cache_inv c \<Longrightarrow> cache_inv (snd (cache_get c tid p now))"
  using set_hm_remove [of "make_key tid p" "entries c"] length_hm_remove_le [of "make_key tid p" "entries c"]
  by (auto simp: cache_get_def cache_inv_def Let_def store_simps split: option.split)

lemma cache_get_hit:
  assumes "cache_get c tid p now = (Some e, c')"
  shows "(make_key tid p, e) \<in> set (entries c) \<and> entry_payload e = p \<and> \<not> is_expired e now \<and> \<not> is_bypassed c tid
    \<and> entries c' = entries c"
  using assms by (auto simp: cache_get_def Let_def dest: map_of_SomeD split: if_splits option.splits)

lemma oldest_key_in: "es \<noteq> [] \<Longrightarrow> \<exists>k. oldest_key es = Some k \<and> hm_contains es k"
proof (cases es)
  case (Cons x xs)
  obtain k e where x: "x = (k, e)" by (cases x)
  have mem: "foldl (\<lambda>m x. if inserted_at_ms (snd x) < inserted_at_ms (snd m) then x else m) m ys \<in> insert m (set ys)"
    for m :: "CacheKey \<times> CacheEntry" and ys by (induction ys arbitrary: m) (auto split: if_splits)
  have "fst (foldl (\<lambda>m x. if inserted_at_ms (snd x) < inserted_at_ms (snd m) then x else m) (k, e) xs) \<in> fst ` set es"
    using mem [of "(k, e)" xs] by (auto simp: Cons x)
  then show ?thesis by (simp add: hm_contains_iff Cons x)
qed simp

text \<open>The room an insert makes before storing.\<close>

lemma cache_insert_entries:
  assumes inv: "cache_inv c" and nb: "\<not> is_bypassed c tid"
  obtains es where "set es \<subseteq> set (entries c)" "hm_wf es" "length (hm_insert (make_key tid p) e es) \<le> max 1 (max_entries (config c))"
    "entries (cache_insert c tid p resp now) = hm_insert (make_key tid p)
       \<lparr>entry_payload = p, response = resp, expires_at_ms = now + ttl_for (config c) tid, inserted_at_ms = now\<rparr> es"
proof -
  let ?k = "make_key tid p" and ?m = "max_entries (config c)"
  have wf: "hm_wf (entries c)" and len: "length (entries c) \<le> max 1 ?m" using inv by (auto simp: cache_inv_def)
  show ?thesis
  proof (cases "?m \<le> length (entries c) \<and> \<not> hm_contains (entries c) ?k \<and> entries c \<noteq> []")
    case True
    then obtain old where old: "oldest_key (entries c) = Some old" "hm_contains (entries c) old"
      using oldest_key_in by blast
    let ?es = "hm_remove old (entries c)"
    have "Suc (length ?es) = length (entries c)" by (rule hm_length_remove [OF wf old(2)])
    moreover have "\<not> hm_contains ?es ?k" using True by (simp add: hm_contains_def store_simps)
    ultimately have "length (hm_insert ?k e ?es) \<le> max 1 ?m" using len by (simp add: hm_length_insert_new)
    then show ?thesis using True old nb wf
      by (intro that [of ?es]) (simp_all add: set_hm_remove store_simps cache_insert_def Let_def)
  next
    case False
    then have "length (hm_insert ?k e (entries c)) \<le> max 1 ?m"
      using len hm_length_insert_old [of "entries c" ?k e] hm_length_insert_new [of "entries c" ?k e]
      by (cases "hm_contains (entries c) ?k") auto
    then show ?thesis using False nb wf
      by (intro that [of "entries c"]) (auto simp: cache_insert_def Let_def)
  qed
qed

lemma config_cache_insert [simp]: "config (cache_insert c tid p resp now) = config c"
  by (simp add: cache_insert_def Let_def split: option.split)

lemma is_bypassed_insert [simp]: "is_bypassed (cache_insert c tid p resp now) t = is_bypassed c t"
  by (simp add: is_bypassed_def)

lemma entry_ok_config: "config c = config d \<Longrightarrow> entry_ok c x = entry_ok d x"
  by (simp add: entry_ok_def is_bypassed_def)

lemma cache_inv_insert: 
  assumes inv: "cache_inv c" shows "cache_inv (cache_insert c tid p resp now)"
proof (cases "is_bypassed c tid")
  case True
  with inv show ?thesis by (simp add: cache_insert_def)
next
  case False
  let ?e = "\<lparr>entry_payload = p, response = resp, expires_at_ms = now + ttl_for (config c) tid, inserted_at_ms = now\<rparr>"
  obtain es where es: "set es \<subseteq> set (entries c)" "hm_wf es"
    "length (hm_insert (make_key tid p) ?e es) \<le> max 1 (max_entries (config c))"
    "entries (cache_insert c tid p resp now) = hm_insert (make_key tid p) ?e es"
    using cache_insert_entries [OF inv False, of p ?e resp now] .
  have "entry_ok c (make_key tid p, ?e)" using False by (simp add: entry_ok_def make_key_def)
  moreover have "\<forall>x\<in>set es. entry_ok c x" using inv es(1) by (auto simp: cache_inv_def)
  ultimately have "\<forall>x\<in>set (entries (cache_insert c tid p resp now)). entry_ok c x"
    using set_hm_insert [of "make_key tid p" ?e es] unfolding es(4) by blast
  moreover have "current_entries (stats (cache_insert c tid p resp now)) = length (entries (cache_insert c tid p resp now))"
    using False by (simp add: cache_insert_def Let_def)
  moreover have "entry_ok (cache_insert c tid p resp now) = entry_ok c" by (rule ext, rule entry_ok_config) simp
  ultimately show ?thesis using es(2,3) by (simp add: cache_inv_def es(4) store_simps)
qed

lemma cache_inv_evict: "cache_inv c \<Longrightarrow> cache_inv (snd (evict_expired c now))"
proof -
  assume "cache_inv c"
  moreover from this have "length (filter P (entries c)) \<le> max 1 (max_entries (config c))" for P
    using length_filter_le [of P "entries c"] unfolding cache_inv_def by linarith
  ultimately show ?thesis
    by (simp add: cache_inv_def evict_expired_def Let_def hm_wf_def distinct_map_filter)
qed

lemma cache_inv_clear: "cache_inv c \<Longrightarrow> cache_inv (cache_clear c)"
  by (simp add: cache_inv_def cache_clear_def)

section \<open>Runs\<close>

text \<open>A cached registry with the log of the responses its misses fetched: tool, payload, response and
  the time of insertion.\<close>

type_synonym fetch_log = "(string \<times> bytes \<times> bytes \<times> u64) list"

datatype cache_op = Call ToolEnvelope readings | EvictExpired u64 | ClearCache

fun cache_step :: "CachedToolRegistry \<times> fetch_log \<Rightarrow> cache_op \<Rightarrow> CachedToolRegistry \<times> fetch_log" where
  "cache_step (s, log) (Call env t) =
     (case dispatch_with_outcome s env t of
        ((Inr resp, Miss), s') \<Rightarrow> (s', (tool_id env, payload env, resp, at_insert t) # log)
      | (_, s') \<Rightarrow> (s', log))"
| "cache_step (s, log) (EvictExpired now) = (s\<lparr>cache := snd (evict_expired (cache s) now)\<rparr>, log)"
| "cache_step (s, log) ClearCache = (s\<lparr>cache := cache_clear (cache s)\<rparr>, log)"

text \<open>The four ways a dispatch can end.\<close>

lemma dispatch_cases:
  obtains (bypassed) r reg where "is_bypassed (cache s) (tool_id env)"
      "tool_dispatch (registry s) env (at_admit t) (at_record t) (at_invoke t) = (r, reg)"
      "dispatch_with_outcome s env t = ((r, Bypassed), s\<lparr>registry := reg\<rparr>)"
  | (hit) e c where "\<not> is_bypassed (cache s) (tool_id env)"
      "cache_get (cache s) (tool_id env) (payload env) (at_get t) = (Some e, c)"
      "dispatch_with_outcome s env t = ((Inr (response e), Hit (age_ms e (at_age t))), s\<lparr>cache := c\<rparr>)"
  | (fetched) resp reg c where "\<not> is_bypassed (cache s) (tool_id env)"
      "cache_get (cache s) (tool_id env) (payload env) (at_get t) = (None, c)"
      "tool_dispatch (registry s) env (at_admit t) (at_record t) (at_invoke t) = (Inr resp, reg)"
      "dispatch_with_outcome s env t =
        ((Inr resp, Miss), s\<lparr>registry := reg, cache := cache_insert c (tool_id env) (payload env) resp (at_insert t)\<rparr>)"
  | (failed) err reg c where "\<not> is_bypassed (cache s) (tool_id env)"
      "cache_get (cache s) (tool_id env) (payload env) (at_get t) = (None, c)"
      "tool_dispatch (registry s) env (at_admit t) (at_record t) (at_invoke t) = (Inl err, reg)"
      "dispatch_with_outcome s env t = ((Inl err, Miss), s\<lparr>registry := reg, cache := c\<rparr>)"
proof -
  obtain r reg where r: "tool_dispatch (registry s) env (at_admit t) (at_record t) (at_invoke t) = (r, reg)" by force
  obtain g c where g: "cache_get (cache s) (tool_id env) (payload env) (at_get t) = (g, c)" by force
  show ?thesis
  proof (cases "is_bypassed (cache s) (tool_id env)")
    case True
    with r bypassed show ?thesis by (simp add: dispatch_with_outcome_def)
  next
    case False
    show ?thesis
    proof (cases g)
      case (Some e)
      with False g hit show ?thesis by (simp add: dispatch_with_outcome_def)
    next
      case None
      with False g r fetched failed show ?thesis by (cases r) (simp_all add: dispatch_with_outcome_def)
    qed
  qed
qed

definition logged :: "fetch_log \<Rightarrow> (CacheKey \<times> CacheEntry) \<Rightarrow> bool" where
  "logged log x \<longleftrightarrow> (fst (fst x), entry_payload (snd x), response (snd x), inserted_at_ms (snd x)) \<in> set log"

definition run_inv :: "CacheConfig \<Rightarrow> CachedToolRegistry \<times> fetch_log \<Rightarrow> bool" where
  "run_inv cfg st \<longleftrightarrow> cache_inv (cache (fst st)) \<and> config (cache (fst st)) = cfg
     \<and> (\<forall>x\<in>set (entries (cache (fst st))). logged (snd st) x)"

lemma insert_logged:
  assumes "cache_inv c" "\<forall>x\<in>set (entries c). logged log x" "\<not> is_bypassed c tid"
  shows "\<forall>x\<in>set (entries (cache_insert c tid p resp now)). logged ((tid, p, resp, now) # log) x"
proof -
  let ?e = "\<lparr>entry_payload = p, response = resp, expires_at_ms = now + ttl_for (config c) tid, inserted_at_ms = now\<rparr>"
  obtain es where es: "set es \<subseteq> set (entries c)"
    "entries (cache_insert c tid p resp now) = hm_insert (make_key tid p) ?e es"
    using cache_insert_entries [OF assms(1,3), of p ?e resp now] .
  have "logged ((tid, p, resp, now) # log) (make_key tid p, ?e)" by (simp add: logged_def make_key_def)
  moreover have "\<forall>x\<in>set es. logged ((tid, p, resp, now) # log) x" using assms(2) es(1) by (auto simp: logged_def)
  ultimately show ?thesis using set_hm_insert [of "make_key tid p" ?e es] unfolding es(2) by blast
qed

lemma is_bypassed_config: "config c = config d \<Longrightarrow> is_bypassed c tid = is_bypassed d tid"
  by (simp add: is_bypassed_def)

lemma run_inv_step:
  assumes "run_inv cfg (s, log)" shows "run_inv cfg (cache_step (s, log) x)"
proof (cases x)
  case (Call env t)
  have inv: "cache_inv (cache s)" "config (cache s) = cfg" "\<forall>x\<in>set (entries (cache s)). logged log x"
    using assms by (auto simp: run_inv_def)
  note get = cache_inv_get [OF inv(1), of "tool_id env" "payload env" "at_get t"]
    cache_get_entries [of "cache s" "tool_id env" "payload env" "at_get t"]
    config_cache_get [of "cache s" "tool_id env" "payload env" "at_get t"]
  show ?thesis
  proof (cases rule: dispatch_cases [where s = s and env = env and t = t])
    case (bypassed r reg)
    with inv show ?thesis by (cases r) (simp_all add: Call run_inv_def)
  next
    case (hit e c)
    with inv get cache_get_hit [OF hit(2)] show ?thesis by (simp add: Call run_inv_def)
  next
    case (fetched resp reg c)
    with get inv have c: "cache_inv c" "\<forall>x\<in>set (entries c). logged log x" "config c = cfg" by auto
    then have "\<not> is_bypassed c (tool_id env)"
      using fetched(1) inv(2) by (simp add: is_bypassed_config [of c "cache s"])
    with insert_logged [OF c(1,2)] cache_inv_insert [OF c(1)] c(3) fetched(4) show ?thesis
      by (simp add: Call run_inv_def)
  next
    case (failed err reg c)
    with get inv show ?thesis by (auto simp: Call run_inv_def)
  qed
next
  case (EvictExpired now)
  with assms cache_inv_evict [of "cache s" now] show ?thesis
    by (auto simp: run_inv_def evict_expired_def Let_def)
next
  case ClearCache
  with assms cache_inv_clear [of "cache s"] show ?thesis by (simp add: run_inv_def cache_clear_def)
qed

interpretation cache_machine: op_machine cache_step "run_inv cfg"
proof unfold_locales
  fix st x
  assume "run_inv cfg st"
  then show "run_inv cfg (cache_step st x)" by (cases st) (simp add: run_inv_step)
qed

lemma run_inv_start: "run_inv cfg (cached_new reg cfg, [])"
  by (simp add: run_inv_def cached_new_def cache_inv_new) (simp add: cache_new_def)

text \<open>C19: a cache hit is sound. Over any run of dispatches, evictions and clears from an empty cache, a
  hit returns a response that an earlier invocation of the same tool on exactly the same payload
  returned, one that has not outlived its time to live, for a tool that is not bypassed, and does not
  touch the registry; equal hashes of different payloads never produce a hit.\<close>

theorem cache_hit_sound:
  assumes run: "(s, log) = foldl cache_step (cached_new reg cfg, []) xs"
    and hit: "dispatch_with_outcome s env t = ((r, Hit age), s')"
  shows "\<exists>resp since. r = Inr resp \<and> (tool_id env, payload env, resp, since) \<in> set log
    \<and> at_get t < since + ttl_for cfg (tool_id env) \<and> age = saturating_sub (at_age t) since
    \<and> tool_id env \<notin> set (bypass_tools cfg) \<and> registry s' = registry s"
proof -
  have "run_inv cfg (s, log)" unfolding run by (rule cache_machine.run_inv) (rule run_inv_start)
  then have inv: "cache_inv (cache s)" "config (cache s) = cfg" "\<forall>x\<in>set (entries (cache s)). logged log x"
    by (auto simp: run_inv_def)
  show ?thesis
  proof (cases rule: dispatch_cases [where s = s and env = env and t = t])
    case (hit e c)
    note h = cache_get_hit [OF hit(2)]
    then have "entry_ok (cache s) (make_key (tool_id env) (payload env), e)"
      "logged log (make_key (tool_id env) (payload env), e)" using inv by (auto simp: cache_inv_def)
    with h inv(2) hit(3) assms(2) show ?thesis
      by (auto simp: entry_ok_def logged_def make_key_def is_expired_def not_le is_bypassed_def list_ex_iff age_ms_def)
  qed (use assms(2) in auto)
qed

definition demo_env :: ToolEnvelope where
  "demo_env = envelope_new Mcp ''echo'' [1] 0"

definition demo_readings :: readings where
  "demo_readings = \<lparr>at_get = 0, at_age = 0, at_admit = 0, at_record = 0, at_invoke = 0, at_insert = 0\<rparr>"

definition demo_run :: "CachedToolRegistry \<times> fetch_log" where
  "demo_run = foldl cache_step (cached_new registry_new (with_ttl 5), []) [Call demo_env demo_readings]"

lemma registry_new_eval:
  "registry_new = [(''clock'', \<lparr>driver = ClockTool, breaker = breaker_new\<rparr>), (''echo'', \<lparr>driver = EchoTool, breaker = breaker_new\<rparr>),
     (''text-io'', \<lparr>driver = TextIoTool, breaker = breaker_new\<rparr>)]"
  by (simp add: registry_new_def tool_register_def registry_empty_def ClockTool_def EchoTool_def TextIoTool_def)

lemmas demo_defs = demo_env_def demo_readings_def envelope_new_def cached_new_def cache_new_def with_ttl_def
  cache_config_default_def dispatch_with_outcome_def cache_get_def cache_insert_def is_bypassed_def hm_contains_def
  tool_dispatch_def tool_admit_def tool_record_def verify_pathway_health_def breaker_new_def record_success_def
  EchoTool_def is_expired_def age_ms_def saturating_sub_def ttl_for_def stats_default_def registry_new_eval Let_def

lemma demo_hit: "fst (dispatch_with_outcome (fst demo_run) demo_env demo_readings) = (Inr [1], Hit 0)"
  by (simp add: demo_run_def demo_defs)

lemma cache_hit_sound_witness:
  "\<exists>since. (''echo'', [1], [1], since) \<in> set (snd demo_run) \<and> 0 < since + ttl_for (with_ttl 5) ''echo''"
proof -
  have run: "(fst demo_run, snd demo_run) =
      foldl cache_step (cached_new registry_new (with_ttl 5), []) [Call demo_env demo_readings]"
    by (simp only: demo_run_def prod.collapse)
  have hit: "dispatch_with_outcome (fst demo_run) demo_env demo_readings =
      ((Inr [1], Hit 0), snd (dispatch_with_outcome (fst demo_run) demo_env demo_readings))"
    unfolding demo_hit [symmetric] prod.collapse ..
  obtain resp since where "Inr [1] = (Inr resp :: tool_result)"
    "(tool_id demo_env, payload demo_env, resp, since) \<in> set (snd demo_run)"
    "at_get demo_readings < since + ttl_for (with_ttl 5) (tool_id demo_env)"
    using cache_hit_sound [OF run hit] by (elim exE conjE)
  then show ?thesis by (intro exI [of _ since]) (simp add: demo_env_def demo_readings_def envelope_new_def)
qed

text \<open>The cache stays within its bound. Over any such run, the store never holds more entries than
  configured (one when zero is configured), never two under one key, none of a bypassed tool, and the
  statistics report the number of entries.\<close>

theorem cache_bounded:
  fixes reg :: ToolRegistry and cfg :: CacheConfig and xs :: "cache_op list"
  defines "s \<equiv> fst (foldl cache_step (cached_new reg cfg, []) xs)"
  shows "length (entries (cache s)) \<le> max 1 (max_entries cfg) \<and> distinct (map fst (entries (cache s)))
    \<and> current_entries (stats (cache s)) = length (entries (cache s))
    \<and> list_all (\<lambda>((tid, _), _). tid \<notin> set (bypass_tools cfg)) (entries (cache s))"
proof -
  have "run_inv cfg (foldl cache_step (cached_new reg cfg, []) xs)"
    by (rule cache_machine.run_inv) (rule run_inv_start)
  then have inv: "cache_inv (cache s)" and cfg: "config (cache s) = cfg"
    unfolding s_def by (simp_all add: run_inv_def)
  from inv have "list_all (\<lambda>((tid, _), _). tid \<notin> set (bypass_tools (config (cache s)))) (entries (cache s))"
    by (simp add: cache_inv_def entry_ok_def is_bypassed_def list_ex_iff list_all_iff case_prod_beta)
  with inv show ?thesis unfolding cache_inv_def hm_wf_def cfg by simp
qed

section \<open>Transparency\<close>

text \<open>The contract of a registry whose answers satisfy a predicate: dispatching keeps the registry good,
  and a good registry only returns accepted responses. The client lemma: then the cached registry only
  returns accepted responses too, whatever is cached.\<close>

locale accepted_answers =
  fixes good :: "ToolRegistry \<Rightarrow> bool"
    and accept :: "string \<Rightarrow> bytes \<Rightarrow> bytes \<Rightarrow> bool"
  assumes good_dispatch: "good reg \<Longrightarrow> good (snd (tool_dispatch reg env t0 t1 ms))"
    and accepted: "good reg \<Longrightarrow> fst (tool_dispatch reg env t0 t1 ms) = Inr resp \<Longrightarrow>
      accept (tool_id env) (payload env) resp"
begin

definition all_good :: "CachedToolRegistry \<times> fetch_log \<Rightarrow> bool" where
  "all_good st \<longleftrightarrow> good (registry (fst st)) \<and> (\<forall>(tid, p, resp, _)\<in>set (snd st). accept tid p resp)"

lemma all_good_step: "all_good (s, log) \<Longrightarrow> all_good (cache_step (s, log) x)"
proof (cases x)
  case (Call env t)
  assume ok: "all_good (s, log)"
  then have g: "good (registry s)" by (simp add: all_good_def)
  note gd = good_dispatch [OF g, of env "at_admit t" "at_record t" "at_invoke t"]
    accepted [OF g, of env "at_admit t" "at_record t" "at_invoke t"]
  show ?thesis
  proof (cases rule: dispatch_cases [where s = s and env = env and t = t])
    case (bypassed r reg)
    with ok gd show ?thesis by (cases r) (simp_all add: Call all_good_def)
  qed (use ok gd in \<open>simp_all add: Call all_good_def\<close>)
qed (simp_all add: all_good_def)

lemma all_good_run: "all_good st \<Longrightarrow> all_good (foldl cache_step st xs)"
proof (induction xs arbitrary: st)
  case (Cons x xs)
  then show ?case by (cases st) (simp add: all_good_step)
qed simp

end

definition builtin_good :: "ToolRegistry \<Rightarrow> bool" where
  "builtin_good reg \<longleftrightarrow> tool_lookup reg ''echo'' = Some EchoTool \<and> tool_lookup reg ''text-io'' = Some TextIoTool"

definition builtin_accept :: "string \<Rightarrow> bytes \<Rightarrow> bytes \<Rightarrow> bool" where
  "builtin_accept tid p resp \<longleftrightarrow> (tid = ''echo'' \<longrightarrow> resp = p)
     \<and> (tid = ''text-io'' \<longrightarrow> utf8_valid p \<and> resp = p @ [10])"

lemma lookup_dispatch: "tool_lookup (snd (tool_dispatch reg env t0 t1 ms)) tid = tool_lookup reg tid"
proof (cases "hm_get reg (tool_id env)")
  case None
  then show ?thesis by (simp add: tool_dispatch_def tool_admit_def)
next
  case (Some e)
  show ?thesis unfolding tool_lookup_def dispatch_registered(2) [OF Some] using Some by simp
qed

interpretation builtin: accepted_answers builtin_good builtin_accept
proof unfold_locales
  fix reg env t0 t1 ms resp
  assume good: "builtin_good reg"
  then show "builtin_good (snd (tool_dispatch reg env t0 t1 ms))" by (simp add: builtin_good_def lookup_dispatch)
  assume ok: "fst (tool_dispatch reg env t0 t1 ms) = Inr resp"
  then obtain e where e: "hm_get reg (tool_id env) = Some e"
    by (cases "hm_get reg (tool_id env)") (auto simp: tool_dispatch_def tool_admit_def)
  have "invoke (driver e) ms (payload env) = Inr resp"
    using ok dispatch_registered(1) [OF e, of t0 t1 ms] by (auto split: if_splits)
  with good e show "builtin_accept (tool_id env) (payload env) resp"
    by (auto simp: builtin_good_def builtin_accept_def tool_lookup_def EchoTool_def TextIoTool_def split: if_splits)
qed

lemma registry_new_good: "builtin_good registry_new"
  by (simp add: builtin_good_def registry_new_def tool_lookup_def tool_register_def store_simps EchoTool_def
      TextIoTool_def ClockTool_def)

text \<open>Caching is transparent for the deterministic built-in tools. Under any configuration and after
  any run over the default registry, a successful dispatch of \<^verbatim>\<open>echo\<close> returns the payload and one of
  \<^verbatim>\<open>text-io\<close> returns the payload with a newline and only for valid UTF-8, whether it was answered by
  the tool or from the cache.\<close>

theorem builtin_cache_transparent:
  assumes run: "(s, log) = foldl cache_step (cached_new registry_new cfg, []) xs"
    and ok: "fst (cached_dispatch s env t) = Inr resp"
  shows "(tool_id env = ''echo'' \<longrightarrow> resp = payload env)
    \<and> (tool_id env = ''text-io'' \<longrightarrow> utf8_valid (payload env) \<and> resp = payload env @ [10])"
proof -
  have "builtin.all_good (s, log)" unfolding run
    by (rule builtin.all_good_run) (simp add: builtin.all_good_def cached_new_def registry_new_good)
  then have good: "builtin_good (registry s)" and all: "\<forall>(tid, p, resp, _)\<in>set log. builtin_accept tid p resp"
    by (auto simp: builtin.all_good_def)
  note acc = builtin.accepted [OF good, of env "at_admit t" "at_record t" "at_invoke t"]
  have "builtin_accept (tool_id env) (payload env) resp"
  proof (cases rule: dispatch_cases [where s = s and env = env and t = t])
    case (hit e c)
    have "run_inv cfg (s, log)" unfolding run by (rule cache_machine.run_inv) (rule run_inv_start)
    with cache_get_hit [OF hit(2)]
    have "logged log (make_key (tool_id env) (payload env), e)" "entry_payload e = payload env"
      by (auto simp: run_inv_def)
    with all hit(3) ok show ?thesis by (auto simp: logged_def make_key_def cached_dispatch_def)
  qed (use acc ok in \<open>auto simp: cached_dispatch_def\<close>)
  then show ?thesis by (auto simp: builtin_accept_def)
qed

lemma builtin_cache_transparent_witness:
  "fst (cached_dispatch (fst demo_run) demo_env demo_readings) = Inr (payload demo_env)"
proof -
  have run: "(fst demo_run, snd demo_run) =
      foldl cache_step (cached_new registry_new (with_ttl 5), []) [Call demo_env demo_readings]"
    by (simp only: demo_run_def prod.collapse)
  have ok: "fst (cached_dispatch (fst demo_run) demo_env demo_readings) = Inr [1]"
    using demo_hit by (simp add: cached_dispatch_def Let_def case_prod_beta)
  have "tool_id demo_env = ''echo''" by (simp add: demo_env_def envelope_new_def)
  then have "[1] = payload demo_env" using builtin_cache_transparent [OF run ok] by (elim conjE) (rule mp)
  with ok show ?thesis by (simp only:)
qed

text \<open>A hit is served without asking the registry, so an open breaker does not stop it.\<close>

lemma hit_ignores_registry:
  assumes "dispatch_with_outcome s env t = ((r, Hit age), s')"
  shows "dispatch_with_outcome (s\<lparr>registry := reg\<rparr>) env t = ((r, Hit age), s'\<lparr>registry := reg\<rparr>)"
  using assms
  by (auto simp: dispatch_with_outcome_def Let_def case_prod_beta split: if_splits option.splits prod.splits)

text \<open>The expiry time is an unchecked sum: a time to live near the maximum wraps, and the entry is
  expired as soon as it is stored.\<close>

lemma expiry_wraps:
  "let c = cache_insert (cache_new (with_ttl u64_max)) ''echo'' [] [7] 5
   in fst (cache_get c ''echo'' [] 5) = None"
  by (simp add: cache_insert_def cache_new_def cache_get_def with_ttl_def cache_config_default_def is_bypassed_def
      hm_contains_def ttl_for_def is_expired_def Let_def stats_default_def)

end
