(* ===== verification/Senses.thy ===== *)
theory Senses
  imports Anima_Prelude "HOL-Library.Sublist"
begin

text \<open>
  The sensory bridge (\<^verbatim>\<open>crates/senses/src/lib.rs\<close>): typed packets from text, audio and images, the
  operator's policy bounds, and the queue the somatic loop drains. The texts of policy violations are
  constructors. Each call is one step; the locks of the bounds and of the queue are not interleaved.
\<close>

section \<open>Data\<close>

datatype SensoryPriority = PLow | PNormal | PHigh | PCritical

primrec priority_rank :: "SensoryPriority \<Rightarrow> nat" where
  "priority_rank PLow = 0"
| "priority_rank PNormal = 1"
| "priority_rank PHigh = 2"
| "priority_rank PCritical = 3"

instantiation SensoryPriority :: linorder
begin

definition less_eq_SensoryPriority :: "SensoryPriority \<Rightarrow> SensoryPriority \<Rightarrow> bool" where
  "less_eq_SensoryPriority a b \<longleftrightarrow> priority_rank a \<le> priority_rank b"

definition less_SensoryPriority :: "SensoryPriority \<Rightarrow> SensoryPriority \<Rightarrow> bool" where
  "less_SensoryPriority a b \<longleftrightarrow> priority_rank a < priority_rank b"

instance
proof
  fix a b :: SensoryPriority
  assume "a \<le> b" "b \<le> a"
  then show "a = b" by (cases a; cases b) (simp_all add: less_eq_SensoryPriority_def)
qed (auto simp: less_eq_SensoryPriority_def less_SensoryPriority_def)

end

text \<open>An image has its bytes, MIME type and optional caption.\<close>

datatype SensoryPacket =
    PText string
  | Pcm "16 word list"
  | Image "u8 list" string "string option"

datatype SensoryOrigin = FromOperator | Internal

fun is_operator :: "SensoryOrigin \<Rightarrow> bool" where
  "is_operator FromOperator = True"
| "is_operator Internal = False"

record PrioritizedPacket =
  packet :: SensoryPacket
  priority :: SensoryPriority
  gate_override_reason :: "string option"
  message_id :: "string option"
  origin :: SensoryOrigin

record HumanGuidance =
  policy_hint :: string
  max_text_length :: "nat option"
  max_pcm_samples :: "nat option"
  blocked_prefixes :: "string list"
  max_image_bytes :: "nat option"

definition guidance_new :: "string \<Rightarrow> HumanGuidance" where
  "guidance_new hint = \<lparr>policy_hint = hint, max_text_length = None, max_pcm_samples = None,
     blocked_prefixes = [], max_image_bytes = None\<rparr>"

datatype violation =
    EmptyText
  | TextTooLong nat nat
  | BlockedPrefix string
  | EmptyReason
  | ReasonTooLong nat
  | EmptyPcm
  | PcmTooLong nat nat
  | EmptyImage
  | EmptyMime
  | NotImageMime
  | ImageTooLarge nat nat

datatype SensoryBridgeError = InvalidInput | PolicyViolation violation

record SensoryBridge =
  active_bounds :: HumanGuidance
  queue :: "PrioritizedPacket list"

type_synonym 'a sensory_result = "SensoryBridgeError + 'a"

section \<open>Operations\<close>

definition bridge_new :: "HumanGuidance \<Rightarrow> SensoryBridge" where
  "bridge_new g = \<lparr>active_bounds = g, queue = []\<rparr>"

definition read_active_bounds :: "SensoryBridge \<Rightarrow> HumanGuidance sensory_result" where
  "read_active_bounds b = Inr (active_bounds b)"

definition set_active_bounds :: "SensoryBridge \<Rightarrow> HumanGuidance \<Rightarrow> SensoryBridge" where
  "set_active_bounds b g = b\<lparr>active_bounds := g\<rparr>"

definition push_back :: "SensoryBridge \<Rightarrow> PrioritizedPacket \<Rightarrow> SensoryBridge" where
  "push_back b x = b\<lparr>queue := queue b @ [x]\<rparr>"

definition packetize_text :: "SensoryBridge \<Rightarrow> string \<Rightarrow> SensoryBridge" where
  "packetize_text b s = push_back b \<lparr>packet = PText s, priority = PNormal, gate_override_reason = None,
     message_id = None, origin = Internal\<rparr>"

definition packetize_pcm :: "SensoryBridge \<Rightarrow> 16 word list \<Rightarrow> SensoryBridge" where
  "packetize_pcm b samples = push_back b \<lparr>packet = Pcm samples, priority = PNormal,
     gate_override_reason = None, message_id = None, origin = Internal\<rparr>"

text \<open>The checks on a text, in the order of the source; the first blocked prefix is reported.\<close>

definition text_violation :: "HumanGuidance \<Rightarrow> string \<Rightarrow> violation option" where
  "text_violation bounds s =
     (if s = [] then Some EmptyText
      else if (case max_text_length bounds of Some n \<Rightarrow> length s > n | None \<Rightarrow> False)
      then Some (TextTooLong (length s) (the (max_text_length bounds)))
      else map_option BlockedPrefix (find (\<lambda>pre. prefix pre s) (blocked_prefixes bounds)))"

definition packetize_text_from ::
    "SensoryBridge \<Rightarrow> string \<Rightarrow> SensoryPriority \<Rightarrow> string option \<Rightarrow> SensoryOrigin \<Rightarrow> unit sensory_result \<times> SensoryBridge" where
  "packetize_text_from b s prio mid src =
     (case text_violation (active_bounds b) s of
        Some v \<Rightarrow> (Inl (PolicyViolation v), b)
      | None \<Rightarrow> (Inr (), push_back b \<lparr>packet = PText s, priority = prio, gate_override_reason = None,
                             message_id = mid, origin = src\<rparr>))"

definition packetize_text_tagged ::
    "SensoryBridge \<Rightarrow> string \<Rightarrow> SensoryPriority \<Rightarrow> string option \<Rightarrow> unit sensory_result \<times> SensoryBridge" where
  "packetize_text_tagged b s prio mid = packetize_text_from b s prio mid FromOperator"

definition packetize_text_checked ::
    "SensoryBridge \<Rightarrow> string \<Rightarrow> SensoryPriority \<Rightarrow> unit sensory_result \<times> SensoryBridge" where
  "packetize_text_checked b s prio = packetize_text_tagged b s prio None"

definition packetize_text_forced_tagged ::
    "SensoryBridge \<Rightarrow> string \<Rightarrow> string \<Rightarrow> string option \<Rightarrow> unit sensory_result \<times> SensoryBridge" where
  "packetize_text_forced_tagged b s reason mid =
     (if trim reason = [] then (Inl (PolicyViolation EmptyReason), b)
      else if length reason > 512 then (Inl (PolicyViolation (ReasonTooLong (length reason))), b)
      else (case text_violation (active_bounds b) s of
          Some v \<Rightarrow> (Inl (PolicyViolation v), b)
        | None \<Rightarrow> (Inr (), push_back b \<lparr>packet = PText s, priority = PCritical,
                      gate_override_reason = Some reason, message_id = mid, origin = FromOperator\<rparr>)))"

definition packetize_text_forced :: "SensoryBridge \<Rightarrow> string \<Rightarrow> string \<Rightarrow> unit sensory_result \<times> SensoryBridge" where
  "packetize_text_forced b s reason = packetize_text_forced_tagged b s reason None"

definition packetize_pcm_from ::
    "SensoryBridge \<Rightarrow> 16 word list \<Rightarrow> SensoryPriority \<Rightarrow> SensoryOrigin \<Rightarrow> unit sensory_result \<times> SensoryBridge" where
  "packetize_pcm_from b samples prio src =
     (if samples = [] then (Inl (PolicyViolation EmptyPcm), b)
      else if (case max_pcm_samples (active_bounds b) of Some n \<Rightarrow> length samples > n | None \<Rightarrow> False)
      then (Inl (PolicyViolation (PcmTooLong (length samples) (the (max_pcm_samples (active_bounds b))))), b)
      else (Inr (), push_back b \<lparr>packet = Pcm samples, priority = prio, gate_override_reason = None,
              message_id = None, origin = src\<rparr>))"

definition packetize_pcm_checked ::
    "SensoryBridge \<Rightarrow> 16 word list \<Rightarrow> SensoryPriority \<Rightarrow> unit sensory_result \<times> SensoryBridge" where
  "packetize_pcm_checked b samples prio = packetize_pcm_from b samples prio FromOperator"

definition packetize_image_from ::
    "SensoryBridge \<Rightarrow> u8 list \<Rightarrow> string \<Rightarrow> string option \<Rightarrow> SensoryPriority \<Rightarrow> SensoryOrigin
      \<Rightarrow> unit sensory_result \<times> SensoryBridge" where
  "packetize_image_from b img mime caption prio src =
     (if img = [] then (Inl (PolicyViolation EmptyImage), b)
      else if mime = [] then (Inl (PolicyViolation EmptyMime), b)
      else if \<not> prefix ''image/'' mime then (Inl (PolicyViolation NotImageMime), b)
      else if (case max_image_bytes (active_bounds b) of Some n \<Rightarrow> length img > n | None \<Rightarrow> False)
      then (Inl (PolicyViolation (ImageTooLarge (length img) (the (max_image_bytes (active_bounds b))))), b)
      else (Inr (), push_back b \<lparr>packet = Image img mime caption, priority = prio, gate_override_reason = None,
              message_id = None, origin = src\<rparr>))"

definition packetize_image_checked ::
    "SensoryBridge \<Rightarrow> u8 list \<Rightarrow> string \<Rightarrow> string option \<Rightarrow> SensoryPriority \<Rightarrow> unit sensory_result \<times> SensoryBridge" where
  "packetize_image_checked b img mime caption prio = packetize_image_from b img mime caption prio FromOperator"

definition has_packets :: "SensoryBridge \<Rightarrow> bool" where
  "has_packets b \<longleftrightarrow> queue b \<noteq> []"

definition queue_len :: "SensoryBridge \<Rightarrow> nat" where
  "queue_len b = length (queue b)"

definition next_prioritized_packet :: "SensoryBridge \<Rightarrow> PrioritizedPacket option \<times> SensoryBridge" where
  "next_prioritized_packet b =
     (case queue b of [] \<Rightarrow> (None, b) | x # xs \<Rightarrow> (Some x, b\<lparr>queue := xs\<rparr>))"

definition next_packet :: "SensoryBridge \<Rightarrow> SensoryPacket option \<times> SensoryBridge" where
  "next_packet b = (case queue b of [] \<Rightarrow> (None, b) | x # xs \<Rightarrow> (Some (packet x), b\<lparr>queue := xs\<rparr>))"

section \<open>What the bounds admit\<close>

text \<open>A packet within the bounds: the declarative reading of the operator's guidance.\<close>

definition within :: "nat option \<Rightarrow> nat \<Rightarrow> bool" where
  "within limit n \<longleftrightarrow> (case limit of None \<Rightarrow> True | Some m \<Rightarrow> n \<le> m)"

fun content_ok :: "HumanGuidance \<Rightarrow> SensoryPacket \<Rightarrow> bool" where
  "content_ok g (PText s) \<longleftrightarrow> s \<noteq> [] \<and> within (max_text_length g) (length s)
     \<and> list_all (\<lambda>pre. \<not> prefix pre s) (blocked_prefixes g)"
| "content_ok g (Pcm samples) \<longleftrightarrow> samples \<noteq> [] \<and> within (max_pcm_samples g) (length samples)"
| "content_ok g (Image img mime caption) \<longleftrightarrow> img \<noteq> [] \<and> prefix ''image/'' mime \<and> within (max_image_bytes g) (length img)"

text \<open>An override names its reason, is critical and comes from the operator.\<close>

definition override_ok :: "PrioritizedPacket \<Rightarrow> bool" where
  "override_ok x \<longleftrightarrow> (case gate_override_reason x of
     None \<Rightarrow> True
   | Some r \<Rightarrow> \<not> list_all is_space r \<and> length r \<le> 512 \<and> priority x = PCritical \<and> origin x = FromOperator)"

lemma text_violation_None: "text_violation g s = None \<longleftrightarrow> content_ok g (PText s)"
  by (auto simp: text_violation_def within_def find_None_iff list_all_iff split: option.splits)

text \<open>The policy-enforcing calls, and what each would enqueue.\<close>

datatype ingress =
    TextFrom string SensoryPriority "string option" SensoryOrigin
  | TextForced string string "string option"
  | PcmFrom "16 word list" SensoryPriority SensoryOrigin
  | ImageFrom "u8 list" string "string option" SensoryPriority SensoryOrigin

fun ingest :: "SensoryBridge \<Rightarrow> ingress \<Rightarrow> unit sensory_result \<times> SensoryBridge" where
  "ingest b (TextFrom s prio mid src) = packetize_text_from b s prio mid src"
| "ingest b (TextForced s reason mid) = packetize_text_forced_tagged b s reason mid"
| "ingest b (PcmFrom samples prio src) = packetize_pcm_from b samples prio src"
| "ingest b (ImageFrom img mime caption prio src) = packetize_image_from b img mime caption prio src"

fun ingress_packet :: "ingress \<Rightarrow> PrioritizedPacket" where
  "ingress_packet (TextFrom s prio mid src) =
     \<lparr>packet = PText s, priority = prio, gate_override_reason = None, message_id = mid, origin = src\<rparr>"
| "ingress_packet (TextForced s reason mid) =
     \<lparr>packet = PText s, priority = PCritical, gate_override_reason = Some reason, message_id = mid, origin = FromOperator\<rparr>"
| "ingress_packet (PcmFrom samples prio src) =
     \<lparr>packet = Pcm samples, priority = prio, gate_override_reason = None, message_id = None, origin = src\<rparr>"
| "ingress_packet (ImageFrom img mime caption prio src) =
     \<lparr>packet = Image img mime caption, priority = prio, gate_override_reason = None, message_id = None, origin = src\<rparr>"

definition admitted :: "HumanGuidance \<Rightarrow> PrioritizedPacket \<Rightarrow> bool" where
  "admitted g x \<longleftrightarrow> content_ok g (packet x) \<and> override_ok x"

lemma ingest_spec:
  "snd (ingest b i) = (if admitted (active_bounds b) (ingress_packet i) then push_back b (ingress_packet i) else b)"
  "isl (fst (ingest b i)) \<longleftrightarrow> \<not> admitted (active_bounds b) (ingress_packet i)"
proof -
  have "snd (ingest b i) = (if admitted (active_bounds b) (ingress_packet i) then push_back b (ingress_packet i) else b)
    \<and> (isl (fst (ingest b i)) \<longleftrightarrow> \<not> admitted (active_bounds b) (ingress_packet i))"
  proof (cases i)
    case (TextFrom s prio mid src)
    then show ?thesis using text_violation_None [of "active_bounds b" s]
      by (cases "text_violation (active_bounds b) s")
        (auto simp: packetize_text_from_def admitted_def override_ok_def)
  next
    case (TextForced s reason mid)
    then show ?thesis using text_violation_None [of "active_bounds b" s] trim_empty_iff [of reason]
      by (cases "text_violation (active_bounds b) s")
        (auto simp: packetize_text_forced_tagged_def admitted_def override_ok_def not_less)
  next
    case (PcmFrom samples prio src)
    then show ?thesis
      by (auto simp: packetize_pcm_from_def admitted_def override_ok_def within_def split: option.splits)
  next
    case (ImageFrom img mime caption prio src)
    then show ?thesis
      by (auto simp: packetize_image_from_def admitted_def override_ok_def within_def split: option.splits)
  qed
  then show "snd (ingest b i) = (if admitted (active_bounds b) (ingress_packet i) then push_back b (ingress_packet i) else b)"
    "isl (fst (ingest b i)) \<longleftrightarrow> \<not> admitted (active_bounds b) (ingress_packet i)" by blast+
qed

lemma ingest_queue: "queue (snd (ingest b i)) = queue b @ (if isl (fst (ingest b i)) then [] else [ingress_packet i])"
  using ingest_spec [of b i] by (auto simp: push_back_def)

section \<open>The queue\<close>

interpretation bridge_queue: fifo_buffer queue push_back next_prioritized_packet
  by unfold_locales (simp_all add: push_back_def next_prioritized_packet_def)

text \<open>C39: the checked calls enforce exactly the operator's bounds. A call succeeds if and only if its
  packet is within the active bounds and, for a forced text, its reason is not blank and at most 512
  bytes; then exactly that packet is appended. A refused call changes nothing.\<close>

theorem checked_ingest_exact:
  "(\<not> isl (fst (ingest b i)) \<longleftrightarrow> admitted (active_bounds b) (ingress_packet i))
   \<and> snd (ingest b i) = (if admitted (active_bounds b) (ingress_packet i)
        then b\<lparr>queue := queue b @ [ingress_packet i]\<rparr> else b)"
  using ingest_spec [of b i] by (auto simp: push_back_def)

text \<open>A bridge with what was accepted (and under which bounds) and what was taken.\<close>

record session =
  bridge :: SensoryBridge
  accepted :: "(HumanGuidance \<times> PrioritizedPacket) list"
  taken :: "PrioritizedPacket list"

datatype bridge_op = Ingest ingress | SetBounds HumanGuidance | TakeNext

fun bridge_step :: "session \<Rightarrow> bridge_op \<Rightarrow> session" where
  "bridge_step s (Ingest i) =
     (let (r, b) = ingest (bridge s) i in
      s\<lparr>bridge := b, accepted := accepted s @ (if isl r then [] else [(active_bounds (bridge s), ingress_packet i)])\<rparr>)"
| "bridge_step s (SetBounds g) = s\<lparr>bridge := set_active_bounds (bridge s) g\<rparr>"
| "bridge_step s TakeNext =
     (let (r, b) = next_prioritized_packet (bridge s) in
      s\<lparr>bridge := b, taken := taken s @ (case r of None \<Rightarrow> [] | Some x \<Rightarrow> [x])\<rparr>)"

definition session_inv :: "session \<Rightarrow> bool" where
  "session_inv s \<longleftrightarrow> taken s @ queue (bridge s) = map snd (accepted s)
     \<and> list_all (\<lambda>(g, x). admitted g x) (accepted s)"

interpretation session_machine: op_machine bridge_step session_inv
proof unfold_locales
  fix s x
  assume inv: "session_inv s"
  show "session_inv (bridge_step s x)"
  proof (cases x)
    case (Ingest i)
    show ?thesis using inv ingest_spec(2) [of "bridge s" i] ingest_queue [of "bridge s" i]
      by (auto simp: Ingest session_inv_def Let_def case_prod_beta)
  next
    case (SetBounds g)
    with inv show ?thesis by (simp add: session_inv_def set_active_bounds_def)
  next
    case TakeNext
    have "(case fst (next_prioritized_packet (bridge s)) of None \<Rightarrow> [] | Some x \<Rightarrow> [x]) @
        queue (snd (next_prioritized_packet (bridge s))) = queue (bridge s)"
      by (rule bridge_queue.take_conserves)
    with inv show ?thesis by (simp add: TakeNext session_inv_def Let_def case_prod_beta)
  qed
qed

text \<open>The somatic loop sees the accepted packets in order and nothing else. Over any sequence of
  checked calls, changes of the bounds and takes on a fresh bridge, the packets taken followed by
  those still queued are the accepted ones in order of acceptance, each within the bounds in force
  when it was accepted.\<close>

theorem bridge_delivers_admitted_in_order:
  fixes g :: HumanGuidance and xs :: "bridge_op list"
  defines "s \<equiv> foldl bridge_step \<lparr>bridge = bridge_new g, accepted = [], taken = []\<rparr> xs"
  shows "taken s @ queue (bridge s) = map snd (accepted s) \<and> list_all (\<lambda>(g, x). admitted g x) (accepted s)"
proof -
  have "session_inv s" unfolding s_def
    by (rule session_machine.run_inv) (simp add: session_inv_def bridge_new_def)
  then show ?thesis by (simp add: session_inv_def)
qed

text \<open>The text bounds do not reach a caption: a text the bounds block is accepted as the caption of an image.\<close>

lemma caption_not_checked:
  "let b = bridge_new ((guidance_new [])\<lparr>blocked_prefixes := [''sudo'']\<rparr>) in
     isl (fst (packetize_text_checked b ''sudo x'' PNormal))
   \<and> \<not> isl (fst (packetize_image_checked b [1] ''image/png'' (Some ''sudo x'') PNormal))"
  by (simp add: Let_def bridge_new_def guidance_new_def packetize_text_checked_def packetize_text_tagged_def
      packetize_text_from_def text_violation_def packetize_image_checked_def packetize_image_from_def)

end
