(* ===== verification/Syscall_Router.thy ===== *)
theory Syscall_Router
  imports Agent_Pcb Mlfq Senses Tool_Registry
begin

unbundle bit_operations_syntax

text \<open>
  The hosted kernel's syscall routing and its agent table
  (\<^verbatim>\<open>kernels/hosted/src/syscall_router.rs\<close>): the handler screens every syscall with the capability
  policy and routes it to the scheduler, the frame allocator, the sensory bridge or the tool registry;
  the table keeps the process control blocks. The handler's borrows are the fields of a record; the
  clock readings of a tool dispatch are an argument.
\<close>

section \<open>Kernel handler\<close>

type_synonym CapabilityPolicy = "SyscallEnum \<Rightarrow> bool"

definition allow_all :: CapabilityPolicy where
  "allow_all = (\<lambda>_. True)"

record KernelSyscallHandler =
  k_scheduler :: IterationAwareMlfq
  k_agenda :: TaskAgenda
  k_frames :: FrameAllocator
  k_senses :: SensoryBridge
  k_tools :: ToolRegistry
  k_tick :: u64
  k_policy :: CapabilityPolicy

definition kernel_with_policy ::
    "IterationAwareMlfq \<Rightarrow> TaskAgenda \<Rightarrow> FrameAllocator \<Rightarrow> SensoryBridge \<Rightarrow> ToolRegistry \<Rightarrow> CapabilityPolicy
      \<Rightarrow> KernelSyscallHandler" where
  "kernel_with_policy sch ag fr se to pol = \<lparr>k_scheduler = sch, k_agenda = ag, k_frames = fr, k_senses = se,
     k_tools = to, k_tick = 0, k_policy = pol\<rparr>"

definition kernel_new ::
    "IterationAwareMlfq \<Rightarrow> TaskAgenda \<Rightarrow> FrameAllocator \<Rightarrow> SensoryBridge \<Rightarrow> ToolRegistry \<Rightarrow> KernelSyscallHandler" where
  "kernel_new sch ag fr se to = kernel_with_policy sch ag fr se to allow_all"

type_synonym syscall_result = "SyscallError + SyscallOutcome"

definition admits :: "KernelSyscallHandler \<Rightarrow> SyscallEnum \<Rightarrow> SyscallError + unit" where
  "admits k c = (if k_policy k c then Inr () else Inl PermissionDenied)"

definition k_yield_quantum :: "KernelSyscallHandler \<Rightarrow> syscall_result \<times> KernelSyscallHandler" where
  "k_yield_quantum k =
     (case admits k Yield of
        Inl e \<Rightarrow> (Inl e, k)
      | Inr _ \<Rightarrow> (Inr Yielded, k\<lparr>k_agenda := snd (check_and_boost (k_scheduler k) (k_agenda k))\<rparr>))"

definition k_sleep_until_tick :: "KernelSyscallHandler \<Rightarrow> syscall_result \<times> KernelSyscallHandler" where
  "k_sleep_until_tick k =
     (case admits k SleepUntilTick of
        Inl e \<Rightarrow> (Inl e, k)
      | Inr _ \<Rightarrow> (Inr Slept, k\<lparr>k_tick := saturating_add (k_tick k) 1\<rparr>))"

definition k_allocate_frames :: "usize \<Rightarrow> KernelSyscallHandler \<Rightarrow> syscall_result \<times> KernelSyscallHandler" where
  "k_allocate_frames n k =
     (case admits k (AllocateFrames n) of
        Inl e \<Rightarrow> (Inl e, k)
      | Inr _ \<Rightarrow>
          (case fa_allocate (k_frames k) n of
             (Inr a, fr) \<Rightarrow> (Inr (FramesAllocated (frames a)), k\<lparr>k_frames := fr\<rparr>)
           | (Inl ZeroSizedRequest, fr) \<Rightarrow> (Inl Invalid, k\<lparr>k_frames := fr\<rparr>)
           | (Inl OutOfMemory, fr) \<Rightarrow> (Inl Unavailable, k\<lparr>k_frames := fr\<rparr>)))"

fun packet_kind :: "SensoryPacket \<Rightarrow> u64" where
  "packet_kind (PText _) = 0"
| "packet_kind (Pcm _) = 1"
| "packet_kind (Image _ _ _) = 2"

definition k_read_sensory_packet :: "KernelSyscallHandler \<Rightarrow> syscall_result \<times> KernelSyscallHandler" where
  "k_read_sensory_packet k =
     (case admits k ReadSensoryPacket of
        Inl e \<Rightarrow> (Inl e, k)
      | Inr _ \<Rightarrow>
          (case next_prioritized_packet (k_senses k) of
             (Some x, b) \<Rightarrow>
               (Inr (SyscallOutcome.SensoryPacket (push_bit 8 (of_nat (queue_len b)) OR packet_kind (packet x))),
                k\<lparr>k_senses := b\<rparr>)
           | (None, b) \<Rightarrow> (Inl Unavailable, k\<lparr>k_senses := b\<rparr>)))"

record tool_clock =
  clock_admit :: nat
  clock_record :: nat
  clock_wall :: u64

definition k_dispatch_tool :: "tool_clock \<Rightarrow> u32 \<Rightarrow> KernelSyscallHandler \<Rightarrow> syscall_result \<times> KernelSyscallHandler" where
  "k_dispatch_tool t tid k =
     (case admits k (DispatchTool tid) of
        Inl e \<Rightarrow> (Inl e, k)
      | Inr _ \<Rightarrow>
          (let ids = tool_list (k_tools k) in
           if unat tid < length ids then
             (let env = envelope_new Mcp (ids ! unat tid) [] (ucast tid);
                  (r, to) = tool_dispatch (k_tools k) env (clock_admit t) (clock_record t) (clock_wall t)
              in (case r of Inr _ \<Rightarrow> Inr (ToolDispatched (correlation_id env)) | Inl _ \<Rightarrow> Inl Unavailable,
                  k\<lparr>k_tools := to\<rparr>))
           else (Inl Invalid, k)))"

definition kernel_handler :: "tool_clock \<Rightarrow> KernelSyscallHandler SyscallHandler" where
  "kernel_handler t = \<lparr>yield_quantum = k_yield_quantum, sleep_until_tick = k_sleep_until_tick,
     allocate_frames = k_allocate_frames, read_sensory_packet = k_read_sensory_packet,
     dispatch_tool = k_dispatch_tool t\<rparr>"

text \<open>\<^verbatim>\<open>KernelSyscallHandler::dispatch\<close>.\<close>

definition kernel_dispatch :: "tool_clock \<Rightarrow> SyscallEnum \<Rightarrow> KernelSyscallHandler \<Rightarrow> syscall_result \<times> KernelSyscallHandler" where
  "kernel_dispatch t c k = dispatch c (kernel_handler t) k"

section \<open>Agent table\<close>

text \<open>A \<^verbatim>\<open>BTreeMap\<close> of which only lookups and inserts are used.\<close>

type_synonym AgentTable = "(AgentPid \<times> AgentPcb) list"

datatype AgentTableError = UnknownAgent AgentPid | Transition TransitionError

type_synonym table_result = "AgentTableError + AgentState"

definition table_new :: AgentTable where
  "table_new = []"

definition table_state :: "AgentTable \<Rightarrow> AgentPid \<Rightarrow> AgentState option" where
  "table_state t a = map_option Agent_Pcb.state (hm_get t a)"

definition table_admit :: "AgentTable \<Rightarrow> AgentPid \<Rightarrow> u8 \<Rightarrow> u32 \<Rightarrow> table_result \<times> AgentTable" where
  "table_admit t a prio credits =
     (case mark_ready (pcb_new a prio credits) of
        (Inl e, _) \<Rightarrow> (Inl (Transition e), t)
      | (Inr _, pcb) \<Rightarrow> (Inr (Agent_Pcb.state pcb), hm_insert a pcb t))"

definition with_pcb ::
    "AgentTable \<Rightarrow> AgentPid \<Rightarrow> (AgentPcb \<Rightarrow> (TransitionError + AgentState) \<times> AgentPcb) \<Rightarrow> table_result \<times> AgentTable" where
  "with_pcb t a f =
     (case hm_get t a of
        None \<Rightarrow> (Inl (UnknownAgent a), t)
      | Some pcb \<Rightarrow>
          (case f pcb of
             (Inl e, pcb') \<Rightarrow> (Inl (Transition e), hm_insert a pcb' t)
           | (Inr _, pcb') \<Rightarrow> (Inr (Agent_Pcb.state pcb'), hm_insert a pcb' t)))"

definition table_run :: "AgentTable \<Rightarrow> AgentPid \<Rightarrow> table_result \<times> AgentTable" where
  "table_run t a = with_pcb t a mark_running"

definition table_block :: "AgentTable \<Rightarrow> AgentPid \<Rightarrow> table_result \<times> AgentTable" where
  "table_block t a = with_pcb t a mark_blocked"

definition table_unblock :: "AgentTable \<Rightarrow> AgentPid \<Rightarrow> table_result \<times> AgentTable" where
  "table_unblock t a = with_pcb t a mark_unblocked"

definition table_preempt :: "AgentTable \<Rightarrow> AgentPid \<Rightarrow> table_result \<times> AgentTable" where
  "table_preempt t a = with_pcb t a mark_preempted"

definition table_terminate :: "AgentTable \<Rightarrow> AgentPid \<Rightarrow> table_result \<times> AgentTable" where
  "table_terminate t a = with_pcb t a terminate"

section \<open>Screening\<close>

lemmas kernel_op_defs = kernel_handler_def k_yield_quantum_def k_sleep_until_tick_def k_allocate_frames_def
  k_read_sensory_packet_def k_dispatch_tool_def admits_def

interpretation kernel_screen: screened_handler kernel_handler k_policy
proof unfold_locales
  fix h c t
  show "\<not> k_policy h c \<Longrightarrow> dispatch c (kernel_handler t) h = (Inl PermissionDenied, h)"
    by (cases c) (simp_all add: kernel_op_defs)
  show "k_policy (snd (dispatch c (kernel_handler t) h)) = k_policy h"
    by (cases c) (auto simp: kernel_op_defs Let_def split: prod.split sum.split option.split FrameAllocatorError.split)
qed

fun kernel_step :: "KernelSyscallHandler \<Rightarrow> tool_clock \<times> SyscallEnum \<Rightarrow> KernelSyscallHandler" where
  "kernel_step k (t, c) = snd (kernel_dispatch t c k)"

lemma kernel_step_seam: "kernel_step = (\<lambda>h (t, c). snd (dispatch c (kernel_handler t) h))"
  by (auto simp: fun_eq_iff kernel_dispatch_def)

text \<open>A syscall the capability policy does not admit is inert. It returns \<^verbatim>\<open>PermissionDenied\<close> with
  every subsystem unchanged, and a batch of syscalls leaves the kernel exactly as the batch with the
  denied calls removed.\<close>

theorem denied_syscalls_inert:
  "foldl kernel_step k cs = foldl kernel_step k (filter (\<lambda>(t, c). k_policy k c) cs)
   \<and> (k_policy k c \<or> kernel_dispatch t c k = (Inl PermissionDenied, k))"
  unfolding kernel_step_seam kernel_dispatch_def
  using kernel_screen.run_filtered kernel_screen.denied by blast

section \<open>Effects\<close>

text \<open>What holds between the kernel's subsystems before and after a batch.\<close>

definition kernel_ok :: "KernelSyscallHandler \<Rightarrow> bool" where
  "kernel_ok k \<longleftrightarrow> fa_inv (k_frames k) \<and> registry_inv (k_tools k) \<and> agenda_inv (k_agenda k)"

definition kernel_after :: "KernelSyscallHandler \<Rightarrow> KernelSyscallHandler \<Rightarrow> bool" where
  "kernel_after k0 k \<longleftrightarrow> kernel_ok k \<and> k_policy k = k_policy k0 \<and> k_scheduler k = k_scheduler k0
     \<and> mset (map task_id (agenda_view (k_agenda k))) = mset (map task_id (agenda_view (k_agenda k0)))
     \<and> fa_capacity (k_frames k) = fa_capacity (k_frames k0) \<and> fa_allocated (k_frames k0) \<le> fa_allocated (k_frames k)
     \<and> suffix (queue (k_senses k)) (queue (k_senses k0)) \<and> active_bounds (k_senses k) = active_bounds (k_senses k0)
     \<and> map_option driver \<circ> hm_get (k_tools k) = map_option driver \<circ> hm_get (k_tools k0)
     \<and> k_tick k0 \<le> k_tick k"

lemma boost_task_ids:
  assumes "agenda_inv a"
  shows "agenda_inv (snd (check_and_boost m a))"
    and "mset (map task_id (agenda_view (snd (check_and_boost m a)))) = mset (map task_id (agenda_view a))"
proof -
  from assms obtain q0 q1 q2 where q: "tiers a = [q0, q1, q2]" by (rule agenda_invE)
  have "image_mset task_id (image_mset promote M) = image_mset task_id M" for M
    by (induction M) (simp_all add: promote_def)
  then show "mset (map task_id (agenda_view (snd (check_and_boost m a)))) = mset (map task_id (agenda_view a))"
    by (simp add: check_and_boost_def boost_eq [OF q] agenda_view_def q)
  show "agenda_inv (snd (check_and_boost m a))"
    using assms by (simp add: check_and_boost_def boost_inv)
qed

lemma drivers_dispatch:
  "map_option driver \<circ> hm_get (snd (tool_dispatch reg env t0 t1 ms)) = map_option driver \<circ> hm_get reg"
proof (cases "hm_get reg (tool_id env)")
  case None
  then show ?thesis by (simp add: tool_dispatch_def tool_admit_def)
next
  case (Some e)
  with dispatch_registered(2) [OF Some] show ?thesis by (auto simp: fun_eq_iff)
qed

lemma fa_step_frame: "fa_capacity (snd (fa_allocate a n)) = fa_capacity a"
  by (simp add: fa_allocate_cases)

lemma kernel_after_refl: "kernel_ok k \<Longrightarrow> kernel_after k k"
  by (simp add: kernel_after_def)

lemma kernel_after_trans: "kernel_after a b \<Longrightarrow> kernel_after b c \<Longrightarrow> kernel_after a c"
  by (auto simp: kernel_after_def intro: suffix_order.trans order_trans)

lemma after_yield: "kernel_ok k \<Longrightarrow> kernel_after k (snd (k_yield_quantum k))"
  using boost_task_ids [of "k_agenda k" "k_scheduler k"]
  by (simp add: k_yield_quantum_def admits_def kernel_after_def kernel_ok_def)

lemma after_sleep: "kernel_ok k \<Longrightarrow> kernel_after k (snd (k_sleep_until_tick k))"
  using saturating_add_ge [of "k_tick k" 1]
  by (simp add: k_sleep_until_tick_def admits_def kernel_after_def kernel_ok_def uint_order)

lemma after_allocate: "kernel_ok k \<Longrightarrow> kernel_after k (snd (k_allocate_frames n k))"
proof -
  assume ok: "kernel_ok k"
  then have "fa_inv (k_frames k)" by (simp add: kernel_ok_def)
  note fa = fa_machine.step_inv [OF this, of n] fa_machine.step_mono [OF this, of n] fa_step_frame [of "k_frames k" n]
  have "snd (k_allocate_frames n k) = k \<or> snd (k_allocate_frames n k) = k\<lparr>k_frames := fa_step (k_frames k) n\<rparr>"
    by (auto simp: k_allocate_frames_def admits_def fa_step_def split: prod.split sum.split FrameAllocatorError.split)
  with ok fa show ?thesis
    by (auto simp: kernel_after_def kernel_ok_def fa_step_def uint_order)
qed

lemma after_read: "kernel_ok k \<Longrightarrow> kernel_after k (snd (k_read_sensory_packet k))"
  by (auto simp: k_read_sensory_packet_def admits_def kernel_after_def kernel_ok_def next_prioritized_packet_def
      suffix_def split: prod.split option.split list.split)

lemma after_dispatch: "kernel_ok k \<Longrightarrow> kernel_after k (snd (k_dispatch_tool t tid k))"
proof -
  assume ok: "kernel_ok k"
  have "snd (k_dispatch_tool t tid k) = k \<or> (\<exists>env t0 t1 ms. snd (k_dispatch_tool t tid k) =
      k\<lparr>k_tools := snd (tool_dispatch (k_tools k) env t0 t1 ms)\<rparr>)"
    by (simp add: k_dispatch_tool_def admits_def Let_def case_prod_beta) blast
  with ok show ?thesis
    by (auto simp: kernel_after_def kernel_ok_def registry_inv_dispatch drivers_dispatch)
qed

lemma after_step: "kernel_ok k \<Longrightarrow> kernel_after k (kernel_step k x)"
proof -
  assume ok: "kernel_ok k"
  obtain t c where x: "x = (t, c)" by (cases x)
  from ok show ?thesis
    by (cases c) (simp_all add: x kernel_dispatch_def kernel_handler_def after_yield after_sleep after_allocate
        after_read after_dispatch)
qed

lemma after_run: "kernel_ok k \<Longrightarrow> kernel_after k (foldl kernel_step k xs)"
proof (induction xs arbitrary: k)
  case Nil
  then show ?case by (simp add: kernel_after_refl)
next
  case (Cons x xs)
  have s: "kernel_after k (kernel_step k x)" by (rule after_step [OF Cons.prems])
  then have "kernel_ok (kernel_step k x)" by (simp add: kernel_after_def)
  from kernel_after_trans [OF s Cons.IH [OF this]] show ?case by simp
qed

text \<open>C3: a batch of syscalls keeps every subsystem sound. From a kernel whose subsystems satisfy their
  invariants, any batch ends in one that does; tasks are neither lost nor duplicated by yields, frames
  are only handed out, packets only taken from the front of the queue, tools never replaced, the tick
  never goes back, and the policy and the sensory bounds stay as they were.\<close>

theorem syscall_batch_sound:
  assumes "fa_inv (k_frames k)" and "registry_inv (k_tools k)" and "agenda_inv (k_agenda k)"
    and "k' = foldl kernel_step k xs"
  shows "fa_inv (k_frames k') \<and> registry_inv (k_tools k') \<and> agenda_inv (k_agenda k')
    \<and> mset (map task_id (agenda_view (k_agenda k'))) = mset (map task_id (agenda_view (k_agenda k)))
    \<and> fa_capacity (k_frames k') = fa_capacity (k_frames k) \<and> fa_allocated (k_frames k) \<le> fa_allocated (k_frames k')
    \<and> suffix (queue (k_senses k')) (queue (k_senses k)) \<and> active_bounds (k_senses k') = active_bounds (k_senses k)
    \<and> (\<forall>tid. map_option driver (hm_get (k_tools k') tid) = map_option driver (hm_get (k_tools k) tid))
    \<and> k_tick k \<le> k_tick k' \<and> k_policy k' = k_policy k"
proof -
  have "kernel_after k k'" unfolding assms(4)
    by (rule after_run) (simp add: kernel_ok_def assms)
  then show ?thesis by (simp add: kernel_after_def kernel_ok_def fun_eq_iff)
qed

lemma registry_inv_new: "registry_inv registry_new"
  by (simp add: registry_new_def registry_inv_register registry_inv_empty)

lemma syscall_batch_sound_witness:
  "let k = kernel_new mlfq_default agenda_new (fa_new 16) (bridge_new (guidance_new [])) registry_new;
       t = \<lparr>clock_admit = 0, clock_record = 0, clock_wall = 0\<rparr>
   in fa_inv (k_frames (foldl kernel_step k [(t, AllocateFrames 4), (t, DispatchTool 1)]))"
proof -
  let ?k = "kernel_new mlfq_default agenda_new (fa_new 16) (bridge_new (guidance_new [])) registry_new"
  have "fa_inv (k_frames ?k)" "registry_inv (k_tools ?k)" "agenda_inv (k_agenda ?k)"
    by (simp_all add: kernel_new_def kernel_with_policy_def fa_inv_def fa_new_def registry_inv_new agenda_new_inv)
  note r = syscall_batch_sound [OF this refl, THEN conjunct1]
  show ?thesis unfolding Let_def by (rule r)
qed

lemma handle_low: "kind \<in> {0, 1, 2 :: u64} \<Longrightarrow> (push_bit 8 n OR kind) AND 255 = kind"
proof -
  assume k: "kind \<in> {0, 1, 2 :: u64}"
  have m: "(255 :: u64) = mask 8" by (simp add: mask_eq_exp_minus_1)
  show ?thesis unfolding m using k by (intro bit_word_eqI) (auto simp: bit_simps)
qed

lemma handle_high:
  assumes k: "kind \<in> {0, 1, 2 :: u64}" and m: "m < 2 ^ 56"
  shows "unat (drop_bit 8 (push_bit 8 (of_nat m) OR kind)) = m"
proof -
  have n: "unat (of_nat m :: u64) = m" using m by (simp add: unsigned_of_nat take_bit_nat_eq_self)
  have d: "drop_bit 8 kind = 0" using k by auto
  have "unat (push_bit 8 (of_nat m) :: u64) = 256 * m"
    using m n by (simp add: push_bit_eq_mult unat_word_ariths)
  then have "unat (drop_bit 8 (push_bit 8 (of_nat m) :: u64)) = m"
    by (simp add: drop_bit_eq_div unat_div)
  then show ?thesis by (simp add: d)
qed

text \<open>The handle of a sensory read decodes. An admitted read of a non-empty queue takes the first
  packet, and the handle's low byte is the packet's kind and its upper bits the number of packets left
  (below 2 to the 56 packets).\<close>

theorem sensory_handle_decodes:
  assumes "k_policy k ReadSensoryPacket" and "queue (k_senses k) = x # xs" and "length xs < 2 ^ 56"
  shows "\<exists>h. kernel_dispatch t ReadSensoryPacket k =
        (Inr (SyscallOutcome.SensoryPacket h), k\<lparr>k_senses := (k_senses k)\<lparr>queue := xs\<rparr>\<rparr>)
      \<and> h AND 255 = packet_kind (packet x) \<and> unat (drop_bit 8 h) = length xs"
proof -
  have k: "packet_kind (packet x) \<in> {0, 1, 2}" by (cases "packet x") simp_all
  show ?thesis using assms(1,2) handle_low [OF k] handle_high [OF k assms(3)]
    by (simp add: kernel_dispatch_def kernel_handler_def k_read_sensory_packet_def admits_def
        next_prioritized_packet_def queue_len_def)
qed

lemma sensory_handle_decodes_witness:
  "let b = packetize_pcm (packetize_text (bridge_new (guidance_new [])) ''hi'') [1];
       k = kernel_new mlfq_default agenda_new (fa_new 16) b registry_new
   in \<exists>h. fst (kernel_dispatch \<lparr>clock_admit = 0, clock_record = 0, clock_wall = 0\<rparr> ReadSensoryPacket k) =
        Inr (SyscallOutcome.SensoryPacket h) \<and> h AND 255 = 0 \<and> unat (drop_bit 8 h) = 1"
proof -
  let ?b = "packetize_pcm (packetize_text (bridge_new (guidance_new [])) ''hi'') [1]"
  let ?k = "kernel_new mlfq_default agenda_new (fa_new 16) ?b registry_new"
  have pol: "k_policy ?k ReadSensoryPacket" by (simp add: kernel_new_def kernel_with_policy_def allow_all_def)
  obtain x y where q: "queue (k_senses ?k) = [x, y]" "packet_kind (packet x) = 0"
    by (simp add: kernel_new_def kernel_with_policy_def packetize_pcm_def packetize_text_def push_back_def bridge_new_def)
  from sensory_handle_decodes [OF pol q(1)] q(2) show ?thesis
    unfolding Let_def by (metis (no_types, lifting) One_nat_def fst_conv length_Cons list.size(3) numeral_One
        one_less_numeral_iff one_less_power semiring_norm(76) zero_less_numeral)
qed

text \<open>The handle is all that is left of the packet: reading two queues whose first packets differ only in
  content gives the same result and the same kernel, so the content cannot be resolved from the handle.\<close>

lemma sensory_content_lost:
  assumes "queue (k_senses k) = x # xs" "packet_kind (packet x) = packet_kind (packet y)"
  shows "kernel_dispatch t ReadSensoryPacket (k\<lparr>k_senses := (k_senses k)\<lparr>queue := y # xs\<rparr>\<rparr>) =
    (if k_policy k ReadSensoryPacket then kernel_dispatch t ReadSensoryPacket k
     else (Inl PermissionDenied, k\<lparr>k_senses := (k_senses k)\<lparr>queue := y # xs\<rparr>\<rparr>))"
  using assms by (simp add: kernel_dispatch_def kernel_handler_def k_read_sensory_packet_def admits_def
      next_prioritized_packet_def queue_len_def)

section \<open>Agent life cycles\<close>

datatype table_op =
    AdmitAgent AgentPid u8 u32
  | RunAgent AgentPid
  | BlockAgent AgentPid
  | UnblockAgent AgentPid
  | PreemptAgent AgentPid
  | TerminateAgent AgentPid

fun table_step :: "AgentTable \<Rightarrow> table_op \<Rightarrow> AgentTable" where
  "table_step t (AdmitAgent a prio cr) = snd (table_admit t a prio cr)"
| "table_step t (RunAgent a) = snd (table_run t a)"
| "table_step t (BlockAgent a) = snd (table_block t a)"
| "table_step t (UnblockAgent a) = snd (table_unblock t a)"
| "table_step t (PreemptAgent a) = snd (table_preempt t a)"
| "table_step t (TerminateAgent a) = snd (table_terminate t a)"

fun readmits :: "AgentPid \<Rightarrow> table_op \<Rightarrow> bool" where
  "readmits a (AdmitAgent b _ _) \<longleftrightarrow> b = a"
| "readmits a _ \<longleftrightarrow> False"

lemma with_pcb_transition:
  "hm_get (snd (with_pcb t a (\<lambda>b. transition b s))) b =
     (if b = a then map_option (\<lambda>p. snd (transition p s)) (hm_get t a) else hm_get t b)"
  by (auto simp: with_pcb_def store_simps split: option.split prod.split sum.split)

lemma mark_eta: "mark_running = (\<lambda>b. transition b Running)" "mark_blocked = (\<lambda>b. transition b Blocked)"
  "mark_unblocked = (\<lambda>b. transition b Ready)" "mark_preempted = (\<lambda>b. transition b Ready)"
  "terminate = (\<lambda>b. transition b Terminated)"
  by (simp_all add: fun_eq_iff pcb_op_defs)

lemmas table_ops = table_run_def table_block_def table_unblock_def table_preempt_def table_terminate_def

lemma table_step_state:
  assumes "\<not> readmits a x"
  shows "rel_option can_transition_to\<^sup>=\<^sup>= (table_state t a) (table_state (table_step t x) a)"
proof (cases x)
  case (AdmitAgent b prio cr)
  with assms have "table_state (table_step t x) a = table_state t a"
    by (auto simp: table_admit_def table_state_def store_simps mark_ready_def transition_def pcb_new_def)
  then show ?thesis by (simp add: option.rel_refl)
qed (auto simp: table_ops mark_eta with_pcb_transition table_state_def option.rel_map transition_state
    intro!: option.rel_refl)

lemma table_run_state:
  "list_all (\<lambda>x. \<not> readmits a x) xs \<Longrightarrow>
   rel_option can_transition_to\<^sup>*\<^sup>* (table_state t a) (table_state (foldl table_step t xs) a)"
proof (induction xs arbitrary: t)
  case Nil
  then show ?case by (simp add: option.rel_refl)
next
  case (Cons x xs)
  then have "rel_option can_transition_to\<^sup>=\<^sup>= (table_state t a) (table_state (table_step t x) a)"
    by (simp add: table_step_state)
  moreover have "rel_option can_transition_to\<^sup>*\<^sup>* (table_state (table_step t x) a)
      (table_state (foldl table_step (table_step t x) xs) a)" using Cons by simp
  ultimately show ?case
    by (auto simp: option.rel_sel split: option.splits)
qed

text \<open>The agent table respects the life cycle. Whatever is done to the table, as long as an agent is
  not admitted anew, an unknown agent stays unknown, a known one moves only along legal life-cycle
  edges, and a terminated one stays terminated.\<close>

theorem agent_table_life_cycle:
  assumes "list_all (\<lambda>x. \<not> readmits a x) xs"
  shows "case table_state t a of
      None \<Rightarrow> table_state (foldl table_step t xs) a = None
    | Some s \<Rightarrow> \<exists>s'. table_state (foldl table_step t xs) a = Some s' \<and> can_transition_to\<^sup>*\<^sup>* s s'
        \<and> (s = Terminated \<longrightarrow> s' = Terminated)"
  using table_run_state [OF assms, of t] pcb_life.terminal_absorbing
  by (auto simp: option.rel_sel split: option.split)

lemma agent_table_life_cycle_witness:
  "let t = snd (table_terminate (snd (table_admit table_new 7 0 10)) 7) in
     table_state (foldl table_step t [RunAgent 7, AdmitAgent 8 0 0]) 7 = Some Terminated"
proof -
  let ?t = "snd (table_terminate (snd (table_admit table_new 7 0 10)) 7)"
  have "table_state ?t 7 = Some Terminated"
    by (simp add: table_admit_def table_new_def table_terminate_def with_pcb_def pcb_op_defs transition_def pcb_new_def
        table_state_def)
  with agent_table_life_cycle [of 7 "[RunAgent 7, AdmitAgent 8 0 0]" ?t] show ?thesis
    by (simp add: Let_def del: foldl_Cons)
qed

text \<open>Preempting is documented as Running to Ready; a blocked agent is also made ready by it, without its
  wait having resolved.\<close>

lemma preempt_wakes_blocked:
  "let t = snd (table_block (snd (table_run (snd (table_admit table_new 7 0 10)) 7)) 7) in
     table_state t 7 = Some Blocked \<and> fst (table_preempt t 7) = Inr Ready"
  by (simp add: table_admit_def table_new_def table_ops with_pcb_def pcb_op_defs transition_def pcb_new_def
      table_state_def Let_def)

end
