(* ===== verification/Workspace.thy ===== *)
theory Workspace
  imports Ascii_Text
begin

text \<open>
  Workspaces (\<^verbatim>\<open>crates/workspace/src\<close>): membership roles (\<^verbatim>\<open>membership.rs\<close>), profiles and identifier
  slugs (\<^verbatim>\<open>workspace.rs\<close>), quotas (\<^verbatim>\<open>quota.rs\<close>) and the registry with its authorisation rules
  (\<^verbatim>\<open>registry.rs\<close>). Member counts are naturals: a vector's length never reaches the maximum at which
  the source's saturating addition would differ. The JSON persistence is left out.
\<close>

section \<open>Roles and membership\<close>

datatype WorkspaceRole = Guest | Member | Admin | Owner

primrec role_rank :: "WorkspaceRole \<Rightarrow> nat" where
  "role_rank Guest = 0"
| "role_rank Member = 1"
| "role_rank Admin = 2"
| "role_rank Owner = 3"

instantiation WorkspaceRole :: linorder
begin

definition less_eq_WorkspaceRole :: "WorkspaceRole \<Rightarrow> WorkspaceRole \<Rightarrow> bool" where
  "less_eq_WorkspaceRole a b \<longleftrightarrow> role_rank a \<le> role_rank b"

definition less_WorkspaceRole :: "WorkspaceRole \<Rightarrow> WorkspaceRole \<Rightarrow> bool" where
  "less_WorkspaceRole a b \<longleftrightarrow> role_rank a < role_rank b"

instance
proof
  fix a b :: WorkspaceRole
  assume "a \<le> b" "b \<le> a"
  then show "a = b" by (cases a; cases b) (simp_all add: less_eq_WorkspaceRole_def)
qed (auto simp: less_eq_WorkspaceRole_def less_WorkspaceRole_def)

end

definition at_least :: "WorkspaceRole \<Rightarrow> WorkspaceRole \<Rightarrow> bool" where
  "at_least r minimum \<longleftrightarrow> r \<ge> minimum"

definition can_manage :: "WorkspaceRole \<Rightarrow> bool" where
  "can_manage r \<longleftrightarrow> r \<ge> Admin"

record WorkspaceMembership =
  m_workspace_id :: string
  m_user_id :: string
  m_role :: WorkspaceRole
  joined_at_ns :: u64

definition membership_new :: "string \<Rightarrow> string \<Rightarrow> WorkspaceRole \<Rightarrow> u64 \<Rightarrow> WorkspaceMembership" where
  "membership_new w u r now = \<lparr>m_workspace_id = w, m_user_id = u, m_role = r, joined_at_ns = now\<rparr>"

section \<open>Profiles\<close>

datatype WorkspaceStatus = WActive | WSuspended | WDeleted

record WorkspaceProfile =
  ws_id :: string
  display_name :: string
  owner_user_id :: string
  ws_description :: "string option"
  ws_status :: WorkspaceStatus
  ws_created_at_ns :: u64
  ws_updated_at_ns :: u64
  schema_version :: u32

definition profile_new :: "string \<Rightarrow> string \<Rightarrow> string \<Rightarrow> u64 \<Rightarrow> WorkspaceProfile" where
  "profile_new w name owner now = \<lparr>ws_id = w, display_name = name, owner_user_id = owner, ws_description = None,
     ws_status = WActive, ws_created_at_ns = now, ws_updated_at_ns = now, schema_version = 1\<rparr>"

definition set_description :: "WorkspaceProfile \<Rightarrow> string \<Rightarrow> u64 \<Rightarrow> WorkspaceProfile" where
  "set_description pr desc now = pr\<lparr>ws_description := Some desc, ws_updated_at_ns := now\<rparr>"

definition suspend :: "WorkspaceProfile \<Rightarrow> u64 \<Rightarrow> bool \<times> WorkspaceProfile" where
  "suspend pr now = (if ws_status pr = WActive
     then (True, pr\<lparr>ws_status := WSuspended, ws_updated_at_ns := now\<rparr>) else (False, pr))"

definition reactivate :: "WorkspaceProfile \<Rightarrow> u64 \<Rightarrow> bool \<times> WorkspaceProfile" where
  "reactivate pr now = (if ws_status pr = WSuspended
     then (True, pr\<lparr>ws_status := WActive, ws_updated_at_ns := now\<rparr>) else (False, pr))"

definition ws_delete :: "WorkspaceProfile \<Rightarrow> u64 \<Rightarrow> bool \<times> WorkspaceProfile" where
  "ws_delete pr now = (if ws_status pr \<noteq> WDeleted
     then (True, pr\<lparr>ws_status := WDeleted, ws_updated_at_ns := now\<rparr>) else (False, pr))"

text \<open>The loop of \<^verbatim>\<open>collapse_hyphens\<close> over its output so far (reversed) and the last-hyphen flag, then
  the trailing trim.\<close>

abbreviation hyphen :: char where "hyphen \<equiv> CHR ''-''"

fun collapse_loop :: "string \<Rightarrow> bool \<Rightarrow> string \<Rightarrow> string" where
  "collapse_loop out last_hyphen [] = out"
| "collapse_loop out last_hyphen (c # cs) =
     (if c = hyphen then
        collapse_loop (if \<not> last_hyphen \<and> out \<noteq> [] then hyphen # out else out) True cs
      else collapse_loop (c # out) False cs)"

definition collapse_hyphens :: "string \<Rightarrow> string" where
  "collapse_hyphens s =
     (let out = collapse_loop [] False s in
      case out of c # rest \<Rightarrow> if c = hyphen then rev rest else rev out | [] \<Rightarrow> [])"

definition is_ascii_alnum :: "char \<Rightarrow> bool" where
  "is_ascii_alnum c \<longleftrightarrow> (let n = of_char c :: nat in
     48 \<le> n \<and> n \<le> 57 \<or> 65 \<le> n \<and> n \<le> 90 \<or> 97 \<le> n \<and> n \<le> 122)"

text \<open>The character map of \<^verbatim>\<open>make_id\<close>; a stripped character is \<^term>\<open>None\<close> (the source maps it to NUL
  and filters that out).\<close>

definition slug_char :: "char \<Rightarrow> char option" where
  "slug_char c =
     (if is_ascii_alnum c then Some (to_lower c)
      else if c = CHR '' '' \<or> c = CHR ''_'' \<or> c = hyphen then Some hyphen else None)"

definition make_id :: "string \<Rightarrow> string + string" where
  "make_id raw =
     (let slug = collapse_hyphens (List.map_filter slug_char raw) in
      if slug = [] then Inl raw else Inr slug)"

section \<open>Quotas\<close>

datatype QuotaViolation = MemberLimit | DailyTokenQuota | StorageLimit | ActiveTaskLimit

record WorkspaceQuota =
  max_members :: nat
  max_daily_tokens :: u64
  max_storage_bytes :: u64
  max_active_tasks :: nat

definition quota_default :: WorkspaceQuota where
  "quota_default = \<lparr>max_members = 25, max_daily_tokens = 5000000, max_storage_bytes = 1073741824,
     max_active_tasks = 200\<rparr>"

record QuotaUsage =
  current_members :: nat
  daily_tokens_used_q :: u64
  storage_bytes_used :: u64
  active_tasks :: nat

definition usage_default :: QuotaUsage where
  "usage_default = \<lparr>current_members = 0, daily_tokens_used_q = 0, storage_bytes_used = 0, active_tasks = 0\<rparr>"

definition quota_check :: "QuotaUsage \<Rightarrow> WorkspaceQuota \<Rightarrow> QuotaViolation option" where
  "quota_check u q =
     (if current_members u > max_members q then Some MemberLimit
      else if daily_tokens_used_q u > max_daily_tokens q then Some DailyTokenQuota
      else if storage_bytes_used u > max_storage_bytes q then Some StorageLimit
      else if active_tasks u > max_active_tasks q then Some ActiveTaskLimit
      else None)"

definition can_add_members :: "QuotaUsage \<Rightarrow> nat \<Rightarrow> WorkspaceQuota \<Rightarrow> bool" where
  "can_add_members u additional q \<longleftrightarrow> current_members u + additional \<le> max_members q"

section \<open>Registry\<close>

record WorkspaceRecord =
  profile :: WorkspaceProfile
  quota :: WorkspaceQuota
  members :: "WorkspaceMembership list"

definition record_new :: "WorkspaceProfile \<Rightarrow> u64 \<Rightarrow> WorkspaceRecord" where
  "record_new pr now = \<lparr>profile = pr, quota = quota_default,
     members = [membership_new (ws_id pr) (owner_user_id pr) Owner now]\<rparr>"

definition role_in :: "WorkspaceRecord \<Rightarrow> string \<Rightarrow> WorkspaceRole option" where
  "role_in rec u = map_option m_role (find (\<lambda>m. m_user_id m = u) (members rec))"

definition membership_usage :: "WorkspaceRecord \<Rightarrow> QuotaUsage" where
  "membership_usage rec = usage_default\<lparr>current_members := length (members rec)\<rparr>"

datatype WorkspaceError =
    WsAlreadyExists string
  | WsNotFound string
  | MemberAlreadyExists string string
  | MemberNotFound string string
  | InsufficientRole WorkspaceRole WorkspaceRole
  | QuotaExceeded string QuotaViolation
  | CannotRemoveOwner string string
  | DuplicateOwner string

type_synonym WorkspaceRegistry = "(string \<times> WorkspaceRecord) list"

type_synonym 'a ws_result = "WorkspaceError + 'a"

definition role_or_guest :: "WorkspaceRecord \<Rightarrow> string \<Rightarrow> WorkspaceRole" where
  "role_or_guest rec actor = (case role_in rec actor of Some r \<Rightarrow> r | None \<Rightarrow> Guest)"

definition authorize_manage :: "WorkspaceRecord \<Rightarrow> string \<Rightarrow> unit ws_result" where
  "authorize_manage rec actor =
     (let role = role_or_guest rec actor in
      if can_manage role then Inr () else Inl (InsufficientRole Admin role))"

definition ws_create :: "WorkspaceRegistry \<Rightarrow> WorkspaceProfile \<Rightarrow> u64 \<Rightarrow> unit ws_result \<times> WorkspaceRegistry" where
  "ws_create reg pr now =
     (if hm_contains reg (ws_id pr) then (Inl (WsAlreadyExists (ws_id pr)), reg)
      else (Inr (), hm_insert (ws_id pr) (record_new pr now) reg))"

definition set_quota :: "WorkspaceRegistry \<Rightarrow> string \<Rightarrow> string \<Rightarrow> WorkspaceQuota \<Rightarrow> unit ws_result \<times> WorkspaceRegistry" where
  "set_quota reg actor w q =
     (case hm_get reg w of
        None \<Rightarrow> (Inl (WsNotFound w), reg)
      | Some rec \<Rightarrow>
          (case authorize_manage rec actor of
             Inl e \<Rightarrow> (Inl e, reg)
           | Inr _ \<Rightarrow> (Inr (), hm_insert w (rec\<lparr>quota := q\<rparr>) reg)))"

definition add_member ::
    "WorkspaceRegistry \<Rightarrow> string \<Rightarrow> string \<Rightarrow> string \<Rightarrow> WorkspaceRole \<Rightarrow> u64 \<Rightarrow> unit ws_result \<times> WorkspaceRegistry" where
  "add_member reg actor w u role now =
     (if role = Owner then (Inl (DuplicateOwner w), reg)
      else (case hm_get reg w of
          None \<Rightarrow> (Inl (WsNotFound w), reg)
        | Some rec \<Rightarrow>
            (case authorize_manage rec actor of
               Inl e \<Rightarrow> (Inl e, reg)
             | Inr _ \<Rightarrow>
                 (let actor_role = role_or_guest rec actor in
                  if role \<ge> actor_role then (Inl (InsufficientRole Owner actor_role), reg)
                  else if list_ex (\<lambda>m. m_user_id m = u) (members rec) then (Inl (MemberAlreadyExists w u), reg)
                  else if \<not> can_add_members (membership_usage rec) 1 (quota rec)
                  then (Inl (QuotaExceeded w MemberLimit), reg)
                  else (Inr (), hm_insert w
                          (rec\<lparr>members := members rec @ [membership_new w u role now]\<rparr>) reg)))))"

text \<open>\<^verbatim>\<open>position\<close> and \<^verbatim>\<open>remove\<close>: the first member with the user id, and the list without it.\<close>

fun take_member :: "string \<Rightarrow> WorkspaceMembership list \<Rightarrow> (WorkspaceMembership \<times> WorkspaceMembership list) option" where
  "take_member u [] = None"
| "take_member u (m # ms) =
     (if m_user_id m = u then Some (m, ms) else map_option (\<lambda>(x, rest). (x, m # rest)) (take_member u ms))"

definition remove_member ::
    "WorkspaceRegistry \<Rightarrow> string \<Rightarrow> string \<Rightarrow> string \<Rightarrow> WorkspaceRole ws_result \<times> WorkspaceRegistry" where
  "remove_member reg actor w u =
     (case hm_get reg w of
        None \<Rightarrow> (Inl (WsNotFound w), reg)
      | Some rec \<Rightarrow>
          (case (if actor \<noteq> u then authorize_manage rec actor else Inr ()) of
             Inl e \<Rightarrow> (Inl e, reg)
           | Inr _ \<Rightarrow>
               (case take_member u (members rec) of
                  None \<Rightarrow> (Inl (MemberNotFound w u), reg)
                | Some (m, rest) \<Rightarrow>
                    if m_role m = Owner then (Inl (CannotRemoveOwner w u), reg)
                    else if actor \<noteq> u \<and> m_role m \<ge> role_or_guest rec actor
                    then (Inl (InsufficientRole Owner (role_or_guest rec actor)), reg)
                    else (Inr (m_role m), hm_insert w (rec\<lparr>members := rest\<rparr>) reg))))"

definition member_role :: "WorkspaceRegistry \<Rightarrow> string \<Rightarrow> string \<Rightarrow> WorkspaceRole option" where
  "member_role reg w u = (case hm_get reg w of None \<Rightarrow> None | Some rec \<Rightarrow> role_in rec u)"

section \<open>Ownership\<close>

definition record_ok :: "string \<Rightarrow> WorkspaceRecord \<Rightarrow> bool" where
  "record_ok w rec \<longleftrightarrow> ws_id (profile rec) = w \<and> distinct (map m_user_id (members rec))
     \<and> list_all (\<lambda>m. m_workspace_id m = w \<and> (m_role m = Owner \<longleftrightarrow> m_user_id m = owner_user_id (profile rec))) (members rec)
     \<and> owner_user_id (profile rec) \<in> m_user_id ` set (members rec)"

definition registry_ok :: "WorkspaceRegistry \<Rightarrow> bool" where
  "registry_ok reg \<longleftrightarrow> hm_wf reg \<and> (\<forall>w rec. hm_get reg w = Some rec \<longrightarrow> record_ok w rec)"

text \<open>The calls on a registry; the profile calls reach a record through \<^verbatim>\<open>get_mut\<close>.\<close>

datatype ws_op =
    Create WorkspaceProfile u64
  | SetQuota string string WorkspaceQuota
  | AddMember string string string WorkspaceRole u64
  | RemoveMember string string string
  | Suspend string u64
  | Reactivate string u64
  | Delete string u64
  | Describe string string u64

definition on_profile :: "WorkspaceRegistry \<Rightarrow> string \<Rightarrow> (WorkspaceProfile \<Rightarrow> WorkspaceProfile) \<Rightarrow> WorkspaceRegistry" where
  "on_profile reg w f =
     (case hm_get reg w of None \<Rightarrow> reg | Some rec \<Rightarrow> hm_insert w (rec\<lparr>profile := f (profile rec)\<rparr>) reg)"

fun ws_step :: "WorkspaceRegistry \<Rightarrow> ws_op \<Rightarrow> WorkspaceRegistry" where
  "ws_step reg (Create pr now) = snd (ws_create reg pr now)"
| "ws_step reg (SetQuota actor w q) = snd (set_quota reg actor w q)"
| "ws_step reg (AddMember actor w u role now) = snd (add_member reg actor w u role now)"
| "ws_step reg (RemoveMember actor w u) = snd (remove_member reg actor w u)"
| "ws_step reg (Suspend w now) = on_profile reg w (\<lambda>pr. snd (suspend pr now))"
| "ws_step reg (Reactivate w now) = on_profile reg w (\<lambda>pr. snd (reactivate pr now))"
| "ws_step reg (Delete w now) = on_profile reg w (\<lambda>pr. snd (ws_delete pr now))"
| "ws_step reg (Describe w d now) = on_profile reg w (\<lambda>pr. set_description pr d now)"

lemma registry_ok_insert: "registry_ok reg \<Longrightarrow> record_ok w rec \<Longrightarrow> registry_ok (hm_insert w rec reg)"
  by (simp add: registry_ok_def store_simps)

lemma record_ok_new: "record_ok (ws_id pr) (record_new pr now)"
  by (simp add: record_ok_def record_new_def membership_new_def)

lemma record_ok_quota: "record_ok w (rec\<lparr>quota := q\<rparr>) = record_ok w rec"
  by (simp add: record_ok_def)

lemma record_ok_profile:
  "ws_id (f (profile rec)) = ws_id (profile rec) \<Longrightarrow> owner_user_id (f (profile rec)) = owner_user_id (profile rec) \<Longrightarrow>
   record_ok w (rec\<lparr>profile := f (profile rec)\<rparr>) = record_ok w rec"
  by (simp add: record_ok_def)

lemma profile_frame:
  "ws_id (snd (suspend pr now)) = ws_id pr" "owner_user_id (snd (suspend pr now)) = owner_user_id pr"
  "ws_id (snd (reactivate pr now)) = ws_id pr" "owner_user_id (snd (reactivate pr now)) = owner_user_id pr"
  "ws_id (snd (ws_delete pr now)) = ws_id pr" "owner_user_id (snd (ws_delete pr now)) = owner_user_id pr"
  "ws_id (set_description pr d now) = ws_id pr" "owner_user_id (set_description pr d now) = owner_user_id pr"
  by (simp_all add: suspend_def reactivate_def ws_delete_def set_description_def)

lemma take_member_Some:
  "take_member u ms = Some (m, rest) \<Longrightarrow>
   \<exists>as bs. ms = as @ m # bs \<and> rest = as @ bs \<and> m_user_id m = u \<and> u \<notin> m_user_id ` set as"
proof (induction u ms arbitrary: rest rule: take_member.induct)
  case (2 u x ms)
  show ?case
  proof (cases "m_user_id x = u")
    case True
    with 2 show ?thesis by (intro exI [of _ "[]"] exI [of _ rest]) auto
  next
    case False
    with 2(2) obtain r where r: "take_member u ms = Some (m, r)" "rest = x # r" by auto
    from 2(1) [OF False r(1)] obtain as bs where "ms = as @ m # bs" "r = as @ bs" "m_user_id m = u"
      "u \<notin> m_user_id ` set as" by blast
    with False r show ?thesis by (intro exI [of _ "x # as"] exI [of _ bs]) auto
  qed
qed simp

lemma registry_ok_add:
  assumes "registry_ok reg" shows "registry_ok (snd (add_member reg actor w u role now))"
proof (cases "hm_get reg w")
  case None
  with assms show ?thesis by (simp add: add_member_def)
next
  case (Some rec)
  then have ok: "record_ok w rec" using assms by (simp add: registry_ok_def)
  have "record_ok w (rec\<lparr>members := members rec @ [membership_new w u role now]\<rparr>)"
    if "\<not> list_ex (\<lambda>m. m_user_id m = u) (members rec)" "role \<noteq> Owner"
    using that ok by (auto simp: record_ok_def membership_new_def list_ex_iff list_all_iff)
  with assms Some show ?thesis
    by (auto simp: add_member_def Let_def registry_ok_insert split: sum.split)
qed

lemma registry_ok_remove:
  assumes "registry_ok reg" shows "registry_ok (snd (remove_member reg actor w u))"
proof (cases "hm_get reg w")
  case None
  with assms show ?thesis by (simp add: remove_member_def)
next
  case (Some rec)
  then have ok: "record_ok w rec" using assms by (simp add: registry_ok_def)
  have "record_ok w (rec\<lparr>members := rest\<rparr>)"
    if "take_member u (members rec) = Some (m, rest)" "m_role m \<noteq> Owner" for m rest
    using take_member_Some [OF that(1)] that(2) ok by (auto simp: record_ok_def list_all_iff)
  with assms Some show ?thesis
    by (auto simp: remove_member_def registry_ok_insert split: sum.split option.split)
qed

lemma registry_ok_step:
  assumes "registry_ok reg" shows "registry_ok (ws_step reg x)"
proof -
  have prof: "registry_ok (on_profile reg w f)"
    if "\<And>pr. ws_id (f pr) = ws_id pr" "\<And>pr. owner_user_id (f pr) = owner_user_id pr" for w f
    using assms that unfolding on_profile_def
    by (auto simp: registry_ok_def store_simps record_ok_profile split: option.split)
  have "registry_ok (snd (set_quota reg actor w q))" for actor w q
    using assms by (auto simp: set_quota_def registry_ok_def store_simps record_ok_quota split: option.split sum.split)
  moreover have "registry_ok (snd (ws_create reg pr now))" for pr now
    using assms by (simp add: ws_create_def registry_ok_insert record_ok_new)
  ultimately show ?thesis using assms prof
    by (cases x) (simp_all add: registry_ok_add registry_ok_remove profile_frame)
qed

interpretation ws_machine: op_machine ws_step registry_ok
  by unfold_locales (rule registry_ok_step)

text \<open>The life cycle of the status field: nothing leaves Deleted.\<close>

fun ws_edge :: "WorkspaceStatus \<Rightarrow> WorkspaceStatus \<Rightarrow> bool" where
  "ws_edge WActive WSuspended = True"
| "ws_edge WSuspended WActive = True"
| "ws_edge WActive WDeleted = True"
| "ws_edge WSuspended WDeleted = True"
| "ws_edge _ _ = False"

interpretation ws_life: life_cycle ws_edge "\<lambda>s. s = WDeleted"
  by unfold_locales simp

definition status_of :: "WorkspaceRegistry \<Rightarrow> string \<Rightarrow> WorkspaceStatus option" where
  "status_of reg w = map_option (ws_status \<circ> profile) (hm_get reg w)"

lemma status_insert: "status_of (hm_insert w rec reg) v = (if v = w then Some (ws_status (profile rec)) else status_of reg v)"
  by (simp add: status_of_def store_simps)

lemma profile_edges:
  "ws_edge\<^sup>=\<^sup>= (ws_status pr) (ws_status (snd (suspend pr now)))"
  "ws_edge\<^sup>=\<^sup>= (ws_status pr) (ws_status (snd (reactivate pr now)))"
  "ws_edge\<^sup>=\<^sup>= (ws_status pr) (ws_status (snd (ws_delete pr now)))"
  "ws_edge\<^sup>=\<^sup>= (ws_status pr) (ws_status (set_description pr d now))"
  by (cases "ws_status pr"; simp add: suspend_def reactivate_def ws_delete_def set_description_def)+

lemma status_step:
  assumes "status_of reg w = Some st"
  shows "\<exists>st'. status_of (ws_step reg x) w = Some st' \<and> ws_edge\<^sup>=\<^sup>= st st'"
proof -
  have prof: "\<exists>st'. status_of (on_profile reg v f) w = Some st' \<and> ws_edge\<^sup>=\<^sup>= st st'"
    if "\<And>pr. ws_edge\<^sup>=\<^sup>= (ws_status pr) (ws_status (f pr))" for v f
    using assms that unfolding on_profile_def
    by (cases "hm_get reg v"; cases "w = v") (auto simp: status_of_def store_simps)
  have "status_of (snd (set_quota reg actor v q)) w = Some st" for actor v q
    using assms by (auto simp: set_quota_def status_of_def store_simps split: option.split sum.split)
  moreover have "status_of (snd (add_member reg actor v u role now)) w = Some st" for actor v u role now
    using assms by (auto simp: add_member_def Let_def status_of_def store_simps split: option.split sum.split)
  moreover have "status_of (snd (remove_member reg actor v u)) w = Some st" for actor v u
    using assms by (auto simp: remove_member_def status_of_def store_simps split: option.split sum.split)
  moreover have "status_of (snd (ws_create reg pr now)) w = Some st" for pr now
    using assms by (auto simp: ws_create_def status_of_def store_simps hm_contains_def)
  moreover have "ws_edge\<^sup>=\<^sup>= st st" by simp
  moreover note prof [OF profile_edges(1)] prof [OF profile_edges(2)] prof [OF profile_edges(3)]
    prof [OF profile_edges(4)]
  ultimately show ?thesis by (cases x) (simp_all del: sup_apply)
qed

lemma status_run:
  "status_of reg w = Some st \<Longrightarrow> \<exists>st'. status_of (foldl ws_step reg xs) w = Some st' \<and> ws_edge\<^sup>*\<^sup>* st st'"
proof (induction xs arbitrary: reg st)
  case Nil
  then show ?case by simp
next
  case (Cons x xs)
  from status_step [OF Cons.prems, of x] obtain s1 where s1: "status_of (ws_step reg x) w = Some s1" "ws_edge\<^sup>=\<^sup>= st s1"
    by blast
  from Cons.IH [OF s1(1)] s1(2) show ?case by (auto intro: converse_rtranclp_into_rtranclp)
qed

text \<open>Every workspace has exactly one owner. Over any sequence of calls on an empty registry, each
  workspace has its creator as the one member with the Owner role, no user is a member twice, and a
  deleted workspace stays deleted whatever is called next.\<close>

theorem workspace_single_owner:
  fixes xs ys :: "ws_op list" and w :: string
  defines "reg \<equiv> foldl ws_step [] xs"
  shows "(case hm_get reg w of None \<Rightarrow> True | Some rec \<Rightarrow>
       map m_user_id (filter (\<lambda>m. m_role m = Owner) (members rec)) = [owner_user_id (profile rec)]
       \<and> distinct (map m_user_id (members rec)))
     \<and> (status_of reg w = Some WDeleted \<longrightarrow> status_of (foldl ws_step reg ys) w = Some WDeleted)"
proof (intro conjI impI)
  have "registry_ok reg" unfolding reg_def by (rule ws_machine.run_inv) (simp add: registry_ok_def)
  then have ok: "record_ok w rec" if "hm_get reg w = Some rec" for rec using that by (simp add: registry_ok_def)
  have single: "map m_user_id (filter (\<lambda>m. m_user_id m = v) ms) = [v]"
    if "distinct (map m_user_id ms)" "v \<in> m_user_id ` set ms" for v and ms :: "WorkspaceMembership list"
    using that
  proof (induction ms)
    case (Cons m ms)
    then show ?case by (cases "m_user_id m = v") (auto simp: filter_empty_conv rev_image_eqI)
  qed simp
  show "case hm_get reg w of None \<Rightarrow> True | Some rec \<Rightarrow>
       map m_user_id (filter (\<lambda>m. m_role m = Owner) (members rec)) = [owner_user_id (profile rec)]
       \<and> distinct (map m_user_id (members rec))"
  proof (cases "hm_get reg w")
    case (Some rec)
    have "filter (\<lambda>m. m_role m = Owner) (members rec) =
        filter (\<lambda>m. m_user_id m = owner_user_id (profile rec)) (members rec)"
      using ok [OF Some] by (auto simp: record_ok_def list_all_iff intro: filter_cong)
    with Some ok [OF Some] show ?thesis by (auto simp: record_ok_def single)
  qed simp
  assume "status_of reg w = Some WDeleted"
  from status_run [OF this, of ys] show "status_of (foldl ws_step reg ys) w = Some WDeleted"
    using ws_life.terminal_absorbing by auto
qed

lemma workspace_single_owner_witness:
  "let reg = foldl ws_step [] [Create (profile_new ''acme'' ''Acme'' ''ann'' 0) 0, Delete ''acme'' 1]
   in status_of (foldl ws_step reg [Reactivate ''acme'' 2, Suspend ''acme'' 3]) ''acme'' = Some WDeleted"
proof -
  let ?xs = "[Create (profile_new ''acme'' ''Acme'' ''ann'' 0) 0, Delete ''acme'' 1]"
  have "status_of (foldl ws_step [] ?xs) ''acme'' = Some WDeleted"
    by (simp add: ws_create_def hm_contains_def record_new_def profile_new_def on_profile_def ws_delete_def status_of_def)
  with workspace_single_owner [where xs = ?xs and w = "''acme''"] show ?thesis unfolding Let_def by blast
qed

section \<open>Authority\<close>

lemma role_in_profile [simp]: "role_in (rec\<lparr>profile := pr\<rparr>) u = role_in rec u"
  "role_in (rec\<lparr>quota := q\<rparr>) u = role_in rec u"
  by (simp_all add: role_in_def)

lemma role_in_add: "\<not> list_ex (\<lambda>m. m_user_id m = u) (members rec) \<Longrightarrow>
  role_in (rec\<lparr>members := members rec @ [membership_new w u r now]\<rparr>) v = (if v = u then Some r else role_in rec v)"
proof -
  assume "\<not> list_ex (\<lambda>m. m_user_id m = u) (members rec)"
  then have no: "find (\<lambda>m. m_user_id m = u) (members rec) = None" by (auto simp: find_None_iff list_ex_iff)
  have app: "find P (xs @ [x]) = (case find P xs of None \<Rightarrow> if P x then Some x else None | Some y \<Rightarrow> Some y)"
    for P xs and x :: WorkspaceMembership by (induction xs) simp_all
  show ?thesis using no by (auto simp: role_in_def app membership_new_def split: option.split)
qed

lemma role_in_remove:
  assumes "take_member u (members rec) = Some (m, rest)" "distinct (map m_user_id (members rec))"
  shows "role_in rec u = Some (m_role m)"
    and "role_in (rec\<lparr>members := rest\<rparr>) v = (if v = u then None else role_in rec v)"
proof -
  from take_member_Some [OF assms(1)] obtain as bs where m: "members rec = as @ m # bs" "rest = as @ bs"
    "m_user_id m = u" "u \<notin> m_user_id ` set as" by blast
  have nb: "u \<notin> m_user_id ` set bs" using assms(2) m by auto
  have app: "find P (xs @ ys) = (case find P xs of None \<Rightarrow> find P ys | Some y \<Rightarrow> Some y)"
    for P and xs ys :: "WorkspaceMembership list" by (induction xs) simp_all
  have "find (\<lambda>x. m_user_id x = u) as = None" "find (\<lambda>x. m_user_id x = u) bs = None"
    using m(4) nb by (auto simp: find_None_iff)
  then show "role_in rec u = Some (m_role m)" "role_in (rec\<lparr>members := rest\<rparr>) v = (if v = u then None else role_in rec v)"
    using m(1-3) by (auto simp: role_in_def app split: option.split)
qed

lemma can_manage_role: "authorize_manage rec actor = Inr () \<Longrightarrow> \<exists>r. role_in rec actor = Some r \<and> Admin \<le> r"
  by (cases "role_in rec actor")
    (auto simp: authorize_manage_def role_or_guest_def can_manage_def less_eq_WorkspaceRole_def Let_def split: if_splits)

text \<open>Who may change whose role, and to what.\<close>

fun may_change :: "WorkspaceRegistry \<Rightarrow> ws_op \<Rightarrow> string \<Rightarrow> string \<Rightarrow> WorkspaceRole option \<Rightarrow> bool" where
  "may_change reg (Create pr now) w u new \<longleftrightarrow>
     w = ws_id pr \<and> u = owner_user_id pr \<and> hm_get reg w = None \<and> new = Some Owner"
| "may_change reg (AddMember actor w' u' role now) w u new \<longleftrightarrow>
     w = w' \<and> u = u' \<and> member_role reg w u = None \<and> new = Some role \<and>
     (case member_role reg w actor of None \<Rightarrow> False | Some r \<Rightarrow> Admin \<le> r \<and> role < r)"
| "may_change reg (RemoveMember actor w' u') w u new \<longleftrightarrow>
     w = w' \<and> u = u' \<and> new = None \<and>
     (case member_role reg w u of None \<Rightarrow> False | Some old \<Rightarrow> old \<noteq> Owner \<and>
       (actor = u \<or> (case member_role reg w actor of None \<Rightarrow> False | Some r \<Rightarrow> Admin \<le> r \<and> old < r)))"
| "may_change reg _ w u new \<longleftrightarrow> False"

lemma member_role_insert: "member_role (hm_insert v rec reg) w u = (if w = v then role_in rec u else member_role reg w u)"
  by (simp add: member_role_def store_simps)

lemma add_authority:
  assumes "member_role (snd (add_member reg actor v x role now)) w u \<noteq> member_role reg w u"
  shows "may_change reg (AddMember actor v x role now) w u (member_role (snd (add_member reg actor v x role now)) w u)"
proof -
  obtain rec where rec: "hm_get reg v = Some rec" "authorize_manage rec actor = Inr ()"
    "\<not> role \<ge> role_or_guest rec actor" "\<not> list_ex (\<lambda>m. m_user_id m = x) (members rec)"
    "snd (add_member reg actor v x role now) = hm_insert v (rec\<lparr>members := members rec @ [membership_new v x role now]\<rparr>) reg"
    using assms by (auto simp: add_member_def Let_def split: if_splits option.splits sum.splits)
  obtain r where r: "role_in rec actor = Some r" "Admin \<le> r" using can_manage_role [OF rec(2)] by blast
  have old: "member_role reg v y = role_in rec y" for y using rec(1) by (simp add: member_role_def)
  have "role_in rec x = None" using rec(4) by (auto simp: role_in_def find_None_iff list_ex_iff)
  with assms r rec(3) old show ?thesis unfolding rec(5)
    by (auto simp: member_role_insert role_in_add [OF rec(4)] role_or_guest_def split: if_splits)
qed

lemma remove_authority:
  assumes ok: "registry_ok reg" and ch: "member_role (snd (remove_member reg actor v x)) w u \<noteq> member_role reg w u"
  shows "may_change reg (RemoveMember actor v x) w u (member_role (snd (remove_member reg actor v x)) w u)"
proof -
  obtain rec m rest where rec: "hm_get reg v = Some rec" "actor \<noteq> x \<longrightarrow> authorize_manage rec actor = Inr ()"
    "take_member x (members rec) = Some (m, rest)" "m_role m \<noteq> Owner"
    "\<not> (actor \<noteq> x \<and> m_role m \<ge> role_or_guest rec actor)"
    "snd (remove_member reg actor v x) = hm_insert v (rec\<lparr>members := rest\<rparr>) reg"
    using ch by (auto simp: remove_member_def split: if_splits option.splits sum.splits prod.splits)
  have "distinct (map m_user_id (members rec))" using ok rec(1) by (simp add: registry_ok_def record_ok_def)
  note ri = role_in_remove [OF rec(3) this]
  have old: "member_role reg v y = role_in rec y" for y using rec(1) by (simp add: member_role_def)
  have auth: "actor \<noteq> x \<Longrightarrow> \<exists>r. role_in rec actor = Some r \<and> Admin \<le> r \<and> m_role m < r"
    using rec(2,5) can_manage_role [of rec actor] by (auto simp: role_or_guest_def)
  show ?thesis using ch auth rec(4) old ri unfolding rec(6)
    by (cases "actor = x") (auto simp: member_role_insert split: if_splits)
qed

text \<open>No privilege escalation. In any reachable registry, a call changes a user's role in a workspace
  only as the rules allow: creation makes its creator owner of a new workspace; an addition is made by
  an admin or owner, of someone who was no member, with a role strictly below the actor's; a removal is
  of a non-owner, by the user or by an admin or owner who outranks the user. No other call changes any
  role.\<close>

theorem workspace_no_escalation:
  assumes "reg = foldl ws_step [] xs"
    and "member_role (ws_step reg x) w u \<noteq> member_role reg w u"
  shows "may_change reg x w u (member_role (ws_step reg x) w u)"
proof -
  have ok: "registry_ok reg" unfolding assms(1) by (rule ws_machine.run_inv) (simp add: registry_ok_def)
  have prof: "member_role (on_profile reg v f) w u = member_role reg w u" for v f
    by (auto simp: on_profile_def member_role_def store_simps split: option.split)
  have quota: "member_role (snd (set_quota reg actor v q)) w u = member_role reg w u" for actor v q
    by (auto simp: set_quota_def member_role_def store_simps split: option.split sum.split)
  show ?thesis
  proof (cases x)
    case (Create pr now)
    with assms(2) show ?thesis
      by (auto simp: ws_create_def member_role_insert hm_contains_def member_role_def record_new_def role_in_def
          membership_new_def store_simps split: if_splits)
  next
    case (AddMember actor v y role now)
    show ?thesis using assms(2) unfolding AddMember ws_step.simps by (rule add_authority)
  next
    case (RemoveMember actor v y)
    show ?thesis using assms(2) unfolding RemoveMember ws_step.simps by (rule remove_authority [OF ok])
  qed (use assms(2) prof quota in simp_all)
qed

lemma workspace_no_escalation_witness:
  "let reg = foldl ws_step [] [Create (profile_new ''acme'' ''Acme'' ''ann'' 0) 0] in
     may_change reg (AddMember ''ann'' ''acme'' ''bob'' Admin 1) ''acme'' ''bob'' (Some Admin)"
proof -
  let ?reg = "foldl ws_step [] [Create (profile_new ''acme'' ''Acme'' ''ann'' 0) 0]"
  let ?x = "AddMember ''ann'' ''acme'' ''bob'' Admin 1"
  have roles: "member_role (ws_step ?reg ?x) ''acme'' ''bob'' = Some Admin" "member_role ?reg ''acme'' ''bob'' = None"
    by (simp_all add: ws_create_def hm_contains_def record_new_def profile_new_def add_member_def authorize_manage_def
        role_or_guest_def role_in_def membership_new_def can_manage_def less_eq_WorkspaceRole_def can_add_members_def
        membership_usage_def quota_default_def usage_default_def member_role_def Let_def)
  then have "member_role (ws_step ?reg ?x) ''acme'' ''bob'' \<noteq> member_role ?reg ''acme'' ''bob''" by simp
  from workspace_no_escalation [OF refl this] show ?thesis unfolding roles(1) Let_def .
qed

section \<open>Slugs\<close>

definition slug_alphabet :: "char \<Rightarrow> bool" where
  "slug_alphabet c \<longleftrightarrow> (let n = of_char c :: nat in 48 \<le> n \<and> n \<le> 57 \<or> 97 \<le> n \<and> n \<le> 122) \<or> c = hyphen"

text \<open>No hyphen at either end and no two in a row.\<close>

definition well_hyphened :: "string \<Rightarrow> bool" where
  "well_hyphened s \<longleftrightarrow> (s \<noteq> [] \<longrightarrow> hd s \<noteq> hyphen \<and> last s \<noteq> hyphen)
     \<and> successively (\<lambda>a b. \<not> (a = hyphen \<and> b = hyphen)) s"

abbreviation no_pair :: "string \<Rightarrow> bool" where
  "no_pair s \<equiv> successively (\<lambda>a b. \<not> (a = hyphen \<and> b = hyphen)) s"

text \<open>The loop's output, read backwards: it never starts with a hyphen, has no two in a row, and its last
  character is a hyphen only when the flag says so.\<close>

lemma collapse_loop_inv:
  "no_pair out \<Longrightarrow> (out \<noteq> [] \<Longrightarrow> last out \<noteq> hyphen) \<Longrightarrow> (\<not> lh \<Longrightarrow> out = [] \<or> hd out \<noteq> hyphen) \<Longrightarrow>
   no_pair (collapse_loop out lh s) \<and> (collapse_loop out lh s \<noteq> [] \<longrightarrow> last (collapse_loop out lh s) \<noteq> hyphen)
   \<and> set (collapse_loop out lh s) \<subseteq> set out \<union> set s"
proof (induction out lh s rule: collapse_loop.induct)
  case (2 out lh c cs)
  show ?case
  proof (cases "c = hyphen")
    case True
    let ?out = "if \<not> lh \<and> out \<noteq> [] then hyphen # out else out"
    have "no_pair ?out" using 2(3-5) by (auto simp: successively_Cons)
    moreover have "?out \<noteq> [] \<Longrightarrow> last ?out \<noteq> hyphen" using 2(4) by auto
    ultimately show ?thesis using 2(1) [OF True] True by auto
  next
    case False
    have "no_pair (c # out)" using 2(3) False by (cases out) auto
    moreover have "last (c # out) \<noteq> hyphen" using 2(4) False by auto
    ultimately show ?thesis using 2(2) [OF False] False by auto
  qed
qed simp

lemma collapse_well_hyphened:
  "well_hyphened (collapse_hyphens s)" "set (collapse_hyphens s) \<subseteq> set s"
proof -
  let ?o = "collapse_loop [] False s"
  have inv: "no_pair ?o" "?o \<noteq> [] \<longrightarrow> last ?o \<noteq> hyphen" "set ?o \<subseteq> set s"
    using collapse_loop_inv [of "[]" False s] by auto
  have rev_pair: "no_pair (rev xs) = no_pair xs" for xs
    by (subst successively_rev, rule arg_cong [where f = "\<lambda>P. successively P xs"]) (auto simp: fun_eq_iff)
  show "set (collapse_hyphens s) \<subseteq> set s"
    using inv(3) by (cases ?o) (auto simp: collapse_hyphens_def Let_def)
  show "well_hyphened (collapse_hyphens s)"
  proof (cases ?o)
    case Nil
    then show ?thesis by (simp add: collapse_hyphens_def well_hyphened_def)
  next
    case (Cons c rest)
    have "no_pair rest" "rest \<noteq> [] \<Longrightarrow> last rest \<noteq> hyphen" "c = hyphen \<Longrightarrow> rest \<noteq> [] \<Longrightarrow> hd rest \<noteq> hyphen"
      using inv Cons by (auto simp: successively_Cons)
    with inv Cons rev_pair [of rest] rev_pair [of "c # rest"] show ?thesis
      by (auto simp: collapse_hyphens_def well_hyphened_def hd_rev last_rev Let_def simp del: rev.simps split: if_splits)
  qed
qed

lemma collapse_loop_id:
  "no_pair s \<Longrightarrow> (lh \<Longrightarrow> s \<noteq> [] \<Longrightarrow> hd s \<noteq> hyphen) \<Longrightarrow> (out = [] \<Longrightarrow> s \<noteq> [] \<Longrightarrow> hd s \<noteq> hyphen) \<Longrightarrow>
   collapse_loop out lh s = rev s @ out"
proof (induction out lh s rule: collapse_loop.induct)
  case (2 out lh c cs)
  show ?case
  proof (cases "c = hyphen")
    case True
    then have "\<not> lh" "out \<noteq> []" using 2(4,5) by auto
    moreover have "no_pair cs" "cs \<noteq> [] \<Longrightarrow> hd cs \<noteq> hyphen" using 2(3) True by (auto simp: successively_Cons)
    ultimately show ?thesis using 2(1) [OF True] True by auto
  next
    case False
    have "no_pair cs" using 2(3) by (auto simp: successively_Cons)
    with False 2(2) [OF False] show ?thesis by auto
  qed
qed simp

lemma collapse_id: "well_hyphened s \<Longrightarrow> collapse_hyphens s = s"
proof (cases "s = []")
  case True
  then show ?thesis by (simp add: collapse_hyphens_def)
next
  case False
  assume w: "well_hyphened s"
  then have "collapse_loop [] False s = rev s" using collapse_loop_id [of s False "[]"] by (simp add: well_hyphened_def)
  moreover obtain c rest where "rev s = c # rest" using False by (cases "rev s") auto
  moreover from this have "c = last s" by (metis hd_rev list.sel(1))
  ultimately show ?thesis using w False unfolding well_hyphened_def collapse_hyphens_def Let_def
    by simp
qed

lemma slug_char_image: "slug_char c = Some d \<Longrightarrow> slug_alphabet d"
  by (auto simp: slug_char_def slug_alphabet_def is_ascii_alnum_def to_lower_def Let_def split: if_splits)

lemma slug_char_id: "slug_alphabet c \<Longrightarrow> slug_char c = Some c"
  by (auto simp: slug_char_def slug_alphabet_def is_ascii_alnum_def to_lower_def Let_def)

text \<open>Workspace identifiers are well-formed and stable. A name that yields an identifier yields one of
  lower-case letters, digits and hyphens, with no hyphen at either end and no two in a row, and
  normalising the identifier again gives the same identifier.\<close>

theorem make_id_well_formed:
  assumes "make_id raw = Inr slug"
  shows "slug \<noteq> [] \<and> list_all slug_alphabet slug \<and> well_hyphened slug \<and> make_id slug = Inr slug"
proof -
  from assms have s: "slug = collapse_hyphens (List.map_filter slug_char raw)" "slug \<noteq> []"
    by (auto simp: make_id_def Let_def split: if_splits)
  have "set (List.map_filter slug_char raw) \<subseteq> {d. slug_alphabet d}"
    by (auto simp: List.map_filter_def slug_char_image)
  then have al: "list_all slug_alphabet slug"
    using collapse_well_hyphened(2) [of "List.map_filter slug_char raw"] s(1) by (auto simp: list_all_iff)
  have wh: "well_hyphened slug" unfolding s(1) by (rule collapse_well_hyphened)
  have "List.map_filter slug_char slug = slug"
    using al by (induction slug) (simp_all add: slug_char_id)
  with s(2) al wh show ?thesis by (simp add: make_id_def collapse_id)
qed

lemma make_id_well_formed_witness:
  "make_id ''Team  Alpha_!'' = Inr ''team-alpha'' \<and> make_id ''team-alpha'' = Inr ''team-alpha''"
proof -
  have "make_id ''Team  Alpha_!'' = Inr ''team-alpha''" by code_simp
  with make_id_well_formed [OF this] show ?thesis by simp
qed

end
