(* ===== verification/Knowledge_Graph.thy ===== *)
theory Knowledge_Graph
  imports Ascii_Text "HOL-Library.Char_ord" "HOL-Library.List_Lexorder" "HOL-Library.Sublist"
begin

unbundle bit_operations_syntax

text \<open>
  The knowledge graph (\<^verbatim>\<open>crates/knowledge-graph/src\<close>): entities (\<^verbatim>\<open>entity.rs\<close>), relations
  (\<^verbatim>\<open>relation.rs\<close>) and the graph with its two adjacency indexes and its breadth-first neighbour search
  (\<^verbatim>\<open>graph.rs\<close>). A weight is a 32-bit float, kept as its IEEE 754 bit pattern; the graph only stores it and
  a constructor clamps it. The wall clock is an argument of the constructors. Reading and writing the file is
  left out: \<open>graph_load\<close> and \<open>graph_snapshot\<close> are what \<^verbatim>\<open>open\<close> and \<^verbatim>\<open>flush\<close> do between the graph and
  the parsed document.
\<close>

section \<open>Entities\<close>

datatype EntityKind = Person | Place | Project | Concept | Technology | Organization | CustomEntity string

fun show_entity_kind :: "EntityKind \<Rightarrow> string" where
  "show_entity_kind Person = ''person''"
| "show_entity_kind Place = ''place''"
| "show_entity_kind Project = ''project''"
| "show_entity_kind Concept = ''concept''"
| "show_entity_kind Technology = ''technology''"
| "show_entity_kind Organization = ''organization''"
| "show_entity_kind (CustomEntity label) = ''custom:'' @ label"

text \<open>The fallback of both parsers: the label after \<^verbatim>\<open>custom:\<close>, or the whole text, as long as it is not
  empty.\<close>

definition custom_label :: "string \<Rightarrow> string option" where
  "custom_label s =
     (let label = (if prefix ''custom:'' (to_ascii_lowercase s) then drop 7 s else s) in
      if label = [] then None else Some label)"

definition parse_entity_kind :: "string \<Rightarrow> EntityKind option" where
  "parse_entity_kind s =
     (let l = to_ascii_lowercase s in
      if l = ''person'' then Some Person
      else if l = ''place'' then Some Place
      else if l = ''project'' then Some Project
      else if l = ''concept'' then Some Concept
      else if l = ''technology'' then Some Technology
      else if l = ''organization'' \<or> l = ''org'' then Some Organization
      else map_option CustomEntity (custom_label s))"

record Entity =
  ent_id :: string
  ent_kind :: EntityKind
  display_name :: string
  attributes :: "(string \<times> string) list"
  ent_created_at_ns :: u64

definition entity_new :: "string \<Rightarrow> EntityKind \<Rightarrow> string \<Rightarrow> u64 \<Rightarrow> Entity" where
  "entity_new i k name now =
     \<lparr>ent_id = i, ent_kind = k, display_name = name, attributes = [], ent_created_at_ns = now\<rparr>"

definition set_attribute :: "Entity \<Rightarrow> string \<Rightarrow> string \<Rightarrow> string option \<times> Entity" where
  "set_attribute e key val = (hm_get (attributes e) key, e\<lparr>attributes := hm_insert key val (attributes e)\<rparr>)"

definition get_attribute :: "Entity \<Rightarrow> string \<Rightarrow> string option" where
  "get_attribute e key = hm_get (attributes e) key"

section \<open>Relations\<close>

datatype RelationKind =
  WorksAt | RelatedTo | PartOf | CreatedBy | DependsOn | Collaborates | IsA | CustomRelation string

fun show_relation_kind :: "RelationKind \<Rightarrow> string" where
  "show_relation_kind WorksAt = ''works_at''"
| "show_relation_kind RelatedTo = ''related_to''"
| "show_relation_kind PartOf = ''part_of''"
| "show_relation_kind CreatedBy = ''created_by''"
| "show_relation_kind DependsOn = ''depends_on''"
| "show_relation_kind Collaborates = ''collaborates''"
| "show_relation_kind IsA = ''is_a''"
| "show_relation_kind (CustomRelation label) = ''custom:'' @ label"

definition parse_relation_kind :: "string \<Rightarrow> RelationKind option" where
  "parse_relation_kind s =
     (let l = to_ascii_lowercase s in
      if l = ''works_at'' \<or> l = ''works-at'' then Some WorksAt
      else if l = ''related_to'' \<or> l = ''related-to'' then Some RelatedTo
      else if l = ''part_of'' \<or> l = ''part-of'' then Some PartOf
      else if l = ''created_by'' \<or> l = ''created-by'' then Some CreatedBy
      else if l = ''depends_on'' \<or> l = ''depends-on'' then Some DependsOn
      else if l = ''collaborates'' then Some Collaborates
      else if l = ''is_a'' \<or> l = ''is-a'' then Some IsA
      else map_option CustomRelation (custom_label s))"

text \<open>A 32-bit float as its bits: the sign, eight bits of exponent, 23 bits of fraction.\<close>

type_synonym f32 = u32

definition f32_one :: f32 where "f32_one = 0x3F800000"

definition f32_sign :: "f32 \<Rightarrow> bool" where "f32_sign x \<longleftrightarrow> x AND 0x80000000 \<noteq> 0"

definition f32_abs :: "f32 \<Rightarrow> u32" where "f32_abs x = x AND 0x7FFFFFFF"

definition f32_is_nan :: "f32 \<Rightarrow> bool" where "f32_is_nan x \<longleftrightarrow> f32_abs x > 0x7F800000"

text \<open>\<^verbatim>\<open><\<close> on floats: false when an operand is not a number, both zeros are equal, and otherwise the
  order of the magnitudes, reversed for two negative numbers.\<close>

definition f32_less :: "f32 \<Rightarrow> f32 \<Rightarrow> bool" where
  "f32_less x y \<longleftrightarrow> \<not> f32_is_nan x \<and> \<not> f32_is_nan y \<and>
     (if f32_sign x
      then (if f32_sign y then f32_abs y < f32_abs x else f32_abs x \<noteq> 0 \<or> f32_abs y \<noteq> 0)
      else (if f32_sign y then False else f32_abs x < f32_abs y))"

definition f32_clamp :: "f32 \<Rightarrow> f32 \<Rightarrow> f32 \<Rightarrow> f32" where
  "f32_clamp x lo hi = (if f32_less x lo then lo else if f32_less hi x then hi else x)"

record Relation =
  rel_from :: string
  rel_to :: string
  rel_kind :: RelationKind
  weight :: f32
  rel_created_at_ns :: u64

definition relation_new :: "string \<Rightarrow> string \<Rightarrow> RelationKind \<Rightarrow> u64 \<Rightarrow> Relation" where
  "relation_new a b k now =
     \<lparr>rel_from = a, rel_to = b, rel_kind = k, weight = f32_one, rel_created_at_ns = now\<rparr>"

definition relation_with_weight :: "string \<Rightarrow> string \<Rightarrow> RelationKind \<Rightarrow> f32 \<Rightarrow> u64 \<Rightarrow> Relation" where
  "relation_with_weight a b k w now =
     \<lparr>rel_from = a, rel_to = b, rel_kind = k,
      weight = (if f32_is_nan w then 0 else f32_clamp w 0 f32_one), rel_created_at_ns = now\<rparr>"

section \<open>The graph\<close>

datatype GraphError =
    EntityAlreadyExists string
  | EntityNotFound string
  | RelationAlreadyExists string string string
  | Io string

record KnowledgeGraph =
  entities :: "(string \<times> Entity) list"
  adjacency :: "(string \<times> string list) list"
  back_adjacency :: "(string \<times> string list) list"
  relations :: "Relation list"

definition in_memory :: KnowledgeGraph where
  "in_memory = \<lparr>entities = [], adjacency = [], back_adjacency = [], relations = []\<rparr>"

text \<open>\<^verbatim>\<open>entry(k).or_default().push(v)\<close>.\<close>

definition push_entry :: "string \<Rightarrow> string \<Rightarrow> (string \<times> string list) list \<Rightarrow> (string \<times> string list) list" where
  "push_entry k v m = hm_insert k ((case hm_get m k of Some vs \<Rightarrow> vs | None \<Rightarrow> []) @ [v]) m"

definition index_relation :: "Relation \<Rightarrow> KnowledgeGraph \<Rightarrow> KnowledgeGraph" where
  "index_relation r g = g\<lparr>adjacency := push_entry (rel_from r) (rel_to r) (adjacency g),
     back_adjacency := push_entry (rel_to r) (rel_from r) (back_adjacency g)\<rparr>"

definition rebuild_adjacency :: "KnowledgeGraph \<Rightarrow> KnowledgeGraph" where
  "rebuild_adjacency g =
     fold index_relation (relations g) (g\<lparr>adjacency := [], back_adjacency := []\<rparr>)"

definition add_entity :: "KnowledgeGraph \<Rightarrow> Entity \<Rightarrow> (GraphError + unit) \<times> KnowledgeGraph" where
  "add_entity g e =
     (if hm_contains (entities g) (ent_id e) then (Inl (EntityAlreadyExists (ent_id e)), g)
      else (Inr (), g\<lparr>entities := hm_insert (ent_id e) e (entities g)\<rparr>))"

definition remove_entity :: "KnowledgeGraph \<Rightarrow> string \<Rightarrow> bool \<times> KnowledgeGraph" where
  "remove_entity g i =
     (if \<not> hm_contains (entities g) i then (False, g)
      else (True, rebuild_adjacency
        (g\<lparr>entities := hm_remove i (entities g),
           relations := filter (\<lambda>r. rel_from r \<noteq> i \<and> rel_to r \<noteq> i) (relations g)\<rparr>)))"

definition get_entity :: "KnowledgeGraph \<Rightarrow> string \<Rightarrow> Entity option" where
  "get_entity g i = hm_get (entities g) i"

text \<open>A mutable borrow of an entity, with the caller's update as a function.\<close>

definition get_entity_mut :: "KnowledgeGraph \<Rightarrow> string \<Rightarrow> (Entity \<Rightarrow> Entity) \<Rightarrow> KnowledgeGraph" where
  "get_entity_mut g i f =
     (case hm_get (entities g) i of
        None \<Rightarrow> g
      | Some e \<Rightarrow> g\<lparr>entities := hm_insert i (f e) (entities g)\<rparr>)"

definition add_relation :: "KnowledgeGraph \<Rightarrow> Relation \<Rightarrow> (GraphError + unit) \<times> KnowledgeGraph" where
  "add_relation g r =
     (if \<not> hm_contains (entities g) (rel_from r) then (Inl (EntityNotFound (rel_from r)), g)
      else if \<not> hm_contains (entities g) (rel_to r) then (Inl (EntityNotFound (rel_to r)), g)
      else if list_ex (\<lambda>q. rel_from q = rel_from r \<and> rel_to q = rel_to r \<and> rel_kind q = rel_kind r) (relations g)
      then (Inl (RelationAlreadyExists (rel_from r) (rel_to r) (show_relation_kind (rel_kind r))), g)
      else (Inr (), (index_relation r g)\<lparr>relations := relations g @ [r]\<rparr>))"

definition remove_relation :: "KnowledgeGraph \<Rightarrow> string \<Rightarrow> string \<Rightarrow> RelationKind \<Rightarrow> bool \<times> KnowledgeGraph" where
  "remove_relation g a b k =
     (let rs = filter (\<lambda>r. \<not> (rel_from r = a \<and> rel_to r = b \<and> rel_kind r = k)) (relations g);
          g' = g\<lparr>relations := rs\<rparr> in
      if length rs < length (relations g) then (True, rebuild_adjacency g') else (False, g'))"

subsection \<open>Queries\<close>

definition adj_get :: "(string \<times> string list) list \<Rightarrow> string \<Rightarrow> string list" where
  "adj_get m x = (case hm_get m x of Some ys \<Rightarrow> ys | None \<Rightarrow> [])"

text \<open>The inner loops of the search: a neighbour not seen before is marked and queued one hop further.\<close>

fun visit_all :: "nat \<Rightarrow> string list \<Rightarrow> string list \<times> (string \<times> nat) list \<Rightarrow> string list \<times> (string \<times> nat) list" where
  "visit_all depth [] s = s"
| "visit_all depth (next # rest) (visited, queue) =
     (if next \<in> set visited then visit_all depth rest (visited, queue)
      else visit_all depth rest (next # visited, queue @ [(next, depth + 1)]))"

definition expand :: "KnowledgeGraph \<Rightarrow> string \<Rightarrow> nat \<Rightarrow> string list \<times> (string \<times> nat) list \<Rightarrow> string list \<times> (string \<times> nat) list" where
  "expand g x depth s =
     visit_all depth (adj_get (back_adjacency g) x) (visit_all depth (adj_get (adjacency g) x) s)"

definition indexed_nodes :: "KnowledgeGraph \<Rightarrow> string set" where
  "indexed_nodes g = (\<Union>ys \<in> snd ` set (adjacency g) \<union> snd ` set (back_adjacency g). set ys)"

lemma finite_indexed_nodes [simp]: "finite (indexed_nodes g)"
  by (simp add: indexed_nodes_def)

lemma adj_get_simps [simp]:
  "hm_get m x = Some ys \<Longrightarrow> adj_get m x = ys" "hm_get m x = None \<Longrightarrow> adj_get m x = []"
  by (simp_all add: adj_get_def)

lemma adj_get_snd: "y \<in> set (adj_get m x) \<Longrightarrow> \<exists>p\<in>set m. y \<in> set (snd p)"
  by (cases "map_of m x") (auto simp: adj_get_simps intro!: bexI [of _ "(x, the (map_of m x))"] dest: map_of_SomeD)

lemma adj_get_indexed:
  "set (adj_get (adjacency g) x) \<subseteq> indexed_nodes g" "set (adj_get (back_adjacency g) x) \<subseteq> indexed_nodes g"
  by (auto simp: indexed_nodes_def dest!: adj_get_snd)

text \<open>Every queued node was unseen before: queue length plus unseen nodes never grows.\<close>

lemma visit_all_measure:
  assumes "finite N" "set ns \<subseteq> N"
  shows "length (snd (visit_all d ns (vs, q))) + card (N - set (fst (visit_all d ns (vs, q))))
    = length q + card (N - set vs)"
  using assms(2)
proof (induction ns arbitrary: vs q)
  case (Cons n ns)
  show ?case
  proof (cases "n \<in> set vs")
    case False
    with Cons.prems have "n \<in> N - set vs" by simp
    then have "card (N - set vs) = Suc (card (N - set vs - {n}))"
      using assms(1) by (metis card_Suc_Diff1 finite_Diff)
    moreover have "N - set vs - {n} = N - set (n # vs)" by auto
    ultimately show ?thesis using False Cons by simp
  qed (use Cons in simp)
qed simp

lemma expand_measure:
  "length (snd (expand g x d s)) + card (indexed_nodes g - set (fst (expand g x d s)))
   = length (snd s) + card (indexed_nodes g - set (fst s))"
  using visit_all_measure [OF finite_indexed_nodes adj_get_indexed(1), of d g x "fst s" "snd s"]
    visit_all_measure [OF finite_indexed_nodes adj_get_indexed(2), of d g x
      "fst (visit_all d (adj_get (adjacency g) x) s)" "snd (visit_all d (adj_get (adjacency g) x) s)"]
  by (simp add: expand_def)

function bfs_loop :: "KnowledgeGraph \<Rightarrow> nat \<Rightarrow> string list \<times> (string \<times> nat) list \<Rightarrow> Entity list \<Rightarrow> Entity list" where
  "bfs_loop g max_depth (visited, []) result = result"
| "bfs_loop g max_depth (visited, (current, depth) # queue) result =
     bfs_loop g max_depth
       (if depth < max_depth then expand g current depth (visited, queue) else (visited, queue))
       (if depth > 0 then (case hm_get (entities g) current of Some e \<Rightarrow> result @ [e] | None \<Rightarrow> result)
        else result)"
  by pat_completeness auto
termination
proof (relation "measure (\<lambda>(g, _, s, _). length (snd s) + card (indexed_nodes g - set (fst s)))", goal_cases)
  case (2 g max_depth visited current depth queue result)
  show ?case using expand_measure [of g current depth "(visited, queue)"] by simp
qed simp

definition find_neighbors :: "KnowledgeGraph \<Rightarrow> string \<Rightarrow> nat \<Rightarrow> Entity list" where
  "find_neighbors g i max_depth =
     (if \<not> hm_contains (entities g) i then [] else bfs_loop g max_depth ([i], [(i, 0)]) [])"

definition find_by_kind :: "KnowledgeGraph \<Rightarrow> EntityKind \<Rightarrow> Entity list" where
  "find_by_kind g k = sort_key ent_id (filter (\<lambda>e. ent_kind e = k) (map snd (entities g)))"

definition find_by_attribute :: "KnowledgeGraph \<Rightarrow> string \<Rightarrow> string \<Rightarrow> Entity list" where
  "find_by_attribute g key val =
     sort_key ent_id (filter (\<lambda>e. get_attribute e key = Some val) (map snd (entities g)))"

definition relations_for :: "KnowledgeGraph \<Rightarrow> string \<Rightarrow> Relation list" where
  "relations_for g i = filter (\<lambda>r. rel_from r = i \<or> rel_to r = i) (relations g)"

definition all_entities :: "KnowledgeGraph \<Rightarrow> Entity list" where
  "all_entities g = sort_key ent_id (map snd (entities g))"

definition entity_count :: "KnowledgeGraph \<Rightarrow> nat" where "entity_count g = length (entities g)"

definition relation_count :: "KnowledgeGraph \<Rightarrow> nat" where "relation_count g = length (relations g)"

definition graph_is_empty :: "KnowledgeGraph \<Rightarrow> bool" where "graph_is_empty g \<longleftrightarrow> entities g = []"

subsection \<open>Persistence\<close>

record GraphSnapshot =
  snap_entities :: "Entity list"
  snap_relations :: "Relation list"

definition graph_snapshot :: "KnowledgeGraph \<Rightarrow> GraphSnapshot" where
  "graph_snapshot g = \<lparr>snap_entities = map snd (entities g), snap_relations = relations g\<rparr>"

definition graph_load :: "GraphSnapshot \<Rightarrow> KnowledgeGraph" where
  "graph_load snap =
     fold (\<lambda>r g. (index_relation r g)\<lparr>relations := relations g @ [r]\<rparr>) (snap_relations snap)
       (fold (\<lambda>e g. g\<lparr>entities := hm_insert (ent_id e) e (entities g)\<rparr>) (snap_entities snap) in_memory)"

section \<open>Hop distance\<close>

text \<open>\<open>at_hops E s x k\<close>: the shortest path from \<open>s\<close> to \<open>x\<close> has \<open>k\<close> edges.\<close>

definition at_hops :: "('a \<times> 'a) set \<Rightarrow> 'a \<Rightarrow> 'a \<Rightarrow> nat \<Rightarrow> bool" where
  "at_hops E s x k \<longleftrightarrow> (s, x) \<in> E ^^ k \<and> (\<forall>m<k. (s, x) \<notin> E ^^ m)"

lemma at_hops_exists: "(s, x) \<in> E ^^ n \<Longrightarrow> \<exists>k\<le>n. at_hops E s x k"
proof -
  assume r: "(s, x) \<in> E ^^ n"
  let ?k = "LEAST k. (s, x) \<in> E ^^ k"
  have "?k \<le> n" using r by (rule Least_le)
  moreover have "at_hops E s x ?k"
    using LeastI [of "\<lambda>k. (s, x) \<in> E ^^ k", OF r] not_less_Least unfolding at_hops_def by blast
  ultimately show ?thesis by blast
qed

lemma at_hops_le: "at_hops E s x k \<Longrightarrow> (s, x) \<in> E ^^ n \<Longrightarrow> k \<le> n"
  unfolding at_hops_def by (meson not_less)

lemma at_hops_unique: "at_hops E s x j \<Longrightarrow> at_hops E s x k \<Longrightarrow> j = k"
  using at_hops_le at_hops_def by (metis le_antisym)

lemma at_hops_0 [simp]: "at_hops E s x 0 \<longleftrightarrow> x = s"
  by (auto simp: at_hops_def)

lemma at_hops_step: "at_hops E s x k \<Longrightarrow> (x, y) \<in> E \<Longrightarrow> \<exists>j\<le>Suc k. at_hops E s y j"
  by (rule at_hops_exists) (auto simp: at_hops_def)

lemma at_hops_pred:
  assumes "at_hops E s z (Suc k)" shows "\<exists>x. at_hops E s x k \<and> (x, z) \<in> E"
proof -
  from assms obtain x where x: "(s, x) \<in> E ^^ k" "(x, z) \<in> E" by (auto simp: at_hops_def)
  obtain j where j: "j \<le> k" "at_hops E s x j" using at_hops_exists [OF x(1)] by blast
  from at_hops_step [OF j(2) x(2)] assms have "k \<le> j" using at_hops_unique by fastforce
  with j x(2) show ?thesis by auto
qed

section \<open>Breadth-first search\<close>

definition linked :: "KnowledgeGraph \<Rightarrow> (string \<times> string) set" where
  "linked g = {(x, y). y \<in> set (adj_get (adjacency g) x) \<union> set (adj_get (back_adjacency g) x)}"

lemma visit_all_result:
  "\<exists>new. visit_all d ns (vs, q) = (rev new @ vs, q @ map (\<lambda>x. (x, Suc d)) new) \<and> distinct new
     \<and> set new = set ns - set vs"
proof (induction ns arbitrary: vs q)
  case (Cons n ns)
  show ?case
  proof (cases "n \<in> set vs")
    case True
    with Cons [of vs q] show ?thesis by (simp add: insert_Diff_if)
  next
    case False
    from Cons [of "n # vs" "q @ [(n, Suc d)]"] obtain new where
      "visit_all d ns (n # vs, q @ [(n, Suc d)]) = (rev new @ n # vs, q @ (n, Suc d) # map (\<lambda>x. (x, Suc d)) new)"
      "distinct new" "set new = set ns - set (n # vs)" by auto
    with False show ?thesis by (intro exI [of _ "n # new"]) auto
  qed
qed simp

lemma expand_result:
  "\<exists>new. expand g x d (vs, q) = (rev new @ vs, q @ map (\<lambda>x. (x, Suc d)) new) \<and> distinct new
     \<and> set new = linked g `` {x} - set vs"
proof -
  let ?f = "adj_get (adjacency g) x" and ?b = "adj_get (back_adjacency g) x"
  from visit_all_result obtain n1 where n1:
    "visit_all d ?f (vs, q) = (rev n1 @ vs, q @ map (\<lambda>x. (x, Suc d)) n1)" "distinct n1"
    "set n1 = set ?f - set vs" by blast
  from visit_all_result obtain n2 where n2:
    "visit_all d ?b (rev n1 @ vs, q @ map (\<lambda>x. (x, Suc d)) n1) =
       (rev n2 @ rev n1 @ vs, (q @ map (\<lambda>x. (x, Suc d)) n1) @ map (\<lambda>x. (x, Suc d)) n2)" "distinct n2"
    "set n2 = set ?b - set (rev n1 @ vs)" by blast
  show ?thesis
    by (rule exI [of _ "n1 @ n2"]) (use n1 n2 in \<open>auto simp: expand_def linked_def\<close>)
qed

text \<open>The loop invariant: the queue holds nodes at their distance, in order of distance and spanning at most
  two layers; visited nodes off the queue are exactly the ones reported (and the source), with all their
  neighbours visited; no layer up to the one at the front is missing.\<close>

definition bfs_inv :: "('a \<times> 'a) set \<Rightarrow> 'a \<Rightarrow> nat \<Rightarrow> 'a list \<Rightarrow> ('a \<times> nat) list \<Rightarrow> 'a list \<Rightarrow> bool" where
  "bfs_inv E s D vs q rs \<longleftrightarrow>
     distinct (map fst q @ rs) \<and> set vs = insert s (fst ` set q \<union> set rs) \<and> s \<notin> set rs
     \<and> (\<forall>x\<in>set vs. \<exists>k\<le>D. at_hops E s x k) \<and> (\<forall>(x, k)\<in>set q. at_hops E s x k)
     \<and> sorted (map snd q) \<and> (\<forall>(x, k)\<in>set q. k \<le> Suc (snd (hd q)))
     \<and> (\<forall>x\<in>set vs - fst ` set q. \<forall>k<D. at_hops E s x k \<longrightarrow> E `` {x} \<subseteq> set vs)
     \<and> (\<forall>z k. q \<noteq> [] \<longrightarrow> at_hops E s z k \<longrightarrow> k \<le> snd (hd q) \<longrightarrow> z \<in> set vs)
     \<and> sorted_wrt (\<lambda>a b. \<forall>j k. at_hops E s a j \<longrightarrow> at_hops E s b k \<longrightarrow> j \<le> k) rs
     \<and> (\<forall>a\<in>set rs. \<forall>j. q \<noteq> [] \<longrightarrow> at_hops E s a j \<longrightarrow> j \<le> snd (hd q))"

lemma bfs_invD:
  assumes "bfs_inv E s D vs q rs"
  shows "distinct (map fst q @ rs)" "set vs = insert s (fst ` set q \<union> set rs)" "s \<notin> set rs"
    "y \<in> set vs \<Longrightarrow> \<exists>k\<le>D. at_hops E s y k" "(y, k) \<in> set q \<Longrightarrow> at_hops E s y k"
    "sorted (map snd q)" "(y, k) \<in> set q \<Longrightarrow> k \<le> Suc (snd (hd q))"
    "y \<in> set vs \<Longrightarrow> y \<notin> fst ` set q \<Longrightarrow> k < D \<Longrightarrow> at_hops E s y k \<Longrightarrow> E `` {y} \<subseteq> set vs"
    "q \<noteq> [] \<Longrightarrow> at_hops E s y k \<Longrightarrow> k \<le> snd (hd q) \<Longrightarrow> y \<in> set vs"
    "sorted_wrt (\<lambda>a b. \<forall>j k. at_hops E s a j \<longrightarrow> at_hops E s b k \<longrightarrow> j \<le> k) rs"
    "y \<in> set rs \<Longrightarrow> q \<noteq> [] \<Longrightarrow> at_hops E s y k \<Longrightarrow> k \<le> snd (hd q)"
proof -
  note c = assms [unfolded bfs_inv_def]
  show "distinct (map fst q @ rs)" "set vs = insert s (fst ` set q \<union> set rs)" "s \<notin> set rs"
    "sorted (map snd q)" "sorted_wrt (\<lambda>a b. \<forall>j k. at_hops E s a j \<longrightarrow> at_hops E s b k \<longrightarrow> j \<le> k) rs"
    using c by - (elim conjE, assumption)+
  have q: "\<forall>(x, k)\<in>set q. at_hops E s x k" "\<forall>(x, k)\<in>set q. k \<le> Suc (snd (hd q))"
    and v: "\<forall>x\<in>set vs. \<exists>k\<le>D. at_hops E s x k"
      "\<forall>x\<in>set vs - fst ` set q. \<forall>k<D. at_hops E s x k \<longrightarrow> E `` {x} \<subseteq> set vs"
    and l: "\<forall>z k. q \<noteq> [] \<longrightarrow> at_hops E s z k \<longrightarrow> k \<le> snd (hd q) \<longrightarrow> z \<in> set vs"
    and f: "\<forall>a\<in>set rs. \<forall>j. q \<noteq> [] \<longrightarrow> at_hops E s a j \<longrightarrow> j \<le> snd (hd q)"
    using c by - (elim conjE, assumption)+
  show "y \<in> set vs \<Longrightarrow> \<exists>k\<le>D. at_hops E s y k" using v(1) by (rule bspec)
  show "(y, k) \<in> set q \<Longrightarrow> at_hops E s y k" using bspec [OF q(1), of "(y, k)"] by simp
  show "(y, k) \<in> set q \<Longrightarrow> k \<le> Suc (snd (hd q))" using bspec [OF q(2), of "(y, k)"] by simp
  show "y \<in> set vs \<Longrightarrow> y \<notin> fst ` set q \<Longrightarrow> k < D \<Longrightarrow> at_hops E s y k \<Longrightarrow> E `` {y} \<subseteq> set vs"
    using v(2) by blast
  show "q \<noteq> [] \<Longrightarrow> at_hops E s y k \<Longrightarrow> k \<le> snd (hd q) \<Longrightarrow> y \<in> set vs" using l by blast
  show "y \<in> set rs \<Longrightarrow> q \<noteq> [] \<Longrightarrow> at_hops E s y k \<Longrightarrow> k \<le> snd (hd q)" using f by blast
qed

lemma bfs_inv_start: "bfs_inv E s D [s] [(s, 0)] []"
  by (auto simp: bfs_inv_def)


lemma bfs_inv_step:
  assumes inv: "bfs_inv E s D vs ((x, k) # q) rs"
    and new: "distinct new" "set new = (if k < D then E `` {x} - set vs else {})"
  shows "bfs_inv E s D (rev new @ vs) (q @ map (\<lambda>y. (y, Suc k)) new) (if 0 < k then rs @ [x] else rs)"
proof -
  let ?q = "q @ map (\<lambda>y. (y, Suc k)) new" and ?vs = "set new \<union> set vs"
  note D = bfs_invD [OF inv]
  have dist: "distinct (x # map fst q @ rs)" using D(1) by simp
  have vs: "set vs = insert s (insert x (fst ` set q \<union> set rs))" using D(2) by simp
  have srs: "s \<notin> set rs" by (rule D(3))
  have depth: "\<exists>j\<le>D. at_hops E s y j" if "y \<in> set vs" for y using D(4) that by blast
  have at_x: "at_hops E s x k" using D(5) by simp
  have at_q: "at_hops E s y j" if "(y, j) \<in> set q" for y j using D(5) that by simp
  have sorted: "sorted (map snd q)" using D(6) by simp
  have span: "k \<le> j \<and> j \<le> Suc k" if "(y, j) \<in> set q" for y j using D(6) D(7) [of y j] that by fastforce
  have closed: "E `` {y} \<subseteq> set vs"
    if "y \<in> set vs" "y \<noteq> x" "y \<notin> fst ` set q" "j < D" "at_hops E s y j" for y j
    using D(8) [of y j] that by simp
  have layer: "z \<in> set vs" if "at_hops E s z j" "j \<le> k" for z j using D(9) [of z j] that by simp
  have order: "sorted_wrt (\<lambda>a b. \<forall>j k. at_hops E s a j \<longrightarrow> at_hops E s b k \<longrightarrow> j \<le> k) rs" by (rule D(10))
  have front: "j \<le> k" if "a \<in> set rs" "at_hops E s a j" for a j using D(11) [of a j] that by simp
  have kD: "k \<le> D" using depth [of x] at_hops_unique [OF at_x] vs by auto
  have xs: "k = 0 \<longleftrightarrow> x = s" using at_x at_hops_unique [OF at_x, of 0] by auto
  have at_new: "at_hops E s y (Suc k)" "k < D" if "y \<in> set new" for y
  proof -
    from that new(2) have y: "k < D" "(x, y) \<in> E" "y \<notin> set vs" by (auto split: if_splits)
    from at_hops_step [OF at_x y(2)] obtain j where "j \<le> Suc k" "at_hops E s y j" by blast
    moreover from this y(3) layer have "\<not> j \<le> k" by blast
    ultimately show "at_hops E s y (Suc k)" by (metis le_SucE)
    show "k < D" by (fact y(1))
  qed
  have hd: "k \<le> snd (hd ?q) \<and> snd (hd ?q) \<le> Suc k \<and> snd (hd ?q) \<le> D \<and> (\<forall>(y, j)\<in>set q. snd (hd ?q) \<le> j)"
    if "?q \<noteq> []"
  proof (cases q)
    case Nil
    with that at_new(2) [of "hd new"] show ?thesis by (cases new) auto
  next
    case (Cons p ps)
    obtain y j where p: "p = (y, j)" by (cases p)
    then have "at_hops E s y j" "y \<in> set vs" using at_q Cons vs by auto
    then have "j \<le> D" using depth [of y] at_hops_unique [of E s y j] by metis
    with Cons p span [of y j] sorted show ?thesis by auto
  qed
  have reach: "z \<in> ?vs" if "?q \<noteq> []" "at_hops E s z j" "j \<le> snd (hd ?q)" for z j
  proof (cases "j \<le> k")
    case False
    with hd [OF that(1)] that(3) have j: "j = Suc k" "k < D" and far: "\<forall>(y, i)\<in>set q. Suc k \<le> i" by auto
    from at_hops_pred [OF that(2) [unfolded j(1)]] obtain p where p: "at_hops E s p k" "(p, z) \<in> E" by blast
    have "p \<in> set vs" using layer [OF p(1)] by simp
    moreover have "p \<notin> fst ` set q" using at_q far at_hops_unique [OF p(1)]
      by (metis (mono_tags, lifting) case_prodD imageE not_less_eq_eq order_refl prod.collapse)
    ultimately show ?thesis using closed [of p k] p new(2) j(2) by (cases "p = x") auto
  qed (use layer that in blast)
  have order': "sorted_wrt (\<lambda>a b. \<forall>j k. at_hops E s a j \<longrightarrow> at_hops E s b k \<longrightarrow> j \<le> k) (rs @ [x])"
    using order front at_hops_unique [OF at_x] by (auto simp: sorted_wrt_append)
  show ?thesis unfolding bfs_inv_def
  proof (intro conjI)
    have "set new \<inter> set vs = {}" using new(2) by auto
    then show "distinct (map fst ?q @ (if 0 < k then rs @ [x] else rs))"
      using dist new(1) vs by (auto simp: comp_def)
    show "set (rev new @ vs) = insert s (fst ` set ?q \<union> set (if 0 < k then rs @ [x] else rs))"
      using vs xs by (auto simp: image_Un image_image)
    show "s \<notin> set (if 0 < k then rs @ [x] else rs)" using srs xs by auto
    show "\<forall>y\<in>set (rev new @ vs). \<exists>k\<le>D. at_hops E s y k" using depth at_new by (metis Suc_leI UnE set_append set_rev)
    show "\<forall>(y, j)\<in>set ?q. at_hops E s y j" using at_q at_new by auto
    show "sorted (map snd ?q)" using sorted span
      by (auto simp: sorted_append comp_def map_replicate_const)
    show "\<forall>(y, j)\<in>set ?q. j \<le> Suc (snd (hd ?q))" using hd span by (cases "?q = []") fastforce+
    show "\<forall>y\<in>set (rev new @ vs) - fst ` set ?q. \<forall>j<D. at_hops E s y j \<longrightarrow> E `` {y} \<subseteq> set (rev new @ vs)"
    proof (intro ballI allI impI)
      fix y j assume y: "y \<in> set (rev new @ vs) - fst ` set ?q" "j < D" "at_hops E s y j"
      then have old: "y \<in> set vs" "y \<notin> fst ` set q" by (auto simp: image_Un image_image)
      show "E `` {y} \<subseteq> set (rev new @ vs)"
        using closed [OF old(1) _ old(2) y(2,3)] at_hops_unique [OF at_x] y(2,3) new(2)
        by (cases "y = x") auto
    qed
    show "\<forall>z j. ?q \<noteq> [] \<longrightarrow> at_hops E s z j \<longrightarrow> j \<le> snd (hd ?q) \<longrightarrow> z \<in> set (rev new @ vs)" using reach by simp
    show "sorted_wrt (\<lambda>a b. \<forall>j k. at_hops E s a j \<longrightarrow> at_hops E s b k \<longrightarrow> j \<le> k) (if 0 < k then rs @ [x] else rs)"
      using order order' by simp
    show "\<forall>a\<in>set (if 0 < k then rs @ [x] else rs). \<forall>j. ?q \<noteq> [] \<longrightarrow> at_hops E s a j \<longrightarrow> j \<le> snd (hd ?q)"
      using front hd at_hops_unique [OF at_x] by (fastforce split: if_splits)
  qed
qed

lemma bfs_inv_end:
  assumes "bfs_inv E s D vs [] rs"
  shows "distinct rs" "set rs = {x. x \<noteq> s \<and> (\<exists>k\<le>D. (s, x) \<in> E ^^ k)}"
    "sorted_wrt (\<lambda>a b. \<forall>k. (s, b) \<in> E ^^ k \<longrightarrow> (\<exists>j\<le>k. (s, a) \<in> E ^^ j)) rs"
proof -
  note D = bfs_invD [OF assms]
  have inv: "distinct rs" "set vs = insert s (set rs)" "s \<notin> set rs" "\<And>x. x \<in> set vs \<Longrightarrow> \<exists>k\<le>D. at_hops E s x k"
    "\<And>x k. x \<in> set vs \<Longrightarrow> k < D \<Longrightarrow> at_hops E s x k \<Longrightarrow> E `` {x} \<subseteq> set vs"
    "sorted_wrt (\<lambda>a b. \<forall>j k. at_hops E s a j \<longrightarrow> at_hops E s b k \<longrightarrow> j \<le> k) rs"
    using D(1,2,3,4,8,10) by simp_all
  show "distinct rs" by fact
  have all: "z \<in> set vs" if "at_hops E s z k" "k \<le> D" for z k
    using that
  proof (induction k arbitrary: z)
    case (Suc k)
    from at_hops_pred [OF Suc.prems(1)] obtain x where "at_hops E s x k" "(x, z) \<in> E" by blast
    with Suc inv(5) [of x k] show ?case by auto
  qed (use inv(2) in simp)
  have "x \<in> set vs \<longleftrightarrow> (\<exists>k\<le>D. (s, x) \<in> E ^^ k)" for x
    using inv(4) [of x] all [of x] at_hops_exists [of s x _ E] by (meson at_hops_def le_trans)
  then show "set rs = {x. x \<noteq> s \<and> (\<exists>k\<le>D. (s, x) \<in> E ^^ k)}" using inv(2,3) by auto
  have "\<exists>j\<le>k. (s, a) \<in> E ^^ j"
    if le: "\<forall>j k. at_hops E s a j \<longrightarrow> at_hops E s b k \<longrightarrow> j \<le> k" and "a \<in> set rs" and "(s, b) \<in> E ^^ k" for a b k
  proof -
    obtain j where "at_hops E s a j" using inv(2,4) \<open>a \<in> set rs\<close> by blast
    moreover obtain i where "at_hops E s b i" "i \<le> k" using at_hops_exists [OF \<open>(s, b) \<in> E ^^ k\<close>] by blast
    ultimately show ?thesis using le by (meson at_hops_def le_trans)
  qed
  then show "sorted_wrt (\<lambda>a b. \<forall>k. (s, b) \<in> E ^^ k \<longrightarrow> (\<exists>j\<le>k. (s, a) \<in> E ^^ j)) rs"
    by (intro sorted_wrt_mono_rel [OF _ inv(6)]) blast
qed


lemma bfs_loop_correct:
  assumes "bfs_inv (linked g) s D vs q ids" and ent: "Range (linked g) \<subseteq> dom (hm_get (entities g))"
  shows "\<exists>vs' ids'. bfs_inv (linked g) s D vs' [] ids' \<and>
    bfs_loop g D (vs, q) (map (the \<circ> hm_get (entities g)) ids) = map (the \<circ> hm_get (entities g)) ids'"
  using assms(1)
proof (induction "length q + card (indexed_nodes g - set vs)" arbitrary: vs q ids rule: less_induct)
  case less
  show ?case
  proof (cases q)
    case Nil
    with less.prems show ?thesis by auto
  next
    case (Cons p q')
    obtain x k where p: "p = (x, k)" by (cases p)
    let ?get = "the \<circ> hm_get (entities g)"
    let ?ids = "if 0 < k then ids @ [x] else ids"
    obtain new where new: "expand g x k (vs, q') = (rev new @ vs, q' @ map (\<lambda>x. (x, Suc k)) new)"
      "distinct new" "set new = linked g `` {x} - set vs" using expand_result by blast
    let ?new = "if k < D then new else []"
    let ?q = "q' @ map (\<lambda>x. (x, Suc k)) ?new"
    have inv: "bfs_inv (linked g) s D (rev ?new @ vs) ?q ?ids"
      by (rule bfs_inv_step) (use less.prems new(2,3) Cons p in auto)
    have "at_hops (linked g) s x k" using bfs_invD(5) [OF less.prems, of x k] Cons p by simp
    then have e: "\<exists>e. hm_get (entities g) x = Some e" if "0 < k"
      using at_hops_pred [of "linked g" s x "k - 1"] that ent by auto
    have "length ?q + card (indexed_nodes g - set (rev ?new @ vs)) < length q + card (indexed_nodes g - set vs)"
      using expand_measure [of g x k "(vs, q')"] new(1) Cons by simp
    from less.hyps [OF this inv] obtain vs' ids' where r: "bfs_inv (linked g) s D vs' [] ids'"
      "bfs_loop g D (rev ?new @ vs, ?q) (map ?get ?ids) = map ?get ids'" by blast
    have "bfs_loop g D (vs, q) (map ?get ids) = bfs_loop g D (rev ?new @ vs, ?q) (map ?get ?ids)"
      using e new(1) Cons p by (auto split: option.split)
    with r show ?thesis by auto
  qed
qed

section \<open>Invariant of the graph\<close>

text \<open>The edges the relations stand for, followed in either direction.\<close>

definition related :: "Relation list \<Rightarrow> (string \<times> string) set" where
  "related rs = (\<lambda>r. (rel_from r, rel_to r)) ` set rs \<union> (\<lambda>r. (rel_to r, rel_from r)) ` set rs"

definition rel_key :: "Relation \<Rightarrow> string \<times> string \<times> RelationKind" where
  "rel_key r = (rel_from r, rel_to r, rel_kind r)"

text \<open>The indexes list, for every entity, exactly the other ends of its relations, in the order of the
  relations.\<close>

definition indexed :: "KnowledgeGraph \<Rightarrow> bool" where
  "indexed g \<longleftrightarrow>
     (\<forall>x. adj_get (adjacency g) x = map rel_to (filter (\<lambda>r. rel_from r = x) (relations g)))
     \<and> (\<forall>x. adj_get (back_adjacency g) x = map rel_from (filter (\<lambda>r. rel_to r = x) (relations g)))"

definition graph_inv :: "KnowledgeGraph \<Rightarrow> bool" where
  "graph_inv g \<longleftrightarrow> hm_wf (entities g) \<and> list_all (\<lambda>(i, e). i = ent_id e) (entities g)
     \<and> list_all (\<lambda>r. hm_contains (entities g) (rel_from r) \<and> hm_contains (entities g) (rel_to r)) (relations g)
     \<and> distinct (map rel_key (relations g)) \<and> indexed g"

lemma indexed_linked: "indexed g \<Longrightarrow> linked g = related (relations g)"
  by (auto simp: indexed_def linked_def related_def)

lemma adj_get_push: "adj_get (push_entry k v m) x = adj_get m x @ (if x = k then [v] else [])"
  by (simp add: adj_get_def push_entry_def hm_get_insert)

lemma index_fold:
  "adj_get (adjacency (fold index_relation rs g)) x =
     adj_get (adjacency g) x @ map rel_to (filter (\<lambda>r. rel_from r = x) rs)"
  "adj_get (back_adjacency (fold index_relation rs g)) x =
     adj_get (back_adjacency g) x @ map rel_from (filter (\<lambda>r. rel_to r = x) rs)"
  "relations (fold index_relation rs g) = relations g" "entities (fold index_relation rs g) = entities g"
  by (induction rs arbitrary: g) (simp_all add: index_relation_def adj_get_push)

lemma rebuild_indexed: "indexed (rebuild_adjacency g)"
  by (simp add: indexed_def rebuild_adjacency_def index_fold)

lemma rebuild_frame [simp]:
  "relations (rebuild_adjacency g) = relations g" "entities (rebuild_adjacency g) = entities g"
  by (simp_all add: rebuild_adjacency_def index_fold)


lemma graph_inv_empty: "graph_inv in_memory"
  by (simp add: graph_inv_def in_memory_def indexed_def)

lemma add_entity_inv: "graph_inv g \<Longrightarrow> graph_inv (snd (add_entity g e))"
  using set_hm_insert [of "ent_id e" e "entities g"]
  by (fastforce simp: add_entity_def graph_inv_def indexed_def hm_wf_insert hm_contains_insert list_all_iff)

lemma remove_entity_inv: "graph_inv g \<Longrightarrow> graph_inv (snd (remove_entity g i))"
  using set_hm_remove [of i "entities g"] rebuild_indexed
  by (auto simp: remove_entity_def graph_inv_def hm_wf_remove hm_contains_remove list_all_iff distinct_map_filter)

lemma get_entity_mut_inv: "graph_inv g \<Longrightarrow> (\<And>e. ent_id (f e) = ent_id e) \<Longrightarrow> graph_inv (get_entity_mut g i f)"
proof (cases "hm_get (entities g) i")
  case (Some e)
  assume g: "graph_inv g" and f: "\<And>e. ent_id (f e) = ent_id e"
  have "i = ent_id e" using g map_of_SomeD [OF Some] by (auto simp: graph_inv_def list_all_iff)
  then show ?thesis using g f Some set_hm_insert [of i "f e" "entities g"]
    by (auto simp: get_entity_mut_def graph_inv_def indexed_def hm_wf_insert hm_contains_insert list_all_iff)
qed (simp add: get_entity_mut_def)

lemma add_relation_inv: "graph_inv g \<Longrightarrow> graph_inv (snd (add_relation g r))"
  by (auto simp: add_relation_def graph_inv_def indexed_def index_relation_def adj_get_push rel_key_def list_all_iff
      list_ex_iff)

lemma remove_relation_inv: "graph_inv g \<Longrightarrow> graph_inv (snd (remove_relation g a b k))"
proof -
  assume g: "graph_inv g"
  let ?P = "\<lambda>r. \<not> (rel_from r = a \<and> rel_to r = b \<and> rel_kind r = k)"
  show ?thesis
  proof (cases "length (filter ?P (relations g)) < length (relations g)")
    case True
    with g show ?thesis using rebuild_indexed
      by (auto simp: remove_relation_def graph_inv_def list_all_iff distinct_map_filter Let_def)
  next
    case False
    then have "filter ?P (relations g) = relations g"
      using length_filter_less [of _ "relations g" ?P] by (intro filter_True ballI) blast
    with g show ?thesis by (simp add: remove_relation_def Let_def)
  qed
qed

datatype graph_op =
    AddEntity Entity
  | RemoveEntity string
  | SetAttribute string string string
  | AddRelation Relation
  | RemoveRelation string string RelationKind

fun graph_step :: "KnowledgeGraph \<Rightarrow> graph_op \<Rightarrow> KnowledgeGraph" where
  "graph_step g (AddEntity e) = snd (add_entity g e)"
| "graph_step g (RemoveEntity i) = snd (remove_entity g i)"
| "graph_step g (SetAttribute i key val) = get_entity_mut g i (\<lambda>e. snd (set_attribute e key val))"
| "graph_step g (AddRelation r) = snd (add_relation g r)"
| "graph_step g (RemoveRelation a b k) = snd (remove_relation g a b k)"

interpretation graph_machine: op_machine graph_step graph_inv
proof
  fix g x assume "graph_inv g"
  then show "graph_inv (graph_step g x)"
    by (cases x) (simp_all add: add_entity_inv remove_entity_inv get_entity_mut_inv add_relation_inv
        remove_relation_inv set_attribute_def)
qed

lemma reachable_graph_inv: "graph_inv (foldl graph_step in_memory xs)"
  by (rule graph_machine.run_inv) (rule graph_inv_empty)

section \<open>Properties\<close>

text \<open>C14: after any sequence of calls the graph is sound: both ends of every relation are entities of the
  graph, no two relations agree in source, target and kind, entities are stored under their own identifier,
  and the forward and backward index list exactly the relations out of and into each entity, in order.\<close>

theorem graph_referential_integrity:
  fixes xs :: "graph_op list"
  defines "g \<equiv> foldl graph_step in_memory xs"
  shows "list_all (\<lambda>r. get_entity g (rel_from r) \<noteq> None \<and> get_entity g (rel_to r) \<noteq> None) (relations g)
    \<and> distinct (map (\<lambda>r. (rel_from r, rel_to r, rel_kind r)) (relations g))
    \<and> distinct (map fst (entities g)) \<and> list_all (\<lambda>(i, e). ent_id e = i) (entities g)
    \<and> (\<forall>i. adj_get (adjacency g) i = map rel_to (filter (\<lambda>r. rel_from r = i) (relations g))
         \<and> adj_get (back_adjacency g) i = map rel_from (filter (\<lambda>r. rel_to r = i) (relations g)))"
  using reachable_graph_inv [of xs, folded g_def]
  by (auto simp: graph_inv_def indexed_def get_entity_def hm_contains_def hm_wf_def list_all_iff rel_key_def [abs_def])

text \<open>C15: the neighbour search is exact. From an entity of the graph it returns, each once, precisely the
  other entities that a path of at most the given number of relations, followed in either direction, leads
  to, nearer ones before farther ones, and each as the graph stores it.\<close>

theorem neighbors_within_depth:
  fixes xs :: "graph_op list" and s :: string and d :: nat
  defines "g \<equiv> foldl graph_step in_memory xs"
  defines "ids \<equiv> map ent_id (find_neighbors g s d)"
  assumes "get_entity g s \<noteq> None"
  shows "distinct ids \<and> set ids = {x. x \<noteq> s \<and> (\<exists>k\<le>d. (s, x) \<in> related (relations g) ^^ k)}
    \<and> map Some (find_neighbors g s d) = map (get_entity g) ids
    \<and> sorted_wrt (\<lambda>a b. \<forall>k. (s, b) \<in> related (relations g) ^^ k \<longrightarrow> (\<exists>j\<le>k. (s, a) \<in> related (relations g) ^^ j)) ids"
proof -
  let ?get = "the \<circ> hm_get (entities g)"
  have inv: "graph_inv g" unfolding g_def by (rule reachable_graph_inv)
  then have E: "linked g = related (relations g)" by (simp add: graph_inv_def indexed_linked)
  have "y \<in> dom (hm_get (entities g))" if "(x, y) \<in> related (relations g)" for x y
    using that inv by (auto simp: related_def graph_inv_def list_all_iff hm_contains_def)
  then have "Range (linked g) \<subseteq> dom (hm_get (entities g))" unfolding E by blast
  from bfs_loop_correct [OF bfs_inv_start this, of s d] obtain vs ids' where
    r: "bfs_inv (related (relations g)) s d vs [] ids'" "bfs_loop g d ([s], [(s, 0)]) [] = map ?get ids'"
    unfolding E by auto
  note e = bfs_inv_end [OF r(1)]
  have ent: "\<exists>e. hm_get (entities g) x = Some e \<and> ent_id e = x" if "x \<in> set ids'" for x
  proof -
    from e(2) that obtain k where k: "(s, x) \<in> related (relations g) ^^ k" "x \<noteq> s" by blast
    then obtain y where "(y, x) \<in> related (relations g)" by (cases k) auto
    with \<open>Range (linked g) \<subseteq> dom (hm_get (entities g))\<close> E obtain e where "hm_get (entities g) x = Some e" by blast
    with inv show ?thesis by (auto simp: graph_inv_def list_all_iff dest!: map_of_SomeD)
  qed
  have f: "find_neighbors g s d = map ?get ids'"
    using assms(3) r(2) by (simp add: find_neighbors_def hm_contains_def get_entity_def)
  moreover have "ids = ids'" unfolding ids_def f using ent by (fastforce intro!: map_idI)
  moreover have "map Some (map ?get ids') = map (get_entity g) ids'"
    using ent by (fastforce simp: get_entity_def)
  ultimately show ?thesis using e by simp
qed


lemma neighbors_within_depth_witness:
  "let g = foldl graph_step in_memory
       [AddEntity (entity_new ''a'' Person ''A'' 0), AddEntity (entity_new ''b'' Project ''B'' 0),
        AddEntity (entity_new ''c'' Person ''C'' 0), AddRelation (relation_new ''b'' ''a'' CreatedBy 0),
        AddRelation (relation_new ''c'' ''b'' WorksAt 0)]
   in get_entity g ''a'' \<noteq> None \<and> map ent_id (find_neighbors g ''a'' 2) = [''b'', ''c'']
      \<and> {''b'', ''c''} = {x. x \<noteq> ''a'' \<and> (\<exists>k\<le>2. (''a'', x) \<in> related (relations g) ^^ k)}"
proof -
  let ?xs = "[AddEntity (entity_new ''a'' Person ''A'' 0), AddEntity (entity_new ''b'' Project ''B'' 0),
        AddEntity (entity_new ''c'' Person ''C'' 0), AddRelation (relation_new ''b'' ''a'' CreatedBy 0),
        AddRelation (relation_new ''c'' ''b'' WorksAt 0)]"
  let ?g = "foldl graph_step in_memory ?xs"
  have e: "get_entity ?g ''a'' \<noteq> None" by code_simp
  have n: "map ent_id (find_neighbors ?g ''a'' 2) = [''b'', ''c'']" by code_simp
  have "set (map ent_id (find_neighbors ?g ''a'' 2)) = {x. x \<noteq> ''a'' \<and> (\<exists>k\<le>2. (''a'', x) \<in> related (relations ?g) ^^ k)}"
    using neighbors_within_depth [of ?xs "''a''" 2, OF e] by blast
  with e n show ?thesis unfolding Let_def by (simp only: list.set) simp
qed

section \<open>Saving and loading\<close>

lemma load_entities:
  fixes es :: "Entity list"
  assumes "distinct (map fst m @ map ent_id es)"
  shows "fold (\<lambda>e m. hm_insert (ent_id e) e m) es m = m @ map (\<lambda>e. (ent_id e, e)) es"
  using assms
proof (induction es arbitrary: m)
  case (Cons e es)
  then have "hm_insert (ent_id e) e m = m @ [(ent_id e, e)]"
    by (intro hm_insert_new) (simp add: hm_contains_iff)
  with Cons show ?case by simp
qed simp

lemma load_fold:
  "entities (fold (\<lambda>e g. g\<lparr>entities := hm_insert (ent_id e) e (entities g)\<rparr>) es g) =
     fold (\<lambda>e m. hm_insert (ent_id e) e m) es (entities g)"
  "adjacency (fold (\<lambda>e g. g\<lparr>entities := hm_insert (ent_id e) e (entities g)\<rparr>) es g) = adjacency g"
  "back_adjacency (fold (\<lambda>e g. g\<lparr>entities := hm_insert (ent_id e) e (entities g)\<rparr>) es g) = back_adjacency g"
  "relations (fold (\<lambda>e g. g\<lparr>entities := hm_insert (ent_id e) e (entities g)\<rparr>) es g) = relations g"
  by (induction es arbitrary: g) simp_all

lemma load_index:
  fixes rs :: "Relation list"
  defines "h \<equiv> \<lambda>g. fold (\<lambda>r g. (index_relation r g)\<lparr>relations := relations g @ [r]\<rparr>) rs g"
  shows "adj_get (adjacency (h g)) x = adj_get (adjacency g) x @ map rel_to (filter (\<lambda>r. rel_from r = x) rs)"
    "adj_get (back_adjacency (h g)) x = adj_get (back_adjacency g) x @ map rel_from (filter (\<lambda>r. rel_to r = x) rs)"
    "relations (h g) = relations g @ rs" "entities (h g) = entities g"
  unfolding h_def by (induction rs arbitrary: g) (simp_all add: index_relation_def adj_get_push)

lemma load_snapshot:
  assumes "graph_inv g"
  shows "entities (graph_load (graph_snapshot g)) = entities g"
    "relations (graph_load (graph_snapshot g)) = relations g"
    "adj_get (adjacency (graph_load (graph_snapshot g))) = adj_get (adjacency g)"
    "adj_get (back_adjacency (graph_load (graph_snapshot g))) = adj_get (back_adjacency g)"
proof -
  have key: "ent_id (snd p) = fst p" if "p \<in> set (entities g)" for p
    using assms that by (auto simp: graph_inv_def list_all_iff)
  have k: "map (\<lambda>e. (ent_id e, e)) (map snd (entities g)) = entities g" using key by (auto intro!: map_idI)
  have "map ent_id (map snd (entities g)) = map fst (entities g)" using key by simp
  with assms have d: "distinct (map ent_id (map snd (entities g)))" by (simp only: graph_inv_def hm_wf_def)
  show "entities (graph_load (graph_snapshot g)) = entities g"
    using load_entities [of "[]" "map snd (entities g)"] d k
    by (simp add: graph_load_def graph_snapshot_def load_index load_fold in_memory_def comp_def)
  show "relations (graph_load (graph_snapshot g)) = relations g"
    "adj_get (adjacency (graph_load (graph_snapshot g))) = adj_get (adjacency g)"
    "adj_get (back_adjacency (graph_load (graph_snapshot g))) = adj_get (back_adjacency g)"
    using assms by (simp_all add: fun_eq_iff graph_load_def graph_snapshot_def load_index load_fold in_memory_def
        graph_inv_def indexed_def)
qed

lemma expand_cong:
  "adj_get (adjacency g) = adj_get (adjacency h) \<Longrightarrow> adj_get (back_adjacency g) = adj_get (back_adjacency h) \<Longrightarrow>
   expand g = expand h"
  by (simp add: expand_def fun_eq_iff)

lemma bfs_loop_cong:
  "expand g = expand h \<Longrightarrow> entities g = entities h \<Longrightarrow> bfs_loop g d s r = bfs_loop h d s r"
  by (induction g d s r rule: bfs_loop.induct) simp_all

text \<open>Saving and loading gives back the same graph: entities, relations, invariant and search results.\<close>

lemma snapshot_roundtrip:
  assumes "graph_inv g"
  shows "let h = graph_load (graph_snapshot g) in
     graph_inv h \<and> (\<forall>i. get_entity h i = get_entity g i) \<and> relations h = relations g
     \<and> (\<forall>i d. find_neighbors h i d = find_neighbors g i d)"
proof -
  note l = load_snapshot [OF assms]
  let ?h = "graph_load (graph_snapshot g)"
  have b: "bfs_loop ?h d s r = bfs_loop g d s r" for d s r
    by (intro bfs_loop_cong expand_cong l)
  have "graph_inv ?h" using assms unfolding graph_inv_def indexed_def l .
  moreover have "find_neighbors ?h i d = find_neighbors g i d" for i d
    unfolding find_neighbors_def l b ..
  ultimately show ?thesis unfolding Let_def get_entity_def l by blast
qed

section \<open>Kinds and weights\<close>

lemma custom_label_custom: "custom_label (''custom:'' @ l) = (if l = [] then None else Some l)"
  by (simp add: custom_label_def to_lower_def)

lemma custom_label_ne: "custom_label s = Some l \<Longrightarrow> l \<noteq> []"
  by (auto simp: custom_label_def Let_def split: if_splits)

lemma entity_kind_roundtrip: "k \<noteq> CustomEntity [] \<Longrightarrow> parse_entity_kind (show_entity_kind k) = Some k"
  by (cases k) (auto simp: parse_entity_kind_def custom_label_custom [simplified] to_lower_def)

lemma relation_kind_roundtrip: "k \<noteq> CustomRelation [] \<Longrightarrow> parse_relation_kind (show_relation_kind k) = Some k"
  by (cases k) (auto simp: parse_relation_kind_def custom_label_custom [simplified] to_lower_def)

lemma parsed_kinds: "parse_entity_kind s \<noteq> Some (CustomEntity [])" "parse_relation_kind s \<noteq> Some (CustomRelation [])"
  using custom_label_ne [of s] by (auto simp: parse_entity_kind_def parse_relation_kind_def Let_def split: if_splits)

lemma weight_in_unit_interval:
  "let w = weight (relation_with_weight a b k x now) in
     \<not> f32_is_nan w \<and> \<not> f32_less w 0 \<and> \<not> f32_less f32_one w
     \<and> (\<not> f32_is_nan x \<longrightarrow> \<not> f32_less x 0 \<longrightarrow> \<not> f32_less f32_one x \<longrightarrow> w = x)"
  by (auto simp: relation_with_weight_def f32_clamp_def f32_less_def f32_is_nan_def f32_one_def f32_sign_def f32_abs_def)

end
