(* ===== verification/Watchdog.thy ===== *)
theory Watchdog
  imports Anima_Prelude "HOL-Library.Sublist"
begin

unbundle bit_operations_syntax

text \<open>
  The cognitive watchdog (\<^verbatim>\<open>crates/vita/src/watchdog.rs\<close>): three streak counters over the agent's
  invocations, the first detector whose streak reaches its threshold, and the pending trip that stays until a
  reset. The texts of the reasons are constructors with the number they print. The specification reads the
  streaks off the history of invocations since the last reset.
\<close>

section \<open>Data\<close>

record WatchdogConfig =
  stuck_loop_threshold :: u32
  no_progress_threshold :: u32
  short_output_threshold :: u32
  short_output_min_chars :: nat

definition watchdog_config_default :: WatchdogConfig where
  "watchdog_config_default = \<lparr>stuck_loop_threshold = 3, no_progress_threshold = 5,
     short_output_threshold = 4, short_output_min_chars = 15\<rparr>"

datatype TripReason = OutputRepeated u32 | ZeroToolCalls u32 | ShortOutputs u32 nat

record WatchdogTrip =
  detector :: string
  reason :: TripReason
  streak :: u32

record WatchdogState =
  last_output_hash :: u64
  stuck_streak :: u32
  no_progress_streak :: u32
  short_output_streak :: u32

definition watchdog_state_default :: WatchdogState where
  "watchdog_state_default =
     \<lparr>last_output_hash = 0, stuck_streak = 0, no_progress_streak = 0, short_output_streak = 0\<rparr>"

record CognitiveWatchdog =
  config :: WatchdogConfig
  dog_state :: WatchdogState
  trip_count :: u32
  pending_trip :: "WatchdogTrip option"

section \<open>Operations\<close>

definition watchdog_new :: "WatchdogConfig \<Rightarrow> CognitiveWatchdog" where
  "watchdog_new cfg =
     \<lparr>config = cfg, dog_state = watchdog_state_default, trip_count = 0, pending_trip = None\<rparr>"

definition fnv_hash :: "string \<Rightarrow> u64" where
  "fnv_hash s = foldl (\<lambda>h c. (h XOR of_nat (of_char c)) * 1099511628211) 14695981039346656037 s"

definition evaluate_detectors :: "CognitiveWatchdog \<Rightarrow> WatchdogTrip option" where
  "evaluate_detectors w =
     (let s = dog_state w; c = config w in
      if stuck_loop_threshold c \<le> stuck_streak s then
        Some \<lparr>detector = ''StuckLoop'', reason = OutputRepeated (stuck_streak s), streak = stuck_streak s\<rparr>
      else if no_progress_threshold c \<le> no_progress_streak s then
        Some \<lparr>detector = ''NoProgress'', reason = ZeroToolCalls (no_progress_streak s), streak = no_progress_streak s\<rparr>
      else if short_output_threshold c \<le> short_output_streak s then
        Some \<lparr>detector = ''ShortOutputSpiral'',
              reason = ShortOutputs (short_output_streak s) (short_output_min_chars c), streak = short_output_streak s\<rparr>
      else None)"

definition observe :: "WatchdogConfig \<Rightarrow> WatchdogState \<Rightarrow> string \<Rightarrow> nat \<Rightarrow> WatchdogState" where
  "observe c s output tool_calls =
     (let hash = fnv_hash (trim output) in
      \<lparr>last_output_hash = hash,
       stuck_streak = (if trim output \<noteq> [] then (if hash = last_output_hash s then stuck_streak s + 1 else 1) else 0),
       no_progress_streak = (if tool_calls = 0 then no_progress_streak s + 1 else 0),
       short_output_streak = (if length (trim output) < short_output_min_chars c then short_output_streak s + 1 else 0)\<rparr>)"

definition record_invocation :: "CognitiveWatchdog \<Rightarrow> string \<Rightarrow> nat \<Rightarrow> CognitiveWatchdog" where
  "record_invocation w output tool_calls =
     (let w1 = w\<lparr>dog_state := observe (config w) (dog_state w) output tool_calls\<rparr> in
      if pending_trip w1 = None then
        (case evaluate_detectors w1 of
           None \<Rightarrow> w1
         | Some t \<Rightarrow> w1\<lparr>pending_trip := Some t, trip_count := trip_count w1 + 1\<rparr>)
      else w1)"

definition check_trip :: "CognitiveWatchdog \<Rightarrow> WatchdogTrip option" where
  "check_trip w = pending_trip w"

definition watchdog_reset :: "CognitiveWatchdog \<Rightarrow> CognitiveWatchdog" where
  "watchdog_reset w = w\<lparr>dog_state := watchdog_state_default, pending_trip := None\<rparr>"

definition is_tripped :: "CognitiveWatchdog \<Rightarrow> bool" where
  "is_tripped w \<longleftrightarrow> pending_trip w \<noteq> None"

text \<open>The rollback checkpoint; the identity document is a JSON value of a third-party type.\<close>

record 'json AgentSnapshot =
  taken_at_ns :: u64
  identity_snapshot :: 'json
  l1_node_keys :: "string list"
  snapshot_description :: string

definition agent_snapshot_new :: "u64 \<Rightarrow> 'json \<Rightarrow> string list \<Rightarrow> string \<Rightarrow> 'json AgentSnapshot" where
  "agent_snapshot_new now identity l1_keys descr =
     \<lparr>taken_at_ns = now, identity_snapshot = identity, l1_node_keys = l1_keys, snapshot_description = descr\<rparr>"

section \<open>Streaks of a history\<close>

text \<open>A history lists the invocations since the last reset, oldest first.\<close>

type_synonym invocation = "string \<times> nat"

definition trailing :: "('a \<Rightarrow> bool) \<Rightarrow> 'a list \<Rightarrow> nat" where
  "trailing P xs = length (takeWhile P (rev xs))"

fun repeats :: "string list \<Rightarrow> nat" where
  "repeats [] = 0"
| "repeats (x # xs) = (if x = [] then 0 else Suc (length (takeWhile (\<lambda>y. y \<noteq> [] \<and> fnv_hash y = fnv_hash x) xs)))"

definition repeat_run :: "invocation list \<Rightarrow> nat" where
  "repeat_run h = repeats (map (trim \<circ> fst) (rev h))"

definition idle_run :: "invocation list \<Rightarrow> nat" where
  "idle_run h = trailing (\<lambda>(_, calls). calls = 0) h"

definition short_run :: "WatchdogConfig \<Rightarrow> invocation list \<Rightarrow> nat" where
  "short_run c h = trailing (\<lambda>(output, _). length (trim output) < short_output_min_chars c) h"

text \<open>What the detectors say of a history, in their order of priority.\<close>

definition verdict :: "WatchdogConfig \<Rightarrow> invocation list \<Rightarrow> WatchdogTrip option" where
  "verdict c h =
     (if unat (stuck_loop_threshold c) \<le> repeat_run h then
        Some \<lparr>detector = ''StuckLoop'', reason = OutputRepeated (of_nat (repeat_run h)), streak = of_nat (repeat_run h)\<rparr>
      else if unat (no_progress_threshold c) \<le> idle_run h then
        Some \<lparr>detector = ''NoProgress'', reason = ZeroToolCalls (of_nat (idle_run h)), streak = of_nat (idle_run h)\<rparr>
      else if unat (short_output_threshold c) \<le> short_run c h then
        Some \<lparr>detector = ''ShortOutputSpiral'',
              reason = ShortOutputs (of_nat (short_run c h)) (short_output_min_chars c), streak = of_nat (short_run c h)\<rparr>
      else None)"

text \<open>The first verdict over the history's non-empty prefixes.\<close>

fun first_some :: "'a option list \<Rightarrow> 'a option" where
  "first_some [] = None"
| "first_some (None # xs) = first_some xs"
| "first_some (Some x # xs) = Some x"

definition first_verdict :: "WatchdogConfig \<Rightarrow> invocation list \<Rightarrow> WatchdogTrip option" where
  "first_verdict c h = first_some (map (\<lambda>n. verdict c (take n h)) [1..<Suc (length h)])"

lemma first_some_append: "first_some (xs @ ys) = (case first_some xs of None \<Rightarrow> first_some ys | Some x \<Rightarrow> Some x)"
  by (induction xs rule: first_some.induct) simp_all

lemma first_verdict_snoc:
  "first_verdict c (h @ [x]) = (case first_verdict c h of None \<Rightarrow> verdict c (h @ [x]) | Some t \<Rightarrow> Some t)"
proof -
  have "map (\<lambda>n. verdict c (take n (h @ [x]))) [1..<Suc (length h)] = map (\<lambda>n. verdict c (take n h)) [1..<Suc (length h)]"
    by (intro map_cong) auto
  moreover have "[1..<Suc (length (h @ [x]))] = [1..<Suc (length h)] @ [Suc (length h)]" by simp
  moreover have "first_some [verdict c (h @ [x])] = verdict c (h @ [x])" by (cases "verdict c (h @ [x])") simp_all
  moreover have "map (\<lambda>n. verdict c (take n (h @ [x]))) [Suc (length h)] = [verdict c (h @ [x])]" by simp
  ultimately show ?thesis unfolding first_verdict_def by (simp only: map_append first_some_append)
qed

lemma trailing_snoc: "trailing P (xs @ [x]) = (if P x then Suc (trailing P xs) else 0)"
  by (simp add: trailing_def)

lemma trailing_le: "trailing P xs \<le> length xs"
  unfolding trailing_def by (metis length_rev length_takeWhile_le)

lemma repeats_le: "repeats xs \<le> length xs"
  by (cases xs) (simp_all add: length_takeWhile_le)

lemma repeats_Cons:
  "repeats (x # xs) = (if x = [] then 0
     else case xs of [] \<Rightarrow> 1 | y # _ \<Rightarrow> if y \<noteq> [] \<and> fnv_hash y = fnv_hash x then Suc (repeats xs) else 1)"
  by (cases xs) auto

section \<open>The counters are the streaks\<close>

definition tracks :: "CognitiveWatchdog \<Rightarrow> CognitiveWatchdog \<Rightarrow> invocation list \<Rightarrow> bool" where
  "tracks w0 w h \<longleftrightarrow> config w = config w0
     \<and> stuck_streak (dog_state w) = of_nat (repeat_run h)
     \<and> no_progress_streak (dog_state w) = of_nat (idle_run h)
     \<and> short_output_streak (dog_state w) = of_nat (short_run (config w0) h)
     \<and> (h = [] \<or> last_output_hash (dog_state w) = fnv_hash (trim (fst (last h))))
     \<and> pending_trip w = first_verdict (config w0) h
     \<and> trip_count w = trip_count w0 + (if first_verdict (config w0) h = None then 0 else 1)"

lemma streak_le:
  assumes "length h < 2 ^ 32" "n \<le> length h"
  shows "t \<le> (of_nat n :: u32) \<longleftrightarrow> unat t \<le> n"
proof -
  have "n < 2 ^ LENGTH(32)" using assms by simp
  then show ?thesis by (simp add: word_le_nat_alt unat_of_nat)
qed

lemma run_lengths: "repeat_run h \<le> length h" "idle_run h \<le> length h" "short_run c h \<le> length h"
  using repeats_le [of "map (trim \<circ> fst) (rev h)"]
  by (simp_all add: repeat_run_def idle_run_def short_run_def trailing_le)

lemma evaluate_verdict:
  assumes "length h < 2 ^ 32" "tracks w0 w h"
  shows "evaluate_detectors w = verdict (config w0) h"
  using assms run_lengths(1,2) [of h] run_lengths(3) [of "config w0" h]
  by (simp add: tracks_def evaluate_detectors_def verdict_def Let_def streak_le [OF assms(1)])

lemma tracks_streaks:
  fixes c :: WatchdogConfig
  shows "repeat_run (h @ [(out, n)]) =
      (if trim out = [] then 0 else if h \<noteq> [] \<and> fnv_hash (trim (fst (last h))) = fnv_hash (trim out) \<and> trim (fst (last h)) \<noteq> []
       then Suc (repeat_run h) else 1)"
    "idle_run (h @ [(out, n)]) = (if n = 0 then Suc (idle_run h) else 0)"
    "short_run c (h @ [(out, n)]) = (if length (trim out) < short_output_min_chars c then Suc (short_run c h) else 0)"
  by (cases h rule: rev_cases; simp add: repeat_run_def repeats_Cons; fail)
    (simp_all add: idle_run_def short_run_def trailing_snoc)

lemma repeat_run_Nil [simp]: "repeat_run [] = 0"
  by (simp add: repeat_run_def)

lemma repeat_run_empty: "h \<noteq> [] \<Longrightarrow> trim (fst (last h)) = [] \<Longrightarrow> repeat_run h = 0"
  by (cases h rule: rev_cases) (simp_all add: repeat_run_def)

lemma tracks_start: "tracks w (watchdog_reset w) []"
  by (simp add: tracks_def watchdog_reset_def watchdog_state_default_def repeat_run_def idle_run_def short_run_def
      trailing_def first_verdict_def)

lemma observe_tracks:
  assumes "tracks w0 w h"
  shows "tracks w0 (w\<lparr>dog_state := observe (config w) (dog_state w) out n, pending_trip := first_verdict (config w0) (h @ [(out, n)]),
     trip_count := trip_count w0 + (if first_verdict (config w0) (h @ [(out, n)]) = None then 0 else 1)\<rparr>) (h @ [(out, n)])"
  using assms repeat_run_empty [of h]
  by (cases "h = []") (auto simp: tracks_def observe_def Let_def tracks_streaks tracks_streaks [where h = "[]", simplified])

lemma record_tracks:
  assumes "tracks w0 w h" "Suc (length h) < 2 ^ 32"
  shows "tracks w0 (record_invocation w out n) (h @ [(out, n)])"
proof -
  let ?w1 = "w\<lparr>dog_state := observe (config w) (dog_state w) out n\<rparr>"
  let ?v = "first_verdict (config w0) (h @ [(out, n)])"
  let ?w2 = "?w1\<lparr>pending_trip := ?v, trip_count := trip_count w0 + (if ?v = None then 0 else 1)\<rparr>"
  have t: "tracks w0 ?w2 (h @ [(out, n)])" by (rule observe_tracks [OF assms(1)])
  have "evaluate_detectors ?w1 = evaluate_detectors ?w2" by (simp add: evaluate_detectors_def)
  also have "\<dots> = verdict (config w0) (h @ [(out, n)])" by (rule evaluate_verdict [OF _ t]) (use assms(2) in simp)
  finally have e: "evaluate_detectors ?w1 = verdict (config w0) (h @ [(out, n)])" .
  have p: "pending_trip w = first_verdict (config w0) h" "trip_count w = trip_count w0 + (if first_verdict (config w0) h = None then 0 else 1)"
    using assms(1) by (simp_all add: tracks_def)
  have "record_invocation w out n = ?w2"
    using p e first_verdict_snoc [of "config w0" h "(out, n)"]
    by (auto simp: record_invocation_def Let_def split: option.splits)
  with t show ?thesis by simp
qed

text \<open>The watchdog trips exactly when it should. After a reset and any history of fewer than \<open>2 ^ 32\<close>
  invocations, each counter is the length of the current streak of the history (equal non-empty outputs by
  hash, invocations without tool calls, short outputs), and the pending trip is the verdict on the first prefix
  of the history for which a streak reached its threshold, with the detectors in their order of priority. A
  trip is counted once and stays pending whatever follows.\<close>

theorem watchdog_trips_exactly:
  assumes "length h < 2 ^ 32"
    and "w = foldl (\<lambda>w (out, n). record_invocation w out n) (watchdog_reset w0) h"
  shows "check_trip w = first_verdict (config w0) h
    \<and> trip_count w = trip_count w0 + (if first_verdict (config w0) h = None then 0 else 1)
    \<and> unat (stuck_streak (dog_state w)) = repeat_run h
    \<and> unat (no_progress_streak (dog_state w)) = idle_run h
    \<and> unat (short_output_streak (dog_state w)) = short_run (config w0) h"
proof -
  have "tracks w0 w h" using assms
  proof (induction h arbitrary: w rule: rev_induct)
    case (snoc x h)
    then show ?case by (cases x) (simp add: record_tracks)
  qed (simp add: tracks_start)
  moreover have "k < 2 ^ LENGTH(32)" if "k \<le> length h" for k using assms(1) that by simp
  ultimately show ?thesis using run_lengths(1,2) [of h] run_lengths(3) [of "config w0" h]
    by (simp add: tracks_def check_trip_def unat_of_nat)
qed

lemma watchdog_trips_exactly_witness:
  "let h = [(''a long enough answer'', 1), (''a long enough answer'', 2), (''a long enough answer'', 0), (''x'', 1)];
       w = foldl (\<lambda>w (out, n). record_invocation w out n) (watchdog_reset (watchdog_new watchdog_config_default)) h
   in length h < 2 ^ 32 \<and> check_trip w = Some \<lparr>detector = ''StuckLoop'', reason = OutputRepeated 3, streak = 3\<rparr>"
proof -
  let ?h = "[(''a long enough answer'', 1), (''a long enough answer'', 2), (''a long enough answer'', 0), (''x'', 1)] :: invocation list"
  let ?w0 = "watchdog_new watchdog_config_default"
  have "length ?h < 2 ^ 32" by simp
  moreover from watchdog_trips_exactly [OF this refl, of ?w0]
  have "check_trip (foldl (\<lambda>w (out, n). record_invocation w out n) (watchdog_reset ?w0) ?h)
      = first_verdict (config ?w0) ?h" by blast
  moreover have "first_verdict (config ?w0) ?h = Some \<lparr>detector = ''StuckLoop'', reason = OutputRepeated 3, streak = 3\<rparr>"
    by code_simp
  ultimately show ?thesis by (simp add: Let_def)
qed

text \<open>The count of trips accumulates across resets.\<close>

lemma reset_keeps_trip_count: "trip_count (watchdog_reset w) = trip_count w"
  by (simp add: watchdog_reset_def)

end
