(* ===== verification/Prospective.thy ===== *)
theory Prospective
  imports Mlfq
begin

text \<open>
  Prospective memory (\<^verbatim>\<open>crates/vita/src/prospective.rs\<close>): the store of future intentions, the injection
  of due ones into the scheduler's task agenda, completion and the rescheduling of recurring ones. The clock
  is an argument, as in the source. Writing the file is the argument \<open>fl\<close> of the operations that flush: the
  error the write ends with, if any; an operation changes the store before it flushes. Of \<^verbatim>\<open>open\<close> the part
  after parsing the lines is modelled.
\<close>

section \<open>Data\<close>

record Intention =
  int_id :: u64
  int_description :: string
  due_at_ns :: u64
  repeat_interval_ns :: "u64 option"
  int_created_at_ns :: u64
  dispatched :: bool

definition intention_once :: "u64 \<Rightarrow> string \<Rightarrow> u64 \<Rightarrow> u64 \<Rightarrow> Intention" where
  "intention_once i d due now = \<lparr>int_id = i, int_description = d, due_at_ns = due, repeat_interval_ns = None,
     int_created_at_ns = now, dispatched = False\<rparr>"

definition intention_recurring :: "u64 \<Rightarrow> string \<Rightarrow> u64 \<Rightarrow> u64 \<Rightarrow> u64 \<Rightarrow> Intention" where
  "intention_recurring i d due interval now = \<lparr>int_id = i, int_description = d, due_at_ns = due,
     repeat_interval_ns = Some interval, int_created_at_ns = now, dispatched = False\<rparr>"

definition intention_is_due :: "Intention \<Rightarrow> u64 \<Rightarrow> bool" where
  "intention_is_due x now \<longleftrightarrow> \<not> dispatched x \<and> due_at_ns x \<le> now"

definition overdue_ns :: "Intention \<Rightarrow> u64 \<Rightarrow> u64" where
  "overdue_ns x now = saturating_sub now (due_at_ns x)"

datatype CompletionOutcome = Removed | Rescheduled u64 | NotFound

datatype IntentionStoreError = Io string | Corrupt string

record IntentionStore =
  intentions :: "Intention list"
  next_id :: u64

definition store_in_memory :: IntentionStore where
  "store_in_memory = \<lparr>intentions = [], next_id = 0\<rparr>"

definition flushed :: "IntentionStoreError option \<Rightarrow> 'a \<Rightarrow> IntentionStoreError + 'a" where
  "flushed fl r = (case fl of None \<Rightarrow> Inr r | Some e \<Rightarrow> Inl e)"

section \<open>Operations\<close>

text \<open>Loading the parsed lines: the counter goes past every identifier, and nothing counts as
  dispatched.\<close>

definition store_open :: "Intention list \<Rightarrow> IntentionStore" where
  "store_open parsed = foldl (\<lambda>st x. \<lparr>intentions = intentions st @ [x\<lparr>dispatched := False\<rparr>],
     next_id = (if next_id st \<le> int_id x then int_id x + 1 else next_id st)\<rparr>) store_in_memory parsed"

definition add_once ::
  "IntentionStoreError option \<Rightarrow> IntentionStore \<Rightarrow> string \<Rightarrow> u64 \<Rightarrow> u64 \<Rightarrow> (IntentionStoreError + u64) \<times> IntentionStore" where
  "add_once fl st d due now =
     (let i = next_id st in
      (flushed fl i, \<lparr>intentions = intentions st @ [intention_once i d due now], next_id = i + 1\<rparr>))"

definition add_recurring ::
  "IntentionStoreError option \<Rightarrow> IntentionStore \<Rightarrow> string \<Rightarrow> u64 \<Rightarrow> u64 \<Rightarrow> u64 \<Rightarrow> (IntentionStoreError + u64) \<times> IntentionStore" where
  "add_recurring fl st d due interval now =
     (if interval = 0 then (Inl (Corrupt ''recurring interval must be greater than zero''), st)
      else let i = next_id st in
        (flushed fl i, \<lparr>intentions = intentions st @ [intention_recurring i d due interval now], next_id = i + 1\<rparr>))"

definition store_remove ::
  "IntentionStoreError option \<Rightarrow> IntentionStore \<Rightarrow> u64 \<Rightarrow> (IntentionStoreError + bool) \<times> IntentionStore" where
  "store_remove fl st i =
     (let xs = filter (\<lambda>x. int_id x \<noteq> i) (intentions st); st' = st\<lparr>intentions := xs\<rparr> in
      if length xs < length (intentions st) then (flushed fl True, st') else (Inr False, st'))"

definition next_occurrence :: "u64 \<Rightarrow> u64 \<Rightarrow> u64 \<Rightarrow> u64" where
  "next_occurrence due interval now =
     (let next_due = saturating_add due interval in
      if next_due < now then
        (let diff = saturating_sub now next_due; steps = diff div interval + 1 in
         saturating_add next_due (saturating_mul steps interval))
      else next_due)"

fun position :: "('a \<Rightarrow> bool) \<Rightarrow> 'a list \<Rightarrow> nat option" where
  "position P [] = None"
| "position P (x # xs) = (if P x then Some 0 else map_option Suc (position P xs))"

definition store_complete ::
  "IntentionStoreError option \<Rightarrow> IntentionStore \<Rightarrow> u64 \<Rightarrow> u64 \<Rightarrow> (IntentionStoreError + CompletionOutcome) \<times> IntentionStore" where
  "store_complete fl st i now =
     (let xs = intentions st in
      case position (\<lambda>x. int_id x = i) xs of
        None \<Rightarrow> (Inr NotFound, st)
      | Some pos \<Rightarrow>
          (case repeat_interval_ns (xs ! pos) of
             Some interval \<Rightarrow>
               if interval = 0 then (Inl (Corrupt ''recurring interval cannot be zero''), st)
               else let new_due = next_occurrence (due_at_ns (xs ! pos)) interval now in
                 (flushed fl (Rescheduled new_due),
                  st\<lparr>intentions := xs[pos := (xs ! pos)\<lparr>due_at_ns := new_due, dispatched := False\<rparr>]\<rparr>)
           | None \<Rightarrow> (flushed fl Removed, st\<lparr>intentions := take pos xs @ drop (Suc pos) xs\<rparr>)))"

definition DEFAULT_OVERDUE_GRACE_NS :: u64 where "DEFAULT_OVERDUE_GRACE_NS = 60 * 1000000000"

fun mark_dispatched :: "u64 \<Rightarrow> Intention list \<Rightarrow> Intention list" where
  "mark_dispatched i [] = []"
| "mark_dispatched i (x # xs) = (if int_id x = i then x\<lparr>dispatched := True\<rparr> # xs else x # mark_dispatched i xs)"

definition injected_task :: "u64 \<Rightarrow> u64 \<times> string \<times> u64 \<Rightarrow> Task" where
  "injected_task grace = (\<lambda>(i, d, overdue).
     \<lparr>task_id = i, mlfq_level = (if grace < overdue then 2 else 0), prompt = d, token_budget = Some 2048\<rparr>)"

definition inject_due_intentions ::
  "IntentionStoreError option \<Rightarrow> IntentionStore \<Rightarrow> TaskAgenda \<Rightarrow> u64 \<Rightarrow> u64
   \<Rightarrow> (IntentionStoreError + nat) \<times> IntentionStore \<times> TaskAgenda" where
  "inject_due_intentions fl st a now grace =
     (let due = map (\<lambda>x. (int_id x, int_description x, overdue_ns x now)) (filter (\<lambda>x. intention_is_due x now) (intentions st)) in
      if due = [] then (Inr 0, st, a)
      else let (xs, a', n) = foldl (\<lambda>(xs, a, n) d. (mark_dispatched (fst d) xs, agenda_push a (injected_task grace d), Suc n))
                 (intentions st, a, 0) due
           in (flushed fl n, st\<lparr>intentions := xs\<rparr>, a'))"

section \<open>Rescheduling\<close>

lemma next_occurrence_unat:
  assumes "0 < interval" "unat due + unat interval < 2 ^ 64" "unat now + unat interval < 2 ^ 64"
  shows "\<exists>m\<ge>1. unat (next_occurrence due interval now) = unat due + m * unat interval
    \<and> unat now \<le> unat (next_occurrence due interval now)
    \<and> unat (next_occurrence due interval now) \<le> max (unat due) (unat now) + unat interval"
proof -
  let ?d = "unat due" and ?i = "unat interval" and ?n = "unat now"
  have i: "0 < ?i" using assms(1) by (simp add: word_less_nat_alt)
  have nd: "unat (saturating_add due interval) = ?d + ?i" using assms(2) by (simp add: unat_saturating_add)
  show ?thesis
  proof (cases "saturating_add due interval < now")
    case False
    then show ?thesis using nd by (intro exI [of _ 1]) (auto simp: next_occurrence_def word_less_nat_alt)
  next
    case True
    let ?q = "(?n - (?d + ?i)) div ?i"
    have lt: "?d + ?i < ?n" using True nd by (simp add: word_less_nat_alt)
    have q: "?q * ?i \<le> ?n - (?d + ?i)" "?n - (?d + ?i) < Suc ?q * ?i"
      using i by (simp_all add: dividend_less_div_times add.commute)
    have "Suc ?q \<le> ?n" using lt i div_le_dividend [of "?n - (?d + ?i)" ?i] by linarith
    then have "Suc ?q < 2 ^ LENGTH(64)" using unat_lt_pow [of now] by linarith
    then have "unat (saturating_sub now (saturating_add due interval) div interval + 1) = Suc ?q"
      by (simp add: unat_word_ariths unat_div unat_saturating_sub nd)
    moreover have "Suc ?q * ?i \<le> ?n + ?i - (?d + ?i)" using q(1) lt unfolding mult_Suc by linarith
    then have b: "?d + ?i + Suc ?q * ?i \<le> ?n + ?i" using lt by linarith
    ultimately have new: "unat (next_occurrence due interval now) = ?d + ?i + Suc ?q * ?i"
      using True nd assms(3) by (simp add: next_occurrence_def Let_def unat_saturating_add unat_saturating_mul)
    have "?n \<le> ?d + ?i + Suc ?q * ?i" using q(2) by linarith
    then show ?thesis unfolding new using b lt by (intro exI [of _ "Suc (Suc ?q)"]) simp
  qed
qed

section \<open>Injection\<close>

lemma mark_dispatched_eq:
  "distinct (map int_id xs) \<Longrightarrow>
   mark_dispatched i xs = map (\<lambda>x. if int_id x = i then x\<lparr>dispatched := True\<rparr> else x) xs"
  by (induction xs) (auto simp: image_iff intro!: map_idI [symmetric])

lemma mark_ids [simp]: "map int_id (mark_dispatched i xs) = map int_id xs"
  by (induction xs) simp_all

lemma mark_all:
  "distinct (map int_id xs) \<Longrightarrow>
   foldl (\<lambda>(xs, a, n) d. (mark_dispatched (fst d) xs, agenda_push a (injected_task grace d), Suc n)) (xs, a, n) ds =
   (map (\<lambda>x. if int_id x \<in> fst ` set ds then x\<lparr>dispatched := True\<rparr> else x) xs,
    foldl agenda_push a (map (injected_task grace) ds), n + length ds)"
proof (induction ds arbitrary: xs a n)
  case (Cons d ds)
  let ?ys = "map (\<lambda>x. if int_id x = fst d then x\<lparr>dispatched := True\<rparr> else x) xs"
  have y: "mark_dispatched (fst d) xs = ?ys" by (rule mark_dispatched_eq [OF Cons.prems])
  have "distinct (map int_id ?ys)" using Cons.prems unfolding y [symmetric] by simp
  note IH = Cons.IH [OF this, of "agenda_push a (injected_task grace d)" "Suc n"]
  have "map (\<lambda>x. if int_id x \<in> fst ` set ds then x\<lparr>dispatched := True\<rparr> else x) ?ys
      = map (\<lambda>x. if int_id x \<in> fst ` set (d # ds) then x\<lparr>dispatched := True\<rparr> else x) xs"
    by (simp add: image_iff)
  with IH show ?case by (simp only: foldl_Cons prod.case y) simp
qed (simp add: map_idI)

text \<open>What one injection does to a store with distinct identifiers: the due intentions, in the order of the
  store, become tasks on the agenda and are marked; the count is their number.\<close>

lemma inject_due_exact:
  fixes st :: IntentionStore
  defines "due \<equiv> \<lambda>now. filter (\<lambda>x. intention_is_due x now) (intentions st)"
  assumes "distinct (map int_id (intentions st))"
  shows "inject_due_intentions None st a now grace =
    (Inr (length (due now)), st\<lparr>intentions := map (\<lambda>x. if intention_is_due x now then x\<lparr>dispatched := True\<rparr> else x) (intentions st)\<rparr>,
     foldl agenda_push a (map (\<lambda>x. injected_task grace (int_id x, int_description x, overdue_ns x now)) (due now)))"
    "snd (inject_due_intentions fl st a now grace) = snd (inject_due_intentions None st a now grace)"
proof -
  have same: "int_id x \<in> fst ` set (map (\<lambda>x. (int_id x, int_description x, overdue_ns x now)) (due now)) \<longleftrightarrow> intention_is_due x now"
    if "x \<in> set (intentions st)" for x
    using assms(2) that by (auto simp: due_def image_image distinct_map dest: inj_onD)
  show "inject_due_intentions None st a now grace =
    (Inr (length (due now)), st\<lparr>intentions := map (\<lambda>x. if intention_is_due x now then x\<lparr>dispatched := True\<rparr> else x) (intentions st)\<rparr>,
     foldl agenda_push a (map (\<lambda>x. injected_task grace (int_id x, int_description x, overdue_ns x now)) (due now)))"
  proof (cases "due now = []")
    case True
    then have "map (\<lambda>x. if intention_is_due x now then x\<lparr>dispatched := True\<rparr> else x) (intentions st) = intentions st"
      by (intro map_idI) (auto simp: due_def filter_empty_conv)
    with True show ?thesis by (simp add: inject_due_intentions_def due_def)
  next
    case False
    have "map (\<lambda>x. if int_id x \<in> fst ` set (map (\<lambda>x. (int_id x, int_description x, overdue_ns x now)) (due now))
            then x\<lparr>dispatched := True\<rparr> else x) (intentions st)
        = map (\<lambda>x. if intention_is_due x now then x\<lparr>dispatched := True\<rparr> else x) (intentions st)"
      by (intro map_cong refl) (simp only: same)
    with False show ?thesis unfolding inject_due_intentions_def Let_def due_def mark_all [OF assms(2)]
      by (simp add: comp_def flushed_def)
  qed
  show "snd (inject_due_intentions fl st a now grace) = snd (inject_due_intentions None st a now grace)"
    by (simp add: inject_due_intentions_def Let_def split: prod.split)
qed

section \<open>An intention is injected once until it is completed\<close>

text \<open>The store and the agenda it feeds, with the tasks the scheduler has already taken.\<close>

record reminder_sys =
  rs_store :: IntentionStore
  rs_agenda :: TaskAgenda
  rs_taken :: "Task list"

datatype reminder_op =
    Remember string u64 u64
  | RememberEvery string u64 u64 u64
  | Forget u64
  | Finish u64 u64
  | InjectDue u64 u64
  | TakeTask

fun reminder_step :: "reminder_sys \<Rightarrow> IntentionStoreError option \<times> reminder_op \<Rightarrow> reminder_sys" where
  "reminder_step s (fl, Remember d due now) = s\<lparr>rs_store := snd (add_once fl (rs_store s) d due now)\<rparr>"
| "reminder_step s (fl, RememberEvery d due ivl now) = s\<lparr>rs_store := snd (add_recurring fl (rs_store s) d due ivl now)\<rparr>"
| "reminder_step s (fl, Forget i) = s\<lparr>rs_store := snd (store_remove fl (rs_store s) i)\<rparr>"
| "reminder_step s (fl, Finish i now) = s\<lparr>rs_store := snd (store_complete fl (rs_store s) i now)\<rparr>"
| "reminder_step s (fl, InjectDue now grace) =
     (let (st, a) = snd (inject_due_intentions fl (rs_store s) (rs_agenda s) now grace)
      in s\<lparr>rs_store := st, rs_agenda := a\<rparr>)"
| "reminder_step s (fl, TakeTask) =
     (case select_optimal_task (rs_agenda s) of
        (None, a) \<Rightarrow> s\<lparr>rs_agenda := a\<rparr>
      | (Some t, a) \<Rightarrow> s\<lparr>rs_agenda := a, rs_taken := rs_taken s @ [t]\<rparr>)"

definition reminder_start :: reminder_sys where
  "reminder_start = \<lparr>rs_store = store_in_memory, rs_agenda = agenda_new, rs_taken = []\<rparr>"

definition seen :: "u64 \<Rightarrow> reminder_sys \<Rightarrow> nat" where
  "seen i s = length (filter (\<lambda>t. task_id t = i) (rs_taken s @ agenda_view (rs_agenda s)))"

definition waiting :: "u64 \<Rightarrow> Intention list \<Rightarrow> nat" where
  "waiting i xs = length (filter (\<lambda>x. int_id x = i \<and> \<not> dispatched x) xs)"

definition store_ok :: "nat \<Rightarrow> IntentionStore \<Rightarrow> bool" where
  "store_ok n st \<longleftrightarrow> distinct (map int_id (intentions st)) \<and> list_all (\<lambda>x. int_id x < next_id st) (intentions st)
     \<and> unat (next_id st) \<le> n"

definition once_inv :: "u64 \<Rightarrow> nat \<Rightarrow> reminder_sys \<Rightarrow> bool" where
  "once_inv i n s \<longleftrightarrow> store_ok n (rs_store s) \<and> agenda_inv (rs_agenda s)
     \<and> seen i s + waiting i (intentions (rs_store s)) \<le> 1 \<and> (next_id (rs_store s) \<le> i \<longrightarrow> seen i s = 0)"

lemma count_stable_insert:
  "length (filter P (stable_insert key x ys)) = (if P x then 1 else 0) + length (filter P ys)"
  by (induction ys) auto

lemma count_pushes:
  "agenda_inv a \<Longrightarrow> agenda_inv (foldl agenda_push a ts) \<and>
   length (filter P (agenda_view (foldl agenda_push a ts))) = length (filter P ts) + length (filter P (agenda_view a))"
  by (induction ts arbitrary: a) (simp_all add: agenda_pq.inv_push agenda_pq.view_push count_stable_insert)

lemma waiting_bound: "list_all (\<lambda>x. int_id x < k) xs \<Longrightarrow> k \<le> i \<Longrightarrow> waiting i xs = 0"
  by (auto simp: waiting_def list_all_iff filter_empty_conv)

lemma store_ok_add:
  assumes "store_ok n st" "Suc n < 2 ^ 64" "int_id x = next_id st"
  shows "store_ok (Suc n) \<lparr>intentions = intentions st @ [x], next_id = next_id st + 1\<rparr>"
proof -
  have "unat (next_id st + 1) = Suc (unat (next_id st))"
    using assms(1,2) by (simp add: store_ok_def unat_word_ariths)
  then show ?thesis using assms by (fastforce simp: store_ok_def list_all_iff word_less_nat_alt)
qed

lemma once_add:
  assumes "once_inv i n s" "Suc n < 2 ^ 64" "int_id x = next_id (rs_store s)" "\<not> dispatched x"
  shows "once_inv i (Suc n) (s\<lparr>rs_store := \<lparr>intentions = intentions (rs_store s) @ [x], next_id = next_id (rs_store s) + 1\<rparr>\<rparr>)"
proof -
  have ok: "store_ok n (rs_store s)" using assms(1) by (simp add: once_inv_def)
  have "unat (next_id (rs_store s) + 1) = Suc (unat (next_id (rs_store s)))"
    using ok assms(2) by (simp add: store_ok_def unat_word_ariths)
  moreover have "waiting i (intentions (rs_store s)) = 0" if "next_id (rs_store s) \<le> i"
    using ok that by (auto simp: store_ok_def intro: waiting_bound)
  ultimately show ?thesis using assms store_ok_add [OF ok assms(2,3)]
    by (auto simp: once_inv_def seen_def waiting_def word_le_nat_alt)
qed

lemma once_shrink:
  assumes "once_inv i n s" "distinct (map int_id xs)" "int_id ` set xs \<subseteq> int_id ` set (intentions (rs_store s))"
    "waiting i xs \<le> waiting i (intentions (rs_store s))"
  shows "once_inv i (Suc n) (s\<lparr>rs_store := (rs_store s)\<lparr>intentions := xs\<rparr>\<rparr>)"
  using assms by (fastforce simp: once_inv_def store_ok_def list_all_iff seen_def)

lemma store_ok_mono: "once_inv i n s \<Longrightarrow> once_inv i (Suc n) s"
  by (auto simp: once_inv_def store_ok_def)

lemma position_Some: "position P xs = Some k \<Longrightarrow> k < length xs \<and> P (xs ! k)"
  by (induction xs arbitrary: k) (auto split: if_splits)

lemma once_complete:
  assumes inv: "once_inv i n s" and "j \<noteq> i"
  shows "once_inv i (Suc n) (s\<lparr>rs_store := snd (store_complete fl (rs_store s) j now)\<rparr>)"
proof (cases "position (\<lambda>x. int_id x = j) (intentions (rs_store s))")
  case None
  then show ?thesis using store_ok_mono [OF inv] by (simp add: store_complete_def)
next
  case (Some k)
  let ?xs = "intentions (rs_store s)"
  have k: "k < length ?xs" "int_id (?xs ! k) = j" using position_Some [OF Some] by auto
  have split: "?xs = take k ?xs @ ?xs ! k # drop (Suc k) ?xs" by (rule id_take_nth_drop [OF k(1)])
  have dist: "distinct (map int_id ?xs)" using inv by (simp add: once_inv_def store_ok_def)
  show ?thesis
  proof (cases "repeat_interval_ns (?xs ! k)")
    case None
    have "distinct (map int_id (take k ?xs @ ?xs ! k # drop (Suc k) ?xs))" using dist split by simp
    then have "distinct (map int_id (take k ?xs @ drop (Suc k) ?xs))" by auto
    moreover have "int_id ` set (take k ?xs @ drop (Suc k) ?xs) \<subseteq> int_id ` set ?xs"
      by (auto dest: in_set_takeD in_set_dropD)
    moreover have "waiting i (take k ?xs @ drop (Suc k) ?xs) \<le> waiting i ?xs"
      by (subst (3) split) (simp add: waiting_def)
    ultimately show ?thesis using once_shrink [OF inv] None Some by (simp add: store_complete_def Let_def)
  next
    case int: (Some ivl)
    let ?y = "(?xs ! k)\<lparr>due_at_ns := next_occurrence (due_at_ns (?xs ! k)) ivl now, dispatched := False\<rparr>"
    have ids: "map int_id (?xs[k := ?y]) = map int_id ?xs"
      using k by (simp add: map_update list_update_same_conv)
    then have "int_id ` set (?xs[k := ?y]) = int_id ` set ?xs" by (metis list.set_map)
    moreover have "waiting i (?xs[k := ?y]) = waiting i ?xs"
      using k assms(2) by (subst (2) split) (simp add: waiting_def upd_conv_take_nth_drop)
    ultimately have "once_inv i (Suc n) (s\<lparr>rs_store := (rs_store s)\<lparr>intentions := ?xs[k := ?y]\<rparr>\<rparr>)"
      using dist ids by (intro once_shrink [OF inv]) simp_all
    then show ?thesis using store_ok_mono [OF inv] int Some by (simp add: store_complete_def Let_def)
  qed
qed

lemma waiting_marked:
  "waiting i (map (\<lambda>x. if intention_is_due x now then x\<lparr>dispatched := True\<rparr> else x) xs)
     + length (filter (\<lambda>x. intention_is_due x now \<and> int_id x = i) xs) = waiting i xs"
  by (induction xs) (auto simp: waiting_def intention_is_due_def)

lemma once_inject:
  assumes inv: "once_inv i n s"
  shows "once_inv i (Suc n) (reminder_step s (fl, InjectDue now grace))"
proof -
  let ?xs = "intentions (rs_store s)"
  let ?ts = "map (\<lambda>x. injected_task grace (int_id x, int_description x, overdue_ns x now)) (filter (\<lambda>x. intention_is_due x now) ?xs)"
  let ?ys = "map (\<lambda>x. if intention_is_due x now then x\<lparr>dispatched := True\<rparr> else x) ?xs"
  have ok: "store_ok n (rs_store s)" and a: "agenda_inv (rs_agenda s)" using inv by (simp_all add: once_inv_def)
  then have d: "distinct (map int_id ?xs)" by (simp add: store_ok_def)
  have step: "reminder_step s (fl, InjectDue now grace) =
      s\<lparr>rs_store := (rs_store s)\<lparr>intentions := ?ys\<rparr>, rs_agenda := foldl agenda_push (rs_agenda s) ?ts\<rparr>"
    using inject_due_exact(1) [OF d, of "rs_agenda s" now grace] inject_due_exact(2) [OF d, of fl "rs_agenda s" now grace]
    by simp
  have c: "length (filter (\<lambda>t. task_id t = i) ?ts) = length (filter (\<lambda>x. intention_is_due x now \<and> int_id x = i) ?xs)"
    by (simp add: injected_task_def filter_map comp_def conj_commute)
  have ids: "map int_id ?ys = map int_id ?xs" by simp
  have "store_ok (Suc n) ((rs_store s)\<lparr>intentions := ?ys\<rparr>)"
    using ok ids by (auto simp: store_ok_def list_all_iff simp del: map_map)
  moreover have "seen i (reminder_step s (fl, InjectDue now grace)) + waiting i ?ys = seen i s + waiting i ?xs"
    using waiting_marked [of i now ?xs] count_pushes [OF a, of ?ts "\<lambda>t. task_id t = i"] c
    unfolding step by (simp add: seen_def)
  moreover have "waiting i ?xs = 0" if "next_id (rs_store s) \<le> i"
    using ok that by (auto simp: store_ok_def intro: waiting_bound)
  ultimately show ?thesis using inv count_pushes [OF a, of ?ts "\<lambda>_. True"] unfolding once_inv_def step
    by auto
qed

lemma once_step:
  assumes inv: "once_inv i n s" and "Suc n < 2 ^ 64" and "\<And>now. snd x \<noteq> Finish i now"
  shows "once_inv i (Suc n) (reminder_step s x)"
proof -
  obtain fl op where x: "x = (fl, op)" by (cases x)
  show ?thesis
  proof (cases op)
    case (Remember d due now)
    then show ?thesis using once_add [OF assms(1,2)] x by (simp add: add_once_def Let_def intention_once_def)
  next
    case (RememberEvery d due ivl now)
    then show ?thesis using once_add [OF assms(1,2)] store_ok_mono [OF inv] x
      by (simp add: add_recurring_def Let_def intention_recurring_def)
  next
    case (Forget j)
    have "waiting i (filter (\<lambda>x. int_id x \<noteq> j) ys) \<le> waiting i ys" for ys
      by (induction ys) (auto simp: waiting_def)
    moreover have "distinct (map int_id (filter (\<lambda>x. int_id x \<noteq> j) (intentions (rs_store s))))"
      using inv by (simp add: once_inv_def store_ok_def distinct_map_filter)
    moreover have "int_id ` set (filter (\<lambda>x. int_id x \<noteq> j) (intentions (rs_store s))) \<subseteq> int_id ` set (intentions (rs_store s))"
      by auto
    ultimately have "once_inv i (Suc n) (s\<lparr>rs_store := (rs_store s)\<lparr>intentions := filter (\<lambda>x. int_id x \<noteq> j) (intentions (rs_store s))\<rparr>\<rparr>)"
      by (intro once_shrink [OF inv])
    then show ?thesis using Forget x by (simp add: store_remove_def Let_def)
  next
    case (Finish j now)
    then show ?thesis using once_complete [OF inv] assms(3) x by auto
  next
    case (InjectDue now grace)
    then show ?thesis using once_inject [OF inv] x by simp
  next
    case TakeTask
    obtain r a where sel: "select_optimal_task (rs_agenda s) = (r, a)" by fastforce
    have "agenda_inv (rs_agenda s)" using inv by (simp add: once_inv_def)
    from agenda_pq.inv_select [OF this] select_view [of "rs_agenda s"] sel
    have "agenda_inv a" "case r of None \<Rightarrow> agenda_view (rs_agenda s) = [] | Some t \<Rightarrow> agenda_view (rs_agenda s) = t # agenda_view a"
      "r = None \<Longrightarrow> agenda_view a = []"
      by (auto split: list.splits)
    then show ?thesis using store_ok_mono [OF inv] sel TakeTask x
      by (auto simp: once_inv_def seen_def split: option.splits)
  qed
qed

lemma once_run:
  "n + length xs < 2 ^ 64 \<Longrightarrow> list_all (\<lambda>x. \<forall>now. snd x \<noteq> Finish i now) xs \<Longrightarrow> once_inv i n s \<Longrightarrow>
   once_inv i (n + length xs) (foldl reminder_step s xs)"
proof (induction xs arbitrary: n s)
  case (Cons x xs)
  then have "once_inv i (Suc n) (reminder_step s x)" by (intro once_step) auto
  with Cons.IH [of "Suc n" "reminder_step s x"] Cons.prems show ?case by simp
qed simp

lemma once_start: "once_inv i 0 reminder_start"
proof -
  have "agenda_view agenda_new = []" by (simp add: agenda_view_def agenda_new_def)
  then show ?thesis
    by (simp add: once_inv_def reminder_start_def store_in_memory_def store_ok_def agenda_new_inv seen_def waiting_def)
qed

text \<open>An intention becomes at most one task until it is completed. Whatever is remembered, forgotten,
  completed, injected and taken from the agenda, and whether or not the writes to disk succeed, as long as the
  intention itself is not completed there is at most one task with its identifier among those taken and those
  still waiting on the agenda.\<close>

theorem intention_injected_once:
  assumes "length xs < 2 ^ 64" and "list_all (\<lambda>x. \<forall>now. snd x \<noteq> Finish i now) xs"
    and "s = foldl reminder_step reminder_start xs"
  shows "length (filter (\<lambda>t. task_id t = i) (rs_taken s @ agenda_view (rs_agenda s))) \<le> 1"
  using once_run [of 0 xs i, OF _ assms(2) once_start] assms(1,3) by (simp add: once_inv_def seen_def)

lemma intention_injected_once_witness:
  "let xs = [(None, Remember ''call back'' 5 0), (None, InjectDue 6 60), (Some (Io ''disk full''), InjectDue 7 60)];
       s = foldl reminder_step reminder_start xs
   in length (filter (\<lambda>t. task_id t = 0) (rs_taken s @ agenda_view (rs_agenda s))) \<le> 1
      \<and> map prompt (agenda_view (rs_agenda s)) = [''call back'']"
proof -
  let ?xs = "[(None, Remember ''call back'' 5 0), (None, InjectDue 6 60), (Some (Io ''disk full''), InjectDue 7 60)]"
  have "length ?xs < 2 ^ 64" "list_all (\<lambda>x. \<forall>now. snd x \<noteq> Finish 0 now) ?xs" by simp_all
  from intention_injected_once [OF this refl]
  have "length (filter (\<lambda>t. task_id t = 0) (rs_taken (foldl reminder_step reminder_start ?xs)
      @ agenda_view (rs_agenda (foldl reminder_step reminder_start ?xs)))) \<le> 1" .
  moreover have "map prompt (agenda_view (rs_agenda (foldl reminder_step reminder_start ?xs))) = [''call back'']"
    by code_simp
  ultimately show ?thesis unfolding Let_def by blast
qed

text \<open>Completing a recurring intention moves it to its next occurrence. If neither the due time nor the
  clock is within one interval of the end of the 64-bit range, the new due time lies on the grid of the old
  one, strictly later, not before the clock and at most one interval after the later of the old due time and
  the clock, so missed occurrences are skipped; the intention is armed again and nothing else changes.\<close>

theorem complete_reschedules:
  assumes "intentions st = xs @ x # ys" and "i \<notin> int_id ` set xs" and "int_id x = i"
    and "repeat_interval_ns x = Some interval" and "interval \<noteq> 0"
    and "unat (due_at_ns x) + unat interval < 2 ^ 64" and "unat now + unat interval < 2 ^ 64"
  shows "\<exists>due m. store_complete None st i now =
        (Inr (Rescheduled due), st\<lparr>intentions := xs @ x\<lparr>due_at_ns := due, dispatched := False\<rparr> # ys\<rparr>)
      \<and> 1 \<le> m \<and> unat due = unat (due_at_ns x) + m * unat interval \<and> now \<le> due
      \<and> unat due \<le> max (unat (due_at_ns x)) (unat now) + unat interval"
proof -
  have "position (\<lambda>x. int_id x = i) (xs @ x # ys) = Some (length xs)"
    using assms(2,3) by (induction xs) auto
  then have "store_complete None st i now = (Inr (Rescheduled (next_occurrence (due_at_ns x) interval now)),
      st\<lparr>intentions := xs @ x\<lparr>due_at_ns := next_occurrence (due_at_ns x) interval now, dispatched := False\<rparr> # ys\<rparr>)"
    using assms(1,4,5) by (simp add: store_complete_def Let_def flushed_def)
  moreover have "0 < interval" using assms(5) by (simp add: word_neq_0_conv)
  ultimately show ?thesis using next_occurrence_unat [of interval "due_at_ns x" now] assms(6,7)
    by (auto simp: word_le_nat_alt)
qed

lemma complete_reschedules_witness:
  "let x = intention_recurring 3 ''water the plants'' 100 10 0; st = \<lparr>intentions = [x], next_id = 4\<rparr> in
     \<exists>due m. store_complete None st 3 125 =
        (Inr (Rescheduled due), st\<lparr>intentions := [x\<lparr>due_at_ns := due, dispatched := False\<rparr>]\<rparr>)
      \<and> 1 \<le> m \<and> unat due = 100 + m * 10 \<and> 125 \<le> due \<and> unat due \<le> 135"
  using complete_reschedules [of "\<lparr>intentions = [intention_recurring 3 ''water the plants'' 100 10 0], next_id = 4\<rparr>"
      "[]" "intention_recurring 3 ''water the plants'' 100 10 0" "[]" 3 10 125]
  by (simp add: Let_def intention_recurring_def)

text \<open>After a restart every loaded intention is armed again and the counter is past the loaded
  identifiers. It does not go past those of intentions removed before: an identifier is handed out twice.\<close>

lemma open_rearms: "intentions (store_open xs) = map (\<lambda>x. x\<lparr>dispatched := False\<rparr>) xs"
proof -
  have "intentions (foldl (\<lambda>st x. \<lparr>intentions = intentions st @ [x\<lparr>dispatched := False\<rparr>],
     next_id = (if next_id st \<le> int_id x then int_id x + 1 else next_id st)\<rparr>) st xs) =
     intentions st @ map (\<lambda>x. x\<lparr>dispatched := False\<rparr>) xs" for st
    by (induction xs arbitrary: st) simp_all
  then show ?thesis by (simp add: store_open_def store_in_memory_def)
qed

lemma restart_reuses_identifier:
  "let st = snd (add_once None (snd (add_once None store_in_memory ''a'' 1 0)) ''b'' 2 0);
       st' = store_open (intentions (snd (store_remove None st 1)))
   in fst (add_once None st' ''c'' 3 0) = Inr 1"
  by (simp add: Let_def add_once_def store_remove_def store_open_def store_in_memory_def intention_once_def flushed_def)

end
