(* ===== verification/Approval_Queue.thy ===== *)
theory Approval_Queue
  imports Anima_Prelude
begin

text \<open>
  The operator's approval queue for self-extension proposals (\<^verbatim>\<open>crates/lifecycle/src/approval.rs\<close>):
  proposals with their status, the decisions, and the embedded log. The wall clock is an argument of the
  decisions; the texts of the errors are constructors. The specification is the history an operator can read
  back from the log.
\<close>

section \<open>Data\<close>

datatype ProposalKind =
    NewSkill string string string
  | NewTool string string string "string list"
  | WeightUpdate string string "u32 option" string

fun kind_label :: "ProposalKind \<Rightarrow> string" where
  "kind_label (NewSkill _ _ _) = ''new-skill''"
| "kind_label (NewTool _ _ _ _) = ''new-tool''"
| "kind_label (WeightUpdate _ _ _ _) = ''weight-update''"

datatype ProposalStatus =
    Pending
  | Approved u64 string
  | Rejected u64 string
  | RolledBack u64 string

record SandboxTestResult =
  passed :: bool
  fuel_consumed :: u64
  peak_memory_bytes :: u64
  sandbox_summary :: string

record DefenceVerdict =
  cleared :: bool
  flagged_by :: "string list"
  verdict_summary :: string

record Proposal =
  prop_id :: string
  prop_kind :: ProposalKind
  prop_created_at_ns :: u64
  prop_provenance :: string
  sandbox_result :: "SandboxTestResult option"
  defence_verdict :: "DefenceVerdict option"
  prop_status :: ProposalStatus

definition is_pending :: "Proposal \<Rightarrow> bool" where
  "is_pending p \<longleftrightarrow> prop_status p = Pending"

definition is_approved :: "Proposal \<Rightarrow> bool" where
  "is_approved p \<longleftrightarrow> (case prop_status p of Approved _ _ \<Rightarrow> True | _ \<Rightarrow> False)"

record ApprovalLogEntry =
  proposal_id :: string
  action :: string
  timestamp_ns :: u64
  log_reason :: "string option"

record ApprovalQueue =
  proposals :: "(string \<times> Proposal) list"
  insertion_order :: "string list"
  approval_log :: "ApprovalLogEntry list"

datatype ApprovalError = ProposalNotFound string | ProposalNotPending string ProposalStatus | ProposalNotApproved string ProposalStatus

section \<open>Operations\<close>

definition queue_new :: ApprovalQueue where
  "queue_new = \<lparr>proposals = [], insertion_order = [], approval_log = []\<rparr>"

definition enqueue :: "ApprovalQueue \<Rightarrow> Proposal \<Rightarrow> bool \<times> ApprovalQueue" where
  "enqueue q p =
     (if hm_contains (proposals q) (prop_id p) then (False, q)
      else (True, \<lparr>proposals = hm_insert (prop_id p) p (proposals q), insertion_order = insertion_order q @ [prop_id p],
        approval_log = approval_log q @ [\<lparr>proposal_id = prop_id p, action = ''enqueued'',
          timestamp_ns = prop_created_at_ns p, log_reason = None\<rparr>]\<rparr>))"

text \<open>The common tail of the decisions: the new status, and its entry in the log.\<close>

definition decide :: "ApprovalQueue \<Rightarrow> string \<Rightarrow> Proposal \<Rightarrow> ProposalStatus \<Rightarrow> string \<Rightarrow> u64 \<Rightarrow> string \<Rightarrow> ApprovalQueue" where
  "decide q i p st act ts r =
     q\<lparr>proposals := hm_insert i (p\<lparr>prop_status := st\<rparr>) (proposals q),
       approval_log := approval_log q @ [\<lparr>proposal_id = i, action = act, timestamp_ns = ts, log_reason = Some r\<rparr>]\<rparr>"

definition approve :: "ApprovalQueue \<Rightarrow> string \<Rightarrow> string \<Rightarrow> u64 \<Rightarrow> (ApprovalError + unit) \<times> ApprovalQueue" where
  "approve q i r ts =
     (case hm_get (proposals q) i of
        None \<Rightarrow> (Inl (ProposalNotFound i), q)
      | Some p \<Rightarrow> if \<not> is_pending p then (Inl (ProposalNotPending i (prop_status p)), q)
                  else (Inr (), decide q i p (Approved ts r) ''approved'' ts r))"

definition reject :: "ApprovalQueue \<Rightarrow> string \<Rightarrow> string \<Rightarrow> u64 \<Rightarrow> (ApprovalError + unit) \<times> ApprovalQueue" where
  "reject q i r ts =
     (case hm_get (proposals q) i of
        None \<Rightarrow> (Inl (ProposalNotFound i), q)
      | Some p \<Rightarrow> if \<not> is_pending p then (Inl (ProposalNotPending i (prop_status p)), q)
                  else (Inr (), decide q i p (Rejected ts r) ''rejected'' ts r))"

definition rollback :: "ApprovalQueue \<Rightarrow> string \<Rightarrow> string \<Rightarrow> u64 \<Rightarrow> (ApprovalError + unit) \<times> ApprovalQueue" where
  "rollback q i r ts =
     (case hm_get (proposals q) i of
        None \<Rightarrow> (Inl (ProposalNotFound i), q)
      | Some p \<Rightarrow> if \<not> is_approved p then (Inl (ProposalNotApproved i (prop_status p)), q)
                  else (Inr (), decide q i p (RolledBack ts r) ''rolled_back'' ts r))"

definition queue_all :: "ApprovalQueue \<Rightarrow> Proposal list" where
  "queue_all q = List.map_filter (hm_get (proposals q)) (insertion_order q)"

definition queue_pending :: "ApprovalQueue \<Rightarrow> Proposal list" where
  "queue_pending q = filter is_pending (queue_all q)"

definition queue_approved :: "ApprovalQueue \<Rightarrow> Proposal list" where
  "queue_approved q = filter is_approved (queue_all q)"

definition queue_get :: "ApprovalQueue \<Rightarrow> string \<Rightarrow> Proposal option" where
  "queue_get q i = hm_get (proposals q) i"

definition approval_len :: "ApprovalQueue \<Rightarrow> nat" where
  "approval_len q = length (proposals q)"

section \<open>Life cycle\<close>

fun status_edge :: "ProposalStatus \<Rightarrow> ProposalStatus \<Rightarrow> bool" where
  "status_edge Pending (Approved _ _) = True"
| "status_edge Pending (Rejected _ _) = True"
| "status_edge (Approved _ _) (RolledBack _ _) = True"
| "status_edge _ _ = False"

fun closed :: "ProposalStatus \<Rightarrow> bool" where
  "closed (Rejected _ _) = True"
| "closed (RolledBack _ _) = True"
| "closed _ = False"

interpretation proposal_life: life_cycle status_edge closed
proof
  show "t = s" if "closed s" "status_edge s t" for s t
    using that by (cases s) simp_all
qed

section \<open>The log accounts for every status\<close>

datatype queue_op =
    Enqueue Proposal
  | Approve string string u64
  | Reject string string u64
  | Rollback string string u64

fun queue_step :: "ApprovalQueue \<Rightarrow> queue_op \<Rightarrow> ApprovalQueue" where
  "queue_step q (Enqueue p) = snd (enqueue q p)"
| "queue_step q (Approve i r ts) = snd (approve q i r ts)"
| "queue_step q (Reject i r ts) = snd (reject q i r ts)"
| "queue_step q (Rollback i r ts) = snd (rollback q i r ts)"

definition submits_pending :: "queue_op \<Rightarrow> bool" where
  "submits_pending x \<longleftrightarrow> (case x of Enqueue p \<Rightarrow> is_pending p | _ \<Rightarrow> True)"

text \<open>The entries of one proposal that its record is to be read off from: its submission, then the
  decisions in order.\<close>

fun decisions :: "ProposalStatus \<Rightarrow> (string \<times> u64 \<times> string) list \<Rightarrow> bool" where
  "decisions Pending ds \<longleftrightarrow> ds = []"
| "decisions (Approved ts r) ds \<longleftrightarrow> ds = [(''approved'', ts, r)]"
| "decisions (Rejected ts r) ds \<longleftrightarrow> ds = [(''rejected'', ts, r)]"
| "decisions (RolledBack ts r) ds \<longleftrightarrow> (\<exists>ts0 r0. ds = [(''approved'', ts0, r0), (''rolled_back'', ts, r)])"

definition entries_of :: "string \<Rightarrow> ApprovalQueue \<Rightarrow> (string \<times> u64 \<times> string option) list" where
  "entries_of i q = map (\<lambda>e. (action e, timestamp_ns e, log_reason e)) (filter (\<lambda>e. proposal_id e = i) (approval_log q))"

definition accounts :: "Proposal \<Rightarrow> (string \<times> u64 \<times> string option) list \<Rightarrow> bool" where
  "accounts p es \<longleftrightarrow> (\<exists>ds. es = (''enqueued'', prop_created_at_ns p, None) # map (\<lambda>(a, t, r). (a, t, Some r)) ds
     \<and> decisions (prop_status p) ds)"

definition accounted :: "ApprovalQueue \<Rightarrow> string \<Rightarrow> bool" where
  "accounted q i \<longleftrightarrow> (case hm_get (proposals q) i of
       None \<Rightarrow> entries_of i q = []
     | Some p \<Rightarrow> prop_id p = i \<and> accounts p (entries_of i q))"

definition ordered :: "ApprovalQueue \<Rightarrow> bool" where
  "ordered q \<longleftrightarrow> set (insertion_order q) = dom (hm_get (proposals q))
     \<and> insertion_order q = map proposal_id (filter (\<lambda>e. action e = ''enqueued'') (approval_log q))"

definition queue_inv :: "ApprovalQueue \<Rightarrow> bool" where
  "queue_inv q \<longleftrightarrow> ordered q \<and> (\<forall>i. accounted q i)"

lemma orderedD:
  assumes "queue_inv q"
  shows "set (insertion_order q) = dom (hm_get (proposals q))"
    "insertion_order q = map proposal_id (filter (\<lambda>e. action e = ''enqueued'') (approval_log q))"
  using assms unfolding queue_inv_def ordered_def by blast+

lemma decide_inv:
  assumes inv: "queue_inv q" and p: "hm_get (proposals q) i = Some p" and act: "act \<noteq> ''enqueued''"
    and ds: "\<And>ds. decisions (prop_status p) ds \<Longrightarrow> decisions st (ds @ [(act, ts, r)])"
  shows "queue_inv (decide q i p st act ts r)"
proof -
  let ?q = "decide q i p st act ts r"
  have old: "accounted q j" for j using inv by (simp add: queue_inv_def)
  note o = orderedD [OF inv]
  from old [of i] p obtain d where d: "prop_id p = i" "decisions (prop_status p) d"
    "entries_of i q = (''enqueued'', prop_created_at_ns p, None) # map (\<lambda>(a, t, r). (a, t, Some r)) d"
    by (auto simp: accounts_def accounted_def)
  have g: "hm_get (proposals ?q) j = (if j = i then Some (p\<lparr>prop_status := st\<rparr>) else hm_get (proposals q) j)" for j
    by (simp add: decide_def hm_get_insert)
  have "accounts (p\<lparr>prop_status := st\<rparr>) (entries_of i ?q)"
    using ds [OF d(2)] d(3) by (auto simp: accounts_def decide_def entries_of_def intro!: exI [of _ "d @ [(act, ts, r)]"])
  moreover have "entries_of j ?q = entries_of j q" if "j \<noteq> i" for j
    using that by (simp add: decide_def entries_of_def)
  ultimately have "accounted ?q j" for j
    using old [of j] d(1) unfolding accounted_def g by (cases "j = i") (auto split: option.splits)
  moreover have "ordered ?q" unfolding ordered_def
  proof
    show "set (insertion_order ?q) = dom (hm_get (proposals ?q))"
      using o(1) p by (auto simp: decide_def hm_get_insert split: if_splits)
    show "insertion_order ?q = map proposal_id (filter (\<lambda>e. action e = ''enqueued'') (approval_log ?q))"
      using o(2) act by (simp add: decide_def)
  qed
  ultimately show ?thesis by (simp add: queue_inv_def)
qed

lemma enqueue_inv:
  assumes inv: "queue_inv q" and "is_pending p"
  shows "queue_inv (snd (enqueue q p))"
proof (cases "hm_contains (proposals q) (prop_id p)")
  case False
  let ?q = "snd (enqueue q p)"
  have old: "accounted q j" for j using inv by (simp add: queue_inv_def)
  note o = orderedD [OF inv]
  have n: "hm_get (proposals q) (prop_id p) = None" using False by (simp add: hm_contains_def)
  have e: "entries_of j ?q = entries_of j q @ (if j = prop_id p then [(''enqueued'', prop_created_at_ns p, None)] else [])" for j
    using False by (simp add: enqueue_def entries_of_def)
  have "accounts p [(''enqueued'', prop_created_at_ns p, None)]"
    using assms(2) by (simp add: accounts_def is_pending_def)
  then have "accounted ?q j" for j
    using old [of j] n False unfolding accounted_def e by (auto simp: enqueue_def hm_get_insert split: option.splits)
  moreover have "ordered ?q" unfolding ordered_def
  proof
    show "set (insertion_order ?q) = dom (hm_get (proposals ?q))"
      using o(1) False by (auto simp: enqueue_def hm_get_insert split: if_splits)
    show "insertion_order ?q = map proposal_id (filter (\<lambda>e. action e = ''enqueued'') (approval_log ?q))"
      using o(2) False by (simp add: enqueue_def)
  qed
  ultimately show ?thesis by (simp add: queue_inv_def)
qed (use inv in \<open>simp add: enqueue_def\<close>)

lemma queue_step_inv: "queue_inv q \<Longrightarrow> submits_pending x \<Longrightarrow> queue_inv (queue_step q x)"
proof (cases x)
  case (Rollback i r ts)
  assume inv: "queue_inv q"
  have "decisions (prop_status p) ds \<Longrightarrow> decisions (RolledBack ts r) (ds @ [(''rolled_back'', ts, r)])"
    if "is_approved p" for p ds
    using that by (cases "prop_status p") (simp_all add: is_approved_def)
  then show ?thesis using decide_inv [OF inv] inv Rollback by (auto simp: rollback_def split: option.split)
qed (auto simp: enqueue_inv approve_def reject_def submits_pending_def is_pending_def split: option.split
    intro!: decide_inv)

text \<open>C26: the log accounts for every proposal. From an empty queue, when every submission is pending, whatever is
  submitted and decided: the entries of a proposal in the log are its submission followed by exactly the
  decisions its status stands for, with their times and reasons (approved; rejected; or approved and then rolled
  back). So nothing is approved without an approval on record, and rejections and roll-backs are final. Proposals
  are listed in the order of their submissions, and an unknown identifier has no entries.\<close>

theorem approval_log_accounts:
  assumes "list_all submits_pending xs" and "q = foldl queue_step queue_new xs"
  shows "(case queue_get q i of
       None \<Rightarrow> entries_of i q = []
     | Some p \<Rightarrow> (\<exists>ds. entries_of i q = (''enqueued'', prop_created_at_ns p, None) # map (\<lambda>(a, t, r). (a, t, Some r)) ds
          \<and> decisions (prop_status p) ds))
    \<and> map prop_id (queue_all q) = map proposal_id (filter (\<lambda>e. action e = ''enqueued'') (approval_log q))"
proof -
  have "queue_inv queue_new" by (simp add: queue_inv_def ordered_def accounted_def queue_new_def entries_of_def)
  then have inv: "queue_inv q" unfolding assms(2) using assms(1)
  proof (induction xs arbitrary: rule: rev_induct)
    case (snoc x xs)
    then show ?case by (simp add: queue_step_inv)
  qed simp
  then have acc: "accounted q j" for j by (simp add: queue_inv_def)
  have id: "prop_id p = j" if "hm_get (proposals q) j = Some p" for j p
    using acc [of j] that by (simp add: accounted_def)
  have order: "map prop_id (List.map_filter (hm_get (proposals q)) js) = js" if "set js \<subseteq> dom (hm_get (proposals q))" for js
    using that by (induction js) (auto simp: List.map_filter_simps id)
  have "set (insertion_order q) \<subseteq> dom (hm_get (proposals q))"
    using inv unfolding queue_inv_def ordered_def by (elim conjE) (rule equalityD1)
  from order [OF this] have "map prop_id (queue_all q) = insertion_order q" unfolding queue_all_def .
  moreover have "insertion_order q = map proposal_id (filter (\<lambda>e. action e = ''enqueued'') (approval_log q))"
    using inv by (simp only: queue_inv_def ordered_def)
  ultimately show ?thesis using acc [of i] unfolding accounted_def accounts_def queue_get_def
    by (auto split: option.splits)
qed

lemma approval_log_accounts_witness:
  "let p = \<lparr>prop_id = ''t1'', prop_kind = NewTool ''render'' ''renders'' ''ab'' [], prop_created_at_ns = 1, prop_provenance = ''dream'',
         sandbox_result = None, defence_verdict = None, prop_status = Pending\<rparr>;
       q = foldl queue_step queue_new [Enqueue p, Approve ''t1'' ''ok'' 5, Reject ''t1'' ''late'' 6, Rollback ''t1'' ''bad'' 7]
   in list_all submits_pending [Enqueue p, Approve ''t1'' ''ok'' 5, Reject ''t1'' ''late'' 6, Rollback ''t1'' ''bad'' 7]
      \<and> map_option prop_status (queue_get q ''t1'') = Some (RolledBack 7 ''bad'')
      \<and> (\<exists>ts r. entries_of ''t1'' q = [(''enqueued'', 1, None), (''approved'', ts, Some r), (''rolled_back'', 7, Some ''bad'')])"
proof -
  let ?p = "\<lparr>prop_id = ''t1'', prop_kind = NewTool ''render'' ''renders'' ''ab'' [], prop_created_at_ns = 1, prop_provenance = ''dream'',
         sandbox_result = None, defence_verdict = None, prop_status = Pending\<rparr>"
  let ?xs = "[Enqueue ?p, Approve ''t1'' ''ok'' 5, Reject ''t1'' ''late'' 6, Rollback ''t1'' ''bad'' 7]"
  have ok: "list_all submits_pending ?xs" by (simp add: submits_pending_def is_pending_def)
  have g: "queue_get (foldl queue_step queue_new ?xs) ''t1'' = Some (?p\<lparr>prop_status := RolledBack 7 ''bad''\<rparr>)"
    by (simp add: queue_get_def enqueue_def approve_def reject_def rollback_def decide_def queue_new_def is_pending_def
        is_approved_def hm_contains_def)
  from approval_log_accounts [OF ok refl, of "''t1''"] ok g show ?thesis unfolding Let_def by auto
qed

text \<open>Submission does not check the status of what is submitted: an already approved proposal is accepted and
  counts as approved without a decision.\<close>

lemma enqueue_accepts_approved:
  "prop_status p = Approved ts r \<Longrightarrow>
   fst (enqueue queue_new p) \<and> queue_approved (snd (enqueue queue_new p)) = [p]
   \<and> list_all (\<lambda>e. action e \<noteq> ''approved'') (approval_log (snd (enqueue queue_new p)))"
  by (simp add: enqueue_def queue_new_def hm_contains_def queue_approved_def queue_all_def List.map_filter_simps is_approved_def)

end
