(* ===== verification/Skills.thy ===== *)
theory Skills
  imports Ascii_Text
begin

text \<open>
  Skills (\<^verbatim>\<open>crates/skills/src\<close>): provenance and state (\<^verbatim>\<open>provenance.rs\<close>), the parser of skill files
  (\<^verbatim>\<open>manifest.rs\<close>), the registry (\<^verbatim>\<open>registry.rs\<close>) and the evaluation of proposals with its content
  screen (\<^verbatim>\<open>proposal.rs\<close>). The selection of skills for a task scores word overlap in floating point and is
  left out, as are the texts of the built-in skills, which are an argument. Texts of reasons are constructors.
\<close>

section \<open>Provenance\<close>

datatype SkillAuthor = Builtin | Operator | Agent

record SkillProvenance =
  authored_by :: SkillAuthor
  proposed_at_ns :: u64
  source_episode :: "string option"
  schema_version :: u32

definition provenance_builtin :: SkillProvenance where
  "provenance_builtin = \<lparr>authored_by = Builtin, proposed_at_ns = 0, source_episode = None, schema_version = 1\<rparr>"

datatype SkillState = Active | Proposed | Quarantined string | RolledBack

section \<open>Skill files\<close>

record SkillManifest =
  skill_name :: string
  skill_description :: string
  version :: "string option"
  capabilities :: "string list"

datatype ParseError = MissingFrontmatter | UnclosedFrontmatter | MissingName

record manifest_fields =
  mf_name :: "string option"
  mf_description :: "string option"
  mf_version :: "string option"
  mf_capabilities :: "string list"

definition parse_capabilities :: "string \<Rightarrow> string list" where
  "parse_capabilities v = filter (\<lambda>c. c \<noteq> []) (map trim (split_on CHR '','' v))"

definition read_field :: "string \<Rightarrow> manifest_fields \<Rightarrow> manifest_fields" where
  "read_field line m =
     (let l = trim line in
      if l = [] \<or> prefix ''#'' l then m
      else case split_once CHR '':'' l of
          None \<Rightarrow> m
        | Some (k, v) \<Rightarrow>
            (let k = trim k; v = trim v in
             if k = ''name'' then m\<lparr>mf_name := Some v\<rparr>
             else if k = ''description'' then m\<lparr>mf_description := Some v\<rparr>
             else if k = ''version'' then m\<lparr>mf_version := Some v\<rparr>
             else if k = ''capabilities'' then m\<lparr>mf_capabilities := mf_capabilities m @ parse_capabilities v\<rparr>
             else m))"

definition strip_newline :: "string \<Rightarrow> string" where
  "strip_newline s = (case strip_prefix [CHR ''\<newline>''] s of Some r \<Rightarrow> r | None \<Rightarrow> s)"

definition from_frontmatter :: "string \<Rightarrow> ParseError + (SkillManifest \<times> string)" where
  "from_frontmatter text =
     (case strip_prefix ''---'' (dropWhile (\<lambda>c. c = CHR ''\<newline>'') text) of
        None \<Rightarrow> Inl MissingFrontmatter
      | Some rest \<Rightarrow>
          (case split_once_str (CHR ''\<newline>'' # ''---'') (strip_newline rest) of
             None \<Rightarrow> Inl UnclosedFrontmatter
           | Some (front, after_close) \<Rightarrow>
               (let m = fold read_field (lines front)
                     \<lparr>mf_name = None, mf_description = None, mf_version = None, mf_capabilities = []\<rparr> in
                case mf_name m of
                  None \<Rightarrow> Inl MissingName
                | Some n \<Rightarrow> Inr (\<lparr>skill_name = n, skill_description = (case mf_description m of Some d \<Rightarrow> d | None \<Rightarrow> []),
                      version = mf_version m, capabilities = mf_capabilities m\<rparr>, strip_newline after_close))))"

record SkillBody =
  body_manifest :: SkillManifest
  instructions :: string
  linked_files :: "string list"

definition path_sep :: "char \<Rightarrow> bool" where
  "path_sep c \<longleftrightarrow> c = CHR ''/'' \<or> c = CHR 0x5C"

text \<open>\<^verbatim>\<open>target.split(['/', '\'])\<close>.\<close>

fun segments :: "string \<Rightarrow> string list" where
  "segments [] = [[]]"
| "segments (c # cs) = (if path_sep c then [] # segments cs
     else (case segments cs of [] \<Rightarrow> [[c]] | p # ps \<Rightarrow> (c # p) # ps))"

definition is_safe_local_link :: "string \<Rightarrow> bool" where
  "is_safe_local_link target \<longleftrightarrow>
     \<not> (target = [] \<or> contains_str target ''://'' \<or> prefix ''#'' target)
     \<and> \<not> (prefix ''/'' target \<or> prefix [CHR 0x5C] target)
     \<and> \<not> (1 < length target \<and> target ! 1 = CHR '':'')
     \<and> \<not> list_ex (\<lambda>seg. seg = ''..'') (segments target)"

function extract_local_links :: "string \<Rightarrow> string list" where
  "extract_local_links rest =
     (case find_str ''](''  rest of
        None \<Rightarrow> []
      | Some open \<Rightarrow>
          (let after_open = drop (open + 2) rest in
           case find_str '')'' after_open of
             None \<Rightarrow> []
           | Some close \<Rightarrow>
               (let target = take close after_open in
                (if is_safe_local_link target then [target] else [])
                @ extract_local_links (drop (close + 1) after_open))))"
  by pat_completeness auto
termination
proof (relation "measure length", goal_cases)
  case (2 rest i after_open j target)
  then obtain a b where "rest = a @ ''](''  @ b" using find_str_Some by blast
  with 2 show ?case by auto
qed simp

definition skill_body_parse :: "string \<Rightarrow> ParseError + SkillBody" where
  "skill_body_parse text =
     (case from_frontmatter text of
        Inl e \<Rightarrow> Inl e
      | Inr (m, body) \<Rightarrow> Inr \<lparr>body_manifest = m, instructions = body, linked_files = extract_local_links body\<rparr>)"

section \<open>Registry\<close>

record SkillEntry =
  skill_id :: string
  manifest :: SkillManifest
  body :: "SkillBody option"
  provenance :: SkillProvenance
  skill_state :: SkillState

definition id_from_name :: "string \<Rightarrow> string" where
  "id_from_name name = map (\<lambda>c. if c = CHR '' '' then CHR ''-'' else c) (to_ascii_lowercase name)"

datatype RegistryError = DuplicateId string | ParseFailed ParseError | SkillNotFound string | BodyNotLoaded string

type_synonym SkillRegistry = "SkillEntry list"

definition registry_register ::
  "SkillRegistry \<Rightarrow> SkillManifest \<Rightarrow> SkillBody option \<Rightarrow> SkillProvenance \<Rightarrow> SkillState \<Rightarrow> (RegistryError + string) \<times> SkillRegistry" where
  "registry_register r m b p st =
     (let i = id_from_name (skill_name m) in
      if list_ex (\<lambda>e. skill_id e = i) r then (Inl (DuplicateId i), r)
      else (Inr i, r @ [\<lparr>skill_id = i, manifest = m, body = b, provenance = p, skill_state = st\<rparr>]))"

definition register_from_text ::
  "SkillRegistry \<Rightarrow> string \<Rightarrow> SkillProvenance \<Rightarrow> SkillState \<Rightarrow> (RegistryError + string) \<times> SkillRegistry" where
  "register_from_text r text p st =
     (case skill_body_parse text of
        Inl e \<Rightarrow> (Inl (ParseFailed e), r)
      | Inr b \<Rightarrow> registry_register r (body_manifest b) (Some b) p st)"

definition with_builtins :: "(string \<times> string \<times> string list \<times> string) list \<Rightarrow> SkillRegistry" where
  "with_builtins skills = map (\<lambda>(name, descr, caps, instr).
     let m = \<lparr>skill_name = name, skill_description = descr, version = Some ''builtin'', capabilities = caps\<rparr> in
     \<lparr>skill_id = id_from_name name, manifest = m,
      body = Some \<lparr>body_manifest = m, instructions = instr, linked_files = []\<rparr>,
      provenance = provenance_builtin, skill_state = Active\<rparr>) skills"

fun set_skill_state :: "SkillRegistry \<Rightarrow> string \<Rightarrow> SkillState \<Rightarrow> (RegistryError + unit) \<times> SkillRegistry" where
  "set_skill_state [] i st = (Inl (SkillNotFound i), [])"
| "set_skill_state (e # es) i st =
     (if skill_id e = i then (Inr (), e\<lparr>skill_state := st\<rparr> # es)
      else (let (r, es') = set_skill_state es i st in (r, e # es')))"

definition registry_promote :: "SkillRegistry \<Rightarrow> string \<Rightarrow> (RegistryError + unit) \<times> SkillRegistry" where
  "registry_promote r i = set_skill_state r i Active"

definition registry_rollback :: "SkillRegistry \<Rightarrow> string \<Rightarrow> (RegistryError + unit) \<times> SkillRegistry" where
  "registry_rollback r i = set_skill_state r i RolledBack"

definition registry_quarantine :: "SkillRegistry \<Rightarrow> string \<Rightarrow> string \<Rightarrow> (RegistryError + unit) \<times> SkillRegistry" where
  "registry_quarantine r i why = set_skill_state r i (Quarantined why)"

definition kill_target :: "SkillEntry \<Rightarrow> bool" where
  "kill_target e \<longleftrightarrow> skill_state e = Active \<and> authored_by (provenance e) = Agent"

definition kill_switch :: "SkillRegistry \<Rightarrow> string \<Rightarrow> string list \<times> SkillRegistry" where
  "kill_switch r why =
     (map skill_id (filter kill_target r),
      map (\<lambda>e. if kill_target e then e\<lparr>skill_state := Quarantined why\<rparr> else e) r)"

definition list_active :: "SkillRegistry \<Rightarrow> SkillManifest list" where
  "list_active r = map manifest (filter (\<lambda>e. skill_state e = Active) r)"

definition load_body :: "SkillRegistry \<Rightarrow> string \<Rightarrow> RegistryError + SkillBody" where
  "load_body r i =
     (case find (\<lambda>e. skill_id e = i) r of
        None \<Rightarrow> Inl (SkillNotFound i)
      | Some e \<Rightarrow> (case body e of None \<Rightarrow> Inl (BodyNotLoaded i) | Some b \<Rightarrow> Inr b))"

section \<open>Proposals\<close>

record SkillProposal =
  skill_text :: string
  sp_authored_by :: SkillAuthor
  sp_proposed_at_ns :: u64
  sp_source_episode :: "string option"

record ToolProposal =
  tp_name :: string
  tp_description :: string
  tp_capabilities :: "string list"
  wasm_bytes :: "u8 list"
  fixtures_json :: string
  tp_authored_by :: SkillAuthor
  tp_proposed_at_ns :: u64
  tp_source_episode :: "string option"

datatype FlagReason = TextTooLong nat nat | InjectionPattern string | WasmTooLarge nat

datatype ProposalAction = AutoPromoted | PendingApproval | ProposalRejected FlagReason

record ProposalOutcome =
  artifact_id :: "string option"
  outcome_action :: ProposalAction

record SkillContentScreen =
  check_injection :: bool
  max_text_bytes :: nat

definition screen_default :: SkillContentScreen where
  "screen_default = \<lparr>check_injection = True, max_text_bytes = 64 * 1024\<rparr>"

definition INJECTION_PATTERNS :: "string list" where
  "INJECTION_PATTERNS =
     [''ignore previous instructions'', ''ignore all previous'', ''disregard your instructions'',
      ''disregard all instructions'', ''you are now'', ''new instructions:'', ''system prompt:'', ''override: '',
      ''[[system]]'', ''<system>'', ''jailbreak'', ''do anything now'', ''pretend you are'', ''act as if'']"

text \<open>\<^term>\<open>None\<close> is \<^verbatim>\<open>Clear\<close>.\<close>

definition screen_text :: "SkillContentScreen \<Rightarrow> string \<Rightarrow> FlagReason option" where
  "screen_text s text =
     (if max_text_bytes s < length text then Some (TextTooLong (max_text_bytes s) (length text))
      else if check_injection s then
        map_option InjectionPattern (find (\<lambda>p. contains_str (to_ascii_lowercase text) p) INJECTION_PATTERNS)
      else None)"

record PromotionGateConfig =
  auto_promote_agent_skills :: bool

definition gate_default :: PromotionGateConfig where
  "gate_default = \<lparr>auto_promote_agent_skills = True\<rparr>"

definition initial_state :: "PromotionGateConfig \<Rightarrow> SkillAuthor \<Rightarrow> SkillState" where
  "initial_state g author =
     (case author of
        Builtin \<Rightarrow> Active
      | Operator \<Rightarrow> Active
      | Agent \<Rightarrow> if auto_promote_agent_skills g then Active else Proposed)"

definition evaluate_skill_proposal ::
  "SkillProposal \<Rightarrow> SkillRegistry \<Rightarrow> SkillContentScreen \<Rightarrow> PromotionGateConfig
   \<Rightarrow> (RegistryError + ProposalOutcome) \<times> SkillRegistry" where
  "evaluate_skill_proposal p r s g =
     (case screen_text s (skill_text p) of
        Some why \<Rightarrow> (Inr \<lparr>artifact_id = None, outcome_action = ProposalRejected why\<rparr>, r)
      | None \<Rightarrow>
          (let st = initial_state g (sp_authored_by p);
               prov = \<lparr>authored_by = sp_authored_by p, proposed_at_ns = sp_proposed_at_ns p,
                       source_episode = sp_source_episode p, schema_version = 1\<rparr> in
           case register_from_text r (skill_text p) prov st of
             (Inl e, r') \<Rightarrow> (Inl e, r')
           | (Inr i, r') \<Rightarrow> (Inr \<lparr>artifact_id = Some i,
                outcome_action = (if st = Active then AutoPromoted else PendingApproval)\<rparr>, r')))"

definition MAX_WASM_BYTES :: nat where "MAX_WASM_BYTES = 2 * 1024 * 1024"

datatype ToolProposalAction = ToolPending string | ToolRejected FlagReason

record ToolProposalOutcome =
  tool_id :: "string option"
  tool_action :: ToolProposalAction

definition tool_description_text :: "ToolProposal \<Rightarrow> string" where
  "tool_description_text p = (let nl = CHR ''\<newline>'' in
     ''---'' @ [nl] @ ''name: '' @ tp_name p @ [nl] @ ''description: '' @ tp_description p @ [nl] @ ''---'' @ [nl])"

definition evaluate_tool_proposal_with_summary :: "ToolProposal \<Rightarrow> SkillContentScreen \<Rightarrow> string \<Rightarrow> ToolProposalOutcome" where
  "evaluate_tool_proposal_with_summary p s summary =
     (case screen_text s (tool_description_text p) of
        Some why \<Rightarrow> \<lparr>tool_id = None, tool_action = ToolRejected why\<rparr>
      | None \<Rightarrow>
          if MAX_WASM_BYTES < length (wasm_bytes p) then
            \<lparr>tool_id = None, tool_action = ToolRejected (WasmTooLarge (length (wasm_bytes p)))\<rparr>
          else \<lparr>tool_id = Some (id_from_name (tp_name p)), tool_action = ToolPending summary\<rparr>)"

section \<open>Links of a parsed skill stay in its directory\<close>

text \<open>Walking the segments of a path down and up, never above the directory it starts from.\<close>

fun walk_inside :: "nat \<Rightarrow> string list \<Rightarrow> bool" where
  "walk_inside d [] \<longleftrightarrow> True"
| "walk_inside d (s # ss) \<longleftrightarrow>
     (if s = ''..'' then 0 < d \<and> walk_inside (d - 1) ss
      else if s = [] \<or> s = ''.'' then walk_inside d ss
      else walk_inside (Suc d) ss)"

definition confined :: "string \<Rightarrow> bool" where
  "confined p \<longleftrightarrow> p \<noteq> [] \<and> \<not> path_sep (hd p) \<and> \<not> (1 < length p \<and> p ! 1 = CHR '':'') \<and> walk_inside 0 (segments p)"

lemma walk_no_parent: "\<not> list_ex (\<lambda>seg. seg = ''..'') ss \<Longrightarrow> walk_inside d ss"
  by (induction ss arbitrary: d) auto

lemma safe_link_confined: "is_safe_local_link p \<Longrightarrow> confined p"
  by (cases p) (auto simp: is_safe_local_link_def confined_def path_sep_def walk_no_parent)

lemma extracted_safe: "list_all is_safe_local_link (extract_local_links s)"
proof (induction s rule: extract_local_links.induct)
  case (1 s)
  then show ?case by (subst extract_local_links.simps) (auto split: option.split simp: Let_def)
qed

declare extract_local_links.simps [simp del]

lemma parsed_links_confined: "skill_body_parse text = Inr b \<Longrightarrow> list_all confined (linked_files b)"
  using extracted_safe safe_link_confined
  by (auto simp: skill_body_parse_def list_all_iff split: sum.splits prod.splits)

section \<open>Registry facts\<close>

lemma set_skill_state_frame:
  "map skill_id (snd (set_skill_state r i st)) = map skill_id r"
  "map provenance (snd (set_skill_state r i st)) = map provenance r"
  by (induction r) (simp_all add: case_prod_beta)

lemma set_skill_state_entry:
  "e \<in> set (snd (set_skill_state r i st)) \<Longrightarrow>
   e \<in> set r \<or> (skill_id e = i \<and> skill_state e = st \<and> (\<exists>e0\<in>set r. e = e0\<lparr>skill_state := st\<rparr>))"
  by (induction r) (auto simp: case_prod_beta split: if_splits)

lemma set_skill_state_other:
  "distinct (map skill_id r) \<Longrightarrow> e \<in> set (snd (set_skill_state r i st)) \<Longrightarrow> skill_id e = i \<Longrightarrow> skill_state e = st"
proof (induction r)
  case (Cons a r)
  show ?case
  proof (cases "skill_id a = i")
    case True
    with Cons.prems show ?thesis by (auto simp: image_iff)
  next
    case False
    with Cons show ?thesis by (auto simp: case_prod_beta)
  qed
qed simp

text \<open>The kill switch leaves no active agent-authored skill and touches nothing else.\<close>

lemma kill_switch_effect:
  "list_all (\<lambda>e. \<not> kill_target e) (snd (kill_switch r why))
   \<and> filter (\<lambda>e. authored_by (provenance e) \<noteq> Agent) (snd (kill_switch r why)) = filter (\<lambda>e. authored_by (provenance e) \<noteq> Agent) r
   \<and> fst (kill_switch r why) = map skill_id (filter kill_target r)"
proof -
  have "filter (\<lambda>e. authored_by (provenance e) \<noteq> Agent) (map (\<lambda>e. if kill_target e then e\<lparr>skill_state := Quarantined why\<rparr> else e) r)
    = filter (\<lambda>e. authored_by (provenance e) \<noteq> Agent) r"
    by (induction r) (auto simp: kill_target_def)
  then show ?thesis by (auto simp: kill_switch_def kill_target_def list_all_iff)
qed

text \<open>What an evaluation can add to the registry: at most one entry, with a new identifier, from a text the
  screen cleared, active only if the author is not the agent or the gate promotes agent skills.\<close>

lemma evaluate_cases:
  "(\<exists>e. evaluate_skill_proposal p r s g = (Inl e, r))
   \<or> (\<exists>why. evaluate_skill_proposal p r s g = (Inr \<lparr>artifact_id = None, outcome_action = ProposalRejected why\<rparr>, r))
   \<or> (\<exists>e. evaluate_skill_proposal p r s g =
        (Inr \<lparr>artifact_id = Some (skill_id e),
           outcome_action = (if initial_state g (sp_authored_by p) = Active then AutoPromoted else PendingApproval)\<rparr>, r @ [e])
      \<and> screen_text s (skill_text p) = None \<and> skill_state e = initial_state g (sp_authored_by p)
      \<and> authored_by (provenance e) = sp_authored_by p \<and> skill_id e \<notin> skill_id ` set r)"
proof (cases "screen_text s (skill_text p)")
  case (Some why)
  then show ?thesis by (simp add: evaluate_skill_proposal_def)
next
  case screen: None
  show ?thesis
  proof (cases "skill_body_parse (skill_text p)")
    case (Inl e)
    with screen show ?thesis by (simp add: evaluate_skill_proposal_def register_from_text_def)
  next
    case (Inr b)
    with screen show ?thesis
      by (cases "list_ex (\<lambda>e. skill_id e = id_from_name (skill_name (body_manifest b))) r")
        (auto simp: evaluate_skill_proposal_def register_from_text_def registry_register_def Let_def list_ex_iff)
  qed
qed

lemma screen_clear:
  "screen_text s text = None \<Longrightarrow> length text \<le> max_text_bytes s
     \<and> (check_injection s \<longrightarrow> list_all (\<lambda>p. \<not> contains_str (to_ascii_lowercase text) p) INJECTION_PATTERNS)"
  by (auto simp: screen_text_def find_None_iff list_all_iff split: if_splits)

end
