(* ===== verification/Skill_Bridge.thy ===== *)
theory Skill_Bridge
  imports Skills Approval_Queue
begin

unbundle bit_operations_syntax

text \<open>
  The bridge between skill proposals and the operator's approval queue
  (\<^verbatim>\<open>crates/lifecycle/src/skill_bridge.rs\<close>), and the composition it is for: proposals are evaluated by the
  skill registry, pending ones are queued, and the operator's decisions on the queue act on the registry.
\<close>

section \<open>Conversion of proposals\<close>

definition content_fingerprint :: "u8 list \<Rightarrow> string" where
  "content_fingerprint bytes =
     hex16 (foldl (\<lambda>h b. (h XOR ucast b) * 0x100000001b3) (0xcbf29ce484222325 :: u64) bytes)"

fun show_author :: "SkillAuthor \<Rightarrow> string" where
  "show_author Builtin = ''builtin''"
| "show_author Operator = ''operator''"
| "show_author Agent = ''agent''"

definition provenance_note :: "SkillAuthor \<Rightarrow> string option \<Rightarrow> string" where
  "provenance_note a ep = (case ep of Some e \<Rightarrow> show_author a @ '' (episode '' @ e @ '')'' | None \<Rightarrow> show_author a)"

fun scan_header :: "string list \<Rightarrow> string option \<times> string option \<Rightarrow> string option \<times> string option" where
  "scan_header [] nd = nd"
| "scan_header (line # rest) (n, d) =
     (let l = trim line;
          nd = (case strip_prefix ''name:'' l of
                  Some r \<Rightarrow> (Some (trim r), d)
                | None \<Rightarrow> (case strip_prefix ''description:'' l of Some r \<Rightarrow> (n, Some (trim r)) | None \<Rightarrow> (n, d)))
      in if fst nd \<noteq> None \<and> snd nd \<noteq> None then nd else scan_header rest nd)"

definition parse_name_and_description :: "string \<Rightarrow> string \<times> string" where
  "parse_name_and_description text =
     (case scan_header (lines text) (None, None) of (n, d) \<Rightarrow>
        ((case n of Some x \<Rightarrow> x | None \<Rightarrow> ''unnamed-skill''), (case d of Some x \<Rightarrow> x | None \<Rightarrow> [])))"

definition skill_proposal_to_queue_proposal_with_hash ::
  "ProposalOutcome \<Rightarrow> SkillProposal \<Rightarrow> string \<Rightarrow> Proposal option" where
  "skill_proposal_to_queue_proposal_with_hash out p h =
     (if outcome_action out \<noteq> PendingApproval then None
      else case artifact_id out of
          None \<Rightarrow> None
        | Some i \<Rightarrow> (let (name, descr) = parse_name_and_description (skill_text p) in
            Some \<lparr>prop_id = i, prop_kind = NewSkill name descr h, prop_created_at_ns = sp_proposed_at_ns p,
                  prop_provenance = provenance_note (sp_authored_by p) (sp_source_episode p),
                  sandbox_result = None, defence_verdict = None, prop_status = Pending\<rparr>))"

definition skill_proposal_to_queue_proposal :: "ProposalOutcome \<Rightarrow> SkillProposal \<Rightarrow> Proposal option" where
  "skill_proposal_to_queue_proposal out p =
     skill_proposal_to_queue_proposal_with_hash out p
       (content_fingerprint (map (\<lambda>c. of_nat (of_char c)) (skill_text p)))"

definition tool_proposal_to_queue_proposal_with_verdicts ::
  "ToolProposal \<Rightarrow> string \<Rightarrow> SandboxTestResult \<Rightarrow> DefenceVerdict option \<Rightarrow> Proposal" where
  "tool_proposal_to_queue_proposal_with_verdicts p h sr dv =
     \<lparr>prop_id = id_from_name (tp_name p), prop_kind = NewTool (tp_name p) (tp_description p) h (tp_capabilities p),
      prop_created_at_ns = tp_proposed_at_ns p,
      prop_provenance = provenance_note (tp_authored_by p) (tp_source_episode p),
      sandbox_result = Some sr, defence_verdict = dv, prop_status = Pending\<rparr>"

definition tool_proposal_to_queue_proposal :: "ToolProposal \<Rightarrow> string \<Rightarrow> Proposal" where
  "tool_proposal_to_queue_proposal p summary =
     tool_proposal_to_queue_proposal_with_verdicts p (content_fingerprint (wasm_bytes p))
       \<lparr>passed = True, fuel_consumed = 0, peak_memory_bytes = 0, sandbox_summary = summary\<rparr> None"

section \<open>The bridge\<close>

datatype BridgeError =
    DuplicateProposal string
  | BridgeQueue ApprovalError
  | BridgeRegistry RegistryError
  | UnmappedProposal string

type_synonym SkillApprovalBridge = "(string \<times> string) list"

definition enqueue_skill_proposal ::
  "SkillApprovalBridge \<Rightarrow> ApprovalQueue \<Rightarrow> Proposal \<Rightarrow> (BridgeError + string) \<times> SkillApprovalBridge \<times> ApprovalQueue" where
  "enqueue_skill_proposal b q p =
     (case enqueue q p of
        (False, q') \<Rightarrow> (Inl (DuplicateProposal (prop_id p)), b, q')
      | (True, q') \<Rightarrow> (Inr (prop_id p), hm_insert (prop_id p) (prop_id p) b, q'))"

definition enqueue_skill ::
  "SkillApprovalBridge \<Rightarrow> ApprovalQueue \<Rightarrow> ProposalOutcome \<Rightarrow> SkillProposal
   \<Rightarrow> (BridgeError + string option) \<times> SkillApprovalBridge \<times> ApprovalQueue" where
  "enqueue_skill b q out p =
     (case skill_proposal_to_queue_proposal out p of
        None \<Rightarrow> (Inr None, b, q)
      | Some qp \<Rightarrow> (case enqueue_skill_proposal b q qp of
            (Inl e, b', q') \<Rightarrow> (Inl e, b', q')
          | (Inr i, b', q') \<Rightarrow> (Inr (Some i), b', q')))"

definition enqueue_tool :: "ApprovalQueue \<Rightarrow> ToolProposal \<Rightarrow> string \<Rightarrow> (BridgeError + string) \<times> ApprovalQueue" where
  "enqueue_tool q p summary =
     (let qp = tool_proposal_to_queue_proposal p summary in
      case enqueue q qp of
        (False, q') \<Rightarrow> (Inl (DuplicateProposal (prop_id qp)), q')
      | (True, q') \<Rightarrow> (Inr (prop_id qp), q'))"

definition bridge_approve ::
  "SkillApprovalBridge \<Rightarrow> ApprovalQueue \<Rightarrow> SkillRegistry \<Rightarrow> string \<Rightarrow> string \<Rightarrow> u64
   \<Rightarrow> (BridgeError + unit) \<times> ApprovalQueue \<times> SkillRegistry" where
  "bridge_approve b q r i why ts =
     (case approve q i why ts of
        (Inl e, q') \<Rightarrow> (Inl (BridgeQueue e), q', r)
      | (Inr _, q') \<Rightarrow> (case hm_get b i of
            None \<Rightarrow> (Inr (), q', r)
          | Some sid \<Rightarrow> (case registry_promote r sid of
                (Inl e, r') \<Rightarrow> (Inl (BridgeRegistry e), q', r')
              | (Inr _, r') \<Rightarrow> (Inr (), q', r'))))"

definition bridge_reject :: "ApprovalQueue \<Rightarrow> string \<Rightarrow> string \<Rightarrow> u64 \<Rightarrow> (BridgeError + unit) \<times> ApprovalQueue" where
  "bridge_reject q i why ts =
     (case reject q i why ts of (Inl e, q') \<Rightarrow> (Inl (BridgeQueue e), q') | (Inr _, q') \<Rightarrow> (Inr (), q'))"

definition bridge_rollback ::
  "SkillApprovalBridge \<Rightarrow> ApprovalQueue \<Rightarrow> SkillRegistry \<Rightarrow> string \<Rightarrow> string \<Rightarrow> u64
   \<Rightarrow> (BridgeError + unit) \<times> ApprovalQueue \<times> SkillRegistry" where
  "bridge_rollback b q r i why ts =
     (case rollback q i why ts of
        (Inl e, q') \<Rightarrow> (Inl (BridgeQueue e), q', r)
      | (Inr _, q') \<Rightarrow> (case hm_get b i of
            None \<Rightarrow> (Inr (), q', r)
          | Some sid \<Rightarrow> (case registry_rollback r sid of
                (Inl e, r') \<Rightarrow> (Inl (BridgeRegistry e), q', r')
              | (Inr _, r') \<Rightarrow> (Inr (), q', r'))))"

definition skill_id_for :: "SkillApprovalBridge \<Rightarrow> string \<Rightarrow> string option" where
  "skill_id_for b i = hm_get b i"

section \<open>The composed system\<close>

record extension_sys =
  xs_bridge :: SkillApprovalBridge
  xs_queue :: ApprovalQueue
  xs_registry :: SkillRegistry

datatype extension_op =
    ProposeSkill SkillProposal
  | ProposeTool ToolProposal string
  | OperatorApproves string string u64
  | OperatorRejects string string u64
  | OperatorRollsBack string string u64
  | QuarantineSkill string string
  | KillSwitch string

fun extension_step :: "SkillContentScreen \<Rightarrow> PromotionGateConfig \<Rightarrow> extension_sys \<Rightarrow> extension_op \<Rightarrow> extension_sys" where
  "extension_step s g x (ProposeSkill p) =
     (case evaluate_skill_proposal p (xs_registry x) s g of
        (Inl _, r) \<Rightarrow> x\<lparr>xs_registry := r\<rparr>
      | (Inr out, r) \<Rightarrow> (case enqueue_skill (xs_bridge x) (xs_queue x) out p of
            (_, b, q) \<Rightarrow> \<lparr>xs_bridge = b, xs_queue = q, xs_registry = r\<rparr>))"
| "extension_step s g x (ProposeTool p summary) =
     (case tool_action (evaluate_tool_proposal_with_summary p s summary) of
        ToolRejected _ \<Rightarrow> x
      | ToolPending _ \<Rightarrow> x\<lparr>xs_queue := snd (enqueue_tool (xs_queue x) p summary)\<rparr>)"
| "extension_step s g x (OperatorApproves i why ts) =
     (case bridge_approve (xs_bridge x) (xs_queue x) (xs_registry x) i why ts of
        (_, q, r) \<Rightarrow> x\<lparr>xs_queue := q, xs_registry := r\<rparr>)"
| "extension_step s g x (OperatorRejects i why ts) = x\<lparr>xs_queue := snd (bridge_reject (xs_queue x) i why ts)\<rparr>"
| "extension_step s g x (OperatorRollsBack i why ts) =
     (case bridge_rollback (xs_bridge x) (xs_queue x) (xs_registry x) i why ts of
        (_, q, r) \<Rightarrow> x\<lparr>xs_queue := q, xs_registry := r\<rparr>)"
| "extension_step s g x (QuarantineSkill i why) = x\<lparr>xs_registry := snd (registry_quarantine (xs_registry x) i why)\<rparr>"
| "extension_step s g x (KillSwitch why) = x\<lparr>xs_registry := snd (kill_switch (xs_registry x) why)\<rparr>"

definition extension_start :: "SkillRegistry \<Rightarrow> extension_sys" where
  "extension_start r = \<lparr>xs_bridge = [], xs_queue = queue_new, xs_registry = r\<rparr>"

text \<open>An active skill of the agent is tracked by the bridge and its proposal stands approved.\<close>

definition vetted :: "extension_sys \<Rightarrow> SkillEntry \<Rightarrow> bool" where
  "vetted x e \<longleftrightarrow> hm_get (xs_bridge x) (skill_id e) = Some (skill_id e)
     \<and> (\<exists>p ts why. hm_get (proposals (xs_queue x)) (skill_id e) = Some p \<and> prop_status p = Approved ts why)"

definition extension_inv :: "extension_sys \<Rightarrow> bool" where
  "extension_inv x \<longleftrightarrow> distinct (map skill_id (xs_registry x)) \<and> queue_inv (xs_queue x)
     \<and> (\<forall>i j. hm_get (xs_bridge x) i = Some j \<longrightarrow> j = i)
     \<and> (\<forall>e\<in>set (xs_registry x). kill_target e \<longrightarrow> vetted x e)"

section \<open>No agent skill is active without an approval\<close>

text \<open>What the queue operations keep of the status of a proposal.\<close>

definition stands_approved :: "ApprovalQueue \<Rightarrow> string \<Rightarrow> bool" where
  "stands_approved q i \<longleftrightarrow> (\<exists>p ts why. hm_get (proposals q) i = Some p \<and> prop_status p = Approved ts why)"

lemma vetted_alt: "vetted x e \<longleftrightarrow> hm_get (xs_bridge x) (skill_id e) = Some (skill_id e) \<and> stands_approved (xs_queue x) (skill_id e)"
  by (simp add: vetted_def stands_approved_def)

lemma enqueue_stands: "stands_approved q i \<Longrightarrow> stands_approved (snd (enqueue q p)) i"
  by (auto simp: stands_approved_def enqueue_def hm_get_insert hm_contains_def)

lemma decide_stands: "i \<noteq> j \<Longrightarrow> stands_approved (decide q j p st act ts r) i \<longleftrightarrow> stands_approved q i"
  by (simp add: stands_approved_def decide_def hm_get_insert)

lemma approve_stands: "stands_approved q i \<Longrightarrow> stands_approved (snd (approve q j r ts)) i"
  by (cases "i = j") (auto simp: approve_def stands_approved_def decide_def hm_get_insert is_pending_def split: option.split)

lemma approve_Inr: "approve q i r ts = (Inr u, q') \<Longrightarrow> stands_approved q' i"
  by (auto simp: approve_def decide_def hm_get_insert stands_approved_def split: option.splits if_splits)

lemma reject_stands: "stands_approved q i \<Longrightarrow> stands_approved (snd (reject q j r ts)) i"
  by (cases "i = j") (auto simp: reject_def stands_approved_def decide_def hm_get_insert is_pending_def split: option.split)

lemma rollback_stands: "stands_approved q i \<Longrightarrow> i \<noteq> j \<Longrightarrow> stands_approved (snd (rollback q j r ts)) i"
  by (auto simp: rollback_def decide_stands split: option.split)

lemma rollback_Inl: "rollback q i r ts = (Inl e, q') \<Longrightarrow> q' = q"
  by (auto simp: rollback_def split: option.splits if_splits)

lemma approve_Inl: "approve q i r ts = (Inl e, q') \<Longrightarrow> q' = q"
  by (auto simp: approve_def split: option.splits if_splits)

lemmas queue_keeps =
  queue_step_inv [of _ "Approve i r ts" for i r ts, simplified submits_pending_def, simplified]
  queue_step_inv [of _ "Reject i r ts" for i r ts, simplified submits_pending_def, simplified]
  queue_step_inv [of _ "Rollback i r ts" for i r ts, simplified submits_pending_def, simplified]

text \<open>The invariant, one part per component.\<close>

lemma extension_invI:
  assumes "distinct (map skill_id (xs_registry x))" "queue_inv (xs_queue x)"
    and "\<And>i j. hm_get (xs_bridge x) i = Some j \<Longrightarrow> j = i"
    and "\<And>e. e \<in> set (xs_registry x) \<Longrightarrow> kill_target e \<Longrightarrow> vetted x e"
  shows "extension_inv x"
  using assms by (auto simp: extension_inv_def)

lemma extension_invD:
  assumes "extension_inv x"
  shows "distinct (map skill_id (xs_registry x))" "queue_inv (xs_queue x)"
    "hm_get (xs_bridge x) i = Some j \<Longrightarrow> j = i"
    "e \<in> set (xs_registry x) \<Longrightarrow> kill_target e \<Longrightarrow> vetted x e"
  using assms by (auto simp: extension_inv_def)

lemma converted_pending:
  "skill_proposal_to_queue_proposal out p = Some qp \<Longrightarrow> is_pending qp \<and> artifact_id out = Some (prop_id qp)"
  by (auto simp: skill_proposal_to_queue_proposal_def skill_proposal_to_queue_proposal_with_hash_def is_pending_def
      split: if_splits option.splits prod.splits)

lemma enqueue_skill_inv:
  assumes x: "extension_inv x" and r: "distinct (map skill_id r)"
    and old: "\<And>e. e \<in> set r \<Longrightarrow> kill_target e \<Longrightarrow> e \<in> set (xs_registry x)"
    and enq: "enqueue_skill (xs_bridge x) (xs_queue x) out p = (res, b, q)"
  shows "extension_inv \<lparr>xs_bridge = b, xs_queue = q, xs_registry = r\<rparr>"
proof (cases "skill_proposal_to_queue_proposal out p")
  case None
  with enq have "b = xs_bridge x" "q = xs_queue x" by (simp_all add: enqueue_skill_def)
  then show ?thesis using extension_invD [OF x] r old by (intro extension_invI) (auto simp: vetted_alt)
next
  case (Some qp)
  note pend = converted_pending [OF Some]
  have q: "q = snd (enqueue (xs_queue x) qp)" and b: "b = xs_bridge x \<or> b = hm_insert (prop_id qp) (prop_id qp) (xs_bridge x)"
    using enq Some by (auto simp: enqueue_skill_def enqueue_skill_proposal_def split: prod.splits bool.splits sum.splits)
  show ?thesis
  proof (rule extension_invI)
    show "queue_inv (xs_queue \<lparr>xs_bridge = b, xs_queue = q, xs_registry = r\<rparr>)"
      using extension_invD(2) [OF x] pend by (simp add: q enqueue_inv)
    show "j = i" if "hm_get (xs_bridge \<lparr>xs_bridge = b, xs_queue = q, xs_registry = r\<rparr>) i = Some j" for i j
      using that b extension_invD(3) [OF x] by (auto simp: hm_get_insert split: if_splits)
    show "vetted \<lparr>xs_bridge = b, xs_queue = q, xs_registry = r\<rparr> e"
      if "e \<in> set (xs_registry \<lparr>xs_bridge = b, xs_queue = q, xs_registry = r\<rparr>)" "kill_target e" for e
      using that extension_invD(4) [OF x old] b by (auto simp: vetted_alt hm_get_insert q enqueue_stands)
  qed (use r in simp)
qed

lemma propose_skill_inv:
  assumes x: "extension_inv x" and g: "\<not> auto_promote_agent_skills g"
  shows "extension_inv (extension_step s g x (ProposeSkill p))"
proof -
  note new = enqueue_skill_inv [OF x] and d = extension_invD(1) [OF x]
  consider (err) e where "evaluate_skill_proposal p (xs_registry x) s g = (Inl e, xs_registry x)"
    | (rej) out where "evaluate_skill_proposal p (xs_registry x) s g = (Inr out, xs_registry x)"
    | (add) e out where "evaluate_skill_proposal p (xs_registry x) s g = (Inr out, xs_registry x @ [e])"
        "skill_state e = initial_state g (sp_authored_by p)" "authored_by (provenance e) = sp_authored_by p"
        "skill_id e \<notin> skill_id ` set (xs_registry x)"
    using evaluate_cases [of p "xs_registry x" s g] by blast
  then show ?thesis
  proof cases
    case err
    then show ?thesis using x by simp
  next
    case rej
    then show ?thesis using new [OF d] by (auto split: prod.split)
  next
    case add
    have "\<not> kill_target e" using add(2,3) g by (auto simp: kill_target_def initial_state_def)
    then have "f \<in> set (xs_registry x)" if "f \<in> set (xs_registry x @ [e])" "kill_target f" for f using that by auto
    moreover have "distinct (map skill_id (xs_registry x @ [e]))" using d add(4) by simp
    ultimately have "extension_inv \<lparr>xs_bridge = b, xs_queue = q, xs_registry = xs_registry x @ [e]\<rparr>"
      if "enqueue_skill (xs_bridge x) (xs_queue x) out p = (res, b, q)" for res b q
      using new that by blast
    then show ?thesis using add(1) by (auto split: prod.split)
  qed
qed

lemma approve_inv:
  assumes x: "extension_inv x"
  shows "extension_inv (extension_step s g x (OperatorApproves i why ts))"
proof -
  obtain res q r where br: "bridge_approve (xs_bridge x) (xs_queue x) (xs_registry x) i why ts = (res, q, r)"
    by (metis prod_cases3)
  have q: "q = snd (approve (xs_queue x) i why ts)"
    using br by (auto simp: bridge_approve_def split: sum.splits prod.splits option.splits)
  have r: "r = xs_registry x \<or> (stands_approved q i \<and> hm_get (xs_bridge x) i = Some i \<and> r = snd (registry_promote (xs_registry x) i))"
    using br extension_invD(3) [OF x] approve_Inr
    by (auto simp: bridge_approve_def split: sum.splits prod.splits option.splits) (metis snd_conv)+
  have "vetted (x\<lparr>xs_queue := q, xs_registry := r\<rparr>) e" if e: "e \<in> set r" "kill_target e" for e
  proof (cases "e \<in> set (xs_registry x)")
    case True
    then show ?thesis using extension_invD(4) [OF x True e(2)] by (simp add: vetted_alt q approve_stands)
  next
    case False
    with r e have "stands_approved q i" "hm_get (xs_bridge x) i = Some i" "skill_id e = i"
      using set_skill_state_entry [of e "xs_registry x" i Active] by (auto simp: registry_promote_def)
    then show ?thesis by (simp add: vetted_alt)
  qed
  moreover have "distinct (map skill_id r)"
    using r extension_invD(1) [OF x] by (auto simp: registry_promote_def set_skill_state_frame)
  ultimately show ?thesis using extension_invD [OF x] br queue_keeps(1) [of "xs_queue x"] q
    by (auto intro!: extension_invI)
qed

lemma rollback_inv:
  assumes x: "extension_inv x"
  shows "extension_inv (extension_step s g x (OperatorRollsBack i why ts))"
proof -
  obtain res q r where br: "bridge_rollback (xs_bridge x) (xs_queue x) (xs_registry x) i why ts = (res, q, r)"
    by (metis prod_cases3)
  have q: "q = snd (rollback (xs_queue x) i why ts)"
    using br by (auto simp: bridge_rollback_def split: sum.splits prod.splits option.splits)
  have r: "q = xs_queue x \<and> r = xs_registry x \<or> hm_get (xs_bridge x) i = None \<and> r = xs_registry x
      \<or> r = snd (registry_rollback (xs_registry x) i)"
    using br extension_invD(3) [OF x] rollback_Inl
    by (auto simp: bridge_rollback_def split: sum.splits prod.splits option.splits) (metis snd_conv)+
  have "vetted (x\<lparr>xs_queue := q, xs_registry := r\<rparr>) e" if e: "e \<in> set r" "kill_target e" for e
  proof -
    have old: "e \<in> set (xs_registry x)"
      using r e set_skill_state_entry [of e "xs_registry x" i SkillState.RolledBack]
      by (auto simp: registry_rollback_def kill_target_def)
    note v = extension_invD(4) [OF x old e(2)]
    have "q = xs_queue x \<or> skill_id e \<noteq> i"
      using r e v set_skill_state_other [OF extension_invD(1) [OF x], of e i SkillState.RolledBack]
      by (auto simp: registry_rollback_def kill_target_def vetted_alt)
    then show ?thesis using v rollback_stands [of "xs_queue x" "skill_id e" i why ts] by (auto simp: vetted_alt q)
  qed
  moreover have "distinct (map skill_id r)"
    using r extension_invD(1) [OF x] by (auto simp: registry_rollback_def set_skill_state_frame)
  ultimately show ?thesis using extension_invD [OF x] br queue_keeps(3) [of "xs_queue x"] q
    by (auto intro!: extension_invI)
qed

lemma quarantine_inv:
  assumes x: "extension_inv x"
  shows "extension_inv (extension_step s g x (QuarantineSkill i why))"
proof -
  have "e \<in> set (xs_registry x)" if "e \<in> set (snd (registry_quarantine (xs_registry x) i why))" "kill_target e" for e
    using that set_skill_state_entry [of e "xs_registry x" i "Quarantined why"]
    by (auto simp: registry_quarantine_def kill_target_def)
  then show ?thesis using extension_invD [OF x]
    by (auto intro!: extension_invI simp: vetted_alt registry_quarantine_def set_skill_state_frame)
qed

lemma kill_switch_inv:
  assumes x: "extension_inv x"
  shows "extension_inv (extension_step s g x (KillSwitch why))"
proof -
  have "map skill_id (snd (kill_switch (xs_registry x) why)) = map skill_id (xs_registry x)"
    by (simp add: kill_switch_def comp_def)
  then show ?thesis using extension_invD [OF x] kill_switch_effect [of "xs_registry x" why]
    by (auto intro!: extension_invI simp: list_all_iff)
qed

lemma queue_only_inv:
  assumes x: "extension_inv x" and "queue_inv q" and "\<And>i. stands_approved (xs_queue x) i \<Longrightarrow> stands_approved q i"
  shows "extension_inv (x\<lparr>xs_queue := q\<rparr>)"
  using extension_invD [OF x] assms(2,3) by (auto intro!: extension_invI simp: vetted_alt)

lemma enqueue_tool_queue:
  "snd (enqueue_tool q p summary) = snd (enqueue q (tool_proposal_to_queue_proposal p summary))"
  by (auto simp: enqueue_tool_def Let_def split: prod.split bool.split)

lemma tool_proposal_pending: "is_pending (tool_proposal_to_queue_proposal p summary)"
  by (simp add: is_pending_def tool_proposal_to_queue_proposal_def tool_proposal_to_queue_proposal_with_verdicts_def)

lemma bridge_reject_queue: "snd (bridge_reject q i why ts) = snd (reject q i why ts)"
  by (auto simp: bridge_reject_def split: prod.split sum.split)

lemma extension_step_inv:
  assumes x: "extension_inv x" and g: "\<not> auto_promote_agent_skills g"
  shows "extension_inv (extension_step s g x a)"
proof (cases a)
  case (ProposeSkill p)
  then show ?thesis using propose_skill_inv [OF assms] by simp
next
  case (ProposeTool p summary)
  then show ?thesis using x extension_invD(2) [OF x]
    by (auto split: ToolProposalAction.split intro!: queue_only_inv
        simp: enqueue_tool_queue enqueue_inv tool_proposal_pending enqueue_stands)
next
  case (OperatorRejects i why ts)
  then show ?thesis using extension_invD(2) [OF x] queue_keeps(2)
    by (auto intro!: queue_only_inv x simp: bridge_reject_queue reject_stands)
qed (use assms in \<open>simp_all only: approve_inv rollback_inv quarantine_inv kill_switch_inv\<close>)

text \<open>C5: under a gate that does not promote agent skills by itself, no skill written by the agent is active
  without the operator's approval. From a registry without active agent skills, after any sequence of proposals of
  skills and tools, decisions of the operator, quarantines and kill switches: every active agent skill is tracked
  by the bridge, its proposal stands approved, and the log of the queue has, for its identifier, exactly its
  submission followed by that approval.\<close>

theorem active_agent_skill_approved:
  assumes "\<not> auto_promote_agent_skills g"
    and "distinct (map skill_id r0)" and "list_all (\<lambda>e. \<not> kill_target e) r0"
    and "x = foldl (extension_step s g) (extension_start r0) ops"
    and "e \<in> set (xs_registry x)" and "skill_state e = Active" and "authored_by (provenance e) = Agent"
  shows "skill_id_for (xs_bridge x) (skill_id e) = Some (skill_id e)
    \<and> (\<exists>p ts why. queue_get (xs_queue x) (skill_id e) = Some p \<and> prop_status p = Approved ts why
        \<and> entries_of (skill_id e) (xs_queue x) =
            [(''enqueued'', prop_created_at_ns p, None), (''approved'', ts, Some why)])"
proof -
  have "extension_inv (extension_start r0)"
    using assms(2,3) by (intro extension_invI)
      (auto simp: extension_start_def queue_inv_def ordered_def accounted_def queue_new_def entries_of_def list_all_iff)
  then have inv: "extension_inv x"
    unfolding assms(4) by (induction ops rule: rev_induct) (simp_all add: extension_step_inv assms(1))
  have "kill_target e" using assms(6,7) by (simp add: kill_target_def)
  from extension_invD(4) [OF inv assms(5) this] obtain p ts why where v:
    "hm_get (xs_bridge x) (skill_id e) = Some (skill_id e)"
    "hm_get (proposals (xs_queue x)) (skill_id e) = Some p" "prop_status p = Approved ts why"
    by (auto simp: vetted_def)
  have "accounted (xs_queue x) (skill_id e)" using extension_invD(2) [OF inv] by (simp add: queue_inv_def)
  with v show ?thesis by (auto simp: accounted_def accounts_def skill_id_for_def queue_get_def)
qed

lemma active_agent_skill_approved_witness:
  "let g = \<lparr>auto_promote_agent_skills = False\<rparr>;
       p = \<lparr>skill_text = ''---'' @ [CHR ''\<newline>''] @ ''name: Tidy'' @ [CHR ''\<newline>''] @ ''---'', sp_authored_by = Agent,
            sp_proposed_at_ns = 4, sp_source_episode = None\<rparr>;
       x = foldl (extension_step \<lparr>check_injection = True, max_text_bytes = 30\<rparr> g) (extension_start []) [ProposeSkill p, OperatorApproves ''tidy'' ''fine'' 9]
   in map (\<lambda>e. (skill_id e, skill_state e, authored_by (provenance e))) (xs_registry x) = [(''tidy'', Active, Agent)]
      \<and> (\<exists>t. entries_of ''tidy'' (xs_queue x) = [(''enqueued'', t, None), (''approved'', 9, Some ''fine'')])"
proof -
  let ?g = "\<lparr>auto_promote_agent_skills = False\<rparr>"
  let ?p = "\<lparr>skill_text = ''---'' @ [CHR ''\<newline>''] @ ''name: Tidy'' @ [CHR ''\<newline>''] @ ''---'', sp_authored_by = Agent,
            sp_proposed_at_ns = 4, sp_source_episode = None\<rparr>"
  let ?s = "\<lparr>check_injection = True, max_text_bytes = 30\<rparr>"
  let ?x = "foldl (extension_step ?s ?g) (extension_start []) [ProposeSkill ?p, OperatorApproves ''tidy'' ''fine'' 9]"
  let ?m = "\<lparr>skill_name = ''Tidy'', skill_description = [], version = None, capabilities = []\<rparr>"
  let ?e = "\<lparr>skill_id = ''tidy'', manifest = ?m, body = Some \<lparr>body_manifest = ?m, instructions = [], linked_files = []\<rparr>,
     provenance = \<lparr>authored_by = Agent, proposed_at_ns = 4, source_episode = None, schema_version = 1\<rparr>, skill_state = Proposed\<rparr>"
  have ev: "evaluate_skill_proposal ?p [] ?s ?g = (Inr \<lparr>artifact_id = Some ''tidy'', outcome_action = PendingApproval\<rparr>, [?e])"
    by code_simp
  note run = extension_start_def queue_new_def enqueue_skill_def enqueue_skill_proposal_def enqueue_def hm_contains_def
    skill_proposal_to_queue_proposal_def skill_proposal_to_queue_proposal_with_hash_def case_prod_beta bridge_approve_def
    approve_def decide_def is_pending_def registry_promote_def hm_get_insert queue_get_def
  have r: "xs_registry ?x = [?e\<lparr>skill_state := Active\<rparr>]"
    and q: "map_option prop_status (queue_get (xs_queue ?x) ''tidy'') = Some (Approved 9 ''fine'')"
    using ev by (simp_all add: run)
  show ?thesis unfolding Let_def
    using active_agent_skill_approved [of ?g "[]" ?x ?s "[ProposeSkill ?p, OperatorApproves ''tidy'' ''fine'' 9]" "?e\<lparr>skill_state := Active\<rparr>", OF _ _ _ refl] r q
    by auto
qed

end
