(* ===== verification/Egress_Guard.thy ===== *)
theory Egress_Guard
  imports Ascii_Text
begin

unbundle bit_operations_syntax

text \<open>
  The egress guard (\<^verbatim>\<open>crates/actuators/src/egress.rs\<close>): it takes the scheme and the host out of a URL and
  denies schemes, private address literals in every notation of \<^verbatim>\<open>inet_aton\<close>, blocked hosts and hosts not on
  an allow list. The address parsers of the standard library it calls (\<^verbatim>\<open>core::net\<close>) are modelled with it. An IPv4
  address is a 32-bit word, an IPv6 address the list of its eight segments.
\<close>

section \<open>Addresses of the standard library\<close>

definition to_digit :: "nat \<Rightarrow> char \<Rightarrow> nat option" where
  "to_digit radix c =
     (let n = of_char (to_lower c) :: nat;
          d = (if 48 \<le> n \<and> n \<le> 57 then Some (n - 48) else if 97 \<le> n \<and> n \<le> 122 then Some (n - 87) else None) in
      case d of Some v \<Rightarrow> if v < radix then Some v else None | None \<Rightarrow> None)"

text \<open>\<^verbatim>\<open>Parser::read_number\<close>: the digits as far as they go; too many of them or an overflow of the
  type is an error, and so is a leading zero when it is not allowed.\<close>

fun read_digits :: "nat \<Rightarrow> nat \<Rightarrow> nat \<Rightarrow> nat \<Rightarrow> nat \<Rightarrow> string \<Rightarrow> (nat \<times> nat \<times> string) option" where
  "read_digits radix bound maxd cnt acc [] = Some (cnt, acc, [])"
| "read_digits radix bound maxd cnt acc (c # cs) =
     (case to_digit radix c of
        None \<Rightarrow> Some (cnt, acc, c # cs)
      | Some d \<Rightarrow> if bound \<le> acc * radix + d then None
                  else if maxd < cnt + 1 then None
                  else read_digits radix bound maxd (cnt + 1) (acc * radix + d) cs)"

definition read_number :: "nat \<Rightarrow> nat \<Rightarrow> nat \<Rightarrow> bool \<Rightarrow> string \<Rightarrow> (nat \<times> string) option" where
  "read_number radix bound maxd zero_prefix s =
     (case read_digits radix bound maxd 0 0 s of
        None \<Rightarrow> None
      | Some (cnt, v, rest) \<Rightarrow>
          if cnt = 0 then None
          else if \<not> zero_prefix \<and> prefix ''0'' s \<and> 1 < cnt then None
          else Some (v, rest))"

definition read_separator :: "char \<Rightarrow> nat \<Rightarrow> (string \<Rightarrow> ('a \<times> string) option) \<Rightarrow> string \<Rightarrow> ('a \<times> string) option" where
  "read_separator sep i p s =
     (if i = 0 then p s else case s of c # cs \<Rightarrow> if c = sep then p cs else None | [] \<Rightarrow> None)"

type_synonym Ipv4Addr = u32
type_synonym Ipv6Addr = "u16 list"

definition ipv4_new :: "u8 \<Rightarrow> u8 \<Rightarrow> u8 \<Rightarrow> u8 \<Rightarrow> Ipv4Addr" where
  "ipv4_new a b c d = push_bit 24 (ucast a) OR push_bit 16 (ucast b) OR push_bit 8 (ucast c) OR ucast d"

definition octet :: "Ipv4Addr \<Rightarrow> nat \<Rightarrow> u8" where
  "octet v i = ucast (drop_bit (24 - 8 * i) v)"

definition read_octet :: "nat \<Rightarrow> string \<Rightarrow> (nat \<times> string) option" where
  "read_octet i s = read_separator CHR ''.'' i (read_number 10 256 3 False) s"

definition read_ipv4_addr :: "string \<Rightarrow> (Ipv4Addr \<times> string) option" where
  "read_ipv4_addr s =
     (case read_octet 0 s of None \<Rightarrow> None | Some (a, s1) \<Rightarrow>
      case read_octet 1 s1 of None \<Rightarrow> None | Some (b, s2) \<Rightarrow>
      case read_octet 2 s2 of None \<Rightarrow> None | Some (c, s3) \<Rightarrow>
      case read_octet 3 s3 of None \<Rightarrow> None | Some (d, s4) \<Rightarrow>
        Some (ipv4_new (of_nat a) (of_nat b) (of_nat c) (of_nat d), s4))"

text \<open>\<^verbatim>\<open>str::parse::<Ipv4Addr>\<close>.\<close>

definition parse_ipv4 :: "string \<Rightarrow> Ipv4Addr option" where
  "parse_ipv4 s = (if 15 < length s then None
     else case read_ipv4_addr s of Some (v, []) \<Rightarrow> Some v | _ \<Rightarrow> None)"

text \<open>\<^verbatim>\<open>Parser::read_ipv6_addr\<close>: at most \<^verbatim>\<open>limit\<close> groups, the last two possibly as an IPv4
  address; the flag tells if they were.\<close>

fun read_groups :: "nat \<Rightarrow> nat \<Rightarrow> string \<Rightarrow> u16 list \<times> bool \<times> string" where
  "read_groups i 0 s = ([], False, s)"
| "read_groups i (Suc n) s =
     (case (if 0 < n then read_separator CHR '':'' i read_ipv4_addr s else None) of
        Some (v, s') \<Rightarrow> ([ucast (drop_bit 16 v), ucast v], True, s')
      | None \<Rightarrow>
          (case read_separator CHR '':'' i (read_number 16 65536 4 True) s of
             None \<Rightarrow> ([], False, s)
           | Some (g, s') \<Rightarrow> (case read_groups (Suc i) n s' of (gs, v4, rest) \<Rightarrow> (of_nat g # gs, v4, rest))))"

definition read_ipv6_addr :: "string \<Rightarrow> (Ipv6Addr \<times> string) option" where
  "read_ipv6_addr s =
     (case read_groups 0 8 s of (head, v4, s1) \<Rightarrow>
        if length head = 8 then Some (head, s1)
        else if v4 then None
        else case s1 of
            c # d # s2 \<Rightarrow>
              if c = CHR '':'' \<and> d = CHR '':'' then
                (case read_groups 0 (8 - (length head + 1)) s2 of (tail, _, s3) \<Rightarrow>
                   Some (head @ replicate (8 - length head - length tail) 0 @ tail, s3))
              else None
          | _ \<Rightarrow> None)"

definition parse_ipv6 :: "string \<Rightarrow> Ipv6Addr option" where
  "parse_ipv6 s = (case read_ipv6_addr s of Some (a, []) \<Rightarrow> Some a | _ \<Rightarrow> None)"

section \<open>Data\<close>

datatype EgressDenialReason =
    ForbiddenScheme string
  | SsrfPrivateAddress string
  | BlocklistedHost string
  | HostNotAllowed string

datatype EgressVerdict = Allow | Deny EgressDenialReason

definition verdict_allowed :: "EgressVerdict \<Rightarrow> bool" where
  "verdict_allowed v \<longleftrightarrow> v = Allow"

definition verdict_denied :: "EgressVerdict \<Rightarrow> bool" where
  "verdict_denied v \<longleftrightarrow> (case v of Deny _ \<Rightarrow> True | Allow \<Rightarrow> False)"

record EgressGuard =
  allowed_schemes :: "string list"
  blocklisted_hosts :: "string list"
  allowed_hosts :: "string list option"

definition guard_default :: EgressGuard where
  "guard_default = \<lparr>allowed_schemes = [''https''], blocklisted_hosts = [], allowed_hosts = None\<rparr>"

definition with_blocklisted_host :: "EgressGuard \<Rightarrow> string \<Rightarrow> EgressGuard" where
  "with_blocklisted_host g h = g\<lparr>blocklisted_hosts := blocklisted_hosts g @ [h]\<rparr>"

definition with_allowed_hosts :: "EgressGuard \<Rightarrow> string list \<Rightarrow> EgressGuard" where
  "with_allowed_hosts g hs = g\<lparr>allowed_hosts := Some hs\<rparr>"

section \<open>Taking a URL apart\<close>

definition rsplit_once :: "char \<Rightarrow> string \<Rightarrow> (string \<times> string) option" where
  "rsplit_once c s = map_option (\<lambda>(b, a). (rev a, rev b)) (split_once c (rev s))"

definition strip_port :: "string \<Rightarrow> string" where
  "strip_port authority =
     (if prefix ''['' authority then
        (case split_once CHR '']'' authority of Some (a, _) \<Rightarrow> a @ '']'' | None \<Rightarrow> authority)
      else case rsplit_once CHR '':'' authority of
          Some (before, after) \<Rightarrow> if list_all is_digit after then before else authority
        | None \<Rightarrow> authority)"

definition authority_of :: "string \<Rightarrow> string" where
  "authority_of rest =
     (let authority = takeWhile (\<lambda>c. c \<noteq> CHR ''#'') (takeWhile (\<lambda>c. c \<noteq> CHR ''?'') (takeWhile (\<lambda>c. c \<noteq> CHR ''/'') rest)) in
      case split_once CHR ''@'' authority of Some (_, a) \<Rightarrow> a | None \<Rightarrow> authority)"

definition parse_scheme_host :: "string \<Rightarrow> (string \<times> string) option" where
  "parse_scheme_host url =
     (case find_str ''://'' url of
        None \<Rightarrow> None
      | Some sep \<Rightarrow>
          (let scheme = to_ascii_lowercase (take sep url);
               host = strip_port (authority_of (drop (sep + 3) url)) in
           if host = [] then None else Some (scheme, host)))"

definition strip_brackets :: "string \<Rightarrow> string" where
  "strip_brackets host = (if prefix ''['' host \<and> suffix '']'' host then butlast (tl host) else host)"

section \<open>Address classes\<close>

text \<open>\<^verbatim>\<open>from_str_radix\<close> of an unsigned type: one leading plus sign, at least one digit, overflow is an
  error.\<close>

definition from_str_radix :: "nat \<Rightarrow> string \<Rightarrow> 'a::len word option" where
  "from_str_radix radix s =
     (let digits = (case s of c # cs \<Rightarrow> if c = CHR ''+'' then cs else s | [] \<Rightarrow> []) in
      if digits = [] then None
      else fold (\<lambda>c acc. case acc of None \<Rightarrow> None | Some a \<Rightarrow>
             (case to_digit radix c of None \<Rightarrow> None
              | Some d \<Rightarrow> if unat a * radix + d < 2 ^ LENGTH('a) then Some (of_nat (unat a * radix + d)) else None))
             digits (Some 0))"

definition parse_numeric_part :: "string \<Rightarrow> u64 option" where
  "parse_numeric_part p =
     (if p = [] then None
      else case strip_prefix ''0x'' (to_ascii_lowercase p) of
          Some hex \<Rightarrow> if hex = [] \<or> \<not> list_all (\<lambda>c. to_digit 16 c \<noteq> None) hex then None else from_str_radix 16 hex
        | None \<Rightarrow>
            if 1 < length p \<and> prefix ''0'' p then
              (if list_all (\<lambda>c. 48 \<le> (of_char c :: nat) \<and> (of_char c :: nat) \<le> 55) p then from_str_radix 8 p else None)
            else if list_all is_digit p then from_str_radix 10 p else None)"

definition combine_parts :: "u64 list \<Rightarrow> u64 option" where
  "combine_parts nums =
     (case nums of
        [a] \<Rightarrow> Some a
      | [a, b] \<Rightarrow> if a > 0xff \<or> b > 0xffffff then None else Some (push_bit 24 a OR b)
      | [a, b, c] \<Rightarrow> if a > 0xff \<or> b > 0xff \<or> c > 0xffff then None else Some (push_bit 24 a OR push_bit 16 b OR c)
      | [a, b, c, d] \<Rightarrow> if list_ex (\<lambda>n. n > 0xff) nums then None
          else Some (push_bit 24 a OR push_bit 16 b OR push_bit 8 c OR d)
      | _ \<Rightarrow> None)"

definition parse_ipv4_any :: "string \<Rightarrow> Ipv4Addr option" where
  "parse_ipv4_any host =
     (case parse_ipv4 host of
        Some v \<Rightarrow> Some v
      | None \<Rightarrow>
          (let parts = split_on CHR ''.'' host in
           if parts = [] \<or> 4 < length parts then None
           else case those (map parse_numeric_part parts) of
               None \<Rightarrow> None
             | Some nums \<Rightarrow> (case combine_parts nums of
                   None \<Rightarrow> None
                 | Some v \<Rightarrow> if v > 0xffffffff then None else Some (ucast v))))"

definition is_private_ipv4 :: "Ipv4Addr \<Rightarrow> bool" where
  "is_private_ipv4 v \<longleftrightarrow>
     octet v 0 = 127
     \<or> (octet v 0 = 10 \<or> (octet v 0 = 172 \<and> octet v 1 \<ge> 16 \<and> octet v 1 \<le> 31) \<or> (octet v 0 = 192 \<and> octet v 1 = 168))
     \<or> (octet v 0 = 169 \<and> octet v 1 = 254)
     \<or> v = 0
     \<or> v = 0xffffffff
     \<or> octet v 0 = 0
     \<or> (octet v 0 = 100 \<and> 64 \<le> octet v 1 \<and> octet v 1 \<le> 127)
     \<or> v = ipv4_new 169 254 169 254"

definition segments_ipv4 :: "u16 \<Rightarrow> u16 \<Rightarrow> Ipv4Addr" where
  "segments_ipv4 a b = ipv4_new (ucast (drop_bit 8 a)) (ucast (a AND 0xff)) (ucast (drop_bit 8 b)) (ucast (b AND 0xff))"

definition embedded_ipv4 :: "Ipv6Addr \<Rightarrow> Ipv4Addr option" where
  "embedded_ipv4 s =
     (if take 5 s = [0, 0, 0, 0, 0] \<and> s ! 5 = 0xffff then Some (segments_ipv4 (s ! 6) (s ! 7))
      else if take 6 s = [0, 0, 0, 0, 0, 0] \<and> (s ! 6 \<noteq> 0 \<or> s ! 7 > 1) then Some (segments_ipv4 (s ! 6) (s ! 7))
      else None)"

definition is_private_ipv6 :: "Ipv6Addr \<Rightarrow> bool" where
  "is_private_ipv6 s \<longleftrightarrow>
     s = [0, 0, 0, 0, 0, 0, 0, 1] \<or> s = [0, 0, 0, 0, 0, 0, 0, 0]
     \<or> s ! 0 AND 0xffc0 = 0xfe80
     \<or> s ! 0 AND 0xfe00 = 0xfc00"

definition ssrf_check :: "string \<Rightarrow> EgressDenialReason option" where
  "ssrf_check h =
     (let host = strip_brackets h; lower = to_ascii_lowercase host in
      if lower = ''localhost'' \<or> suffix ''.localhost'' lower then Some (SsrfPrivateAddress host)
      else if CHR '':'' \<in> set host then
        (case parse_ipv6 host of
           Some addr \<Rightarrow>
             (case embedded_ipv4 addr of
                Some v4 \<Rightarrow> if is_private_ipv4 v4 then Some (SsrfPrivateAddress host)
                            else if is_private_ipv6 addr then Some (SsrfPrivateAddress host) else None
              | None \<Rightarrow> if is_private_ipv6 addr then Some (SsrfPrivateAddress host) else None)
         | None \<Rightarrow> None)
      else case parse_ipv4_any host of
          Some addr \<Rightarrow> if is_private_ipv4 addr then Some (SsrfPrivateAddress host) else None
        | None \<Rightarrow> None)"

section \<open>Host lists and the verdict\<close>

definition trim_end_dots :: "string \<Rightarrow> string" where
  "trim_end_dots s = rev (dropWhile (\<lambda>c. c = CHR ''.'') (rev s))"

definition host_matches :: "string \<Rightarrow> string \<Rightarrow> bool" where
  "host_matches host pattern =
     (let h = trim_end_dots host; p = trim_end_dots (dropWhile (\<lambda>c. c = CHR ''.'') pattern) in
      to_ascii_lowercase h = to_ascii_lowercase p
      \<or> suffix (CHR ''.'' # p) h
      \<or> suffix (CHR ''.'' # to_ascii_lowercase p) (to_ascii_lowercase h))"

definition check_url :: "EgressGuard \<Rightarrow> string \<Rightarrow> EgressVerdict" where
  "check_url g url =
     (case parse_scheme_host url of
        None \<Rightarrow> Deny (ForbiddenScheme ''<unparseable>'')
      | Some (scheme, host) \<Rightarrow>
          if \<not> list_ex (\<lambda>s. to_ascii_lowercase s = to_ascii_lowercase scheme) (allowed_schemes g) then
            Deny (ForbiddenScheme scheme)
          else
            (let h = strip_brackets host in
             case ssrf_check h of
               Some reason \<Rightarrow> Deny reason
             | None \<Rightarrow>
                 if list_ex (host_matches h) (blocklisted_hosts g) then Deny (BlocklistedHost h)
                 else (case allowed_hosts g of
                         Some allow \<Rightarrow> if list_ex (host_matches h) allow then Allow else Deny (HostNotAllowed h)
                       | None \<Rightarrow> Allow)))"

section \<open>Address texts\<close>

text \<open>The numbers and addresses a resolver accepts (\<^verbatim>\<open>inet_aton\<close>): decimal, octal after a zero,
  hexadecimal after \<^verbatim>\<open>0x\<close>; one to four parts, the last of which fills the remaining bytes.\<close>

definition digits_of :: "nat \<Rightarrow> string \<Rightarrow> nat list \<Rightarrow> bool" where
  "digits_of b p ds \<longleftrightarrow> list_all2 (\<lambda>c d. to_digit b c = Some d) p ds"

definition base_value :: "nat \<Rightarrow> nat list \<Rightarrow> nat" where
  "base_value b ds = foldl (\<lambda>a d. a * b + d) 0 ds"

inductive inet_number :: "string \<Rightarrow> nat \<Rightarrow> bool" where
  dec: "digits_of 10 p ds \<Longrightarrow> p \<noteq> [] \<Longrightarrow> hd p \<noteq> CHR ''0'' \<or> length p = 1 \<Longrightarrow> inet_number p (base_value 10 ds)"
| oct: "digits_of 8 p ds \<Longrightarrow> p \<noteq> [] \<Longrightarrow> inet_number (CHR ''0'' # p) (base_value 8 ds)"
| hex: "digits_of 16 p ds \<Longrightarrow> p \<noteq> [] \<Longrightarrow> x = CHR ''x'' \<or> x = CHR ''X'' \<Longrightarrow> inet_number (CHR ''0'' # x # p) (base_value 16 ds)"

fun inet_value :: "nat list \<Rightarrow> nat option" where
  "inet_value [a] = (if a < 2 ^ 32 then Some a else None)"
| "inet_value [a, b] = (if a < 256 \<and> b < 2 ^ 24 then Some (a * 2 ^ 24 + b) else None)"
| "inet_value [a, b, c] = (if a < 256 \<and> b < 256 \<and> c < 2 ^ 16 then Some (a * 2 ^ 24 + b * 2 ^ 16 + c) else None)"
| "inet_value [a, b, c, d] = (if a < 256 \<and> b < 256 \<and> c < 256 \<and> d < 256
     then Some (a * 2 ^ 24 + b * 2 ^ 16 + c * 2 ^ 8 + d) else None)"
| "inet_value _ = None"

definition inet_address :: "string \<Rightarrow> nat \<Rightarrow> bool" where
  "inet_address h v \<longleftrightarrow> (\<exists>ns. list_all2 inet_number (split_on CHR ''.'' h) ns \<and> inet_value ns = Some v)"

subsection \<open>Digits\<close>

lemma to_digit_range: "to_digit b c = Some d \<Longrightarrow>
    d < b \<and> ((48 \<le> (of_char c :: nat) \<and> (of_char c :: nat) \<le> 57 \<and> d = of_char c - 48)
     \<or> (65 \<le> (of_char c :: nat) \<and> (of_char c :: nat) \<le> 90 \<and> d = of_char c - 55)
     \<or> (97 \<le> (of_char c :: nat) \<and> (of_char c :: nat) \<le> 122 \<and> d = of_char c - 87))"
  unfolding to_digit_def of_char_to_lower by (auto simp: Let_def split: if_splits)

lemma digit_is_to_digit: "is_digit c \<longleftrightarrow> to_digit 10 c \<noteq> None"
  unfolding is_digit_def digit_of_def to_digit_def of_char_to_lower by (auto simp: Let_def split: if_splits)

lemma octal_is_to_digit: "48 \<le> (of_char c :: nat) \<and> (of_char c :: nat) \<le> 55 \<longleftrightarrow> to_digit 8 c \<noteq> None"
  unfolding to_digit_def of_char_to_lower by (auto simp: Let_def split: if_splits)

lemma to_digit_lower [simp]: "to_digit b (to_lower c) = to_digit b c"
  by (simp add: to_digit_def)

lemma to_lower_cases:
  assumes "of_char (to_lower c) = (n :: nat)"
  shows "c = char_of n \<or> (97 \<le> n \<and> c = char_of (n - 32))"
proof -
  have "of_char c = n \<or> (97 \<le> n \<and> of_char c = n - 32)"
    using assms unfolding of_char_to_lower by (auto simp: Let_def split: if_splits)
  then show ?thesis by (metis char_of_char)
qed

lemma char_codes: "char_of (48 :: nat) = CHR ''0''" "char_of (88 :: nat) = CHR ''X''" "char_of (120 :: nat) = CHR ''x''"
  by code_simp+

lemma to_lower_0: "to_lower c = CHR ''0'' \<Longrightarrow> c = CHR ''0''"
  using to_lower_cases [of c 48] by (auto simp: char_codes)

lemma to_lower_x: "to_lower c = CHR ''x'' \<Longrightarrow> c = CHR ''x'' \<or> c = CHR ''X''"
  using to_lower_cases [of c 120] by (auto simp: char_codes)

lemma to_digit_zero [simp]: "0 < b \<Longrightarrow> to_digit b CHR ''0'' = Some 0"
  by (simp add: to_digit_def to_lower_def)

lemma to_digit_delims [simp]:
  "to_digit b CHR ''.'' = None" "to_digit b CHR '':'' = None" "to_digit b CHR ''/'' = None" "to_digit b CHR ''?'' = None"
  "to_digit b CHR ''+'' = None" "to_digit b CHR ''#'' = None" "to_digit b CHR ''@'' = None" "to_digit b CHR ''['' = None" "to_digit b CHR '']'' = None"
  by (simp_all add: to_digit_def to_lower_def)

lemma digits_of_simps [simp]:
  "digits_of b [] ds \<longleftrightarrow> ds = []"
  "digits_of b (c # cs) ds \<longleftrightarrow> (\<exists>d es. ds = d # es \<and> to_digit b c = Some d \<and> digits_of b cs es)"
  "digits_of b (map to_lower p) ds \<longleftrightarrow> digits_of b p ds"
  by (auto simp: digits_of_def list_all2_Cons1 list_all2_map1)

lemma digits_of_exists: "list_all (\<lambda>c. to_digit b c \<noteq> None) p \<longleftrightarrow> (\<exists>ds. digits_of b p ds)"
  by (induction p) auto

lemma all_digits: "list_all is_digit p \<longleftrightarrow> (\<exists>ds. digits_of 10 p ds)"
  unfolding digit_is_to_digit [abs_def] by (rule digits_of_exists)

lemma digits_free: "digits_of b p ds \<Longrightarrow> to_digit b c = None \<Longrightarrow> c \<notin> set p"
  by (induction p arbitrary: ds) auto

lemma base_value_snoc: "base_value b (ds @ [d]) = base_value b ds * b + d"
  by (simp add: base_value_def)

lemma base_value_zero: "base_value b (0 # ds) = base_value b ds"
  by (simp add: base_value_def)

lemma from_str_radix_value:
  assumes "digits_of b p ds" "p \<noteq> []" "0 < b"
  shows "from_str_radix b p = (if base_value b ds < 2 ^ LENGTH('a) then Some (of_nat (base_value b ds) :: 'a::len word) else None)"
proof -
  let ?f = "\<lambda>c acc. case acc of None \<Rightarrow> None | Some a \<Rightarrow>
             (case to_digit b c of None \<Rightarrow> None
              | Some d \<Rightarrow> if unat a * b + d < 2 ^ LENGTH('a) then Some (of_nat (unat a * b + d) :: 'a word) else None)"
  have "fold ?f p (Some 0) = (if base_value b ds < 2 ^ LENGTH('a) then Some (of_nat (base_value b ds)) else None)"
    using assms(1)
  proof (induction p arbitrary: ds rule: rev_induct)
    case (snoc c p)
    then obtain es d where ds: "ds = es @ [d]" "digits_of b p es" "to_digit b c = Some d"
      by (auto simp: digits_of_def list_all2_append1 list_all2_Cons1)
    have "base_value b es \<le> base_value b es * b" using assms(3) by simp
    then have "base_value b es \<le> base_value b ds" unfolding ds(1) base_value_snoc by (rule trans_le_add1)
    moreover have "unat (of_nat (base_value b es) :: 'a word) = base_value b es" if "base_value b es < 2 ^ LENGTH('a)"
      using that by (simp add: unat_of_nat take_bit_nat_eq_self)
    ultimately show ?case using snoc.IH [OF ds(2)] ds(3) by (auto simp: ds(1) base_value_snoc)
  qed (simp add: base_value_def)
  moreover have "hd p \<noteq> CHR ''+''" using assms(1,2) by (cases p) auto
  ultimately show ?thesis using assms(2) by (cases p) (simp_all add: from_str_radix_def)
qed

lemma from_str_radix_digits:
  assumes "from_str_radix b p = Some (w :: 'a::len word)"
  shows "\<exists>q ds. (p = q \<or> p = CHR ''+'' # q) \<and> q \<noteq> [] \<and> digits_of b q ds"
proof -
  let ?f = "\<lambda>c acc. case acc of None \<Rightarrow> None | Some a \<Rightarrow>
             (case to_digit b c of None \<Rightarrow> None
              | Some d \<Rightarrow> if unat a * b + d < 2 ^ LENGTH('a) then Some (of_nat (unat a * b + d) :: 'a word) else None)"
  have none: "fold ?f q None = None" for q by (induction q) simp_all
  have digits: "\<exists>ds. digits_of b q ds" if "fold ?f q (Some a) = Some w" for q a
    using that
  proof (induction q arbitrary: a)
    case (Cons c q)
    then obtain d where d: "to_digit b c = Some d" and "unat a * b + d < 2 ^ LENGTH('a)"
      by (cases "to_digit b c") (simp_all add: none split: if_splits)
    with Cons show ?case by auto
  qed (rule exI [of _ "[]"], simp)
  from assms have "p \<noteq> []" by (auto simp: from_str_radix_def)
  then obtain q where "p = q \<or> p = CHR ''+'' # q" "q \<noteq> []" "fold ?f q (Some 0) = Some w"
    using assms by (cases p) (auto simp: from_str_radix_def Let_def split: if_splits)
  with digits show ?thesis by blast
qed

lemma from_str_radix_plus: "hd p \<noteq> CHR ''+'' \<Longrightarrow> p \<noteq> [] \<Longrightarrow> from_str_radix b (CHR ''+'' # p) = from_str_radix b p"
  by (cases p) (simp_all add: from_str_radix_def)

text \<open>The sign \<^verbatim>\<open>from_str_radix\<close> passes over is the only text besides digits it reads.\<close>

lemma from_str_radix_iff:
  assumes "0 < b" "to_digit b CHR ''+'' = None"
  shows "from_str_radix b p = Some (w :: 'a::len word) \<longleftrightarrow>
    (\<exists>q ds. (p = q \<or> p = CHR ''+'' # q) \<and> q \<noteq> [] \<and> digits_of b q ds \<and> base_value b ds = unat w)"
proof -
  have val: "from_str_radix b p = (if base_value b ds < 2 ^ LENGTH('a) then Some (of_nat (base_value b ds) :: 'a word) else None)"
    if "p = q \<or> p = CHR ''+'' # q" "q \<noteq> []" "digits_of b q ds" for q ds
  proof -
    have "hd q \<noteq> CHR ''+''" using that(2,3) assms(2) by (cases q) auto
    then show ?thesis using that from_str_radix_value [OF that(3,2) assms(1)] from_str_radix_plus [of q b] by metis
  qed
  show ?thesis
  proof
    assume a: "from_str_radix b p = Some w"
    then obtain q ds where q: "p = q \<or> p = CHR ''+'' # q" "q \<noteq> []" "digits_of b q ds" using from_str_radix_digits by blast
    from val [OF q] a have "base_value b ds < 2 ^ LENGTH('a)" "w = of_nat (base_value b ds)" by (auto split: if_splits)
    then have "base_value b ds = unat w" by (simp add: unat_of_nat take_bit_nat_eq_self)
    with q show "\<exists>q ds. (p = q \<or> p = CHR ''+'' # q) \<and> q \<noteq> [] \<and> digits_of b q ds \<and> base_value b ds = unat w" by blast
  next
    assume "\<exists>q ds. (p = q \<or> p = CHR ''+'' # q) \<and> q \<noteq> [] \<and> digits_of b q ds \<and> base_value b ds = unat w"
    then obtain q ds where q: "p = q \<or> p = CHR ''+'' # q" "q \<noteq> []" "digits_of b q ds" and v: "base_value b ds = unat w" by blast
    from val [OF q] v unat_lt_pow [of w] show "from_str_radix b p = Some w" by simp
  qed
qed

lemma numeric_part_value:
  "inet_number p n \<Longrightarrow> parse_numeric_part p = (if n < 2 ^ 64 then Some (of_nat n) else None)"
proof (induction rule: inet_number.induct)
  case (dec p ds)
  have "\<not> prefix ''0x'' (to_ascii_lowercase p)"
  proof
    assume "prefix ''0x'' (to_ascii_lowercase p)"
    then obtain q where "to_ascii_lowercase p = CHR ''0'' # CHR ''x'' # q" by (auto simp: prefix_def)
    moreover from dec(1) have "digits_of 10 (to_ascii_lowercase p) ds" by simp
    moreover have "to_digit 10 CHR ''x'' = None" by (simp add: to_digit_def to_lower_def)
    ultimately show False by simp
  qed
  moreover have "list_all is_digit p" using dec(1) by (auto simp: all_digits)
  moreover have "(1 < length p \<and> prefix ''0'' p) = False" using dec(2,3) by (cases p) auto
  ultimately show ?case using from_str_radix_value [where 'a = 64, OF dec(1,2)] dec(2)
    by (auto simp: parse_numeric_part_def strip_prefix_def)
next
  case (oct p ds)
  have x: "to_digit 8 CHR ''x'' = None" by (simp add: to_digit_def to_lower_def)
  from oct obtain c q where p: "p = c # q" by (cases p) auto
  with oct x have "to_lower c \<noteq> CHR ''x''" by (metis digits_of_simps(2) option.distinct(1) to_digit_lower)
  then have "strip_prefix ''0x'' (to_ascii_lowercase (CHR ''0'' # p)) = None"
    by (simp add: strip_prefix_def p)
  moreover have all: "list_all (\<lambda>c. 48 \<le> (of_char c :: nat) \<and> (of_char c :: nat) \<le> 55) (CHR ''0'' # p)"
    using oct(1) digits_of_exists [of 8 p] unfolding octal_is_to_digit by auto
  moreover have "digits_of 8 (CHR ''0'' # p) (0 # ds)" using oct(1) by simp
  ultimately show ?case using from_str_radix_value [where 'a = 64, of 8 "CHR ''0'' # p" "0 # ds"] oct(2)
    by (simp add: parse_numeric_part_def base_value_zero)
next
  case (hex p ds x)
  have "strip_prefix ''0x'' (to_ascii_lowercase (CHR ''0'' # x # p)) = Some (to_ascii_lowercase p)"
    using hex(3) by (auto simp: strip_prefix_def to_lower_def char_codes)
  moreover have "list_all (\<lambda>c. to_digit 16 c \<noteq> None) (to_ascii_lowercase p)"
    using hex(1) digits_of_exists [of 16 "to_ascii_lowercase p"] by auto
  ultimately show ?case using from_str_radix_value [where 'a = 64, of 16 "to_ascii_lowercase p" ds] hex(1,2)
    by (simp add: parse_numeric_part_def)
qed

lemma numeric_part_number: "parse_numeric_part p = Some w \<Longrightarrow> \<exists>n. inet_number p n"
proof -
  assume a: "parse_numeric_part p = Some w"
  then have ne: "p \<noteq> []" by (auto simp: parse_numeric_part_def)
  show ?thesis
  proof (cases "strip_prefix ''0x'' (to_ascii_lowercase p)")
    case (Some h)
    then have "to_ascii_lowercase p = CHR ''0'' # CHR ''x'' # h" by (auto simp: strip_prefix_def prefix_def split: if_splits)
    then obtain z x q where p: "p = z # x # q" "to_lower z = CHR ''0''" "to_lower x = CHR ''x''" "h = to_ascii_lowercase q"
      by (auto simp: map_eq_Cons_conv)
    note x = to_lower_x [OF p(3)] and z = to_lower_0 [OF p(2)]
    have "q \<noteq> []" "\<exists>ds. digits_of 16 q ds"
      using a Some p(4) digits_of_exists [of 16 "to_ascii_lowercase q"] by (auto simp: parse_numeric_part_def split: if_splits)
    then show ?thesis using inet_number.hex p(1) x z by blast
  next
    case None
    show ?thesis
    proof (cases "1 < length p \<and> prefix ''0'' p")
      case True
      then obtain q where q: "p = CHR ''0'' # q" "q \<noteq> []" by (cases p) auto
      with a None True obtain ds where "digits_of 8 p ds"
        using digits_of_exists [of 8 p] unfolding parse_numeric_part_def octal_is_to_digit by (auto split: if_splits)
      with q show ?thesis using inet_number.oct by auto
    next
      case False
      with a None ne obtain ds where "digits_of 10 p ds"
        unfolding parse_numeric_part_def all_digits by (auto split: if_splits)
      with False ne show ?thesis by (intro exI [of _ "base_value 10 ds"] inet_number.dec) (cases p; auto)+
    qed
  qed
qed

subsection \<open>Combining the parts\<close>

lemma or_is_add:
  fixes a b :: "'a::len word"
  assumes "unat b < 2 ^ n" and "unat a * 2 ^ n + unat b < 2 ^ LENGTH('a)"
  shows "unat (push_bit n a OR b) = unat a * 2 ^ n + unat b"
proof -
  have b: "take_bit n b = b"
    using assms(1) by (simp add: word_unat_eq_iff unsigned_take_bit_eq take_bit_nat_eq_self)
  have "push_bit n a AND take_bit n b = 0"
    by (rule bit_eqI) (auto simp: bit_simps)
  then have "push_bit n a AND b = 0" by (simp add: b)
  then have "push_bit n a OR b = push_bit n a + b" by (simp add: disjunctive_add_eq_or)
  moreover have "unat (push_bit n a) = unat a * 2 ^ n"
    unfolding unsigned_push_bit_eq using assms(2) by (simp add: push_bit_eq_mult take_bit_nat_eq_self)
  ultimately show ?thesis using assms(2) by (simp add: unat_add_exact)
qed

lemma u64_bounds: "(w :: u64) > 0xff \<longleftrightarrow> \<not> unat w < 256" "(w :: u64) > 0xffff \<longleftrightarrow> \<not> unat w < 2 ^ 16"
  "(w :: u64) > 0xffffff \<longleftrightarrow> \<not> unat w < 2 ^ 24" "(w :: u64) > 0xffffffff \<longleftrightarrow> \<not> unat w < 2 ^ 32"
  by (auto simp: word_less_nat_alt)

lemma u64_list_cases:
  obtains "ws = []" | a where "ws = [a]" | a b where "ws = [a, b]" | a b c where "ws = [a, b, c]"
  | a b c d where "ws = [a, b, c, d]" | a b c d e es where "ws = a # b # c # d # e # es"
  by (metis list.exhaust)

lemma combine_value:
  "(case combine_parts ws of None \<Rightarrow> None | Some v \<Rightarrow> if v > 0xffffffff then None else Some (unat v))
   = inet_value (map unat ws)"
proof (cases ws rule: u64_list_cases)
  case (3 a b)
  then show ?thesis using or_is_add [of b 24 a] by (auto simp: combine_parts_def u64_bounds)
next
  case (4 a b c)
  have "unat (push_bit 16 b OR c) = unat b * 2 ^ 16 + unat c" if "unat b < 256" "unat c < 2 ^ 16"
    using that by (intro or_is_add) simp_all
  then show ?thesis using 4 or_is_add [of "push_bit 16 b OR c" 24 a] by (auto simp: combine_parts_def u64_bounds)
next
  case (5 a b c d)
  have cd: "unat (push_bit 8 c OR d) = unat c * 2 ^ 8 + unat d" if "unat c < 256" "unat d < 256"
    using that by (intro or_is_add) simp_all
  have "unat (push_bit 16 b OR push_bit 8 c OR d) = unat b * 2 ^ 16 + (unat c * 2 ^ 8 + unat d)"
    if "unat b < 256" "unat c < 256" "unat d < 256"
    using that cd or_is_add [of "push_bit 8 c OR d" 16 b] by simp
  then show ?thesis using 5 or_is_add [of "push_bit 16 b OR push_bit 8 c OR d" 24 a]
    by (auto simp: combine_parts_def u64_bounds)
qed (auto simp: combine_parts_def u64_bounds)

text \<open>The value of an address text, without the fast path for dotted quads.\<close>

definition general_ipv4 :: "string \<Rightarrow> nat option" where
  "general_ipv4 host = (case those (map parse_numeric_part (split_on CHR ''.'' host)) of None \<Rightarrow> None | Some nums \<Rightarrow> inet_value (map unat nums))"

lemma those_Some: "those xs = Some ys \<longleftrightarrow> list_all2 (\<lambda>x y. x = Some y) xs ys"
  by (induction xs arbitrary: ys) (auto simp: list_all2_Cons1 split: option.splits)

lemma inet_value_bound: "inet_value ns = Some v \<Longrightarrow> v < 2 ^ 32 \<and> (\<forall>n\<in>set ns. n < 2 ^ 64) \<and> length ns \<le> 4"
  by (induction ns rule: inet_value.induct) (auto split: if_splits)

lemma numeric_part_iff: "n < 2 ^ 64 \<Longrightarrow> inet_number p n \<longleftrightarrow> (\<exists>w. parse_numeric_part p = Some w \<and> unat w = n)"
proof
  assume n: "n < 2 ^ 64"
  show "\<exists>w. parse_numeric_part p = Some w \<and> unat w = n" if "inet_number p n"
    using numeric_part_value [OF that] n by (simp add: unat_of_nat take_bit_nat_eq_self)
  assume "\<exists>w. parse_numeric_part p = Some w \<and> unat w = n"
  then obtain w where w: "parse_numeric_part p = Some w" "unat w = n" by blast
  from numeric_part_number [OF w(1)] obtain m where m: "inet_number p m" ..
  from numeric_part_value [OF m] w have "m < 2 ^ 64" "w = of_nat m" by (auto split: if_splits)
  with w(2) have "n = m" by (simp add: unat_of_nat take_bit_nat_eq_self)
  with m show "inet_number p n" by simp
qed

lemma inet_address_general: "inet_address h v \<longleftrightarrow> general_ipv4 h = Some v"
proof -
  have "list_all2 inet_number ps ns \<longleftrightarrow> (\<exists>ws. list_all2 (\<lambda>x y. x = Some y) (map parse_numeric_part ps) ws \<and> map unat ws = ns)"
    if "\<forall>n\<in>set ns. n < 2 ^ 64" for ps ns
    using that
  proof (induction ps arbitrary: ns)
    case (Cons p ps)
    show ?case
    proof
      assume "list_all2 inet_number (p # ps) ns"
      then obtain m ms where "ns = m # ms" "inet_number p m" "list_all2 inet_number ps ms" by (auto simp: list_all2_Cons1)
      with Cons numeric_part_iff [of m p] obtain w ws where "parse_numeric_part p = Some w" "unat w = m"
        "list_all2 (\<lambda>x y. x = Some y) (map parse_numeric_part ps) ws" "map unat ws = ms" by auto
      with \<open>ns = m # ms\<close> show "\<exists>ws. list_all2 (\<lambda>x y. x = Some y) (map parse_numeric_part (p # ps)) ws \<and> map unat ws = ns"
        by (intro exI [of _ "w # ws"]) simp
    next
      assume "\<exists>ws. list_all2 (\<lambda>x y. x = Some y) (map parse_numeric_part (p # ps)) ws \<and> map unat ws = ns"
      then obtain w ws where ws: "parse_numeric_part p = Some w" "list_all2 (\<lambda>x y. x = Some y) (map parse_numeric_part ps) ws"
        "ns = unat w # map unat ws" by (auto simp: list_all2_Cons1)
      then have "inet_number p (unat w)" using numeric_part_iff [of "unat w" p] unat_lt_pow [of w] by auto
      moreover have "list_all2 inet_number ps (map unat ws)" using Cons ws by auto
      ultimately show "list_all2 inet_number (p # ps) ns" using ws(3) by simp
    qed
  qed auto
  note parts = this [folded those_Some]
  show ?thesis
  proof
    assume "inet_address h v"
    then obtain ns where "list_all2 inet_number (split_on CHR ''.'' h) ns" and v: "inet_value ns = Some v"
      by (auto simp: inet_address_def)
    with parts [of ns] inet_value_bound [OF v] v show "general_ipv4 h = Some v" by (auto simp: general_ipv4_def)
  next
    assume "general_ipv4 h = Some v"
    then obtain ws where "those (map parse_numeric_part (split_on CHR ''.'' h)) = Some ws" and v: "inet_value (map unat ws) = Some v"
      by (auto simp: general_ipv4_def split: option.splits)
    with parts [of "map unat ws"] inet_value_bound [OF v] v show "inet_address h v" by (auto simp: inet_address_def)
  qed
qed

subsection \<open>The strict parser agrees\<close>

lemma read_digits_spec:
  "read_digits b bound maxd cnt acc s = Some (n, v, rest) \<Longrightarrow>
   \<exists>p ds. s = p @ rest \<and> digits_of b p ds \<and> n = cnt + length p \<and> v = foldl (\<lambda>a d. a * b + d) acc ds \<and> (acc < bound \<longrightarrow> v < bound)"
proof (induction b bound maxd cnt acc s rule: read_digits.induct)
  case (2 b bound maxd cnt acc c cs)
  show ?case
  proof (cases "to_digit b c")
    case None
    with 2 show ?thesis by auto
  next
    case (Some d)
    with 2 obtain p ds where "cs = p @ rest" "digits_of b p ds" "n = cnt + 1 + length p"
      "v = foldl (\<lambda>a d. a * b + d) (acc * b + d) ds" "v < bound" by (auto split: if_splits)
    with Some show ?thesis by (intro exI [of _ "c # p"] exI [of _ "d # ds"]) simp
  qed
qed auto

lemma read_number_octet:
  assumes "read_number 10 256 3 False s = Some (v, rest)"
  shows "\<exists>p. s = p @ rest \<and> inet_number p v \<and> v < 256 \<and> CHR ''.'' \<notin> set p"
proof -
  from assms obtain n where r: "read_digits 10 256 3 0 0 s = Some (n, v, rest)" and n: "n \<noteq> 0" "\<not> (prefix ''0'' s \<and> 1 < n)"
    by (auto simp: read_number_def split: option.splits prod.splits if_splits)
  from read_digits_spec [OF r] obtain p ds where p: "s = p @ rest" "digits_of 10 p ds" "n = length p"
    "v = base_value 10 ds" "v < 256" by (auto simp: base_value_def)
  moreover from n p(1,3) have "p \<noteq> []" "hd p \<noteq> CHR ''0'' \<or> length p = 1" by (cases p; auto)+
  ultimately have "inet_number p v" using inet_number.dec by blast
  with p digits_free [OF p(2)] show ?thesis by auto
qed

lemma read_octet_spec:
  assumes "read_octet i s = Some (v, rest)"
  shows "\<exists>p. s = (if i = 0 then [] else ''.'') @ p @ rest \<and> inet_number p v \<and> v < 256 \<and> CHR ''.'' \<notin> set p"
proof (cases "i = 0")
  case True
  with assms show ?thesis using read_number_octet [of s v rest] by (simp add: read_octet_def read_separator_def)
next
  case False
  with assms obtain cs where "s = CHR ''.'' # cs" "read_number 10 256 3 False cs = Some (v, rest)"
    by (auto simp: read_octet_def read_separator_def split: list.splits if_splits)
  with False show ?thesis using read_number_octet [of cs v rest] by simp
qed

lemma ipv4_new_value:
  assumes "a < 256" "b < 256" "c < 256" "d < 256"
  shows "unat (ipv4_new (of_nat a) (of_nat b) (of_nat c) (of_nat d)) = a * 2 ^ 24 + b * 2 ^ 16 + c * 2 ^ 8 + d"
proof -
  have u: "unat (ucast (of_nat n :: u8) :: u32) = n" if "n < 256" for n
    using that by (simp add: unsigned_ucast_eq unat_of_nat take_bit_nat_eq_self)
  let ?a = "ucast (of_nat a :: u8) :: u32" and ?b = "ucast (of_nat b :: u8) :: u32"
    and ?c = "ucast (of_nat c :: u8) :: u32" and ?d = "ucast (of_nat d :: u8) :: u32"
  have cd: "unat (push_bit 8 ?c OR ?d) = c * 2 ^ 8 + d" using assms or_is_add [of ?d 8 ?c] by (simp add: u)
  have bcd: "unat (push_bit 16 ?b OR push_bit 8 ?c OR ?d) = b * 2 ^ 16 + (c * 2 ^ 8 + d)"
    using assms cd or_is_add [of "push_bit 8 ?c OR ?d" 16 ?b] by (simp add: u)
  show ?thesis unfolding ipv4_new_def
    using assms bcd or_is_add [of "push_bit 16 ?b OR push_bit 8 ?c OR ?d" 24 ?a] by (simp add: u)
qed

lemma read_ipv4_sound: "read_ipv4_addr h = Some (v, []) \<Longrightarrow> inet_address h (unat v)"
proof -
  assume "read_ipv4_addr h = Some (v, [])"
  then obtain a b c d s1 s2 s3 where r: "read_octet 0 h = Some (a, s1)" "read_octet 1 s1 = Some (b, s2)"
    "read_octet 2 s2 = Some (c, s3)" "read_octet 3 s3 = Some (d, [])"
    and v: "v = ipv4_new (of_nat a) (of_nat b) (of_nat c) (of_nat d)"
    by (auto simp: read_ipv4_addr_def split: option.splits)
  from read_octet_spec [OF r(1)] obtain p where p: "h = p @ s1" "inet_number p a" "a < 256" "CHR ''.'' \<notin> set p" by auto
  from read_octet_spec [OF r(2)] obtain q where q: "s1 = ''.'' @ q @ s2" "inet_number q b" "b < 256" "CHR ''.'' \<notin> set q" by auto
  from read_octet_spec [OF r(3)] obtain t where t: "s2 = ''.'' @ t @ s3" "inet_number t c" "c < 256" "CHR ''.'' \<notin> set t" by auto
  from read_octet_spec [OF r(4)] obtain u where u: "s3 = ''.'' @ u" "inet_number u d" "d < 256" "CHR ''.'' \<notin> set u" by auto
  have "split_on CHR ''.'' h = [p, q, t, u]" using p q t u by simp
  then show ?thesis using p q t u unfolding inet_address_def v ipv4_new_value [OF p(3) q(3) t(3) u(3)]
    by (intro exI [of _ "[a, b, c, d]"]) simp
qed

lemma parse_ipv4_sound: "parse_ipv4 h = Some v \<Longrightarrow> inet_address h (unat v)"
  by (rule read_ipv4_sound) (auto simp: parse_ipv4_def split: if_splits option.splits list.splits)

lemma general_path:
  assumes "parse_ipv4 h = None"
  shows "parse_ipv4_any h = map_option of_nat (general_ipv4 h)"
proof -
  let ?ps = "split_on CHR ''.'' h"
  have ne: "?ps \<noteq> []" by (cases h) (simp_all split: list.split)
  show ?thesis
  proof (cases "those (map parse_numeric_part ?ps)")
    case None
    with assms show ?thesis by (simp add: parse_ipv4_any_def general_ipv4_def Let_def)
  next
    case (Some ws)
    then have len: "length ws = length ?ps" by (auto simp: those_Some dest: list_all2_lengthD)
    have big: "inet_value (map unat ws) = None" if "4 < length ?ps"
      using that len inet_value_bound [of "map unat ws"] by (cases "inet_value (map unat ws)") auto
    have "(of_nat (unat w) :: u32) = ucast w" for w :: u64
      by (simp add: word_unat_eq_iff unsigned_ucast_eq unat_of_nat)
    then have "map_option (of_nat :: nat \<Rightarrow> u32) (inet_value (map unat ws))
      = (case combine_parts ws of None \<Rightarrow> None | Some v \<Rightarrow> if v > 0xffffffff then None else Some (ucast v))"
      unfolding combine_value [symmetric] by (auto split: option.split)
    with Some assms ne big show ?thesis by (auto simp: parse_ipv4_any_def general_ipv4_def Let_def)
  qed
qed

theorem ipv4_literal_exact: "parse_ipv4_any h = Some v \<longleftrightarrow> inet_address h (unat v)"
proof (cases "parse_ipv4 h")
  case (Some w)
  then have "general_ipv4 h = Some (unat w)" using parse_ipv4_sound inet_address_general by blast
  with Some show ?thesis by (auto simp: parse_ipv4_any_def inet_address_general word_unat_eq_iff)
next
  case None
  have "unat v = n \<longleftrightarrow> v = of_nat n" if "general_ipv4 h = Some n" for n
    using that inet_value_bound by (auto simp: general_ipv4_def unat_of_nat take_bit_nat_eq_self split: option.splits)
  then show ?thesis unfolding general_path [OF None] inet_address_general by auto
qed

section \<open>Address blocks\<close>

definition in_block :: "nat \<Rightarrow> u32 \<times> nat \<Rightarrow> bool" where
  "in_block v blk \<longleftrightarrow> v div 2 ^ (32 - snd blk) = unat (fst blk) div 2 ^ (32 - snd blk)"

text \<open>The blocks that must never be reached: loopback, the private networks of RFC 1918, link-local, the
  zero network, broadcast, and the shared address space of RFC 6598.\<close>

definition private_blocks :: "(u32 \<times> nat) list" where
  "private_blocks =
     [(ipv4_new 127 0 0 0, 8), (ipv4_new 10 0 0 0, 8), (ipv4_new 172 16 0 0, 12), (ipv4_new 192 168 0 0, 16),
      (ipv4_new 169 254 0 0, 16), (ipv4_new 0 0 0 0, 8), (ipv4_new 255 255 255 255, 32), (ipv4_new 100 64 0 0, 10)]"

lemma octet_value: "unat (octet v 0) = unat v div 2 ^ 24" "unat (octet v 1) = unat v div 2 ^ 16 mod 256"
proof -
  have "unat v < 2 ^ 32" using unat_lt_pow [of v] by simp
  then have "unat v div 2 ^ 24 < 256" by (simp add: div_less_mono)
  then show "unat (octet v 0) = unat v div 2 ^ 24" "unat (octet v 1) = unat v div 2 ^ 16 mod 256"
    by (simp_all add: octet_def unsigned_ucast_eq unsigned_drop_bit_eq drop_bit_eq_div take_bit_eq_mod unat_div_distrib)
qed

lemma div_block:
  fixes m q k :: nat
  assumes "0 < k"
  shows "m div k = q \<longleftrightarrow> q * k \<le> m \<and> m < (q + 1) * k"
proof
  assume "m div k = q"
  then show "q * k \<le> m \<and> m < (q + 1) * k" using div_times_less_eq_dividend [of m k] dividend_less_div_times [OF assms, of m] by auto
qed (auto intro: div_nat_eqI simp: mult.commute)

lemma div_mod_block:
  fixes m q :: nat
  assumes "lo \<le> hi" "hi < 256"
  shows "m div 256 = q \<and> lo \<le> m mod 256 \<and> m mod 256 \<le> hi \<longleftrightarrow> q * 256 + lo \<le> m \<and> m \<le> q * 256 + hi"
proof -
  have "m div 256 = q" if "q * 256 + lo \<le> m" "m \<le> q * 256 + hi"
    using that assms by (simp add: div_block)
  moreover have "m = m div 256 * 256 + m mod 256" by simp
  ultimately show ?thesis by (metis add_le_cancel_left)
qed

lemma private_blocks_exact: "is_private_ipv4 v \<longleftrightarrow> list_ex (in_block (unat v)) private_blocks"
proof -
  define m where "m = unat v div 2 ^ 16"
  have v: "unat v < 2 ^ 32" using unat_lt_pow [of v] by simp
  then have m: "m < 65536" by (simp add: m_def div_less_mono)
  have o: "unat (octet v 0) = m div 256" "unat (octet v 1) = m mod 256"
    unfolding octet_value m_def by (simp_all add: div_mult2_eq [symmetric])
  have d: "unat v div 2 ^ 24 = m div 256" "unat v div 2 ^ 20 = m div 16" "unat v div 2 ^ 22 = m div 64" "unat v div 2 ^ 16 = m"
    unfolding m_def by (simp_all add: div_mult2_eq [symmetric])
  have n: "unat (ipv4_new 127 0 0 0) = 127 * 2 ^ 24" "unat (ipv4_new 10 0 0 0) = 10 * 2 ^ 24"
    "unat (ipv4_new 172 16 0 0) = 172 * 2 ^ 24 + 16 * 2 ^ 16" "unat (ipv4_new 192 168 0 0) = 192 * 2 ^ 24 + 168 * 2 ^ 16"
    "unat (ipv4_new 169 254 0 0) = 169 * 2 ^ 24 + 254 * 2 ^ 16" "unat (ipv4_new 0 0 0 0) = 0"
    "unat (ipv4_new 255 255 255 255) = 2 ^ 32 - 1" "unat (ipv4_new 100 64 0 0) = 100 * 2 ^ 24 + 64 * 2 ^ 16"
    by (simp_all add: ipv4_new_def)
  have b: "octet v 0 = 127 \<longleftrightarrow> m div 256 = 127" "octet v 0 = 10 \<longleftrightarrow> m div 256 = 10" "octet v 0 = 172 \<longleftrightarrow> m div 256 = 172"
    "octet v 0 = 192 \<longleftrightarrow> m div 256 = 192" "octet v 0 = 169 \<longleftrightarrow> m div 256 = 169" "octet v 0 = 0 \<longleftrightarrow> m div 256 = 0"
    "octet v 0 = 100 \<longleftrightarrow> m div 256 = 100" "octet v 1 = 168 \<longleftrightarrow> m mod 256 = 168" "octet v 1 = 254 \<longleftrightarrow> m mod 256 = 254"
    "octet v 1 \<ge> 16 \<longleftrightarrow> 16 \<le> m mod 256" "octet v 1 \<le> 31 \<longleftrightarrow> m mod 256 \<le> 31" "64 \<le> octet v 1 \<longleftrightarrow> 64 \<le> m mod 256"
    "octet v 1 \<le> 127 \<longleftrightarrow> m mod 256 \<le> 127"
    unfolding word_unat_eq_iff [where 'a = 8] word_le_nat_alt o by simp_all
  have meta: "v = ipv4_new 169 254 169 254 \<Longrightarrow> m div 256 = 169 \<and> m mod 256 = 254" unfolding m_def by (simp add: ipv4_new_def)
  have zero: "v = 0 \<Longrightarrow> m div 256 = 0" by (simp add: m_def)
  have all: "v = 0xffffffff \<longleftrightarrow> unat v = 2 ^ 32 - 1" by (simp add: word_unat_eq_iff)
  have "is_private_ipv4 v \<longleftrightarrow> m div 256 = 127 \<or> m div 256 = 10 \<or> (m div 256 = 172 \<and> 16 \<le> m mod 256 \<and> m mod 256 \<le> 31)
     \<or> (m div 256 = 192 \<and> m mod 256 = 168) \<or> (m div 256 = 169 \<and> m mod 256 = 254) \<or> m div 256 = 0 \<or> unat v = 2 ^ 32 - 1
     \<or> (m div 256 = 100 \<and> 64 \<le> m mod 256 \<and> m mod 256 \<le> 127)"
    unfolding is_private_ipv4_def all b using meta zero by blast
  also have "\<dots> \<longleftrightarrow> m div 256 = 127 \<or> m div 256 = 10 \<or> m div 16 = 2753 \<or> m = 49320 \<or> m = 43518 \<or> m div 256 = 0
     \<or> unat v = 2 ^ 32 - 1 \<or> m div 64 = 401"
  proof -
    have "m div 256 = 172 \<and> 16 \<le> m mod 256 \<and> m mod 256 \<le> 31 \<longleftrightarrow> m div 16 = 2753"
      by (subst div_mod_block) (auto simp: div_block)
    moreover have "m div 256 = 100 \<and> 64 \<le> m mod 256 \<and> m mod 256 \<le> 127 \<longleftrightarrow> m div 64 = 401"
      by (subst div_mod_block) (auto simp: div_block)
    moreover have "m div 256 = 192 \<and> m mod 256 = 168 \<longleftrightarrow> m = 49320" using div_mod_block [of 168 168 m 192] by auto
    moreover have "m div 256 = 169 \<and> m mod 256 = 254 \<longleftrightarrow> m = 43518" using div_mod_block [of 254 254 m 169] by auto
    ultimately show ?thesis by (simp only:)
  qed
  also have "\<dots> \<longleftrightarrow> list_ex (in_block (unat v)) private_blocks"
    unfolding private_blocks_def in_block_def using d by (simp add: n)
  finally show ?thesis .
qed

section \<open>URLs\<close>

text \<open>The texts \<^verbatim>\<open>scheme://[userinfo@]host[:port][/path][?query][#fragment]\<close> with the separators of each part
  kept out of the parts before it.\<close>

definition url_frame :: "string \<Rightarrow> string \<Rightarrow> string \<Rightarrow> string \<Rightarrow> bool" where
  "url_frame scheme userinfo port rest \<longleftrightarrow>
     CHR '':'' \<notin> set scheme
     \<and> (userinfo = [] \<or> (last userinfo = CHR ''@'' \<and> list_all (\<lambda>c. c \<notin> {CHR ''/'', CHR ''?'', CHR ''#'', CHR ''@''}) (butlast userinfo)))
     \<and> (port = [] \<or> (hd port = CHR '':'' \<and> list_all is_digit (tl port)))
     \<and> (rest = [] \<or> hd rest \<in> {CHR ''/'', CHR ''?'', CHR ''#''})"

definition url_text :: "string \<Rightarrow> string \<Rightarrow> string \<Rightarrow> string \<Rightarrow> string \<Rightarrow> string" where
  "url_text scheme userinfo host port rest = scheme @ ''://'' @ userinfo @ host @ port @ rest"

definition plain_host :: "string \<Rightarrow> bool" where
  "plain_host h \<longleftrightarrow> h \<noteq> []
     \<and> list_all (\<lambda>c. c \<notin> {CHR ''/'', CHR ''?'', CHR ''#'', CHR ''@'', CHR '':'', CHR ''['', CHR '']''}) h"

definition bracket_text :: "string \<Rightarrow> bool" where
  "bracket_text t \<longleftrightarrow> list_all (\<lambda>c. c \<notin> {CHR ''/'', CHR ''?'', CHR ''#'', CHR ''@'', CHR ''['', CHR '']''}) t"

lemma find_scheme: "CHR '':'' \<notin> set s \<Longrightarrow> find_str ''://'' (s @ ''://'' @ r) = Some (length s)"
  by (induction s) auto

lemma digits_no_colon: "list_all is_digit ds \<Longrightarrow> CHR '':'' \<notin> set ds"
  by (auto simp: list_all_iff digit_is_to_digit)

lemma authority_of_url:
  assumes f: "url_frame scheme userinfo port rest"
    and h: "list_all (\<lambda>c. c \<notin> {CHR ''/'', CHR ''?'', CHR ''#'', CHR ''@''}) host"
  shows "authority_of (userinfo @ host @ port @ rest) = host @ port"
proof -
  let ?cut = "\<lambda>s. takeWhile (\<lambda>c. c \<noteq> CHR ''#'') (takeWhile (\<lambda>c. c \<noteq> CHR ''?'') (takeWhile (\<lambda>c. c \<noteq> CHR ''/'') s))"
  have port: "list_all (\<lambda>c. c \<notin> {CHR ''/'', CHR ''?'', CHR ''#'', CHR ''@''}) port"
  proof (cases port)
    case (Cons c ds)
    with f have "c = CHR '':''" "list_all is_digit ds" by (auto simp: url_frame_def)
    with Cons show ?thesis by (auto simp: list_all_iff digit_is_to_digit)
  qed simp
  have ui: "list_all (\<lambda>c. c \<notin> {CHR ''/'', CHR ''?'', CHR ''#''}) userinfo"
  proof (cases userinfo rule: rev_cases)
    case (snoc u c)
    with f show ?thesis by (auto simp: url_frame_def list_all_iff)
  qed simp
  have rest: "?cut rest = []" using f by (cases rest) (auto simp: url_frame_def)
  have tw: "takeWhile (\<lambda>c. c \<noteq> x) (a @ r) = a @ takeWhile (\<lambda>c. c \<noteq> x) r" if "x \<notin> set a" for x a r
    using that by (subst takeWhile_append2) auto
  have "?cut (a @ rest) = a" if "CHR ''/'' \<notin> set a" "CHR ''?'' \<notin> set a" "CHR ''#'' \<notin> set a" for a
    unfolding tw [OF that(1)] tw [OF that(2)] tw [OF that(3)] rest by simp
  moreover have "x \<notin> set (userinfo @ host @ port)" if "x \<in> {CHR ''/'', CHR ''?'', CHR ''#''}" for x
  proof -
    have "x \<notin> set userinfo" "x \<notin> set host" "x \<notin> set port"
      using that ui h port unfolding list_all_iff by blast+
    then show ?thesis by simp
  qed
  ultimately have "?cut ((userinfo @ host @ port) @ rest) = userinfo @ host @ port" by blast
  then have "?cut (userinfo @ host @ port @ rest) = userinfo @ host @ port" by (simp only: append_assoc)
  moreover have "split_once CHR ''@'' (userinfo @ host @ port) = (if userinfo = [] then None else Some (butlast userinfo, host @ port))"
  proof (cases userinfo rule: rev_cases)
    case Nil
    have "CHR ''@'' \<notin> set host" "CHR ''@'' \<notin> set port" using h port unfolding list_all_iff by blast+
    with Nil show ?thesis by simp
  next
    case (snoc u c)
    with f have "c = CHR ''@''" "CHR ''@'' \<notin> set u" by (auto simp: url_frame_def list_all_iff)
    with snoc show ?thesis by simp
  qed
  ultimately show ?thesis by (simp add: authority_of_def Let_def)
qed

lemma strip_port_plain:
  assumes "url_frame scheme userinfo port rest" and "plain_host host"
  shows "strip_port (host @ port) = host"
proof -
  have h: "CHR '':'' \<notin> set host" "\<not> prefix ''['' (host @ port)"
    using assms(2) by (cases host; auto simp: plain_host_def list_all_iff)+
  show ?thesis
  proof (cases port)
    case Nil
    with h show ?thesis by (simp add: strip_port_def rsplit_once_def)
  next
    case (Cons c ds)
    with assms(1) have c: "c = CHR '':''" and ds: "list_all is_digit ds" by (auto simp: url_frame_def)
    have "rsplit_once CHR '':'' (host @ port) = Some (host, ds)"
      using digits_no_colon [OF ds] by (simp add: rsplit_once_def Cons c)
    with h(2) ds show ?thesis by (simp add: strip_port_def)
  qed
qed

lemma strip_port_bracket:
  assumes "bracket_text t"
  shows "strip_port ((''['' @ t @ '']'') @ port) = ''['' @ t @ '']''"
proof -
  have "CHR '']'' \<notin> set (CHR ''['' # t)" using assms by (auto simp: bracket_text_def list_all_iff)
  from split_once_append [OF this, of port] show ?thesis by (simp add: strip_port_def)
qed

lemma parse_url:
  assumes f: "url_frame scheme userinfo port rest"
    and h: "list_all (\<lambda>c. c \<notin> {CHR ''/'', CHR ''?'', CHR ''#'', CHR ''@''}) host"
    and p: "strip_port (host @ port) = host" "host \<noteq> []"
  shows "parse_scheme_host (url_text scheme userinfo host port rest) = Some (to_ascii_lowercase scheme, host)"
proof -
  have "find_str ''://'' (url_text scheme userinfo host port rest) = Some (length scheme)"
    unfolding url_text_def using f by (intro find_scheme) (simp add: url_frame_def)
  moreover have "take (length scheme) (url_text scheme userinfo host port rest) = scheme"
    "drop (length scheme + 3) (url_text scheme userinfo host port rest) = userinfo @ host @ port @ rest"
    by (simp_all add: url_text_def)
  ultimately show ?thesis using p authority_of_url [OF f h] by (simp add: parse_scheme_host_def)
qed

section \<open>The policy\<close>

definition local_name :: "string \<Rightarrow> bool" where
  "local_name h \<longleftrightarrow> to_ascii_lowercase h = ''localhost'' \<or> (\<exists>s. to_ascii_lowercase h = s @ ''.localhost'')"

text \<open>A host is under a domain if it is the domain or one of its subdomains, in any letter case, dots at the ends
  left aside.\<close>

definition under_domain :: "string \<Rightarrow> string \<Rightarrow> bool" where
  "under_domain d h \<longleftrightarrow>
     (let h' = to_ascii_lowercase (trim_end_dots h);
          d' = to_ascii_lowercase (trim_end_dots (dropWhile (\<lambda>c. c = CHR ''.'') d)) in
      h' = d' \<or> (\<exists>s. h' = s @ ''.'' @ d'))"

lemma to_lower_dot [simp]: "to_lower CHR ''.'' = CHR ''.''"
  by (simp add: to_lower_def)

lemma host_matches_iff: "host_matches h d \<longleftrightarrow> under_domain d h"
  unfolding host_matches_def under_domain_def Let_def suffix_def by auto

lemma ssrf_plain:
  assumes "plain_host h"
  shows "ssrf_check h = (if local_name h \<or> (\<exists>v. inet_address h v \<and> list_ex (in_block v) private_blocks)
     then Some (SsrfPrivateAddress h) else None)"
proof -
  have b: "strip_brackets h = h" and c: "CHR '':'' \<notin> set h"
    using assms by (cases h; auto simp: plain_host_def list_all_iff strip_brackets_def)+
  have "(\<exists>v. inet_address h v \<and> list_ex (in_block v) private_blocks)
      \<longleftrightarrow> (case parse_ipv4_any h of None \<Rightarrow> False | Some w \<Rightarrow> is_private_ipv4 w)"
  proof (cases "parse_ipv4_any h")
    case None
    have False if "inet_address h v" for v
    proof -
      have "v < 2 ^ 32" using that inet_value_bound by (auto simp: inet_address_def)
      then have "unat (of_nat v :: u32) = v" by (simp add: unat_of_nat take_bit_nat_eq_self)
      with that None ipv4_literal_exact [of h "of_nat v"] show False by simp
    qed
    with None show ?thesis by auto
  next
    case (Some w)
    then have w: "general_ipv4 h = Some (unat w)" using ipv4_literal_exact inet_address_general by blast
    with Some show ?thesis by (simp add: inet_address_general private_blocks_exact)
  qed
  then show ?thesis using b c by (auto simp: ssrf_check_def Let_def local_name_def suffix_def split: option.split)
qed

text \<open>C4: on a well-formed URL with a host name or an IPv4 literal the guard allows exactly what its policy
  says: an allowed scheme in any letter case; a host that is neither a localhost name nor, in any notation a
  resolver accepts, an address of a private, loopback, link-local, shared or broadcast block; not the domain or a
  subdomain of a blocked entry; and, with an allow list, under one of its entries. User information, a port and what
  follows the host do not matter.\<close>

theorem egress_policy_exact:
  assumes "url_frame scheme userinfo port rest" and "plain_host host"
  shows "check_url g (url_text scheme userinfo host port rest) = Allow \<longleftrightarrow>
      list_ex (\<lambda>s. to_ascii_lowercase s = to_ascii_lowercase scheme) (allowed_schemes g)
      \<and> \<not> local_name host
      \<and> \<not> (\<exists>v. inet_address host v \<and> list_ex (in_block v) private_blocks)
      \<and> list_all (\<lambda>b. \<not> under_domain b host) (blocklisted_hosts g)
      \<and> (case allowed_hosts g of None \<Rightarrow> True | Some as \<Rightarrow> list_ex (\<lambda>a. under_domain a host) as)"
proof -
  have h: "list_all (\<lambda>c. c \<notin> {CHR ''/'', CHR ''?'', CHR ''#'', CHR ''@''}) host" "host \<noteq> []"
    using assms(2) by (auto simp: plain_host_def list_all_iff)
  note p = parse_url [OF assms(1) h(1) strip_port_plain [OF assms] h(2)]
  have b: "strip_brackets host = host" using assms(2) by (cases host) (auto simp: plain_host_def strip_brackets_def)
  show ?thesis using p b ssrf_plain [OF assms(2)]
    by (auto simp: check_url_def Let_def host_matches_iff list_ex_iff list_all_iff image_iff comp_def split: option.split)
qed

lemma egress_policy_exact_witness:
  "check_url guard_default (url_text ''https'' ''u@'' ''0x7f.2'' '':8080'' ''/x'') \<noteq> Allow
   \<and> url_frame ''https'' ''u@'' '':8080'' ''/x'' \<and> plain_host ''0x7f.2'' \<and> inet_address ''0x7f.2'' (127 * 2 ^ 24 + 2)"
proof -
  have f: "url_frame ''https'' ''u@'' '':8080'' ''/x''" "plain_host ''0x7f.2''"
    by (simp_all add: url_frame_def plain_host_def is_digit_def digit_of_def)
  have hx: "inet_number ''0x7f'' 127"
    using inet_number.hex [of "''7f''" "[7, 15]" "CHR ''x''"] by (simp add: to_digit_def to_lower_def base_value_def)
  have two: "inet_number ''2'' 2"
    using inet_number.dec [of "''2''" "[2]"] by (simp add: to_digit_def to_lower_def base_value_def numeral_2_eq_2)
  have a: "inet_address ''0x7f.2'' (127 * 2 ^ 24 + 2)"
    unfolding inet_address_def by (rule exI [of _ "[127, 2]"]) (simp add: hx two)
  have "list_ex (in_block (127 * 2 ^ 24 + 2)) private_blocks"
    by (simp add: in_block_def private_blocks_def ipv4_new_def)
  with egress_policy_exact [OF f, of guard_default] a f show ?thesis by blast
qed

section \<open>IPv6 literals\<close>

lemma read_groups_length: "length (fst (read_groups i n s)) \<le> n"
proof (induction i n s rule: read_groups.induct)
  case (2 i n s)
  then show ?case by (auto split: option.split prod.split)
qed simp

lemma parse_ipv6_length: "parse_ipv6 t = Some a \<Longrightarrow> length a = 8"
proof -
  assume "parse_ipv6 t = Some a"
  then have r: "read_ipv6_addr t = Some (a, [])" by (auto simp: parse_ipv6_def split: option.splits list.splits)
  obtain head v4 s1 where h: "read_groups 0 8 t = (head, v4, s1)" by (metis prod_cases3)
  have hl: "length head \<le> 8" using read_groups_length [of 0 8 t] h by simp
  have "length tail \<le> 8 - (length head + 1)" if "read_groups 0 (8 - (length head + 1)) s2 = (tail, b, s3)" for tail b s2 s3
    using read_groups_length [of 0 "8 - (length head + 1)" s2] that by simp
  with r h hl show ?thesis by (fastforce simp: read_ipv6_addr_def split: if_splits list.splits prod.splits)
qed

lemma segments_value: "unat (segments_ipv4 a b) = unat a * 2 ^ 16 + unat b"
proof -
  have "w AND 0xff = take_bit 8 w" for w :: u16 by (simp add: take_bit_eq_mask mask_eq_exp_minus_1)
  moreover have "unat w < 65536" for w :: u16 using unat_lt_pow [of w] by simp
  ultimately have hi: "(ucast (drop_bit 8 w) :: u8) = of_nat (unat w div 256)" and lo: "(ucast (w AND 0xff) :: u8) = of_nat (unat w mod 256)" for w :: u16
    unfolding word_unat_eq_iff unsigned_ucast_eq unsigned_drop_bit_eq unat_of_nat
    by (simp_all add: unsigned_take_bit_eq drop_bit_eq_div take_bit_eq_mod unat_mod_distrib)
  have "unat a < 2 ^ 16" "unat b < 2 ^ 16" using unat_lt_pow [of a] unat_lt_pow [of b] by simp_all
  then have "unat (segments_ipv4 a b) = unat a div 256 * 2 ^ 24 + unat a mod 256 * 2 ^ 16 + unat b div 256 * 2 ^ 8 + unat b mod 256"
    unfolding segments_ipv4_def hi lo by (intro ipv4_new_value) (simp_all add: div_less_mono)
  moreover have "q * 2 ^ 24 + r * 2 ^ 16 + q' * 2 ^ 8 + r' = (q * 256 + r) * 2 ^ 16 + (q' * 256 + r')" for q r q' r' :: nat
    by (simp add: algebra_simps)
  ultimately have "unat (segments_ipv4 a b) = (unat a div 256 * 256 + unat a mod 256) * 2 ^ 16 + (unat b div 256 * 256 + unat b mod 256)"
    by (simp only:)
  then show ?thesis by (simp only: div_mult_mod_eq)
qed

lemma high_bits: "w AND 0xffc0 = 0xfe80 \<longleftrightarrow> unat w div 64 = 0xfe80 div 64" "w AND 0xfe00 = 0xfc00 \<longleftrightarrow> unat w div 512 = 0xfc00 div 512" for w :: u16
proof -
  have k: "unat (push_bit n (drop_bit n w)) = unat w div 2 ^ n * 2 ^ n" if "n < 16" for n
  proof -
    have "unat w div 2 ^ n * 2 ^ n < 2 ^ 16" using unat_lt_pow [of w] by (simp add: le_less_trans [OF div_times_less_eq_dividend])
    moreover have "unat w < 65536" using unat_lt_pow [of w] by simp
    ultimately show ?thesis unfolding unsigned_push_bit_eq unsigned_drop_bit_eq
      by (simp add: push_bit_eq_mult drop_bit_eq_div take_bit_eq_mod)
  qed
  have m: "push_bit n (drop_bit n w) = w AND NOT (mask n)" for n
    by (rule bit_eqI) (auto simp: bit_simps)
  have "(NOT (mask 6) :: u16) = 0xffc0" "(NOT (mask 9) :: u16) = 0xfe00" by (simp_all add: mask_eq_exp_minus_1)
  with m [of 6] m [of 9] k [of 6] k [of 9]
  show "w AND 0xffc0 = 0xfe80 \<longleftrightarrow> unat w div 64 = 0xfe80 div 64" "w AND 0xfe00 = 0xfc00 \<longleftrightarrow> unat w div 512 = 0xfc00 div 512"
    by (auto simp: word_unat_eq_iff)
qed

text \<open>The addresses that must not be reached: unspecified, loopback, \<^verbatim>\<open>fe80::/10\<close>, \<^verbatim>\<open>fc00::/7\<close>, and those
  that carry an IPv4 address of a private block, mapped or compatible.\<close>

definition carries_ipv4 :: "Ipv6Addr \<Rightarrow> bool" where
  "carries_ipv4 a \<longleftrightarrow> take 6 a = [0, 0, 0, 0, 0, 0xffff]
     \<or> (take 6 a = [0, 0, 0, 0, 0, 0] \<and> a \<noteq> [0, 0, 0, 0, 0, 0, 0, 0] \<and> a \<noteq> [0, 0, 0, 0, 0, 0, 0, 1])"

definition reserved_ipv6 :: "Ipv6Addr \<Rightarrow> bool" where
  "reserved_ipv6 a \<longleftrightarrow> a = [0, 0, 0, 0, 0, 0, 0, 0] \<or> a = [0, 0, 0, 0, 0, 0, 0, 1]
     \<or> unat (a ! 0) div 2 ^ 6 = 0xfe80 div 2 ^ 6 \<or> unat (a ! 0) div 2 ^ 9 = 0xfc00 div 2 ^ 9
     \<or> (carries_ipv4 a \<and> list_ex (in_block (unat (a ! 6) * 2 ^ 16 + unat (a ! 7))) private_blocks)"

lemma list8: "length a = 8 \<Longrightarrow> \<exists>b c d e f g h i. a = [b, c, d, e, f, g, h, i]"
  by (auto simp: length_Suc_conv numeral_eq_Suc)

lemma embedded_carried:
  assumes "length a = 8"
  shows "embedded_ipv4 a = (if carries_ipv4 a then Some (segments_ipv4 (a ! 6) (a ! 7)) else None)"
proof -
  have w: "w > 1 \<longleftrightarrow> w \<noteq> 0 \<and> w \<noteq> 1" for w :: u16 by (auto simp: word_less_nat_alt word_unat_eq_iff)
  from list8 [OF assms] obtain b c d e f g h i where a: "a = [b, c, d, e, f, g, h, i]" by blast
  show ?thesis
  proof (cases "b = 0 \<and> c = 0 \<and> d = 0 \<and> e = 0 \<and> f = 0 \<and> (g = 0 \<or> g = 0xffff)")
    case True
    then show ?thesis unfolding a by (cases "g = 0"; cases "h = 0") (simp_all add: embedded_ipv4_def carries_ipv4_def w)
  next
    case False
    then show ?thesis unfolding a embedded_ipv4_def carries_ipv4_def by simp blast
  qed
qed

lemma ssrf_ipv6:
  assumes "bracket_text t" "CHR '':'' \<in> set t" "parse_ipv6 t = Some a"
  shows "ssrf_check t = (if local_name t \<or> reserved_ipv6 a then Some (SsrfPrivateAddress t) else None)"
proof -
  note len = parse_ipv6_length [OF assms(3)]
  have "strip_brackets t = t" using assms(1,2) by (cases t) (auto simp: bracket_text_def strip_brackets_def)
  moreover have "reserved_ipv6 a \<longleftrightarrow> is_private_ipv6 a \<or> (case embedded_ipv4 a of None \<Rightarrow> False | Some v \<Rightarrow> is_private_ipv4 v)"
    unfolding embedded_carried [OF len]
    by (auto simp: reserved_ipv6_def is_private_ipv6_def high_bits private_blocks_exact segments_value)
  ultimately show ?thesis using assms(2,3)
    by (auto simp: ssrf_check_def Let_def local_name_def suffix_def split: option.split)
qed

text \<open>On a URL whose host is an IPv6 literal in brackets the guard never allows the unspecified or the loopback
  address, a link-local or a unique local one, nor one that carries an IPv4 address of a private block, mapped or
  compatible; otherwise only the scheme and the host lists decide.\<close>

theorem egress_ipv6_exact:
  assumes "url_frame scheme userinfo port rest" and "bracket_text t"
    and "CHR '':'' \<in> set t" and "parse_ipv6 t = Some a"
  shows "check_url g (url_text scheme userinfo (''['' @ t @ '']'') port rest) = Allow \<longleftrightarrow>
      list_ex (\<lambda>s. to_ascii_lowercase s = to_ascii_lowercase scheme) (allowed_schemes g)
      \<and> \<not> local_name t \<and> \<not> reserved_ipv6 a
      \<and> list_all (\<lambda>b. \<not> under_domain b t) (blocklisted_hosts g)
      \<and> (case allowed_hosts g of None \<Rightarrow> True | Some as \<Rightarrow> list_ex (\<lambda>a. under_domain a t) as)"
proof -
  have h: "list_all (\<lambda>c. c \<notin> {CHR ''/'', CHR ''?'', CHR ''#'', CHR ''@''}) (''['' @ t @ '']'')" "''['' @ t @ '']'' \<noteq> []"
    using assms(2) by (auto simp: bracket_text_def list_all_iff)
  note p = parse_url [OF assms(1) h(1) strip_port_bracket [OF assms(2)] h(2)]
  have b: "strip_brackets (''['' @ t @ '']'') = t" by (simp add: strip_brackets_def suffix_def)
  show ?thesis using p b ssrf_ipv6 [OF assms(2,3,4)]
    by (auto simp: check_url_def Let_def host_matches_iff list_ex_iff list_all_iff comp_def split: option.split)
qed

lemma read_groups_numeral:
  "read_groups i (numeral k) s =
     (case (if 0 < pred_numeral k then read_separator CHR '':'' i read_ipv4_addr s else None) of
        Some (v, s') \<Rightarrow> ([ucast (drop_bit 16 v), ucast v], True, s')
      | None \<Rightarrow>
          (case read_separator CHR '':'' i (read_number 16 65536 4 True) s of
             None \<Rightarrow> ([], False, s)
           | Some (g, s') \<Rightarrow> (case read_groups (Suc i) (pred_numeral k) s' of (gs, v4, rest) \<Rightarrow> (of_nat g # gs, v4, rest))))"
  unfolding numeral_eq_Suc read_groups.simps ..

lemma egress_ipv6_exact_witness:
  "parse_ipv6 ''::ffff:10.1.2.3'' = Some [0, 0, 0, 0, 0, 0xffff, 0x0a01, 0x0203]
   \<and> check_url guard_default (url_text ''https'' [] ''[::ffff:10.1.2.3]'' [] ''/'') \<noteq> Allow"
proof -
  have a: "parse_ipv6 ''::ffff:10.1.2.3'' = Some [0, 0, 0, 0, 0, 0xffff, 0x0a01, 0x0203]"
    by (simp add: parse_ipv6_def read_ipv6_addr_def read_separator_def read_ipv4_addr_def read_octet_def read_number_def
        to_digit_def to_lower_def ipv4_new_def read_groups_numeral) (simp add: numeral_eq_Suc)
  have f: "url_frame ''https'' [] [] ''/''" "bracket_text ''::ffff:10.1.2.3''" "CHR '':'' \<in> set ''::ffff:10.1.2.3''"
    by (simp_all add: url_frame_def bracket_text_def)
  have "reserved_ipv6 [0, 0, 0, 0, 0, 0xffff, 0x0a01, 0x0203]"
    by (simp add: reserved_ipv6_def carries_ipv4_def in_block_def private_blocks_def ipv4_new_def)
  with egress_ipv6_exact [OF f a, of guard_default] a show ?thesis by simp
qed

text \<open>Two texts that name a loopback host to a URL parser and pass the guard: a trailing dot is not trimmed before
  the check of private addresses, and of several at-signs the first, not the last, ends the user information.\<close>

lemma trailing_dot_passes:
  "check_url guard_default ''https://localhost./'' = Allow \<and> check_url guard_default ''https://127.0.0.1./'' = Allow"
  by (simp add: check_url_def guard_default_def parse_scheme_host_def authority_of_def strip_port_def rsplit_once_def
      strip_brackets_def suffix_def to_lower_def ssrf_check_def parse_ipv4_any_def parse_ipv4_def read_ipv4_addr_def
      read_octet_def read_separator_def read_number_def to_digit_def parse_numeric_part_def strip_prefix_def is_digit_def
      digit_of_def)

lemma second_at_sign_passes: "check_url guard_default ''https://a@b@127.0.0.1/'' = Allow"
  by (simp add: check_url_def guard_default_def parse_scheme_host_def authority_of_def strip_port_def rsplit_once_def
      strip_brackets_def suffix_def to_lower_def ssrf_check_def parse_ipv4_any_def parse_ipv4_def read_ipv4_addr_def
      read_octet_def read_separator_def read_number_def to_digit_def parse_numeric_part_def strip_prefix_def is_digit_def
      digit_of_def)

end
