(* ===== verification/Session_Store.thy ===== *)
theory Session_Store
  imports Ascii_Text "HOL-Library.Multiset"
begin

text \<open>
  Conversation sessions (\<^verbatim>\<open>crates/sessions/src\<close>): records and their life cycle (\<^verbatim>\<open>record.rs\<close>), the store with its
  queries, exports and persistence (\<^verbatim>\<open>store.rs\<close>). The clock is an argument. The file is the raw content behind
  the path; the serialiser and its parser are third-party code and arguments of the operations that use them, and a
  write fails as an argument says. Texts are lists of bytes.
\<close>

section \<open>Records\<close>

datatype ConversationRole = User | Assistant | System | Tool

fun show_role :: "ConversationRole \<Rightarrow> string" where
  "show_role User = ''user''"
| "show_role Assistant = ''assistant''"
| "show_role System = ''system''"
| "show_role Tool = ''tool''"

definition role_from_str :: "string \<Rightarrow> ConversationRole option" where
  "role_from_str s = (if s = ''user'' then Some User else if s = ''assistant'' then Some Assistant
     else if s = ''system'' then Some System else if s = ''tool'' then Some Tool else None)"

record ConversationTurn =
  turn_index :: nat
  turn_role :: ConversationRole
  content :: string
  tool_calls :: "string list"
  turn_timestamp_ns :: u64
  tokens :: u32

definition turn_with_timestamp :: "nat \<Rightarrow> ConversationRole \<Rightarrow> string \<Rightarrow> u64 \<Rightarrow> ConversationTurn" where
  "turn_with_timestamp i r c ts =
     \<lparr>turn_index = i, turn_role = r, content = c, tool_calls = [], turn_timestamp_ns = ts, tokens = 0\<rparr>"

datatype SessionStatus = Active | Archived | Deleted

fun show_status :: "SessionStatus \<Rightarrow> string" where
  "show_status Active = ''active''"
| "show_status Archived = ''archived''"
| "show_status Deleted = ''deleted''"

record SessionRecord =
  session_schema_version :: u32
  session_id :: string
  session_user_id :: string
  session_agent_id :: string
  started_at_ns :: u64
  last_active_ns :: u64
  session_status :: SessionStatus
  turns :: "ConversationTurn list"
  summary :: "string option"
  total_tokens :: u32

datatype SessionError =
    SessionExists string
  | SessionNotFound string
  | SessionNotActive string
  | SessionIo

definition session_new :: "string \<Rightarrow> string \<Rightarrow> string \<Rightarrow> u64 \<Rightarrow> SessionRecord" where
  "session_new i u a now =
     \<lparr>session_schema_version = 1, session_id = i, session_user_id = u, session_agent_id = a, started_at_ns = now,
      last_active_ns = now, session_status = Active, turns = [], summary = None, total_tokens = 0\<rparr>"

definition session_append_turn :: "SessionRecord \<Rightarrow> ConversationTurn \<Rightarrow> (SessionError + unit) \<times> SessionRecord" where
  "session_append_turn s t =
     (if session_status s \<noteq> Active then (Inl (SessionNotActive (session_id s)), s)
      else (Inr (), s\<lparr>total_tokens := saturating_add (total_tokens s) (tokens t),
                     last_active_ns := turn_timestamp_ns t,
                     turns := turns s @ [t\<lparr>turn_index := length (turns s)\<rparr>]\<rparr>))"

definition session_archive :: "SessionRecord \<Rightarrow> string option \<Rightarrow> (SessionError + unit) \<times> SessionRecord" where
  "session_archive s summ =
     (if session_status s \<noteq> Active then (Inl (SessionNotActive (session_id s)), s)
      else (Inr (), s\<lparr>session_status := Archived, summary := (if summ \<noteq> None then summ else summary s)\<rparr>))"

definition session_delete :: "SessionRecord \<Rightarrow> SessionRecord" where
  "session_delete s = s\<lparr>session_status := Deleted\<rparr>"

definition content_for_role :: "SessionRecord \<Rightarrow> ConversationRole \<Rightarrow> string" where
  "content_for_role s r = join_str [CHR ''\<newline>''] (map content (filter (\<lambda>t. turn_role t = r) (turns s)))"

definition matches_query :: "SessionRecord \<Rightarrow> string \<Rightarrow> bool" where
  "matches_query s query =
     (let q = to_ascii_lowercase query in
      list_ex (\<lambda>t. contains_str (to_ascii_lowercase (content t)) q) (turns s)
      \<or> (case summary s of None \<Rightarrow> False | Some x \<Rightarrow> contains_str (to_ascii_lowercase x) q))"

definition make_session_id :: "u64 \<Rightarrow> string" where
  "make_session_id nonce = ''sess-'' @ hex16 nonce"

section \<open>Queries\<close>

record SessionQuery =
  q_user_id :: "string option"
  q_status :: "SessionStatus option"
  q_content :: "string option"
  q_limit :: nat

definition query_default :: SessionQuery where
  "query_default = \<lparr>q_user_id = None, q_status = None, q_content = None, q_limit = 0\<rparr>"

definition query_for_user :: "string \<Rightarrow> SessionQuery" where
  "query_for_user u = query_default\<lparr>q_user_id := Some u\<rparr>"

definition query_with_content :: "string \<Rightarrow> SessionQuery" where
  "query_with_content c = query_default\<lparr>q_content := Some c\<rparr>"

definition query_with_limit :: "SessionQuery \<Rightarrow> nat \<Rightarrow> SessionQuery" where
  "query_with_limit q n = q\<lparr>q_limit := n\<rparr>"

definition query_active_only :: "SessionQuery \<Rightarrow> SessionQuery" where
  "query_active_only q = q\<lparr>q_status := Some Active\<rparr>"

definition query_matches :: "SessionQuery \<Rightarrow> SessionRecord \<Rightarrow> bool" where
  "query_matches q s \<longleftrightarrow>
     (case q_user_id q of Some u \<Rightarrow> session_user_id s = u | None \<Rightarrow> True)
     \<and> (case q_status q of Some st \<Rightarrow> session_status s = st | None \<Rightarrow> True)
     \<and> (case q_content q of Some c \<Rightarrow> matches_query s c | None \<Rightarrow> True)"

section \<open>Store\<close>

record StoreFile =
  file_schema_version :: u32
  file_sessions :: "(string \<times> SessionRecord) list"

text \<open>The store and the file it was opened on; \<^verbatim>\<open>store_path\<close> is false for a store in memory.\<close>

record 'raw SessionStore =
  sessions :: "(string \<times> SessionRecord) list"
  store_path :: bool
  store_file :: "'raw option"

definition session_store_open :: "('raw \<Rightarrow> StoreFile option) \<Rightarrow> 'raw option \<Rightarrow> SessionError + 'raw SessionStore" where
  "session_store_open from_json f =
     (case f of
        None \<Rightarrow> Inr \<lparr>sessions = [], store_path = True, store_file = None\<rparr>
      | Some raw \<Rightarrow> (case from_json raw of
            None \<Rightarrow> Inl SessionIo
          | Some sf \<Rightarrow> Inr \<lparr>sessions = file_sessions sf, store_path = True, store_file = Some raw\<rparr>))"

definition session_store_in_memory :: "'raw SessionStore" where
  "session_store_in_memory = \<lparr>sessions = [], store_path = False, store_file = None\<rparr>"

definition session_flush ::
  "(StoreFile \<Rightarrow> 'raw option) \<Rightarrow> bool \<Rightarrow> 'raw SessionStore \<Rightarrow> (SessionError + unit) \<times> 'raw SessionStore" where
  "session_flush to_json write_ok st =
     (if \<not> store_path st then (Inr (), st)
      else case to_json \<lparr>file_schema_version = 1, file_sessions = sessions st\<rparr> of
          None \<Rightarrow> (Inl SessionIo, st)
        | Some raw \<Rightarrow> if write_ok then (Inr (), st\<lparr>store_file := Some raw\<rparr>) else (Inl SessionIo, st))"

definition session_insert :: "'raw SessionStore \<Rightarrow> SessionRecord \<Rightarrow> (SessionError + unit) \<times> 'raw SessionStore" where
  "session_insert st s =
     (if hm_contains (sessions st) (session_id s) then (Inl (SessionExists (session_id s)), st)
      else (Inr (), st\<lparr>sessions := hm_insert (session_id s) s (sessions st)\<rparr>))"

definition session_get :: "'raw SessionStore \<Rightarrow> string \<Rightarrow> SessionRecord option" where
  "session_get st i = hm_get (sessions st) i"

definition append_turn ::
  "(StoreFile \<Rightarrow> 'raw option) \<Rightarrow> bool \<Rightarrow> 'raw SessionStore \<Rightarrow> string \<Rightarrow> ConversationTurn
   \<Rightarrow> (SessionError + unit) \<times> 'raw SessionStore" where
  "append_turn to_json write_ok st i t =
     (case hm_get (sessions st) i of
        None \<Rightarrow> (Inl (SessionNotFound i), st)
      | Some s \<Rightarrow> (case session_append_turn s t of
            (Inl e, _) \<Rightarrow> (Inl e, st)
          | (Inr _, s') \<Rightarrow> session_flush to_json write_ok (st\<lparr>sessions := hm_insert i s' (sessions st)\<rparr>)))"

definition archive ::
  "(StoreFile \<Rightarrow> 'raw option) \<Rightarrow> bool \<Rightarrow> 'raw SessionStore \<Rightarrow> string \<Rightarrow> string option
   \<Rightarrow> (SessionError + unit) \<times> 'raw SessionStore" where
  "archive to_json write_ok st i summ =
     (case hm_get (sessions st) i of
        None \<Rightarrow> (Inl (SessionNotFound i), st)
      | Some s \<Rightarrow> (case session_archive s summ of
            (Inl e, _) \<Rightarrow> (Inl e, st)
          | (Inr _, s') \<Rightarrow> session_flush to_json write_ok (st\<lparr>sessions := hm_insert i s' (sessions st)\<rparr>)))"

definition delete ::
  "(StoreFile \<Rightarrow> 'raw option) \<Rightarrow> bool \<Rightarrow> 'raw SessionStore \<Rightarrow> string \<Rightarrow> (SessionError + unit) \<times> 'raw SessionStore" where
  "delete to_json write_ok st i =
     (case hm_get (sessions st) i of
        None \<Rightarrow> (Inl (SessionNotFound i), st)
      | Some s \<Rightarrow> session_flush to_json write_ok (st\<lparr>sessions := hm_insert i (session_delete s) (sessions st)\<rparr>))"

definition list_sessions :: "'raw SessionStore \<Rightarrow> SessionQuery \<Rightarrow> SessionRecord list" where
  "list_sessions st q =
     (let exclude_deleted = (q_status q \<noteq> Some Deleted \<and> q_status q = None);
          results = filter (\<lambda>s. \<not> (exclude_deleted \<and> session_status s = Deleted) \<and> query_matches q s) (map snd (sessions st));
          ordered = sort_key (\<lambda>s. - uint (started_at_ns s)) results in
      if 0 < q_limit q \<and> q_limit q < length ordered then take (q_limit q) ordered else ordered)"

definition session_len :: "'raw SessionStore \<Rightarrow> nat" where
  "session_len st = length (sessions st)"

section \<open>Export\<close>

datatype ExportFormat = Jsonl | Markdown

definition export_format_from_str :: "string \<Rightarrow> ExportFormat option" where
  "export_format_from_str s = (if s = ''jsonl'' \<or> s = ''ndjson'' then Some Jsonl
     else if s = ''markdown'' \<or> s = ''md'' then Some Markdown else None)"

fun show_export_format :: "ExportFormat \<Rightarrow> string" where
  "show_export_format Jsonl = ''jsonl''"
| "show_export_format Markdown = ''markdown''"

definition export_jsonl :: "(ConversationTurn \<Rightarrow> string option) \<Rightarrow> SessionRecord \<Rightarrow> SessionError + string" where
  "export_jsonl turn_json s =
     (case those (map turn_json (turns s)) of None \<Rightarrow> Inl SessionIo | Some ls \<Rightarrow> Inr (join_str [CHR ''\<newline>''] ls))"

fun role_label :: "ConversationRole \<Rightarrow> string" where
  "role_label User = ''**User**''"
| "role_label Assistant = ''**Assistant**''"
| "role_label System = ''_System_''"
| "role_label Tool = ''_Tool_''"

text \<open>The dash in a turn's heading is the three bytes of an em dash.\<close>

definition turn_markdown :: "ConversationTurn \<Rightarrow> string" where
  "turn_markdown t = (let nl = [CHR ''\<newline>''] in
     ''### Turn '' @ decimal (turn_index t) @ '' '' @ [CHR 0xE2, CHR 0x80, CHR 0x94] @ '' '' @ role_label (turn_role t) @ nl @ nl
     @ content t
     @ (if tool_calls t \<noteq> [] then nl @ nl @ ''_Tool calls: '' @ join_str '', '' (tool_calls t) @ ''_'' else [])
     @ nl @ nl)"

definition export_markdown :: "SessionRecord \<Rightarrow> string" where
  "export_markdown s = (let nl = [CHR ''\<newline>''] in
     ''# Session '' @ session_id s @ nl @ nl
     @ ''**User:** '' @ session_user_id s @ nl
     @ ''**Agent:** '' @ session_agent_id s @ nl
     @ ''**Status:** '' @ show_status (session_status s) @ nl @ nl
     @ (case summary s of Some x \<Rightarrow> ''## Summary'' @ nl @ nl @ x @ nl @ nl | None \<Rightarrow> [])
     @ ''## Transcript'' @ nl @ nl
     @ concat (map turn_markdown (turns s)))"

definition export :: "(ConversationTurn \<Rightarrow> string option) \<Rightarrow> 'raw SessionStore \<Rightarrow> string \<Rightarrow> ExportFormat \<Rightarrow> SessionError + string" where
  "export turn_json st i f =
     (case hm_get (sessions st) i of
        None \<Rightarrow> Inl (SessionNotFound i)
      | Some s \<Rightarrow> (case f of Jsonl \<Rightarrow> export_jsonl turn_json s | Markdown \<Rightarrow> Inr (export_markdown s)))"

section \<open>Texts\<close>

lemma role_roundtrip: "role_from_str (show_role r) = Some r"
  by (cases r) (simp_all add: role_from_str_def)

lemma export_format_roundtrip: "export_format_from_str (show_export_format f) = Some f"
  by (cases f) (simp_all add: export_format_from_str_def)

lemma session_ids_distinct: "make_session_id a = make_session_id b \<longleftrightarrow> a = b"
  using hex16_inj by (auto simp: make_session_id_def)

section \<open>Life cycle\<close>

fun status_moves :: "SessionStatus \<Rightarrow> SessionStatus \<Rightarrow> bool" where
  "status_moves Active _ = True"
| "status_moves Archived t \<longleftrightarrow> t = Archived \<or> t = Deleted"
| "status_moves Deleted t \<longleftrightarrow> t = Deleted"

interpretation session_life: life_cycle status_moves "\<lambda>s. s = Deleted"
  by unfold_locales simp

lemma status_moves_refl [simp]: "status_moves s s"
  by (cases s) simp_all

lemma status_moves_trans: "status_moves a b \<Longrightarrow> status_moves b c \<Longrightarrow> status_moves a c"
  by (cases a; cases b) auto

text \<open>What a session can become: the same conversation with more turns, and those only while it is active.\<close>

definition continues :: "SessionRecord \<Rightarrow> SessionRecord \<Rightarrow> bool" where
  "continues s t \<longleftrightarrow> session_id t = session_id s \<and> session_user_id t = session_user_id s
     \<and> session_agent_id t = session_agent_id s \<and> started_at_ns t = started_at_ns s
     \<and> status_moves (session_status s) (session_status t)
     \<and> prefix (turns s) (turns t) \<and> (session_status s \<noteq> Active \<longrightarrow> turns t = turns s \<and> summary t = summary s)"

lemma continues_refl [simp]: "continues s s"
  by (simp add: continues_def)

lemma continues_trans: "continues s t \<Longrightarrow> continues t u \<Longrightarrow> continues s u"
  unfolding continues_def by (cases "session_status s"; cases "session_status t") (auto elim: status_moves_trans prefix_order.trans)

text \<open>The counters of a session agree with its turns.\<close>

definition session_ok :: "SessionRecord \<Rightarrow> bool" where
  "session_ok s \<longleftrightarrow> map turn_index (turns s) = [0..<length (turns s)]
     \<and> unat (total_tokens s) = min (sum_list (map (\<lambda>t. unat (tokens t)) (turns s))) (2 ^ 32 - 1)
     \<and> last_active_ns s = (if turns s = [] then started_at_ns s else turn_timestamp_ns (last (turns s)))"

lemma session_append_effect:
  assumes "session_append_turn s t = (r, s')"
  shows "continues s s'" "session_ok s \<Longrightarrow> session_ok s'"
  using assms by (auto simp: session_append_turn_def continues_def session_ok_def unat_saturating_add split: if_splits)

lemma session_archive_effect:
  assumes "session_archive s x = (r, s')"
  shows "continues s s'" "session_ok s \<Longrightarrow> session_ok s'"
  using assms by (auto simp: session_archive_def continues_def session_ok_def split: if_splits)

lemma session_delete_effect: "continues s (session_delete s)" "session_ok s \<Longrightarrow> session_ok (session_delete s)"
  by (cases "session_status s"; simp add: session_delete_def continues_def session_ok_def)+

datatype session_op =
    OpenSession string string string u64
  | Append bool string ConversationTurn
  | Archive bool string "string option"
  | Delete bool string

fun session_step :: "(StoreFile \<Rightarrow> 'raw option) \<Rightarrow> 'raw SessionStore \<Rightarrow> session_op \<Rightarrow> 'raw SessionStore" where
  "session_step j st (OpenSession i u a now) = snd (session_insert st (session_new i u a now))"
| "session_step j st (Append w i t) = snd (append_turn j w st i t)"
| "session_step j st (Archive w i x) = snd (archive j w st i x)"
| "session_step j st (Delete w i) = snd (delete j w st i)"

definition store_ok :: "'raw SessionStore \<Rightarrow> bool" where
  "store_ok st \<longleftrightarrow> hm_wf (sessions st) \<and> (\<forall>i s. hm_get (sessions st) i = Some s \<longrightarrow> session_id s = i \<and> session_ok s)"

lemma flush_sessions [simp]: "sessions (snd (session_flush j w st)) = sessions st"
  by (auto simp: session_flush_def split: option.split)

text \<open>A step replaces at most one session, by one that continues it.\<close>

definition store_continues :: "'raw SessionStore \<Rightarrow> 'raw SessionStore \<Rightarrow> bool" where
  "store_continues st st' \<longleftrightarrow>
     (\<forall>i s. hm_get (sessions st) i = Some s \<longrightarrow> (\<exists>s'. hm_get (sessions st') i = Some s' \<and> continues s s'))"

lemma update_session:
  assumes "store_ok st" "hm_get (sessions st) i = Some s" "continues s s'" "session_ok s \<Longrightarrow> session_ok s'"
    and "sessions st' = hm_insert i s' (sessions st)"
  shows "store_ok st' \<and> store_continues st st'"
  using assms by (auto simp: store_ok_def store_continues_def hm_wf_insert hm_get_insert continues_def split: if_splits)

lemma flush_update:
  assumes "store_ok st" "hm_get (sessions st) i = Some s" "continues s s'" "session_ok s \<Longrightarrow> session_ok s'"
  shows "store_ok (snd (session_flush j w (st\<lparr>sessions := hm_insert i s' (sessions st)\<rparr>)))
    \<and> store_continues st (snd (session_flush j w (st\<lparr>sessions := hm_insert i s' (sessions st)\<rparr>)))"
  by (rule update_session [OF assms]) simp_all

lemma session_step_effect:
  assumes "store_ok st"
  shows "store_ok (session_step j st x) \<and> store_continues st (session_step j st x)"
proof -
  have same: "store_ok st \<and> store_continues st st" using assms by (simp add: store_continues_def)
  show ?thesis
  proof (cases x)
    case (OpenSession i u a now)
    then show ?thesis using assms
      by (auto simp: session_insert_def store_ok_def store_continues_def hm_get_insert hm_wf_insert hm_contains_def
          session_new_def session_ok_def)
  next
    case (Append w i t)
    then show ?thesis using same flush_update [OF assms, where j = j and w = w] session_append_effect
      by (auto simp: append_turn_def split: option.split prod.split sum.split)
  next
    case (Archive w i y)
    then show ?thesis using same flush_update [OF assms, where j = j and w = w] session_archive_effect
      by (auto simp: archive_def split: option.split prod.split sum.split)
  next
    case (Delete w i)
    then show ?thesis using same flush_update [OF assms, where j = j and w = w] session_delete_effect
      by (auto simp: delete_def split: option.split)
  qed
qed

lemma store_continues_trans: "store_continues a b \<Longrightarrow> store_continues b c \<Longrightarrow> store_continues a c"
  unfolding store_continues_def by (blast dest: continues_trans)

lemma session_run_effect:
  assumes "store_ok st"
  shows "store_ok (foldl (session_step j) st xs) \<and> store_continues st (foldl (session_step j) st xs)"
proof (induction xs rule: rev_induct)
  case Nil
  with assms show ?case by (simp add: store_continues_def)
next
  case (snoc x xs)
  let ?m = "foldl (session_step j) st xs"
  from snoc session_step_effect [of ?m j x] have "store_continues st ?m" "store_continues ?m (session_step j ?m x)"
    "store_ok (session_step j ?m x)" by auto
  then show ?case using store_continues_trans by simp
qed

text \<open>C28: a conversation is append-only. From a store without sessions, after any calls and with any write errors:
  the turns of every session are numbered from zero without gaps, its token count is the saturated sum of its turns
  and its last activity the time of the last turn; and whatever is called after that, a session is never lost, keeps
  its owner, its turns are only extended, and not at all once it is archived or deleted; an archived session can
  only be deleted, and a deleted one stays so.\<close>

theorem sessions_append_only:
  assumes "sessions st0 = []" and "st = foldl (session_step j) st0 xs" and "session_get st i = Some s"
  shows "session_ok s \<and> session_id s = i
    \<and> (\<exists>s'. session_get (foldl (session_step j) st ys) i = Some s' \<and> continues s s')"
proof -
  have "store_ok st0" using assms(1) by (simp add: store_ok_def)
  then have "store_ok st" unfolding assms(2) using session_run_effect by blast
  moreover from session_run_effect [OF this] have "store_continues st (foldl (session_step j) st ys)" by blast
  ultimately show ?thesis using assms(3) by (simp add: store_ok_def store_continues_def session_get_def)
qed

lemma sessions_append_only_witness:
  "let st = foldl (session_step Some) session_store_in_memory
         [OpenSession ''s'' ''u'' ''a'' 1, Append True ''s'' (turn_with_timestamp 7 User ''hi'' 5), Archive True ''s'' None]
   in \<exists>s. session_get st ''s'' = Some s \<and> session_status s = Archived \<and> session_ok s
      \<and> (\<exists>s'. session_get (foldl (session_step Some) st [Append True ''s'' (turn_with_timestamp 0 User ''late'' 9)]) ''s'' = Some s'
            \<and> continues s s')"
proof -
  let ?xs = "[OpenSession ''s'' ''u'' ''a'' 1, Append True ''s'' (turn_with_timestamp 7 User ''hi'' 5), Archive True ''s'' None]"
  let ?st = "foldl (session_step Some) session_store_in_memory ?xs"
  have "\<exists>s. session_get ?st ''s'' = Some s \<and> session_status s = Archived"
    by (simp add: session_get_def session_store_in_memory_def session_insert_def session_new_def hm_contains_def append_turn_def
        session_append_turn_def session_flush_def archive_def session_archive_def turn_with_timestamp_def)
  then obtain s where "session_get ?st ''s'' = Some s" "session_status s = Archived" by blast
  with sessions_append_only [of session_store_in_memory ?st Some ?xs "''s''" s "[Append True ''s'' (turn_with_timestamp 0 User ''late'' 9)]"]
  show ?thesis unfolding Let_def by (auto simp: session_store_in_memory_def)
qed

section \<open>Persistence\<close>

fun session_result :: "(StoreFile \<Rightarrow> 'raw option) \<Rightarrow> 'raw SessionStore \<Rightarrow> session_op \<Rightarrow> SessionError + unit" where
  "session_result j st (OpenSession i u a now) = fst (session_insert st (session_new i u a now))"
| "session_result j st (Append w i t) = fst (append_turn j w st i t)"
| "session_result j st (Archive w i x) = fst (archive j w st i x)"
| "session_result j st (Delete w i) = fst (delete j w st i)"

fun saves :: "session_op \<Rightarrow> bool" where
  "saves (OpenSession _ _ _ _) = False"
| "saves _ = True"

definition acknowledged :: "(StoreFile \<Rightarrow> 'raw option) \<Rightarrow> 'raw SessionStore \<Rightarrow> session_op list \<Rightarrow> nat \<Rightarrow> bool" where
  "acknowledged j st0 xs k \<longleftrightarrow> saves (xs ! k) \<and> session_result j (foldl (session_step j) st0 (take k xs)) (xs ! k) = Inr ()"

lemma flush_file:
  "store_path (snd (session_flush j w st)) = store_path st"
  "store_path st \<Longrightarrow> fst (session_flush j w st) = Inr () \<Longrightarrow>
     \<exists>raw. j \<lparr>file_schema_version = 1, file_sessions = sessions st\<rparr> = Some raw \<and> store_file (snd (session_flush j w st)) = Some raw"
  "fst (session_flush j w st) \<noteq> Inr () \<Longrightarrow> store_file (snd (session_flush j w st)) = store_file st"
  by (auto simp: session_flush_def split: option.splits if_splits)

lemma step_shape:
  "(session_step j st x = st \<and> session_result j st x \<noteq> Inr ())
   \<or> (\<not> saves x \<and> store_file (session_step j st x) = store_file st \<and> store_path (session_step j st x) = store_path st)
   \<or> (\<exists>w st1. saves x \<and> store_path st1 = store_path st \<and> store_file st1 = store_file st
        \<and> session_step j st x = snd (session_flush j w st1) \<and> session_result j st x = fst (session_flush j w st1))"
proof (cases x)
  case (Append w i t)
  show ?thesis
  proof (cases "hm_get (sessions st) i")
    case (Some s)
    obtain r s' where r: "session_append_turn s t = (r, s')" by fastforce
    show ?thesis
    proof (cases r)
      case Inl
      with Append Some r show ?thesis by (simp add: append_turn_def)
    next
      case (Inr u)
      with Append Some r show ?thesis
        by (intro disjI2 exI [of _ w] exI [of _ "st\<lparr>sessions := hm_insert i s' (sessions st)\<rparr>"]) (simp add: append_turn_def)
    qed
  qed (simp add: Append append_turn_def)
next
  case (Archive w i y)
  show ?thesis
  proof (cases "hm_get (sessions st) i")
    case (Some s)
    obtain r s' where r: "session_archive s y = (r, s')" by fastforce
    show ?thesis
    proof (cases r)
      case Inl
      with Archive Some r show ?thesis by (simp add: archive_def)
    next
      case (Inr u)
      with Archive Some r show ?thesis
        by (intro disjI2 exI [of _ w] exI [of _ "st\<lparr>sessions := hm_insert i s' (sessions st)\<rparr>"]) (simp add: archive_def)
    qed
  qed (simp add: Archive archive_def)
next
  case (Delete w i)
  show ?thesis
  proof (cases "hm_get (sessions st) i")
    case (Some s)
    with Delete show ?thesis
      by (intro disjI2 exI [of _ w] exI [of _ "st\<lparr>sessions := hm_insert i (session_delete s) (sessions st)\<rparr>"]) (simp add: delete_def)
  qed (simp add: Delete delete_def)
qed (simp add: session_insert_def)

lemma step_file:
  assumes "store_path st"
  shows "store_path (session_step j st x)"
    "saves x \<Longrightarrow> session_result j st x = Inr () \<Longrightarrow>
       \<exists>raw. j \<lparr>file_schema_version = 1, file_sessions = sessions (session_step j st x)\<rparr> = Some raw
         \<and> store_file (session_step j st x) = Some raw"
    "\<not> (saves x \<and> session_result j st x = Inr ()) \<Longrightarrow> store_file (session_step j st x) = store_file st"
  using step_shape [of j st x] assms flush_file by (metis flush_sessions)+

text \<open>C29: what was acknowledged survives a restart. When the parser reads back what the serialiser wrote, then after
  any calls on a store opened on a fresh path, with any write errors, opening the file again succeeds and gives the
  sessions exactly as they were after some call that is not before the last successful append, archive or delete.\<close>

theorem acknowledged_calls_durable:
  assumes codec: "\<And>f raw. to_json f = Some raw \<Longrightarrow> from_json raw = Some f"
    and "session_store_open from_json None = Inr st0" and "st = foldl (session_step to_json) st0 xs"
  shows "\<exists>m st'. m \<le> length xs \<and> (\<forall>k<length xs. acknowledged to_json st0 xs k \<longrightarrow> k < m)
     \<and> session_store_open from_json (store_file st) = Inr st'
     \<and> sessions st' = sessions (foldl (session_step to_json) st0 (take m xs))"
proof -
  have st0: "st0 = \<lparr>sessions = [], store_path = True, store_file = None\<rparr>" using assms(2) by (simp add: session_store_open_def)
  have "store_path (foldl (session_step to_json) st0 xs)
    \<and> (\<exists>m st'. m \<le> length xs \<and> (\<forall>k<length xs. acknowledged to_json st0 xs k \<longrightarrow> k < m)
     \<and> session_store_open from_json (store_file (foldl (session_step to_json) st0 xs)) = Inr st'
     \<and> sessions st' = sessions (foldl (session_step to_json) st0 (take m xs)))"
  proof (induction xs rule: rev_induct)
    case Nil
    show ?case by (simp add: st0 session_store_open_def)
  next
    case (snoc x xs)
    let ?s = "foldl (session_step to_json) st0 xs"
    from snoc obtain m st' where p: "store_path ?s" and m: "m \<le> length xs"
      "\<And>k. k < length xs \<Longrightarrow> acknowledged to_json st0 xs k \<Longrightarrow> k < m"
      "session_store_open from_json (store_file ?s) = Inr st'" "sessions st' = sessions (foldl (session_step to_json) st0 (take m xs))"
      by blast
    have ack: "acknowledged to_json st0 (xs @ [x]) k \<longleftrightarrow> (if k < length xs then acknowledged to_json st0 xs k
        else saves x \<and> session_result to_json ?s x = Inr ())" if "k < length (xs @ [x])" for k
      using that by (auto simp: acknowledged_def nth_append less_Suc_eq)
    show ?case
    proof (cases "saves x \<and> session_result to_json ?s x = Inr ()")
      case True
      with step_file(2) [OF p] obtain raw where "to_json \<lparr>file_schema_version = 1, file_sessions = sessions (session_step to_json ?s x)\<rparr> = Some raw"
        "store_file (session_step to_json ?s x) = Some raw" by blast
      then have "session_store_open from_json (store_file (session_step to_json ?s x))
          = Inr \<lparr>sessions = sessions (session_step to_json ?s x), store_path = True, store_file = Some raw\<rparr>"
        using codec by (simp add: session_store_open_def)
      with step_file(1) [OF p] show ?thesis by (auto intro!: exI [of _ "Suc (length xs)"])
    next
      case False
      with step_file(1,3) [OF p, where j = to_json and x = x] m ack show ?thesis by (auto intro!: exI [of _ m] simp: less_Suc_eq)
    qed
  qed
  then show ?thesis unfolding assms(3) by blast
qed

lemma acknowledged_calls_durable_witness:
  "let xs = [OpenSession ''s'' ''u'' ''a'' 1, Append True ''s'' (turn_with_timestamp 0 User ''hi'' 5), Delete False ''s''];
       st0 = \<lparr>sessions = [], store_path = True, store_file = None\<rparr>;
       st = foldl (session_step Some) st0 xs
   in \<exists>m st'. m \<le> 3 \<and> (acknowledged Some st0 xs 1 \<longrightarrow> 1 < m) \<and> session_store_open Some (store_file st) = Inr st'
       \<and> sessions st' = sessions (foldl (session_step Some) st0 (take m xs))"
proof -
  let ?xs = "[OpenSession ''s'' ''u'' ''a'' 1, Append True ''s'' (turn_with_timestamp 0 User ''hi'' 5), Delete False ''s'']"
  let ?st0 = "\<lparr>sessions = [], store_path = True, store_file = None\<rparr>"
  have "session_store_open Some None = Inr ?st0" by (simp add: session_store_open_def)
  from acknowledged_calls_durable [OF _ this refl, of Some ?xs] obtain m st' where
    "m \<le> length ?xs" "\<forall>k<length ?xs. acknowledged Some ?st0 ?xs k \<longrightarrow> k < m"
    "session_store_open Some (store_file (foldl (session_step Some) ?st0 ?xs)) = Inr st'"
    "sessions st' = sessions (foldl (session_step Some) ?st0 (take m ?xs))" by blast
  moreover have "length ?xs = 3" "1 < length ?xs" by simp_all
  ultimately show ?thesis unfolding Let_def by metis
qed

text \<open>A failed write is reported, but the change stays in memory.\<close>

lemma failed_append_kept:
  assumes "store_path st" "session_get st i = Some s" "session_status s = Active"
  shows "fst (append_turn j False st i t) = Inl SessionIo
    \<and> map_option (\<lambda>s'. length (turns s')) (session_get (snd (append_turn j False st i t)) i) = Some (Suc (length (turns s)))"
  using assms by (auto simp: session_get_def append_turn_def session_append_turn_def session_flush_def hm_get_insert split: option.split)

section \<open>Listing\<close>

definition listed :: "SessionQuery \<Rightarrow> SessionRecord \<Rightarrow> bool" where
  "listed q s \<longleftrightarrow> query_matches q s \<and> (session_status s = Deleted \<longrightarrow> q_status q = Some Deleted)"

lemma list_sessions_listed: "s \<in> set (list_sessions st q) \<Longrightarrow> listed q s \<and> s \<in> snd ` set (sessions st)"
  by (auto simp: list_sessions_def listed_def query_matches_def Let_def dest: in_set_takeD split: if_splits option.splits)

text \<open>A listing is the newest part of what matches. The result is a part of the matching sessions, newest first;
  it has all of them or, with a limit, at most that many, and then none left out is newer than one returned.
  Deleted sessions are listed only when the query asks for them.\<close>

theorem list_sessions_exact:
  "\<exists>rest. mset (list_sessions st q) + rest = filter_mset (listed q) (mset (map snd (sessions st)))
     \<and> sorted_wrt (\<lambda>a b. started_at_ns b \<le> started_at_ns a) (list_sessions st q)
     \<and> (if q_limit q = 0 then rest = {#} else size rest = size (filter_mset (listed q) (mset (map snd (sessions st)))) - q_limit q)
     \<and> list_all (\<lambda>a. filter_mset (\<lambda>b. started_at_ns a < started_at_ns b) rest = {#}) (list_sessions st q)"
proof -
  let ?key = "\<lambda>s. - uint (started_at_ns s)"
  have f: "(\<lambda>s. \<not> (q_status q \<noteq> Some Deleted \<and> q_status q = None \<and> session_status s = Deleted) \<and> query_matches q s) = listed q"
    by (auto simp: listed_def query_matches_def fun_eq_iff split: option.splits)
  define os where "os = sort_key ?key (filter (listed q) (map snd (sessions st)))"
  define n where "n = (if 0 < q_limit q \<and> q_limit q < length os then q_limit q else length os)"
  have l: "list_sessions st q = take n os"
    unfolding list_sessions_def Let_def conj_assoc f os_def [symmetric] n_def by simp
  have m: "mset os = filter_mset (listed q) (mset (map snd (sessions st)))" unfolding os_def by (simp only: mset_sort mset_filter)
  have srt: "sorted_wrt (\<lambda>a b. started_at_ns b \<le> started_at_ns a) (take n os @ drop n os)"
    using sorted_sort_key [of ?key] unfolding os_def by (simp add: sorted_map word_le_def)
  have "mset (take n os) + mset (drop n os) = mset os" by (simp flip: mset_append)
  then show ?thesis
    unfolding l m [symmetric] size_mset using srt unfolding sorted_wrt_append
    by (intro exI [of _ "mset (drop n os)"]) (auto simp: n_def list_all_iff not_less)
qed

end
