(* ===== verification/Data_Commands.thy ===== *)
theory Data_Commands
  imports Users Session_Store
begin

text \<open>
  The operator commands on personal data (\<^verbatim>\<open>kernels/hosted/src/commands.rs\<close>, \<^verbatim>\<open>cmd_data\<close> and \<^verbatim>\<open>cmd_users\<close>):
  a command opens the user registry, and the session store when it needs it, from their files, acts and writes back.
  A command is a function of the files, the clock, the outcome of its writes and its arguments to the files, the exit
  status, the audit entries and the export it writes; what it prints is left out. Serialisers and parsers are arguments.
\<close>

section \<open>State of an invocation\<close>

datatype cli_audit =
    DataExported string nat nat string
  | DataDeletedForUser string string nat
  | ExpiredConsentCleaned nat nat nat nat
  | UserTrustUpdated string string string
  | UserConsentUpdated string string bool
  | UserProfileCreated string string string

datatype export_data =
    ProfileData UserProfile
  | FactsData "(string \<times> string) list"
  | SessionsData "SessionRecord list" nat
  | UsageData u64 u64 nat nat
  | NoKnowledge

record ('u, 's) cli =
  user_file :: "'u option"
  session_file :: "'s option"
  cli_exit :: nat
  cli_log :: "cli_audit list"
  export_out :: "(string \<times> export_data DataExportBundle) option"

definition AGENT_ID :: string where "AGENT_ID = ''anima''"

definition cli_fail :: "nat \<Rightarrow> ('u, 's) cli \<Rightarrow> ('u, 's) cli" where
  "cli_fail n c = c\<lparr>cli_exit := max (cli_exit c) n\<rparr>"

definition log_push :: "cli_audit \<Rightarrow> ('u, 's) cli \<Rightarrow> ('u, 's) cli" where
  "log_push e c = c\<lparr>cli_log := cli_log c @ [e]\<rparr>"

text \<open>Opening the registry: an unreadable file is reported and an unsaved registry is used instead.\<close>

definition open_users :: "('u \<Rightarrow> RegistryFile option) \<Rightarrow> ('u, 's) cli \<Rightarrow> 'u UserRegistry \<times> ('u, 's) cli" where
  "open_users from_json c =
     (case users_open from_json (user_file c) of
        Inl _ \<Rightarrow> (users_in_memory (user_file c), cli_fail 1 c)
      | Inr r \<Rightarrow> (r, c))"

text \<open>Writing the registry back; a failed write is reported.\<close>

definition save_users :: "(RegistryFile \<Rightarrow> 'u option) \<Rightarrow> bool \<Rightarrow> 'u UserRegistry \<Rightarrow> ('u, 's) cli \<Rightarrow> ('u, 's) cli" where
  "save_users to_json write_ok r c =
     (case users_flush to_json write_ok r of
        (Inl _, r') \<Rightarrow> cli_fail 1 (c\<lparr>user_file := users_file r'\<rparr>)
      | (Inr _, r') \<Rightarrow> c\<lparr>user_file := users_file r'\<rparr>)"

section \<open>Export of personal data\<close>

fun find_flag :: "string \<Rightarrow> string list \<Rightarrow> string option" where
  "find_flag flag (a # b # rest) = (if a = flag then Some b else find_flag flag (b # rest))"
| "find_flag flag _ = None"

definition export_path :: "string list \<Rightarrow> string \<Rightarrow> string" where
  "export_path args uid = (case find_flag ''--output'' args of Some p \<Rightarrow> p | None \<Rightarrow> uid @ ''-export.json'')"

definition export_section ::
  "UserRecord \<Rightarrow> SessionRecord list \<Rightarrow> u64 \<Rightarrow> DataCategory \<Rightarrow> export_data DataExportSection list \<Rightarrow> export_data DataExportSection list" where
  "export_section rec ss now cat b =
     (let total_turns = sum_list (map (\<lambda>s. length (turns s)) ss) in
      if \<not> is_consented (consent rec) cat now then b
      else case cat of
          IdentityFacts \<Rightarrow> add_section cat (length (facts (profile rec))) (FactsData (facts (profile rec))) b
        | EpisodicMemory \<Rightarrow> add_section cat (length ss) (SessionsData ss total_turns) b
        | UsageStats \<Rightarrow> add_section cat 1
            (UsageData (user_created_at_ns (profile rec)) (last_seen_ns (profile rec)) (length ss) total_turns) b
        | KnowledgeCorpus \<Rightarrow> add_section cat 0 NoKnowledge b)"

definition data_export ::
  "('u \<Rightarrow> RegistryFile option) \<Rightarrow> ('s \<Rightarrow> StoreFile option) \<Rightarrow> u64 \<Rightarrow> bool \<Rightarrow> string list \<Rightarrow> ('u, 's) cli \<Rightarrow> ('u, 's) cli" where
  "data_export users_json sessions_json now write_ok args c0 =
     (case open_users users_json c0 of (reg, c) \<Rightarrow>
        case args of
          _ # uid # _ \<Rightarrow>
            (case user_get reg uid of
               None \<Rightarrow> cli_fail 1 c
             | Some rec \<Rightarrow>
                 (let needs_sessions = list_ex (\<lambda>cat. is_consented (consent rec) cat now) [EpisodicMemory, UsageStats] in
                  case (if needs_sessions then map_sum id Some (session_store_open sessions_json (session_file c)) else Inr None) of
                    Inl _ \<Rightarrow> cli_fail 1 c
                  | Inr store \<Rightarrow>
                      (let ss = (case store of Some st \<Rightarrow> list_sessions st (query_for_user uid) | None \<Rightarrow> []);
                           b0 = add_raw_section ''user_profile'' 1 (ProfileData (profile rec)) [];
                           b = fold (export_section rec ss now) all_categories b0;
                           bdl = build_bundle b uid AGENT_ID now;
                           c' = (if write_ok then c\<lparr>export_out := Some (export_path args uid, bdl)\<rparr> else cli_fail 1 c) in
                       log_push (DataExported uid (length (sections bdl)) (total_records bdl) (export_path args uid)) c')))
        | _ \<Rightarrow> cli_fail 2 c)"

section \<open>Deletion and expiry\<close>

definition data_delete ::
  "('u \<Rightarrow> RegistryFile option) \<Rightarrow> (RegistryFile \<Rightarrow> 'u option) \<Rightarrow> u64 \<Rightarrow> bool \<Rightarrow> string list \<Rightarrow> ('u, 's) cli \<Rightarrow> ('u, 's) cli" where
  "data_delete from_json to_json now write_ok args c0 =
     (case open_users from_json c0 of (reg, c) \<Rightarrow>
        case args of
          _ # uid # _ \<Rightarrow>
            (if user_get reg uid \<noteq> None then
               (let d = build_revocation_directive uid all_categories now;
                    c1 = log_push (DataDeletedForUser uid (join_str '', '' (revoked_categories d)) 0) c in
                save_users to_json write_ok (snd (user_remove reg uid)) c1)
             else cli_fail 1 c)
        | _ \<Rightarrow> cli_fail 2 c)"

definition revoke_expired :: "u64 \<Rightarrow> ExpiredGrant \<Rightarrow> 'u UserRegistry \<Rightarrow> 'u UserRegistry" where
  "revoke_expired now eg r =
     (case category_from_str (eg_category eg) of
        Some cat \<Rightarrow> user_update_consent r (eg_user_id eg) (\<lambda>x. consent_set x cat False now)
      | None \<Rightarrow> r)"

definition data_expiry_check ::
  "('u \<Rightarrow> RegistryFile option) \<Rightarrow> (RegistryFile \<Rightarrow> 'u option) \<Rightarrow> u64 \<Rightarrow> bool \<Rightarrow> ('u, 's) cli \<Rightarrow> ExpiryReport \<times> ('u, 's) cli" where
  "data_expiry_check from_json to_json now write_ok c0 =
     (case open_users from_json c0 of (reg, c) \<Rightarrow>
        let report = scan_expired_grants (map (\<lambda>(i, rec). (i, consent rec)) (users reg)) now;
            c1 = (if report_is_clean report then c
                  else save_users to_json write_ok (fold (revoke_expired now) (expired_grants report) reg) c) in
        (report, log_push (ExpiredConsentCleaned (users_scanned report) (length (expired_grants report)) (length (directives report)) 0) c1))"

section \<open>User commands\<close>

definition users_show_consented :: "UserRecord \<Rightarrow> string list" where
  "users_show_consented rec = map category_as_str (filter (\<lambda>c. is_consented (consent rec) c 0) all_categories)"

definition users_trust ::
  "('u \<Rightarrow> RegistryFile option) \<Rightarrow> (RegistryFile \<Rightarrow> 'u option) \<Rightarrow> bool \<Rightarrow> string list \<Rightarrow> ('u, 's) cli \<Rightarrow> ('u, 's) cli" where
  "users_trust from_json to_json write_ok args c0 =
     (case open_users from_json c0 of (reg, c) \<Rightarrow>
        case args of
          _ # uid # tier_str # _ \<Rightarrow>
            (case tier_from_str tier_str of
               None \<Rightarrow> cli_fail 2 c
             | Some tier \<Rightarrow>
                 (case user_set_trust reg uid tier 0 of
                    (Inl _, _) \<Rightarrow> cli_fail 1 c
                  | (Inr (old, new), reg') \<Rightarrow>
                      save_users to_json write_ok reg' (log_push (UserTrustUpdated uid (tier_as_str old) (tier_as_str new)) c)))
        | _ \<Rightarrow> cli_fail 2 c)"

definition users_consent ::
  "('u \<Rightarrow> RegistryFile option) \<Rightarrow> (RegistryFile \<Rightarrow> 'u option) \<Rightarrow> bool \<Rightarrow> string list \<Rightarrow> ('u, 's) cli \<Rightarrow> ('u, 's) cli" where
  "users_consent from_json to_json write_ok args c0 =
     (case open_users from_json c0 of (reg, c) \<Rightarrow>
        case args of
          _ # uid # cat_str # act # _ \<Rightarrow>
            (case category_from_str cat_str of
               None \<Rightarrow> cli_fail 2 c
             | Some cat \<Rightarrow>
                 if act \<noteq> ''grant'' \<and> act \<noteq> ''revoke'' then cli_fail 2 c
                 else (case user_get reg uid of
                         None \<Rightarrow> cli_fail 1 c
                       | Some _ \<Rightarrow>
                           (let g = (act = ''grant'');
                                c1 = log_push (UserConsentUpdated uid (category_as_str cat) g) c in
                            save_users to_json write_ok (user_update_consent reg uid (\<lambda>x. consent_set x cat g 0)) c1)))
        | _ \<Rightarrow> cli_fail 2 c)"

definition users_register ::
  "('u \<Rightarrow> RegistryFile option) \<Rightarrow> (RegistryFile \<Rightarrow> 'u option) \<Rightarrow> bool \<Rightarrow> string list \<Rightarrow> ('u, 's) cli \<Rightarrow> ('u, 's) cli" where
  "users_register from_json to_json write_ok args c0 =
     (case open_users from_json c0 of (reg, c) \<Rightarrow>
        case args of
          _ # uid # name # chan # _ \<Rightarrow>
            (case user_register reg (user_profile_new uid name chan 0) of
               (Inl _, _) \<Rightarrow> cli_fail 1 c
             | (Inr _, reg') \<Rightarrow> save_users to_json write_ok reg' (log_push (UserProfileCreated uid name chan) c))
        | _ \<Rightarrow> cli_fail 2 c)"

section \<open>An export holds the subject's consented data only\<close>

text \<open>The label, the number of records and the data each category has in an export, given the conversations.\<close>

definition category_export :: "UserRecord \<Rightarrow> SessionRecord list \<Rightarrow> DataCategory \<Rightarrow> export_data DataExportSection" where
  "category_export rec ss cat =
     (let turn_total = sum_list (map (\<lambda>s. length (turns s)) ss); p = profile rec in
      case cat of
        EpisodicMemory \<Rightarrow> \<lparr>section_category = ''episodic_memory'', record_count = length ss, section_data = SessionsData ss turn_total\<rparr>
      | IdentityFacts \<Rightarrow> \<lparr>section_category = ''identity_facts'', record_count = length (facts p), section_data = FactsData (facts p)\<rparr>
      | UsageStats \<Rightarrow> \<lparr>section_category = ''usage_stats'', record_count = 1,
          section_data = UsageData (user_created_at_ns p) (last_seen_ns p) (length ss) turn_total\<rparr>
      | KnowledgeCorpus \<Rightarrow> \<lparr>section_category = ''knowledge_corpus'', record_count = 0, section_data = NoKnowledge\<rparr>)"

text \<open>The conversations of a user: all in the store that are the user's and not deleted, newest first.\<close>

definition conversations_of :: "string \<Rightarrow> SessionRecord list \<Rightarrow> SessionRecord list \<Rightarrow> bool" where
  "conversations_of uid stored ss \<longleftrightarrow>
     mset ss = {# s \<in># mset stored. session_user_id s = uid \<and> session_status s \<noteq> Deleted #}
     \<and> sorted_wrt (\<lambda>a b. started_at_ns b \<le> started_at_ns a) ss"

lemma conversations_listed: "conversations_of uid (map snd (sessions st)) (list_sessions st (query_for_user uid))"
proof -
  have "listed (query_for_user uid) = (\<lambda>s. session_user_id s = uid \<and> session_status s \<noteq> Deleted)"
    by (auto simp: listed_def query_matches_def query_for_user_def query_default_def)
  moreover have "q_limit (query_for_user uid) = 0" by (simp add: query_for_user_def query_default_def)
  ultimately show ?thesis using list_sessions_exact [of st "query_for_user uid"] unfolding conversations_of_def by auto
qed

lemma export_sections:
  "fold (export_section rec ss now) cats b = b @ map (category_export rec ss) (filter (\<lambda>c. is_consented (consent rec) c now) cats)"
proof (induction cats arbitrary: b)
  case (Cons c cats)
  have "export_section rec ss now c b = b @ (if is_consented (consent rec) c now then [category_export rec ss c] else [])"
    by (cases c) (simp_all add: export_section_def add_section_def category_export_def Let_def)
  with Cons show ?case by simp
qed simp

text \<open>C25: an export of personal data is the subject's profile and, for each category the subject has consented to at
  that moment and no other, in the fixed order, one section under that category's label with that category's data: the
  conversations of the session store that are the subject's and not deleted, all of them, newest first, with their
  number of turns; the facts; the times of the account with the numbers of conversations and turns; nothing for the
  knowledge corpus. When conversations or usage are exported the store was readable. The total counts the records of
  all sections. An export is written only for a registered user, to the path given or the default one. The profile is
  part of every export and holds the facts too, so these are exported without consent to their category
  (\<open>profile_carries_facts\<close>).\<close>

theorem export_only_consented:
  assumes "export_out c = None" and "export_out (data_export users_json sessions_json now write_ok args c) = Some (path, bdl)"
  shows "\<exists>rec ss. user_get (fst (open_users users_json c)) (args ! 1) = Some rec
    \<and> path = export_path args (args ! 1)
    \<and> bundle_user_id bdl = args ! 1 \<and> bundle_agent_id bdl = ''anima'' \<and> exported_at_ns bdl = now
    \<and> sections bdl = \<lparr>section_category = ''user_profile'', record_count = 1, section_data = ProfileData (profile rec)\<rparr>
        # map (category_export rec ss) (filter (\<lambda>cat. is_consented (consent rec) cat now) all_categories)
    \<and> (is_consented (consent rec) EpisodicMemory now \<or> is_consented (consent rec) UsageStats now \<longrightarrow>
        (\<exists>st. session_store_open sessions_json (session_file c) = Inr st \<and> conversations_of (args ! 1) (map snd (sessions st)) ss))
    \<and> total_records bdl = sum_list (map record_count (sections bdl))"
proof -
  obtain reg c1 where o: "open_users users_json c = (reg, c1)" by fastforce
  have out1: "export_out c1 = None" "session_file c1 = session_file c"
    using o assms(1) by (auto simp: open_users_def cli_fail_def split: sum.splits)
  from assms(2) o out1 obtain a uid rest where args: "args = a # uid # rest"
    by (auto simp: data_export_def cli_fail_def split: list.splits)
  from assms(2) o out1 obtain rec where rec: "user_get reg uid = Some rec"
    by (auto simp: data_export_def args cli_fail_def split: option.splits)
  let ?ss = "\<lambda>st. case st of Some st \<Rightarrow> list_sessions st (query_for_user uid) | None \<Rightarrow> []"
  let ?mk = "\<lambda>st. build_bundle (fold (export_section rec (?ss st) now)
       all_categories (add_raw_section ''user_profile'' 1 (ProfileData (profile rec)) [])) uid AGENT_ID now"
  define store where "store = (if list_ex (\<lambda>cat. is_consented (consent rec) cat now) [EpisodicMemory, UsageStats]
     then map_sum id Some (session_store_open sessions_json (session_file c1)) else Inr None)"
  have run: "data_export users_json sessions_json now write_ok args c = (case store of Inl _ \<Rightarrow> cli_fail 1 c1
     | Inr st \<Rightarrow> log_push (DataExported uid (length (sections (?mk st))) (total_records (?mk st)) (export_path args uid))
         (if write_ok then c1\<lparr>export_out := Some (export_path args uid, ?mk st)\<rparr> else cli_fail 1 c1))"
    by (simp only: data_export_def o args prod.case list.case rec option.case Let_def store_def)
  obtain st where st: "store = Inr st" using assms(2) out1 unfolding run by (cases store) (auto simp: cli_fail_def)
  then have b: "bdl = ?mk st" "path = export_path args uid"
    using assms(2) out1 unfolding run by (auto simp: cli_fail_def log_push_def split: if_splits)
  have "\<exists>u. session_store_open sessions_json (session_file c) = Inr u \<and> conversations_of uid (map snd (sessions u)) (?ss st)"
    if "is_consented (consent rec) EpisodicMemory now \<or> is_consented (consent rec) UsageStats now"
    using st that conversations_listed unfolding store_def out1(2)
    by (cases "session_store_open sessions_json (session_file c)") auto
  with rec o b show ?thesis
    by (intro exI [of _ rec] exI [of _ "?ss st"]) (simp add: args build_bundle_def add_raw_section_def export_sections AGENT_ID_def)
qed

definition sample_subject :: "ConsentRecord \<Rightarrow> UserRecord" where
  "sample_subject cr = \<lparr>profile = snd (profile_set_fact (user_profile_new ''t:1'' ''Ann'' ''t'' 3) ''city'' ''Bern''), consent = cr\<rparr>"

definition sample_files :: "ConsentRecord \<Rightarrow> (RegistryFile, StoreFile) cli" where
  "sample_files cr = \<lparr>user_file = Some \<lparr>registry_schema_version = 1, registry_users = [(''t:1'', sample_subject cr)]\<rparr>,
     session_file = Some \<lparr>file_schema_version = 1, file_sessions = [(''s'', session_new ''s'' ''t:1'' ''anima'' 4), (''r'', session_new ''r'' ''t:2'' ''anima'' 5)]\<rparr>,
     cli_exit = 0, cli_log = [], export_out = None\<rparr>"

lemma export_only_consented_witness:
  "let cr = consent_set consent_new EpisodicMemory True 4; c = sample_files cr
   in \<exists>path bdl. export_out (data_export Some Some 9 True [''export'', ''t:1''] c) = Some (path, bdl)
        \<and> path = ''t:1-export.json''
        \<and> map section_category (sections bdl) = [''user_profile'', ''episodic_memory'']
        \<and> section_data (sections bdl ! 1) = SessionsData [session_new ''s'' ''t:1'' ''anima'' 4] 0"
proof -
  let ?cr = "consent_set consent_new EpisodicMemory True 4"
  let ?s = "session_new ''s'' ''t:1'' ''anima'' 4" and ?r = "session_new ''r'' ''t:2'' ''anima'' 5"
  have get: "user_get (fst (open_users Some (sample_files ?cr))) ''t:1'' = Some (sample_subject ?cr)"
    by (simp add: open_users_def users_open_def user_get_def sample_files_def)
  have con: "is_consented (consent (sample_subject ?cr)) cat 9 \<longleftrightarrow> cat = EpisodicMemory" for cat
    by (cases cat) (simp_all add: sample_subject_def is_consented_def consent_set_def consent_new_def grant_perpetual_def grant_is_active_def)
  have consented: "filter (\<lambda>cat. is_consented (consent (sample_subject ?cr)) cat 9) all_categories = [EpisodicMemory]"
    by (simp add: con all_categories_def)
  have none: "export_out (sample_files ?cr) = None" by (simp add: sample_files_def)
  obtain st where st: "session_store_open Some (session_file (sample_files ?cr)) = Inr st" "map snd (sessions st) = [?s, ?r]"
    by (simp add: sample_files_def session_store_open_def)
  have "\<exists>path bdl. export_out (data_export Some Some 9 True [''export'', ''t:1''] (sample_files ?cr)) = Some (path, bdl)"
    using get st by (cases "open_users Some (sample_files ?cr)")
      (auto simp: data_export_def con log_push_def Let_def sample_files_def open_users_def users_open_def)
  then obtain path bdl where out: "export_out (data_export Some Some 9 True [''export'', ''t:1''] (sample_files ?cr)) = Some (path, bdl)"
    by blast
  from export_only_consented [OF none out] obtain ss where
    path: "path = export_path [''export'', ''t:1''] ''t:1''" and
    secs: "map section_category (sections bdl) = [''user_profile'', ''episodic_memory'']"
    "section_data (sections bdl ! 1) = SessionsData ss (sum_list (map (\<lambda>s. length (turns s)) ss))"
    and ss: "conversations_of ''t:1'' [?s, ?r] ss"
    using get consented con st by (auto simp: category_export_def Let_def)
  have "mset ss = {# ?s #}" using ss by (simp add: conversations_of_def session_new_def)
  then have "ss = [?s]" by simp
  with out path secs show ?thesis
    unfolding Let_def by (intro exI [of _ path] exI [of _ bdl]) (simp add: export_path_def session_new_def)
qed

text \<open>A subject who consented to nothing is exported with the facts of the profile.\<close>

lemma profile_carries_facts:
  "\<exists>path bdl. export_out (data_export Some Some 9 True [''export'', ''t:1''] (sample_files consent_new)) = Some (path, bdl)
     \<and> map section_data (sections bdl) = [ProfileData (profile (sample_subject consent_new))]
     \<and> facts (profile (sample_subject consent_new)) = [(''city'', ''Bern'')]"
  by (simp add: data_export_def open_users_def users_open_def user_get_def sample_files_def sample_subject_def is_consented_def
      consent_new_def log_push_def Let_def all_categories_def export_section_def build_bundle_def add_raw_section_def
      profile_set_fact_def user_profile_new_def)

section \<open>The expiry check revokes what has lapsed\<close>

definition retained :: "'u UserRegistry \<Rightarrow> string \<Rightarrow> DataCategory \<Rightarrow> u64 \<Rightarrow> bool" where
  "retained r i cat t \<longleftrightarrow> (\<exists>rec. user_get r i = Some rec \<and> is_consented (consent rec) cat t)"

lemma retained_alt: "retained r i cat t \<longleftrightarrow> (\<exists>g. stored_grant r i cat = Some g \<and> grant_is_active g t)"
  by (auto simp: retained_def stored_grant_def is_consented_def split: option.splits)

definition consents_wf :: "'u UserRegistry \<Rightarrow> bool" where
  "consents_wf r \<longleftrightarrow> hm_wf (users r) \<and> list_all (\<lambda>(i, rec). hm_wf (consent rec)) (users r)"

lemma expired_grant_wf:
  "hm_wf r \<Longrightarrow> expired_grant r now c = (case hm_get r (category_as_str c) of Some g \<Rightarrow> if lapsed now g then Some g else None | None \<Rightarrow> None)"
proof (induction r)
  case (Cons x r)
  obtain k g where x: "x = (k, g)" by (cases x)
  have "find (\<lambda>(k', g). k' = k \<and> lapsed now g) r = None" if "k = category_as_str c"
    using Cons.prems by (force simp: x find_None_iff hm_wf_def)
  with Cons x show ?case by (auto simp: expired_grant_def hm_wf_def split: option.split)
qed (simp add: expired_grant_def)

definition reported :: "ExpiryReport \<Rightarrow> string \<Rightarrow> DataCategory \<Rightarrow> bool" where
  "reported rep i c \<longleftrightarrow> list_ex (\<lambda>eg. eg_user_id eg = i \<and> eg_category eg = category_as_str c) (expired_grants rep)"

lemma scan_reported:
  "reported (fold (scan_user now) us rep) i c \<longleftrightarrow> reported rep i c \<or> (\<exists>r. (i, r) \<in> set us \<and> expired_grant r now c \<noteq> None)"
proof (induction us arbitrary: rep)
  case (Cons u us)
  obtain j r where u: "u = (j, r)" by (cases u)
  have "reported (scan_user now u rep) i c \<longleftrightarrow> reported rep i c \<or> (j = i \<and> expired_grant r now c \<noteq> None)"
  proof -
    have ex: "list_ex Q (map f (filter P all_categories)) \<longleftrightarrow> (\<exists>x. P x \<and> Q (f x))" for Q P and f :: "DataCategory \<Rightarrow> ExpiredGrant"
      by (auto simp: list_ex_iff)
    show ?thesis by (auto simp: reported_def scan_user_def u Let_def ex)
  qed
  with Cons u show ?case by auto
qed simp

lemma scan_categories:
  "list_all (\<lambda>eg. \<exists>c. eg_category eg = category_as_str c) (expired_grants rep) \<Longrightarrow>
   list_all (\<lambda>eg. \<exists>c. eg_category eg = category_as_str c) (expired_grants (fold (scan_user now) us rep))"
proof (induction us arbitrary: rep)
  case (Cons u us)
  obtain j r where u: "u = (j, r)" by (cases u)
  have "list_all (\<lambda>eg. \<exists>c. eg_category eg = category_as_str c) (expired_grants (scan_user now u rep))"
    using Cons.prems by (auto simp: u scan_user_def Let_def list_all_iff)
  from Cons.IH [OF this] show ?case by simp
qed simp

lemma reported_lapsed:
  assumes "consents_wf r"
  shows "reported (scan_expired_grants (map (\<lambda>(i, rec). (i, consent rec)) (users r)) now) i c
    \<longleftrightarrow> (\<exists>g. stored_grant r i c = Some g \<and> lapsed now g)"
proof -
  have u: "(i, rec) \<in> set (users r) \<longleftrightarrow> user_get r i = Some rec" for rec
    using assms by (simp add: consents_wf_def hm_wf_def user_get_def map_of_eq_Some_iff)
  have wf: "hm_wf (consent rec)" if "user_get r i = Some rec" for rec
    using assms that u by (auto simp: consents_wf_def list_all_iff)
  have "(\<exists>x. (i, x) \<in> set (map (\<lambda>(i, rec). (i, consent rec)) (users r)) \<and> expired_grant x now c \<noteq> None)
    \<longleftrightarrow> (\<exists>rec. user_get r i = Some rec \<and> expired_grant (consent rec) now c \<noteq> None)"
  proof -
    have "(i, x) \<in> set (map (\<lambda>(i, rec). (i, consent rec)) (users r)) \<longleftrightarrow> (\<exists>rec. (i, rec) \<in> set (users r) \<and> x = consent rec)" for x
      by force
    with u show ?thesis by auto
  qed
  also have "\<dots> \<longleftrightarrow> (\<exists>g. stored_grant r i c = Some g \<and> lapsed now g)"
    by (auto simp: stored_grant_def expired_grant_wf [OF wf] split: option.splits if_splits)
  finally show ?thesis unfolding scan_expired_grants_def scan_reported by (simp add: reported_def)
qed

lemma revoke_step:
  assumes "eg_category eg = category_as_str c"
  shows "revoke_expired now eg r = user_step r (SetConsent (eg_user_id eg) c False now)"
  by (simp add: revoke_expired_def assms)

lemma user_step_consent_frame:
  "map_option profile (user_get (user_step r (SetConsent j c g now)) i) = map_option profile (user_get r i)"
  "consents_wf r \<Longrightarrow> consents_wf (user_step r (SetConsent j c g now))"
proof -
  show "map_option profile (user_get (user_step r (SetConsent j c g now)) i) = map_option profile (user_get r i)"
    by (auto simp: user_get_def user_update_consent_def hm_get_insert split: option.split)
  assume wf: "consents_wf r"
  then have "hm_wf (consent rec)" if "hm_get (users r) j = Some rec" for rec
    using that by (auto simp: consents_wf_def list_all_iff dest: map_of_SomeD)
  then show "consents_wf (user_step r (SetConsent j c g now))"
    using wf set_hm_insert [of j] unfolding consents_wf_def
    by (fastforce simp: user_update_consent_def hm_wf_insert list_all_iff consent_set_def split: option.split)
qed

lemma revoke_all:
  assumes "list_all (\<lambda>eg. \<exists>c. eg_category eg = category_as_str c) egs"
  shows "map_option profile (user_get (fold (revoke_expired now) egs r) i) = map_option profile (user_get r i)
    \<and> (consents_wf r \<longrightarrow> consents_wf (fold (revoke_expired now) egs r))
    \<and> stored_grant (fold (revoke_expired now) egs r) i c =
       (if user_get r i \<noteq> None \<and> list_ex (\<lambda>eg. eg_user_id eg = i \<and> eg_category eg = category_as_str c) egs
        then Some (grant_perpetual False now) else stored_grant r i c)"
  using assms
proof (induction egs arbitrary: r)
  case (Cons eg egs)
  then obtain d where d: "eg_category eg = category_as_str d" by auto
  let ?r = "user_step r (SetConsent (eg_user_id eg) d False now)"
  have p: "map_option profile (user_get ?r i) = map_option profile (user_get r i)" by (rule user_step_consent_frame)
  then have "user_get ?r i = None \<longleftrightarrow> user_get r i = None" by (metis map_option_is_None)
  moreover have "stored_grant ?r i c = (if eg_user_id eg = i \<and> d = c \<and> user_get r i \<noteq> None then Some (grant_perpetual False now)
      else stored_grant r i c)" by (auto simp add: stored_grant_step simp del: user_step.simps)
  ultimately show ?case using Cons.IH [of ?r] Cons.prems p user_step_consent_frame(2) [of r "eg_user_id eg" d False now]
    by (simp add: revoke_step [OF d] d del: user_step.simps) auto
qed simp

lemma save_users_file:
  assumes "\<And>f raw. to_json f = Some raw \<Longrightarrow> from_json raw = Some f" and "\<And>f. to_json f \<noteq> None" and "users_path r"
  shows "\<exists>r'. users_open from_json (user_file (save_users to_json True r c)) = Inr r' \<and> users r' = users r \<and> users_path r'"
proof -
  obtain raw where "to_json \<lparr>registry_schema_version = 1, registry_users = users r\<rparr> = Some raw" using assms(2) by blast
  with assms(1,3) show ?thesis by (auto simp: save_users_def users_flush_def users_open_def)
qed

lemma same_users:
  assumes "users r = users s"
  shows "user_get r i = user_get s i" "stored_grant r i c = stored_grant s i c" "consents_wf r \<longleftrightarrow> consents_wf s" "retained r i c t \<longleftrightarrow> retained s i c t"
  using assms by (simp_all add: user_get_def stored_grant_def consents_wf_def retained_def)

lemma open_users_Inr: "users_open from_json (user_file c) = Inr r \<Longrightarrow> open_users from_json c = (r, c)"
  by (simp add: open_users_def)

lemma users_open_path: "users_open from_json f = Inr r \<Longrightarrow> users_path r"
  by (auto simp: users_open_def split: option.splits)

lemma revoke_path: "users_path (fold (revoke_expired now) egs r) = users_path r"
proof (induction egs arbitrary: r)
  case (Cons eg egs)
  have "users_path (revoke_expired now eg r) = users_path r"
    by (auto simp: revoke_expired_def user_update_consent_def split: option.split)
  with Cons show ?case by simp
qed simp

lemma clean_iff:
  assumes "consents_wf r"
  shows "report_is_clean (scan_expired_grants (map (\<lambda>(i, rec). (i, consent rec)) (users r)) now)
     \<longleftrightarrow> (\<forall>i c g. stored_grant r i c = Some g \<longrightarrow> \<not> lapsed now g)"
proof -
  let ?rep = "scan_expired_grants (map (\<lambda>(i, rec). (i, consent rec)) (users r)) now"
  have cat: "list_all (\<lambda>eg. \<exists>c. eg_category eg = category_as_str c) (expired_grants ?rep)"
    unfolding scan_expired_grants_def by (rule scan_categories) simp
  have "report_is_clean ?rep \<longleftrightarrow> (\<forall>i c. \<not> reported ?rep i c)"
  proof (cases "expired_grants ?rep")
    case (Cons eg egs)
    with cat obtain c where "eg_category eg = category_as_str c" by auto
    then have "reported ?rep (eg_user_id eg) c" by (simp add: reported_def Cons)
    with Cons show ?thesis by (auto simp: report_is_clean_def)
  qed (simp add: report_is_clean_def reported_def)
  then show ?thesis unfolding reported_lapsed [OF assms] by blast
qed

text \<open>The expiry check changes no answer that still matters. On a readable registry, when the write succeeds and
  the parser reads back what the serialiser wrote: the report names exactly the users and categories whose grant
  has lapsed; afterwards the registry on disk has the same users with the same profiles, and from now on every
  consent question has the answer it had before; and the same check again finds nothing.\<close>

theorem expiry_check_sound:
  assumes codec: "\<And>f raw. to_json f = Some raw \<Longrightarrow> from_json raw = Some f" and total: "\<And>f. to_json f \<noteq> None"
    and reg: "users_open from_json (user_file c) = Inr r" and wf: "consents_wf r"
    and run: "data_expiry_check from_json to_json now True c = (report, c')"
  shows "\<exists>r'. users_open from_json (user_file c') = Inr r'
    \<and> (\<forall>i cat. reported report i cat \<longleftrightarrow> (\<exists>g. stored_grant r i cat = Some g \<and> lapsed now g))
    \<and> (\<forall>i. map_option profile (user_get r' i) = map_option profile (user_get r i))
    \<and> (\<forall>i cat t. now \<le> t \<longrightarrow> retained r' i cat t = retained r i cat t)
    \<and> report_is_clean (fst (data_expiry_check from_json to_json now True c'))"
proof -
  let ?rep = "scan_expired_grants (map (\<lambda>(i, rec). (i, consent rec)) (users r)) now"
  let ?r1 = "fold (revoke_expired now) (expired_grants ?rep) r"
  have rep: "report = ?rep" and c': "user_file c' = user_file (if report_is_clean ?rep then c else save_users to_json True ?r1 c)"
    using run by (auto simp: data_expiry_check_def open_users_Inr [OF reg] Let_def log_push_def)
  have cat: "list_all (\<lambda>eg. \<exists>c. eg_category eg = category_as_str c) (expired_grants ?rep)"
    unfolding scan_expired_grants_def by (rule scan_categories) simp
  note rev = revoke_all [OF cat, of now r]
  have "stored_grant r i k = Some g \<Longrightarrow> user_get r i \<noteq> None" for i k g by (simp add: stored_grant_def split: option.splits)
  note exists = this
  have grants: "stored_grant ?r1 i k = (case stored_grant r i k of
        Some g \<Rightarrow> Some (if lapsed now g then grant_perpetual False now else g) | None \<Rightarrow> None)" for i k
  proof -
    have "stored_grant ?r1 i k = (if user_get r i \<noteq> None \<and> (\<exists>g. stored_grant r i k = Some g \<and> lapsed now g)
        then Some (grant_perpetual False now) else stored_grant r i k)"
      using rev [of i k] reported_lapsed [OF wf, of now i k, unfolded reported_def] by simp
    then show ?thesis using exists [of i k] by (cases "stored_grant r i k") auto
  qed
  obtain r' where r': "users_open from_json (user_file c') = Inr r'" "users r' = users ?r1"
  proof (cases "report_is_clean ?rep")
    case True
    then have "users ?r1 = users r" by (simp add: report_is_clean_def)
    with True c' reg that show ?thesis by simp
  next
    case False
    have "users_path ?r1" using users_open_path [OF reg] by (simp add: revoke_path)
    from save_users_file [where to_json = to_json and from_json = from_json and c = c, OF codec total this] False c' that show ?thesis by auto
  qed
  note same = same_users [OF r'(2)]
  have "retained r' i k t = retained r i k t" if "now \<le> t" for i k t
  proof -
    have "\<not> grant_is_active g t" if "lapsed now g" for g
      using that \<open>now \<le> t\<close> by (auto simp: lapsed_def grant_is_active_def split: option.splits)
    moreover have "\<not> grant_is_active (grant_perpetual False now) t" by (simp add: grant_is_active_def grant_perpetual_def)
    ultimately show ?thesis unfolding same(4) by (auto simp: retained_alt grants split: option.splits if_splits)
  qed
  moreover have "report_is_clean (fst (data_expiry_check from_json to_json now True c'))"
  proof -
    have wf1: "consents_wf ?r1" using rev wf by blast
    have "\<not> lapsed now g" if "stored_grant ?r1 i k = Some g" for i k g
      using that by (auto simp: grants lapsed_def grant_perpetual_def split: option.splits if_splits)
    then show ?thesis using clean_iff [OF wf1, of now] r'(2)
      by (simp add: data_expiry_check_def open_users_Inr [OF r'(1)] Let_def)
  qed
  ultimately show ?thesis using r'(1) rep reported_lapsed [OF wf, of now] rev same(1) by (intro exI [of _ r']) auto
qed

lemma expiry_check_sound_witness:
  "let rec = \<lparr>profile = user_profile_new ''t:1'' ''Ann'' ''t'' 3, consent = consent_set_until consent_new UsageStats True 50 4\<rparr>;
       rf = \<lparr>registry_schema_version = 1, registry_users = [(''t:1'', rec)]\<rparr>;
       c = \<lparr>user_file = Some rf, session_file = (None :: StoreFile option), cli_exit = 0, cli_log = [], export_out = None\<rparr>
   in reported (fst (data_expiry_check Some Some 60 True c)) ''t:1'' UsageStats
      \<and> report_is_clean (fst (data_expiry_check Some Some 60 True (snd (data_expiry_check Some Some 60 True c))))"
proof -
  let ?rec = "\<lparr>profile = user_profile_new ''t:1'' ''Ann'' ''t'' 3, consent = consent_set_until consent_new UsageStats True 50 4\<rparr>"
  let ?rf = "\<lparr>registry_schema_version = 1, registry_users = [(''t:1'', ?rec)]\<rparr>"
  let ?c = "\<lparr>user_file = Some ?rf, session_file = (None :: StoreFile option), cli_exit = 0, cli_log = [], export_out = None\<rparr>"
  let ?r = "\<lparr>users = [(''t:1'', ?rec)], users_path = True, users_file = Some ?rf\<rparr>"
  have r: "users_open Some (user_file ?c) = Inr ?r" by (simp add: users_open_def)
  have wf: "consents_wf ?r" by (simp add: consents_wf_def hm_wf_def consent_set_until_def consent_new_def)
  have lapsed: "\<exists>g. stored_grant ?r ''t:1'' UsageStats = Some g \<and> lapsed 60 g"
    by (simp add: stored_grant_def user_get_def consent_set_until_def consent_new_def grant_until_def lapsed_def)
  from expiry_check_sound [OF _ _ r wf, of Some 60 "fst (data_expiry_check Some Some 60 True ?c)" "snd (data_expiry_check Some Some 60 True ?c)"] lapsed
  show ?thesis unfolding Let_def by auto
qed

section \<open>Times the user commands pass\<close>

text \<open>The listing of a user's consent asks for time zero, so a grant that has expired is still shown.\<close>

lemma show_ignores_expiry:
  assumes "stored_grant r i c = Some g" "granted g" "expires_at_ns g = Some e" "0 < e" "user_get r i = Some rec"
  shows "category_as_str c \<in> set (users_show_consented rec) \<and> \<not> is_consented (consent rec) c e"
  using assms by (auto simp: users_show_consented_def stored_grant_def is_consented_def grant_is_active_def)

text \<open>Changing a user's trust passes time zero as well, which sets back when the user was last seen.\<close>

lemma trust_resets_last_seen:
  assumes "user_get r i = Some rec"
  shows "map_option (\<lambda>x. last_seen_ns (profile x)) (user_get (snd (user_set_trust r i t 0)) i) = Some 0"
  using assms by (simp add: user_set_trust_def user_get_def hm_get_insert profile_touch_def)

end
