(* ===== verification/Motor_Gate.thy ===== *)
theory Motor_Gate
  imports Egress_Guard
begin

unbundle bit_operations_syntax

text \<open>
  The gate in front of motor actions (\<^verbatim>\<open>crates/defence/src/motor_gate.rs\<close>), with the capability tokens of
  \<^verbatim>\<open>crates/self/src/lib.rs\<close> it asks for and the verdicts of \<^verbatim>\<open>crates/defence/src/types.rs\<close>. A write under a
  critical directory needs a capability, a request to a private address or a blocked host is refused, and so is
  self-modification. A path is compared with the directories after resolving its dot segments.
\<close>

section \<open>Capabilities\<close>

record CapabilityFields =
  cap_uid :: u32
  cap_gid :: u32
  cap_name :: string

datatype UnverifiedCapability = Unverified CapabilityFields

datatype VerifiedCapability = Verified CapabilityFields

datatype CapabilityError = CapabilityDenied

definition capability_new :: "u32 \<Rightarrow> u32 \<Rightarrow> string \<Rightarrow> UnverifiedCapability" where
  "capability_new uid gid name = Unverified \<lparr>cap_uid = uid, cap_gid = gid, cap_name = name\<rparr>"

fun capability_verify :: "UnverifiedCapability \<Rightarrow> (UnverifiedCapability \<Rightarrow> bool) \<Rightarrow> CapabilityError + VerifiedCapability" where
  "capability_verify (Unverified f) policy = (if policy (Unverified f) then Inr (Verified f) else Inl CapabilityDenied)"

section \<open>Verdicts\<close>

text \<open>A drift score is kept by its bit pattern.\<close>

datatype VetoReason =
    PromptInjection string string
  | GoalDrift string u32
  | RewardHacking string string
  | UnsafeMotorAction string string
  | CharterViolation string string string

datatype VetoResult = Allowed | Veto VetoReason

definition result_is_allowed :: "VetoResult \<Rightarrow> bool" where
  "result_is_allowed r \<longleftrightarrow> r = Allowed"

definition result_is_vetoed :: "VetoResult \<Rightarrow> bool" where
  "result_is_vetoed r \<longleftrightarrow> (case r of Veto _ \<Rightarrow> True | Allowed \<Rightarrow> False)"

fun detector_name :: "VetoReason \<Rightarrow> string" where
  "detector_name (PromptInjection _ _) = ''PromptInjectionDetector''"
| "detector_name (GoalDrift _ _) = ''GoalDriftMonitor''"
| "detector_name (RewardHacking _ _) = ''RewardHackingDetector''"
| "detector_name (UnsafeMotorAction _ _) = ''UnsafeMotorActionGate''"
| "detector_name (CharterViolation _ _ _) = ''ConstitutionGuard''"

lemma vetoed_iff [simp]: "result_is_vetoed r \<longleftrightarrow> r \<noteq> Allowed" "result_is_allowed r \<longleftrightarrow> r = Allowed"
  by (cases r) (simp_all add: result_is_vetoed_def result_is_allowed_def)

section \<open>Paths\<close>

definition path_step :: "string list \<Rightarrow> string \<Rightarrow> string list" where
  "path_step stack seg =
     (if seg = [] \<or> seg = ''.'' then stack
      else if seg = ''..'' then butlast stack
      else stack @ [seg])"

definition normalize_path :: "string \<Rightarrow> string" where
  "normalize_path path = CHR ''/'' # join_str ''/'' (foldl path_step [] (split_on CHR ''/'' path))"

definition trim_end_slashes :: "string \<Rightarrow> string" where
  "trim_end_slashes s = rev (dropWhile (\<lambda>c. c = CHR ''/'') (rev s))"

definition path_under_prefix :: "string \<Rightarrow> string \<Rightarrow> bool" where
  "path_under_prefix path pre =
     (case strip_prefix (trim_end_slashes pre) path of
        Some rest \<Rightarrow> rest = [] \<or> prefix ''/'' rest
      | None \<Rightarrow> False)"

section \<open>Hosts\<close>

definition extract_host :: "string \<Rightarrow> string" where
  "extract_host url =
     (let after_scheme = (case split_once_str ''://'' url of Some (_, r) \<Rightarrow> r | None \<Rightarrow> url);
          authority = takeWhile (\<lambda>c. c \<noteq> CHR ''/'' \<and> c \<noteq> CHR ''?'' \<and> c \<noteq> CHR ''#'') after_scheme;
          host_port = (case rsplit_once CHR ''@'' authority of Some (_, h) \<Rightarrow> h | None \<Rightarrow> authority);
          host = (case strip_prefix ''['' host_port of
                    Some rest \<Rightarrow> takeWhile (\<lambda>c. c \<noteq> CHR '']'') rest
                  | None \<Rightarrow> takeWhile (\<lambda>c. c \<noteq> CHR '':'') host_port) in
      to_ascii_lowercase (trim_end_dots host))"

definition host_matches_block :: "string \<Rightarrow> string \<Rightarrow> bool" where
  "host_matches_block host entry =
     (let blocked = dropWhile (\<lambda>c. c = CHR ''.'') (extract_host (trim entry)) in
      if blocked = [] then False else host = blocked \<or> suffix (CHR ''.'' # blocked) host)"

definition parse_inet_number :: "string \<Rightarrow> u32 option" where
  "parse_inet_number s =
     (if s = ''0'' then Some 0
      else
        (let (radix, digits) =
           (case strip_prefix ''0x'' s of Some hex \<Rightarrow> (16, hex)
            | None \<Rightarrow> (case strip_prefix ''0X'' s of Some hex \<Rightarrow> (16, hex)
                | None \<Rightarrow> (case strip_prefix ''0'' s of Some oct \<Rightarrow> (8, oct) | None \<Rightarrow> (10, s)))) in
         if digits = [] then None else from_str_radix radix digits))"

definition combine_relaxed :: "u32 list \<Rightarrow> Ipv4Addr option" where
  "combine_relaxed nums =
     (case nums of
        [a] \<Rightarrow> Some a
      | [a, b] \<Rightarrow> if a \<le> 0xff \<and> b \<le> 0x00ffffff then Some (push_bit 24 a OR b) else None
      | [a, b, c] \<Rightarrow> if a \<le> 0xff \<and> b \<le> 0xff \<and> c \<le> 0xffff then Some (push_bit 24 a OR push_bit 16 b OR c) else None
      | [a, b, c, d] \<Rightarrow> if a \<le> 0xff \<and> b \<le> 0xff \<and> c \<le> 0xff \<and> d \<le> 0xff
          then Some (push_bit 24 a OR push_bit 16 b OR push_bit 8 c OR d) else None
      | _ \<Rightarrow> None)"

definition parse_ipv4_relaxed :: "string \<Rightarrow> Ipv4Addr option" where
  "parse_ipv4_relaxed host =
     (if host = [] then None
      else
        (let parts = split_on CHR ''.'' host in
         if 4 < length parts then None
         else case those (map parse_inet_number parts) of
             None \<Rightarrow> None
           | Some nums \<Rightarrow> combine_relaxed nums))"

datatype IpAddr = V4 Ipv4Addr | V6 Ipv6Addr

text \<open>\<^verbatim>\<open>str::parse::<IpAddr>\<close>.\<close>

definition parse_ip :: "string \<Rightarrow> IpAddr option" where
  "parse_ip s =
     (case (case read_ipv4_addr s of Some (v, r) \<Rightarrow> Some (V4 v, r)
            | None \<Rightarrow> map_option (\<lambda>(a, r). (V6 a, r)) (read_ipv6_addr s)) of
        Some (ip, []) \<Rightarrow> Some ip
      | _ \<Rightarrow> None)"

definition to_ipv4_mapped :: "Ipv6Addr \<Rightarrow> Ipv4Addr option" where
  "to_ipv4_mapped s =
     (if take 5 s = [0, 0, 0, 0, 0] \<and> s ! 5 = 0xffff then Some (segments_ipv4 (s ! 6) (s ! 7)) else None)"

definition parse_host_ip :: "string \<Rightarrow> IpAddr option" where
  "parse_host_ip h =
     (let host = takeWhile (\<lambda>c. c \<noteq> CHR ''%'') h in
      case parse_ip host of
        Some (V6 v6) \<Rightarrow> Some (case to_ipv4_mapped v6 of Some v4 \<Rightarrow> V4 v4 | None \<Rightarrow> V6 v6)
      | Some (V4 v4) \<Rightarrow> Some (V4 v4)
      | None \<Rightarrow> map_option V4 (parse_ipv4_relaxed host))"

fun ip_is_private_or_metadata :: "IpAddr \<Rightarrow> bool" where
  "ip_is_private_or_metadata (V4 v) \<longleftrightarrow>
     octet v 0 = 127
     \<or> (octet v 0 = 10 \<or> (octet v 0 = 172 \<and> octet v 1 \<ge> 16 \<and> octet v 1 \<le> 31) \<or> (octet v 0 = 192 \<and> octet v 1 = 168))
     \<or> (octet v 0 = 169 \<and> octet v 1 = 254)
     \<or> v = 0"
| "ip_is_private_or_metadata (V6 s) \<longleftrightarrow>
     s = [0, 0, 0, 0, 0, 0, 0, 1] \<or> s = [0, 0, 0, 0, 0, 0, 0, 0]
     \<or> s ! 0 AND 0xfe00 = 0xfc00
     \<or> s ! 0 AND 0xffc0 = 0xfe80"

definition is_private_or_metadata_host :: "string \<Rightarrow> bool" where
  "is_private_or_metadata_host host \<longleftrightarrow>
     host = ''localhost'' \<or> suffix ''.localhost'' host
     \<or> host = ''metadata.google.internal''
     \<or> (case parse_host_ip host of Some ip \<Rightarrow> ip_is_private_or_metadata ip | None \<Rightarrow> False)"

section \<open>The gate\<close>

definition DEFAULT_CRITICAL_PREFIXES :: "string list" where
  "DEFAULT_CRITICAL_PREFIXES = [''/etc'', ''/boot'', ''/sys'', ''/proc'', ''/dev'', ''/usr/lib'', ''/usr/bin'',
     ''/usr/sbin'', ''/sbin'', ''/bin'', ''/lib'', ''/lib64'']"

definition WRITE_OPS :: "string list" where
  "WRITE_OPS = [''write'', ''delete'', ''remove'', ''move'', ''rename'', ''chmod'', ''chown'', ''truncate'',
     ''overwrite'', ''append'']"

record UnsafeMotorActionGate =
  critical_prefixes :: "string list"
  gate_blocklisted_hosts :: "string list"
  allow_self_modification :: bool

definition gate_new :: UnsafeMotorActionGate where
  "gate_new = \<lparr>critical_prefixes = DEFAULT_CRITICAL_PREFIXES, gate_blocklisted_hosts = [], allow_self_modification = False\<rparr>"

definition with_critical_prefix :: "UnsafeMotorActionGate \<Rightarrow> string \<Rightarrow> UnsafeMotorActionGate" where
  "with_critical_prefix g p = g\<lparr>critical_prefixes := critical_prefixes g @ [p]\<rparr>"

definition gate_with_blocklisted_host :: "UnsafeMotorActionGate \<Rightarrow> string \<Rightarrow> UnsafeMotorActionGate" where
  "gate_with_blocklisted_host g h = g\<lparr>gate_blocklisted_hosts := gate_blocklisted_hosts g @ [h]\<rparr>"

fun holds_capability :: "VerifiedCapability option \<Rightarrow> string list \<Rightarrow> bool" where
  "holds_capability None names = False"
| "holds_capability (Some (Verified f)) names = (cap_name f \<in> set names)"

definition screen_filesystem :: "UnsafeMotorActionGate \<Rightarrow> string \<Rightarrow> string \<Rightarrow> VerifiedCapability option \<Rightarrow> VetoResult" where
  "screen_filesystem g operation path cap =
     (if \<not> list_ex (\<lambda>w. to_ascii_lowercase operation = w) WRITE_OPS then Allowed
      else if \<not> list_ex (path_under_prefix (normalize_path path)) (critical_prefixes g) then Allowed
      else if holds_capability cap [''motor.filesystem.critical'', ''motor.filesystem.*''] then Allowed
      else Veto (UnsafeMotorAction (operation @ '' '' @ path) ''motor.filesystem.critical''))"

definition screen_network :: "UnsafeMotorActionGate \<Rightarrow> string \<Rightarrow> string \<Rightarrow> VetoResult" where
  "screen_network g url http_method =
     (let host = extract_host url in
      if is_private_or_metadata_host host then
        Veto (UnsafeMotorAction (http_method @ '' '' @ url) ''ssrf-private-address'')
      else case find (host_matches_block host) (gate_blocklisted_hosts g) of
          Some blocked \<Rightarrow> Veto (UnsafeMotorAction (http_method @ '' '' @ url) (''blocklisted-host:'' @ blocked))
        | None \<Rightarrow> Allowed)"

definition screen_self_modification :: "UnsafeMotorActionGate \<Rightarrow> string \<Rightarrow> string \<Rightarrow> VerifiedCapability option \<Rightarrow> VetoResult" where
  "screen_self_modification g target change cap =
     (if allow_self_modification g \<and> holds_capability cap [''self.modify'', ''self.*''] then Allowed
      else Veto (UnsafeMotorAction (''self-modification of '' @ target @ '': '' @ change) ''self.modify''))"

section \<open>Where a path leads\<close>

text \<open>Walking a tree of directories segment by segment, from a directory given by the names on the way to it from
  the root; the parent of the root is the root.\<close>

inductive walks :: "string list \<Rightarrow> string list \<Rightarrow> string list \<Rightarrow> bool" where
  arrive: "walks loc [] loc"
| stay: "seg \<in> {[], ''.''} \<Longrightarrow> walks loc segs dest \<Longrightarrow> walks loc (seg # segs) dest"
| up: "walks loc segs dest \<Longrightarrow> walks (loc @ [name]) (''..'' # segs) dest"
| up_root: "walks [] segs dest \<Longrightarrow> walks [] (''..'' # segs) dest"
| down: "seg \<notin> {[], ''.'', ''..''} \<Longrightarrow> walks (loc @ [seg]) segs dest \<Longrightarrow> walks loc (seg # segs) dest"

definition leads_to :: "string \<Rightarrow> string list \<Rightarrow> bool" where
  "leads_to path dest \<longleftrightarrow> walks [] (split_on CHR ''/'' path) dest"

definition dir_name :: "string \<Rightarrow> bool" where
  "dir_name s \<longleftrightarrow> s \<noteq> [] \<and> CHR ''/'' \<notin> set s"

definition dir_text :: "string list \<Rightarrow> string" where
  "dir_text d = concat (map (\<lambda>n. CHR ''/'' # n) d)"

text \<open>The texts that name a directory in the list of the gate: absolute, with any number of slashes at the end.\<close>

definition names_dir :: "string \<Rightarrow> string list \<Rightarrow> bool" where
  "names_dir s d \<longleftrightarrow> list_all dir_name d \<and> (\<exists>n. s = dir_text d @ replicate n CHR ''/'')"

lemma walks_foldl: "walks loc segs dest \<longleftrightarrow> dest = foldl path_step loc segs"
proof
  show "walks loc segs dest \<Longrightarrow> dest = foldl path_step loc segs"
    by (induction rule: walks.induct) (auto simp: path_step_def)
  have "walks loc segs (foldl path_step loc segs)"
  proof (induction segs arbitrary: loc)
    case (Cons seg segs)
    consider "seg \<in> {[], ''.''}" | "seg = ''..''" "loc = []" | n l where "seg = ''..''" "loc = l @ [n]" | "seg \<notin> {[], ''.'', ''..''}"
      by (metis insert_iff rev_exhaust singletonD)
    then show ?case
    proof cases
      case 1
      then show ?thesis using walks.stay [OF 1 Cons] by (auto simp: path_step_def)
    next
      case 2
      then show ?thesis using walks.up_root [OF Cons [of "[]"]] by (simp add: path_step_def)
    next
      case (3 n l)
      then show ?thesis using walks.up [OF Cons [of l]] by (simp add: path_step_def)
    next
      case 4
      then show ?thesis using walks.down [OF 4 Cons] by (simp add: path_step_def)
    qed
  qed (simp add: walks.arrive)
  then show "dest = foldl path_step loc segs \<Longrightarrow> walks loc segs dest" by simp
qed

lemma foldl_path_names:
  "list_all dir_name loc \<Longrightarrow> list_all (\<lambda>s. CHR ''/'' \<notin> set s) segs \<Longrightarrow> list_all dir_name (foldl path_step loc segs)"
proof (induction segs arbitrary: loc)
  case (Cons s segs)
  have "list_all dir_name (path_step loc s)"
    using Cons.prems by (auto simp: path_step_def dir_name_def list_all_iff dest: in_set_butlastD)
  with Cons show ?case by simp
qed simp

lemma join_dir_text: "d \<noteq> [] \<Longrightarrow> CHR ''/'' # join_str ''/'' d = dir_text d"
proof (induction d)
  case (Cons a d)
  then show ?case by (cases d) (simp_all add: dir_text_def)
qed simp

lemma normalize_dir: "normalize_path p = (let d = foldl path_step [] (split_on CHR ''/'' p) in if d = [] then ''/'' else dir_text d)"
  by (simp add: normalize_path_def Let_def join_dir_text)

lemma dir_text_rest_unique:
  assumes "dir_name a" "dir_name b" "a @ s = b @ t" "s = [] \<or> hd s = CHR ''/''" "t = [] \<or> hd t = CHR ''/''"
  shows "a = b \<and> s = t"
proof -
  have "takeWhile (\<lambda>c. c \<noteq> CHR ''/'') (x @ u) = x" if "dir_name x" "u = [] \<or> hd u = CHR ''/''" for x u
    using that by (cases u) (auto simp: dir_name_def takeWhile_append2 takeWhile_eq_all_conv intro!: takeWhile_append2 [THEN trans])
  from this [OF assms(1,4)] this [OF assms(2,5)] assms(3) have "a = b" by simp
  with assms(3) show ?thesis by simp
qed

lemma dir_text_boundary: "dir_text d = [] \<or> hd (dir_text d) = CHR ''/''"
  by (cases d) (simp_all add: dir_text_def)

lemma dir_text_prefix:
  assumes "list_all dir_name d" "list_all dir_name l"
  shows "(\<exists>r. dir_text l = dir_text d @ r \<and> (r = [] \<or> hd r = CHR ''/'')) \<longleftrightarrow> prefix d l"
  using assms
proof (induction d arbitrary: l)
  case Nil
  show ?case using dir_text_boundary [of l] by (auto simp: dir_text_def)
next
  case (Cons a d)
  show ?case
  proof (cases l)
    case (Cons b m)
    have one: "dir_text (x # y) = CHR ''/'' # x @ dir_text y" for x y by (simp add: dir_text_def)
    have "(dir_text l = dir_text (a # d) @ r) \<longleftrightarrow> a = b \<and> dir_text m = dir_text d @ r" if r: "r = [] \<or> hd r = CHR ''/''" for r
    proof
      assume "dir_text l = dir_text (a # d) @ r"
      then have "b @ dir_text m = a @ (dir_text d @ r)" by (simp add: Cons one)
      moreover have "dir_text d @ r = [] \<or> hd (dir_text d @ r) = CHR ''/''" using dir_text_boundary [of d] r by (cases "dir_text d") auto
      ultimately show "a = b \<and> dir_text m = dir_text d @ r"
        using dir_text_rest_unique [of b a "dir_text m" "dir_text d @ r"] Cons.prems Cons dir_text_boundary [of m] by auto
    qed (simp add: Cons one)
    then have "(\<exists>r. dir_text l = dir_text (a # d) @ r \<and> (r = [] \<or> hd r = CHR ''/''))
      \<longleftrightarrow> a = b \<and> (\<exists>r. dir_text m = dir_text d @ r \<and> (r = [] \<or> hd r = CHR ''/''))" by blast
    with Cons.IH [of m] Cons.prems Cons show ?thesis by simp
  qed (simp add: dir_text_def)
qed

lemma trim_names_dir: "names_dir s d \<Longrightarrow> trim_end_slashes s = dir_text d"
proof -
  assume "names_dir s d"
  then obtain n where d: "list_all dir_name d" and s: "s = dir_text d @ replicate n CHR ''/''" by (auto simp: names_dir_def)
  have "dropWhile (\<lambda>c. c = CHR ''/'') (rev (dir_text d)) = rev (dir_text d)"
  proof (cases d rule: rev_cases)
    case (snoc m x)
    with d obtain y c where "x = y @ [c]" "c \<noteq> CHR ''/''" by (cases x rule: rev_cases) (auto simp: dir_name_def)
    with snoc show ?thesis by (simp add: dir_text_def)
  qed (simp add: dir_text_def)
  moreover have "dropWhile (\<lambda>c. c = CHR ''/'') (replicate n CHR ''/'' @ t) = dropWhile (\<lambda>c. c = CHR ''/'') t" for t
    by (induction n) simp_all
  ultimately show ?thesis by (simp add: trim_end_slashes_def s)
qed

lemma append_ex_iff: "(\<exists>r. t = d @ r \<and> Q r) \<longleftrightarrow> prefix d t \<and> Q (drop (length d) t)"
  by (auto simp: prefix_def)

lemma under_prefix_iff:
  assumes "names_dir s d"
  shows "path_under_prefix (normalize_path p) s \<longleftrightarrow> (\<exists>dest. leads_to p dest \<and> prefix d dest)"
proof -
  let ?l = "foldl path_step [] (split_on CHR ''/'' p)"
  have d: "list_all dir_name d" using assms by (simp add: names_dir_def)
  have l: "list_all dir_name ?l" using split_on_parts by (intro foldl_path_names) simp_all
  have under: "path_under_prefix t s \<longleftrightarrow> (\<exists>r. t = dir_text d @ r \<and> (r = [] \<or> hd r = CHR ''/''))" for t
  proof -
    have "prefix ''/'' r \<longleftrightarrow> r \<noteq> [] \<and> hd r = CHR ''/''" for r by (cases r) auto
    then have "path_under_prefix t s \<longleftrightarrow> prefix (dir_text d) t \<and> (drop (length (dir_text d)) t = [] \<or> hd (drop (length (dir_text d)) t) = CHR ''/'')"
      unfolding path_under_prefix_def trim_names_dir [OF assms] strip_prefix_def by (cases "prefix (dir_text d) t") auto
    then show ?thesis by (simp only: append_ex_iff)
  qed
  have "path_under_prefix (normalize_path p) s \<longleftrightarrow> prefix d ?l"
  proof (cases "?l = []")
    case True
    moreover have "(\<exists>r. ''/'' = dir_text d @ r \<and> (r = [] \<or> hd r = CHR ''/'')) \<longleftrightarrow> d = []"
      using d by (cases d) (auto simp: dir_text_def dir_name_def)
    ultimately show ?thesis by (simp add: normalize_dir under Let_def)
  next
    case False
    then show ?thesis by (simp add: normalize_dir under Let_def dir_text_prefix [OF d l])
  qed
  then show ?thesis by (simp add: leads_to_def walks_foldl)
qed

text \<open>The gate lets a file operation through exactly when it is not a write, or the place its path leads to,
  dot segments and repeated slashes resolved from the root, lies in none of the critical directories, or the caller
  holds a verified capability for critical files.\<close>

theorem motor_gate_files_exact:
  assumes "list_all2 names_dir (critical_prefixes g) dirs"
  shows "screen_filesystem g operation path cap = Allowed \<longleftrightarrow>
     to_ascii_lowercase operation \<notin> set WRITE_OPS
     \<or> (\<exists>dest. leads_to path dest \<and> list_all (\<lambda>d. \<not> prefix d dest) dirs)
     \<or> (\<exists>f. cap = Some (Verified f) \<and> cap_name f \<in> {''motor.filesystem.critical'', ''motor.filesystem.*''})"
proof -
  have one: "leads_to path dest \<longleftrightarrow> dest = foldl path_step [] (split_on CHR ''/'' path)" for dest
    by (simp add: leads_to_def walks_foldl)
  have "list_ex (path_under_prefix (normalize_path path)) (critical_prefixes g)
      \<longleftrightarrow> list_ex (\<lambda>d. \<exists>dest. leads_to path dest \<and> prefix d dest) dirs"
    using assms by (induction rule: list_all2_induct) (simp_all add: under_prefix_iff)
  moreover have "holds_capability cap ns \<longleftrightarrow> (\<exists>f. cap = Some (Verified f) \<and> cap_name f \<in> set ns)" for ns
    by (cases "(cap, ns)" rule: holds_capability.cases) auto
  ultimately show ?thesis
    by (auto simp: screen_filesystem_def one list_ex_iff list_all_iff)
qed

lemma dotted_path_vetoed:
  "screen_filesystem gate_new ''Write'' ''/var/.././/etc/passwd'' None \<noteq> Allowed
   \<and> list_all2 names_dir (critical_prefixes gate_new)
       [[''etc''], [''boot''], [''sys''], [''proc''], [''dev''], [''usr'', ''lib''], [''usr'', ''bin''], [''usr'', ''sbin''],
        [''sbin''], [''bin''], [''lib''], [''lib64'']]"
proof -
  have dirs: "list_all2 names_dir (critical_prefixes gate_new)
     [[''etc''], [''boot''], [''sys''], [''proc''], [''dev''], [''usr'', ''lib''], [''usr'', ''bin''], [''usr'', ''sbin''],
        [''sbin''], [''bin''], [''lib''], [''lib64'']]"
    by (simp add: gate_new_def DEFAULT_CRITICAL_PREFIXES_def names_dir_def dir_name_def dir_text_def exI [of _ "0 :: nat"])
  have w: "char_of (119 :: nat) = CHR ''w''" by code_simp
  show ?thesis using dirs motor_gate_files_exact [OF dirs, of "''Write''" "''/var/.././/etc/passwd''" None]
    by (simp add: leads_to_def walks_foldl path_step_def WRITE_OPS_def to_lower_def w)
qed

section \<open>Address literals\<close>

text \<open>The numbers the relaxed parser reads: those of \<open>inet_number\<close>, and the same with a plus sign before the digits.\<close>

inductive lenient_number :: "string \<Rightarrow> nat \<Rightarrow> bool" where
  plain: "inet_number p n \<Longrightarrow> lenient_number p n"
| plus_dec: "digits_of 10 p ds \<Longrightarrow> p \<noteq> [] \<Longrightarrow> lenient_number (CHR ''+'' # p) (base_value 10 ds)"
| plus_oct: "digits_of 8 p ds \<Longrightarrow> p \<noteq> [] \<Longrightarrow> lenient_number (CHR ''0'' # CHR ''+'' # p) (base_value 8 ds)"
| plus_hex: "digits_of 16 p ds \<Longrightarrow> p \<noteq> [] \<Longrightarrow> x = CHR ''x'' \<or> x = CHR ''X'' \<Longrightarrow>
    lenient_number (CHR ''0'' # x # CHR ''+'' # p) (base_value 16 ds)"

definition lenient_address :: "string \<Rightarrow> nat \<Rightarrow> bool" where
  "lenient_address h v \<longleftrightarrow> (\<exists>ns. list_all2 lenient_number (split_on CHR ''.'' h) ns \<and> inet_value ns = Some v)"

text \<open>A part by its radix prefix.\<close>

lemma part_cases:
  obtains (zero) "p = ''0''" "parse_inet_number p = Some 0"
  | (hex) q x where "p = CHR ''0'' # x # q" "x = CHR ''x'' \<or> x = CHR ''X''" "parse_inet_number p = from_str_radix 16 q"
  | (oct) q where "p = CHR ''0'' # q" "q \<noteq> []" "hd q \<noteq> CHR ''x''" "hd q \<noteq> CHR ''X''" "parse_inet_number p = from_str_radix 8 q"
  | (dec) "hd p \<noteq> CHR ''0'' \<or> p = []" "parse_inet_number p = from_str_radix 10 p"
proof -
  have nil: "from_str_radix b [] = None" for b by (simp add: from_str_radix_def)
  show thesis
  proof (cases "p \<noteq> [] \<and> hd p = CHR ''0''")
    case False
    then show thesis
      by (intro dec) (cases p; auto simp: parse_inet_number_def strip_prefix_def nil)+
  next
    case True
    then obtain q where p: "p = CHR ''0'' # q" by (cases p) auto
    show thesis
    proof (cases "q \<noteq> [] \<and> hd q \<in> {CHR ''x'', CHR ''X''}")
      case True
      then obtain x r where "q = x # r" "x = CHR ''x'' \<or> x = CHR ''X''" by (cases q) auto
      then show thesis by (intro hex [of x r]) (auto simp: p parse_inet_number_def strip_prefix_def nil)
    next
      case False
      then show thesis
      proof (cases "q = []")
        case True
        then show thesis by (intro zero) (simp_all add: p parse_inet_number_def)
      qed (intro oct [of q], auto simp: p parse_inet_number_def strip_prefix_def prefix_def split: option.split)
    qed
  qed
qed

lemma sign_no_digit: "to_digit 10 CHR ''+'' = None" "to_digit 8 CHR ''+'' = None" "to_digit 16 CHR ''+'' = None"
  "to_digit 8 CHR ''x'' = None" "to_digit 8 CHR ''X'' = None" "to_digit 10 CHR ''x'' = None" "to_digit 10 CHR ''X'' = None"
  by (simp_all add: to_digit_def to_lower_def)

lemma parse_inet_number_iff: "parse_inet_number p = Some w \<longleftrightarrow> lenient_number p (unat w)"
proof -
  have head: "q \<noteq> [] \<Longrightarrow> digits_of b q ds \<Longrightarrow> to_digit b c = None \<Longrightarrow> hd q \<noteq> c" for b q ds c by (cases q) auto
  show ?thesis
  proof (cases rule: part_cases [of p])
    case zero
    have "lenient_number ''0'' n \<longleftrightarrow> n = 0" for n
      by (auto simp: lenient_number.simps inet_number.simps base_value_def to_digit_def to_lower_def)
    with zero show ?thesis by (auto simp: word_unat_eq_iff)
  next
    case (hex q x)
    have "lenient_number p (unat w) \<longleftrightarrow> (\<exists>r ds. (q = r \<or> q = CHR ''+'' # r) \<and> r \<noteq> [] \<and> digits_of 16 r ds \<and> base_value 16 ds = unat w)"
      using hex(2) unfolding hex(1) lenient_number.simps inet_number.simps
      by (auto simp: sign_no_digit dest: head) blast+
    then show ?thesis unfolding hex(3) from_str_radix_iff [OF _ sign_no_digit(3), simplified] by simp
  next
    case (oct q)
    have "lenient_number p (unat w) \<longleftrightarrow> (\<exists>r ds. (q = r \<or> q = CHR ''+'' # r) \<and> r \<noteq> [] \<and> digits_of 8 r ds \<and> base_value 8 ds = unat w)"
      using oct(2-4) unfolding oct(1) lenient_number.simps inet_number.simps
      by (auto simp: sign_no_digit dest: head) blast+
    then show ?thesis unfolding oct(5) from_str_radix_iff [OF _ sign_no_digit(2), simplified] by simp
  next
    case dec
    have "lenient_number p (unat w) \<longleftrightarrow> (\<exists>r ds. (p = r \<or> p = CHR ''+'' # r) \<and> r \<noteq> [] \<and> digits_of 10 r ds \<and> base_value 10 ds = unat w)"
      using dec(1) unfolding lenient_number.simps inet_number.simps by auto blast+
    then show ?thesis unfolding dec(2) from_str_radix_iff [OF _ sign_no_digit(1), simplified] by simp
  qed
qed

lemma u32_bounds: "(w :: u32) \<le> 0xff \<longleftrightarrow> unat w < 256" "(w :: u32) \<le> 0xffff \<longleftrightarrow> unat w < 2 ^ 16"
  "(w :: u32) \<le> 0xffffff \<longleftrightarrow> unat w < 2 ^ 24"
  by (auto simp: word_le_nat_alt)

lemma combine_relaxed_value: "map_option unat (combine_relaxed ws) = inet_value (map unat ws)"
proof (cases ws rule: u64_list_cases)
  case (2 a)
  then show ?thesis using unat_lt_pow [of a] by (simp add: combine_relaxed_def)
next
  case (3 a b)
  then show ?thesis using or_is_add [of b 24 a] by (auto simp: combine_relaxed_def u32_bounds)
next
  case (4 a b c)
  have "unat (push_bit 16 b OR c) = unat b * 2 ^ 16 + unat c" if "unat b < 256" "unat c < 2 ^ 16"
    using that by (intro or_is_add) simp_all
  then show ?thesis using 4 or_is_add [of "push_bit 16 b OR c" 24 a] by (auto simp: combine_relaxed_def u32_bounds)
next
  case (5 a b c d)
  have cd: "unat (push_bit 8 c OR d) = unat c * 2 ^ 8 + unat d" if "unat c < 256" "unat d < 256"
    using that by (intro or_is_add) simp_all
  have "unat (push_bit 16 b OR push_bit 8 c OR d) = unat b * 2 ^ 16 + (unat c * 2 ^ 8 + unat d)"
    if "unat b < 256" "unat c < 256" "unat d < 256"
    using that cd or_is_add [of "push_bit 8 c OR d" 16 b] by simp
  then show ?thesis using 5 or_is_add [of "push_bit 16 b OR push_bit 8 c OR d" 24 a]
    by (auto simp: combine_relaxed_def u32_bounds)
qed (auto simp: combine_relaxed_def)

lemma parse_ipv4_relaxed_exact: "parse_ipv4_relaxed h = Some v \<longleftrightarrow> lenient_address h (unat v)"
proof -
  let ?ps = "split_on CHR ''.'' h"
  have "list_all2 (\<lambda>x y. x = Some y) (map parse_inet_number ?ps) ws \<longleftrightarrow> list_all2 lenient_number ?ps (map unat ws)" for ws
    unfolding list_all2_map1 list_all2_map2 by (intro list.rel_cong) (simp_all add: parse_inet_number_iff)
  then have ws: "those (map parse_inet_number ?ps) = Some ws \<longleftrightarrow> list_all2 lenient_number ?ps (map unat ws)" for ws
    unfolding those_Some .
  have small: "list_all (\<lambda>n. n < 2 ^ 32) ns" if "inet_value ns = Some m" for ns m
    using that by (induction ns rule: inet_value.induct) (auto split: if_splits)
  show ?thesis
  proof
    assume "parse_ipv4_relaxed h = Some v"
    then obtain us where "those (map parse_inet_number ?ps) = Some us" "combine_relaxed us = Some v"
      by (auto simp: parse_ipv4_relaxed_def Let_def split: if_splits option.splits)
    with ws combine_relaxed_value [of us] show "lenient_address h (unat v)" by (auto simp: lenient_address_def)
  next
    assume "lenient_address h (unat v)"
    then obtain ns where ns: "list_all2 lenient_number ?ps ns" "inet_value ns = Some (unat v)" by (auto simp: lenient_address_def)
    let ?us = "map of_nat ns :: u32 list"
    have us: "map unat ?us = ns"
      using small [OF ns(2)] by (auto simp: list_all_iff unat_of_nat take_bit_nat_eq_self intro!: map_idI)
    have t: "those (map parse_inet_number ?ps) = Some ?us" using ws [of ?us] ns(1) by (simp only: us)
    have c: "map_option unat (combine_relaxed ?us) = Some (unat v)" unfolding combine_relaxed_value us by (rule ns(2))
    have "length ?ps \<le> 4" using inet_value_bound [OF ns(2)] list_all2_lengthD [OF ns(1)] by simp
    moreover have "h \<noteq> []" using ns(1) by (auto simp: list_all2_Cons1 simp: lenient_number.simps inet_number.simps)
    ultimately show "parse_ipv4_relaxed h = Some v" using t c by (auto simp: parse_ipv4_relaxed_def word_unat_eq_iff)
  qed
qed

text \<open>A text that begins with an IPv4 address is no IPv6 address.\<close>

lemma ipv4_no_ipv6:
  assumes "read_ipv4_addr s = Some x"
  shows "read_ipv6_addr s = None"
proof -
  have "read_groups 0 (Suc 7) s = ([ucast (drop_bit 16 (fst x)), ucast (fst x)], True, snd x)"
    unfolding read_groups.simps(2) using assms by (cases x) (simp add: read_separator_def)
  then have "read_groups 0 8 s = ([ucast (drop_bit 16 (fst x)), ucast (fst x)], True, snd x)" by (simp add: eval_nat_numeral)
  then show ?thesis by (simp add: read_ipv6_addr_def)
qed

lemma parse_ip_iff:
  "parse_ip z = (case parse_ipv6 z of Some a \<Rightarrow> Some (V6 a)
     | None \<Rightarrow> (case read_ipv4_addr z of Some (v, []) \<Rightarrow> Some (V4 v) | _ \<Rightarrow> None))"
  using ipv4_no_ipv6 [of z]
  by (cases "read_ipv4_addr z") (auto simp: parse_ip_def parse_ipv6_def split: option.splits list.splits prod.splits)

definition canonical_host :: "string \<Rightarrow> string" where
  "canonical_host h = to_ascii_lowercase (trim_end_dots h)"

lemma to_lower_keeps: "to_lower c = d \<Longrightarrow> (of_char d :: nat) < 97 \<Longrightarrow> c = d"
  using to_lower_cases [of c "of_char d"] by auto

lemma unsigned_lenient: "inet_address z n \<Longrightarrow> lenient_address z n"
  unfolding inet_address_def lenient_address_def by (meson lenient_number.plain list_all2_mono)

lemma parse_host_ip_exact:
  "parse_host_ip h = Some ip \<longleftrightarrow>
     (let z = takeWhile (\<lambda>c. c \<noteq> CHR ''%'') h in
      case parse_ipv6 z of
        Some a \<Rightarrow> ip = (case to_ipv4_mapped a of Some v \<Rightarrow> V4 v | None \<Rightarrow> V6 a)
      | None \<Rightarrow> \<exists>v. ip = V4 v \<and> lenient_address z (unat v))"
proof -
  define z where "z = takeWhile (\<lambda>c. c \<noteq> CHR ''%'') h"
  have unique: "lenient_address z (unat w) \<longleftrightarrow> w = v" if "lenient_address z (unat v)" for v w :: u32
    using that parse_ipv4_relaxed_exact [of z v] parse_ipv4_relaxed_exact [of z w] by auto
  consider a where "parse_ipv6 z = Some a" | v where "parse_ipv6 z = None" "read_ipv4_addr z = Some (v, [])"
    | "parse_ipv6 z = None" "parse_ip z = None"
  proof (cases "parse_ipv6 z")
    case None
    then show thesis
    proof (cases "read_ipv4_addr z")
      case (Some x)
      obtain v r where "x = (v, r)" by (cases x)
      with None Some that show thesis by (cases r) (simp_all add: parse_ip_iff)
    qed (simp add: that parse_ip_iff)
  qed (use that in blast)
  then have "parse_host_ip h = Some ip \<longleftrightarrow> (case parse_ipv6 z of
        Some a \<Rightarrow> ip = (case to_ipv4_mapped a of Some v \<Rightarrow> V4 v | None \<Rightarrow> V6 a)
      | None \<Rightarrow> \<exists>v. ip = V4 v \<and> lenient_address z (unat v))"
  proof cases
    case (1 a)
    then show ?thesis by (auto simp: parse_host_ip_def z_def [symmetric] parse_ip_iff Let_def)
  next
    case (2 v)
    have "lenient_address z (unat v)" using read_ipv4_sound [OF 2(2)] by (rule unsigned_lenient)
    with 2 show ?thesis by (auto simp: parse_host_ip_def z_def [symmetric] parse_ip_iff Let_def unique)
  next
    case 3
    then show ?thesis using parse_ipv4_relaxed_exact [of z] by (auto simp: parse_host_ip_def z_def [symmetric] Let_def)
  qed
  then show ?thesis unfolding Let_def z_def .
qed

text \<open>The blocks the gate refuses: loopback, the private networks of RFC 1918, link-local, and the unspecified
  address.\<close>

definition gate_blocks :: "(u32 \<times> nat) list" where
  "gate_blocks =
     [(ipv4_new 127 0 0 0, 8), (ipv4_new 10 0 0 0, 8), (ipv4_new 172 16 0 0, 12), (ipv4_new 192 168 0 0, 16),
      (ipv4_new 169 254 0 0, 16), (ipv4_new 0 0 0 0, 32)]"

lemma gate_blocks_exact: "ip_is_private_or_metadata (V4 v) \<longleftrightarrow> list_ex (in_block (unat v)) gate_blocks"
proof -
  define m where "m = unat v div 2 ^ 16"
  have o: "unat (octet v 0) = m div 256" "unat (octet v 1) = m mod 256"
    unfolding octet_value m_def by (simp_all add: div_mult2_eq [symmetric])
  have d: "unat v div 2 ^ 24 = m div 256" "unat v div 2 ^ 20 = m div 16" "unat v div 2 ^ 16 = m"
    unfolding m_def by (simp_all add: div_mult2_eq [symmetric])
  have n: "unat (ipv4_new 127 0 0 0) = 127 * 2 ^ 24" "unat (ipv4_new 10 0 0 0) = 10 * 2 ^ 24"
    "unat (ipv4_new 172 16 0 0) = 172 * 2 ^ 24 + 16 * 2 ^ 16" "unat (ipv4_new 192 168 0 0) = 192 * 2 ^ 24 + 168 * 2 ^ 16"
    "unat (ipv4_new 169 254 0 0) = 169 * 2 ^ 24 + 254 * 2 ^ 16" "unat (ipv4_new 0 0 0 0) = 0"
    by (simp_all add: ipv4_new_def)
  have "ip_is_private_or_metadata (V4 v) \<longleftrightarrow> m div 256 = 127 \<or> m div 256 = 10 \<or> (m div 256 = 172 \<and> 16 \<le> m mod 256 \<and> m mod 256 \<le> 31)
     \<or> (m div 256 = 192 \<and> m mod 256 = 168) \<or> (m div 256 = 169 \<and> m mod 256 = 254) \<or> unat v = 0"
  proof -
    have b: "octet v 0 = 127 \<longleftrightarrow> m div 256 = 127" "octet v 0 = 10 \<longleftrightarrow> m div 256 = 10" "octet v 0 = 172 \<longleftrightarrow> m div 256 = 172"
      "octet v 0 = 192 \<longleftrightarrow> m div 256 = 192" "octet v 0 = 169 \<longleftrightarrow> m div 256 = 169" "octet v 1 = 168 \<longleftrightarrow> m mod 256 = 168"
      "octet v 1 = 254 \<longleftrightarrow> m mod 256 = 254" "octet v 1 \<ge> 16 \<longleftrightarrow> 16 \<le> m mod 256" "octet v 1 \<le> 31 \<longleftrightarrow> m mod 256 \<le> 31"
      unfolding word_unat_eq_iff [where 'a = 8] word_le_nat_alt o by simp_all
    have z: "v = 0 \<longleftrightarrow> unat v = 0" by (simp add: word_unat_eq_iff)
    show ?thesis unfolding ip_is_private_or_metadata.simps(1) b z by (simp only: disj_assoc)
  qed
  also have "\<dots> \<longleftrightarrow> m div 256 = 127 \<or> m div 256 = 10 \<or> m div 16 = 2753 \<or> m = 49320 \<or> m = 43518 \<or> unat v = 0"
  proof -
    have "m div 256 = 172 \<and> 16 \<le> m mod 256 \<and> m mod 256 \<le> 31 \<longleftrightarrow> m div 16 = 2753"
      by (subst div_mod_block) (auto simp: div_block)
    moreover have "m div 256 = 192 \<and> m mod 256 = 168 \<longleftrightarrow> m = 49320" using div_mod_block [of 168 168 m 192] by auto
    moreover have "m div 256 = 169 \<and> m mod 256 = 254 \<longleftrightarrow> m = 43518" using div_mod_block [of 254 254 m 169] by auto
    ultimately show ?thesis by (simp only:)
  qed
  also have "\<dots> \<longleftrightarrow> list_ex (in_block (unat v)) gate_blocks"
    unfolding gate_blocks_def in_block_def using d by (simp add: n)
  finally show ?thesis .
qed

text \<open>And of the IPv6 addresses: the unspecified and the loopback address, \<^verbatim>\<open>fc00::/7\<close>, \<^verbatim>\<open>fe80::/10\<close>, and the addresses
  that map an IPv4 address of one of the blocks.\<close>

definition gate_reserved_ipv6 :: "Ipv6Addr \<Rightarrow> bool" where
  "gate_reserved_ipv6 a \<longleftrightarrow> a = [0, 0, 0, 0, 0, 0, 0, 0] \<or> a = [0, 0, 0, 0, 0, 0, 0, 1]
     \<or> unat (a ! 0) div 2 ^ 9 = 0xfc00 div 2 ^ 9 \<or> unat (a ! 0) div 2 ^ 6 = 0xfe80 div 2 ^ 6
     \<or> (take 6 a = [0, 0, 0, 0, 0, 0xffff] \<and> list_ex (in_block (unat (a ! 6) * 2 ^ 16 + unat (a ! 7))) gate_blocks)"

definition private_address :: "string \<Rightarrow> bool" where
  "private_address z \<longleftrightarrow> (case parse_ipv6 z of
     Some a \<Rightarrow> gate_reserved_ipv6 a | None \<Rightarrow> \<exists>n. lenient_address z n \<and> list_ex (in_block n) gate_blocks)"

text \<open>The hosts that are private by their name or their address; a zone identifier is no part of the address.\<close>

definition private_target :: "string \<Rightarrow> bool" where
  "private_target h \<longleftrightarrow> h = ''localhost'' \<or> suffix ''.localhost'' h \<or> h = ''metadata.google.internal''
     \<or> private_address (takeWhile (\<lambda>c. c \<noteq> CHR ''%'') h)"

lemma reserved_ipv6_iff:
  assumes "length a = 8"
  shows "ip_is_private_or_metadata (case to_ipv4_mapped a of Some v \<Rightarrow> V4 v | None \<Rightarrow> V6 a) \<longleftrightarrow> gate_reserved_ipv6 a"
proof -
  from list8 [OF assms] obtain b c d e f g h i where a: "a = [b, c, d, e, f, g, h, i]" by blast
  have six: "take 6 a = [0, 0, 0, 0, 0, 0xffff] \<longleftrightarrow> take 5 a = [0, 0, 0, 0, 0] \<and> a ! 5 = 0xffff" unfolding a by simp
  show ?thesis
  proof (cases "take 6 a = [0, 0, 0, 0, 0, 0xffff]")
    case True
    then have m: "to_ipv4_mapped a = Some (segments_ipv4 (a ! 6) (a ! 7))" by (simp add: to_ipv4_mapped_def six)
    from True have "a ! 0 = 0" "a \<noteq> [0, 0, 0, 0, 0, 0, 0, 0]" "a \<noteq> [0, 0, 0, 0, 0, 0, 0, 1]" unfolding a by simp_all
    then show ?thesis unfolding m option.case gate_blocks_exact segments_value by (simp add: gate_reserved_ipv6_def True)
  next
    case False
    then have m: "to_ipv4_mapped a = None" by (auto simp: to_ipv4_mapped_def six)
    show ?thesis using False unfolding m option.case ip_is_private_or_metadata.simps gate_reserved_ipv6_def high_bits by auto
  qed
qed

lemma private_host_exact: "is_private_or_metadata_host h \<longleftrightarrow> private_target h"
proof -
  define z where "z = takeWhile (\<lambda>c. c \<noteq> CHR ''%'') h"
  have blocks: "(\<exists>n. lenient_address z n \<and> list_ex (in_block n) gate_blocks)
      \<longleftrightarrow> (\<exists>v. lenient_address z (unat v) \<and> ip_is_private_or_metadata (V4 v))"
  proof -
    have "n < 2 ^ 32" if "lenient_address z n" for n using that inet_value_bound by (auto simp: lenient_address_def)
    then have "\<exists>v :: u32. unat v = n" if "lenient_address z n" for n
      using that by (intro exI [of _ "of_nat n"]) (simp add: unat_of_nat take_bit_nat_eq_self)
    then show ?thesis unfolding gate_blocks_exact by metis
  qed
  have "(case parse_host_ip h of Some ip \<Rightarrow> ip_is_private_or_metadata ip | None \<Rightarrow> False)
      \<longleftrightarrow> (\<exists>ip. parse_host_ip h = Some ip \<and> ip_is_private_or_metadata ip)" by (cases "parse_host_ip h") simp_all
  also have "\<dots> \<longleftrightarrow> private_address z"
  proof (cases "parse_ipv6 z")
    case None
    then show ?thesis unfolding parse_host_ip_exact z_def [symmetric] Let_def private_address_def by (auto simp: blocks)
  next
    case (Some a)
    with reserved_ipv6_iff [OF parse_ipv6_length [OF Some]] show ?thesis
      unfolding parse_host_ip_exact z_def [symmetric] Let_def private_address_def by simp
  qed
  finally show ?thesis unfolding is_private_or_metadata_host_def private_target_def z_def by blast
qed

section \<open>Requests\<close>

lemma takeWhile_stop: "list_all P a \<Longrightarrow> b = [] \<or> \<not> P (hd b) \<Longrightarrow> takeWhile P (a @ b) = a"
proof (induction a)
  case Nil
  then show ?case by (cases b) simp_all
qed simp

lemma dropWhile_keeps: "c \<in> set t \<Longrightarrow> \<not> P c \<Longrightarrow> c \<in> set (dropWhile P t)"
  by (induction t) auto

lemma url_frameD:
  assumes "url_frame scheme userinfo port rest"
  shows "userinfo = [] \<or> (last userinfo = CHR ''@'' \<and> list_all (\<lambda>c. c \<notin> {CHR ''/'', CHR ''?'', CHR ''#'', CHR ''@''}) (butlast userinfo))"
    and "port = [] \<or> (hd port = CHR '':'' \<and> list_all is_digit (tl port))"
    and "rest = [] \<or> hd rest \<in> {CHR ''/'', CHR ''?'', CHR ''#''}"
  using assms unfolding url_frame_def by blast+

lemma port_text:
  assumes "url_frame scheme userinfo port rest"
  shows "list_all (\<lambda>c. c \<notin> {CHR ''/'', CHR ''?'', CHR ''#'', CHR ''@''}) port" "port = [] \<or> hd port = CHR '':''"
proof -
  have digit: "c \<notin> {CHR ''/'', CHR ''?'', CHR ''#'', CHR ''@''}" if "is_digit c" for c
    using that by (auto simp: digit_is_to_digit)
  show "list_all (\<lambda>c. c \<notin> {CHR ''/'', CHR ''?'', CHR ''#'', CHR ''@''}) port"
  proof (cases port)
    case (Cons c ds)
    with url_frameD(2) [OF assms] have "c = CHR '':''" "list_all is_digit ds" by simp_all
    moreover have "list_all (\<lambda>c. c \<notin> {CHR ''/'', CHR ''?'', CHR ''#'', CHR ''@''}) ds"
      using \<open>list_all is_digit ds\<close> digit unfolding list_all_iff by blast
    ultimately show ?thesis unfolding Cons list.pred_inject(2) by simp
  qed simp
  show "port = [] \<or> hd port = CHR '':''" using url_frameD(2) [OF assms] by blast
qed

text \<open>The authority of a URL, or of a text without a scheme, and the host in it.\<close>

lemma extract_authority:
  assumes f: "url_frame scheme userinfo port rest"
    and h: "list_all (\<lambda>c. c \<notin> {CHR ''/'', CHR ''?'', CHR ''#'', CHR ''@''}) host"
    and u: "u = url_text scheme userinfo host port rest \<or> (u = userinfo @ host @ port @ rest \<and> split_once_str ''://'' u = None)"
  shows "extract_host u = canonical_host (case strip_prefix ''['' (host @ port) of
      Some r \<Rightarrow> takeWhile (\<lambda>c. c \<noteq> CHR '']'') r | None \<Rightarrow> takeWhile (\<lambda>c. c \<noteq> CHR '':'') (host @ port))"
proof -
  let ?P = "\<lambda>c. c \<noteq> CHR ''/'' \<and> c \<noteq> CHR ''?'' \<and> c \<noteq> CHR ''#''"
  have after: "(case split_once_str ''://'' u of Some (_, r) \<Rightarrow> r | None \<Rightarrow> u) = userinfo @ host @ port @ rest"
  proof -
    have "find_str ''://'' (url_text scheme userinfo host port rest) = Some (length scheme)"
      unfolding url_text_def using f by (intro find_scheme) (simp add: url_frame_def)
    then have "split_once_str ''://'' (url_text scheme userinfo host port rest) = Some (scheme, userinfo @ host @ port @ rest)"
      by (simp add: split_once_str_def url_text_def)
    with u show ?thesis by (elim disjE conjE) simp_all
  qed
  have ui: "list_all ?P userinfo"
  proof (cases userinfo rule: rev_cases)
    case (snoc x c)
    have "c = CHR ''@''" "list_all (\<lambda>c. c \<notin> {CHR ''/'', CHR ''?'', CHR ''#'', CHR ''@''}) x"
      using url_frameD(1) [OF f] unfolding snoc last_snoc butlast_snoc by blast+
    then have "list_all ?P x" unfolding list_all_iff by blast
    with snoc \<open>c = CHR ''@''\<close> show ?thesis by simp
  qed simp
  have at_free: "CHR ''@'' \<notin> set (host @ port)" using h port_text(1) [OF f] unfolding list_all_iff set_append by blast
  have hp: "list_all ?P host" using h unfolding list_all_iff by blast
  have pp: "list_all ?P port" using port_text(1) [OF f] unfolding list_all_iff by blast
  from ui hp pp have "list_all ?P (userinfo @ host @ port)" unfolding list_all_append by blast
  moreover have "rest = [] \<or> \<not> ?P (hd rest)" using url_frameD(3) [OF f] by blast
  ultimately have auth: "takeWhile ?P (userinfo @ host @ port @ rest) = userinfo @ host @ port"
    using takeWhile_stop [of ?P "userinfo @ host @ port" rest] by simp
  have at: "(case rsplit_once CHR ''@'' (userinfo @ host @ port) of Some (_, h) \<Rightarrow> h | None \<Rightarrow> userinfo @ host @ port) = host @ port"
  proof (cases userinfo rule: rev_cases)
    case Nil
    with at_free show ?thesis by (simp add: rsplit_once_def)
  next
    case (snoc x c)
    then have c: "c = CHR ''@''" using url_frameD(1) [OF f] by simp
    from at_free have "split_once CHR ''@'' (rev (host @ port) @ CHR ''@'' # rev x) = Some (rev (host @ port), rev x)"
      by (intro split_once_append) simp
    then show ?thesis by (simp add: rsplit_once_def snoc c)
  qed
  show ?thesis unfolding extract_host_def Let_def after auth at by (simp add: canonical_host_def)
qed

lemma extract_plain:
  assumes f: "url_frame scheme userinfo port rest" and h: "plain_host host"
    and u: "u = url_text scheme userinfo host port rest \<or> (u = userinfo @ host @ port @ rest \<and> split_once_str ''://'' u = None)"
  shows "extract_host u = canonical_host host"
proof -
  have h': "list_all (\<lambda>c. c \<notin> {CHR ''/'', CHR ''?'', CHR ''#'', CHR ''@''}) host"
    "strip_prefix ''['' (host @ port) = None" "list_all (\<lambda>c. c \<noteq> CHR '':'') host"
    using h by (cases host; auto simp: plain_host_def list_all_iff strip_prefix_def)+
  have "takeWhile (\<lambda>c. c \<noteq> CHR '':'') (host @ port) = host"
    using h'(3) port_text(2) [OF f] by (intro takeWhile_stop) auto
  with extract_authority [OF f h'(1) u] h'(2) show ?thesis by simp
qed

text \<open>The way a host is written in an authority: a name or an IPv4 address as it is, an IPv6 address in brackets.\<close>

definition host_text :: "string \<Rightarrow> string \<Rightarrow> bool" where
  "host_text t h \<longleftrightarrow> (t = h \<and> plain_host h) \<or> (t = ''['' @ h @ '']'' \<and> bracket_text h)"

lemma host_text_chars:
  assumes "host_text t h"
  shows "list_all (\<lambda>c. c \<notin> {CHR ''/'', CHR ''?'', CHR ''#'', CHR ''@''}) t"
proof -
  from assms consider "t = h" "plain_host h" | "t = ''['' @ h @ '']''" "bracket_text h" unfolding host_text_def by blast
  then show ?thesis
  proof cases
    case 1
    then show ?thesis unfolding plain_host_def list_all_iff by blast
  next
    case 2
    then show ?thesis unfolding bracket_text_def list_all_append by (simp add: list_all_iff)
  qed
qed

lemma extract_written:
  assumes f: "url_frame scheme userinfo port rest" and h: "host_text t h"
    and u: "u = url_text scheme userinfo t port rest \<or> (u = userinfo @ t @ port @ rest \<and> split_once_str ''://'' u = None)"
  shows "extract_host u = canonical_host h"
proof (cases "plain_host h \<and> t = h")
  case True
  then show ?thesis using extract_plain [OF f _ u] by simp
next
  case False
  with h have t: "t = ''['' @ h @ '']''" and b: "bracket_text h" by (auto simp: host_text_def)
  have "takeWhile (\<lambda>c. c \<noteq> CHR '']'') (h @ '']'' @ port) = h"
    using b by (intro takeWhile_stop) (auto simp: bracket_text_def list_all_iff)
  with extract_authority [OF f host_text_chars [OF h] u] show ?thesis by (simp add: t strip_prefix_def)
qed

text \<open>The entries of the block list that name a host: a URL, or the host itself with or without a port, spaces
  and dots around it left aside.\<close>

definition names_domain :: "string \<Rightarrow> string \<Rightarrow> bool" where
  "names_domain e d \<longleftrightarrow> (\<exists>c\<in>set d. c \<noteq> CHR ''.'')
     \<and> (\<exists>scheme userinfo t port rest. url_frame scheme userinfo port rest \<and> host_text t d
          \<and> (trim e = url_text scheme userinfo t port rest \<or> (trim e = t @ port \<and> userinfo = [] \<and> rest = [])))"

lemma trim_dots_commute:
  "(\<exists>c\<in>set d. c \<noteq> x) \<Longrightarrow>
   dropWhile (\<lambda>c. c = x) (rev (dropWhile (\<lambda>c. c = x) (rev d))) = rev (dropWhile (\<lambda>c. c = x) (rev (dropWhile (\<lambda>c. c = x) d)))"
proof (induction d)
  case (Cons a d)
  show ?case
  proof (cases "\<exists>c\<in>set d. c \<noteq> x")
    case True
    then obtain c where "c \<in> set (rev d)" "c \<noteq> x" by auto
    then have "dropWhile (\<lambda>c. c = x) (rev d @ [a]) = dropWhile (\<lambda>c. c = x) (rev d) @ [a]"
      by (rule dropWhile_append1)
    with True Cons show ?thesis by simp
  next
    case False
    then have "dropWhile (\<lambda>c. c = x) (rev d @ [a]) = dropWhile (\<lambda>c. c = x) [a]"
      by (subst dropWhile_append2) auto
    with False Cons.prems show ?thesis by auto
  qed
qed simp

lemma dropWhile_lower_dots: "dropWhile (\<lambda>c. c = CHR ''.'') (to_ascii_lowercase t) = to_ascii_lowercase (dropWhile (\<lambda>c. c = CHR ''.'') t)"
proof -
  have "to_lower c = CHR ''.'' \<longleftrightarrow> c = CHR ''.''" for c using to_lower_keeps [of c "CHR ''.''"] by auto
  then show ?thesis by (simp add: dropWhile_map comp_def)
qed

lemma matches_block_iff:
  assumes "names_domain e d"
  shows "host_matches_block (canonical_host h) e \<longleftrightarrow> under_domain d h"
proof -
  from assms obtain scheme userinfo t port rest where d: "host_text t d" "\<exists>c\<in>set d. c \<noteq> CHR ''.''"
    and f: "url_frame scheme userinfo port rest"
    and e: "trim e = url_text scheme userinfo t port rest \<or> (trim e = t @ port \<and> userinfo = [] \<and> rest = [])"
    unfolding names_domain_def by blast
  have "split_once_str ''://'' (t @ port) = None"
  proof -
    have n: "CHR ''/'' \<notin> set (t @ port)"
      using host_text_chars [OF d(1)] port_text(1) [OF f] unfolding list_all_iff set_append by blast
    have "t @ port \<noteq> a @ ''://'' @ b" for a b
    proof
      assume e: "t @ port = a @ ''://'' @ b"
      from n show False unfolding e by simp
    qed
    then have "find_str ''://'' (t @ port) = None" using find_str_Some [of "''://''" "t @ port"] by (meson not_Some_eq)
    then show ?thesis by (simp add: split_once_str_def)
  qed
  with e have x: "extract_host (trim e) = canonical_host d" by (intro extract_written [OF f d(1)]) auto
  let ?d = "to_ascii_lowercase (trim_end_dots (dropWhile (\<lambda>c. c = CHR ''.'') d))"
  have b: "dropWhile (\<lambda>c. c = CHR ''.'') (canonical_host d) = ?d"
    unfolding canonical_host_def dropWhile_lower_dots trim_end_dots_def trim_dots_commute [OF d(2)] ..
  have ne: "?d \<noteq> []"
  proof -
    from d(2) obtain c where c: "c \<in> set d" "c \<noteq> CHR ''.''" by blast
    from dropWhile_keeps [OF c(1), of "\<lambda>c. c = CHR ''.''"] c(2)
    have "c \<in> set (rev (dropWhile (\<lambda>c. c = CHR ''.'') d))" by simp
    from dropWhile_keeps [OF this, of "\<lambda>c. c = CHR ''.''"] c(2)
    have "c \<in> set (trim_end_dots (dropWhile (\<lambda>c. c = CHR ''.'') d))" unfolding trim_end_dots_def set_rev by blast
    then show ?thesis unfolding map_is_Nil_conv by (rule list.set_cases) simp_all
  qed
  have "host_matches_block (canonical_host h) e \<longleftrightarrow> canonical_host h = ?d \<or> suffix (CHR ''.'' # ?d) (canonical_host h)"
    unfolding host_matches_block_def x b Let_def if_not_P [OF ne] ..
  also have "\<dots> \<longleftrightarrow> under_domain d h"
    unfolding under_domain_def Let_def canonical_host_def suffix_def append_Cons append_Nil ..
  finally show ?thesis .
qed

text \<open>C27: a request to a URL with a name, an IPv4 or an IPv6 address as its host is refused exactly if the host is a
  localhost name, the metadata host, an address of a loopback, private, link-local, unique local or unspecified block
  (an IPv4 address in any notation a resolver accepts, also with a plus sign or mapped into IPv6, a zone identifier left
  aside), or if it is an entry of the block list or a subdomain of one; letter case, dots at the end, user
  information, a port and what follows the host make no difference. The documentation of the block list and of the
  method speaks of URL substrings instead; \<open>block_list_is_no_substring_match\<close> shows the difference.\<close>

theorem motor_gate_network_exact:
  assumes "url_frame scheme userinfo port rest" and "host_text t host"
    and "list_all2 names_domain (gate_blocklisted_hosts g) domains"
  shows "screen_network g (url_text scheme userinfo t port rest) http_method \<noteq> Allowed \<longleftrightarrow>
     private_target (canonical_host host) \<or> list_ex (\<lambda>d. under_domain d host) domains"
proof -
  have x: "extract_host (url_text scheme userinfo t port rest) = canonical_host host"
    by (intro extract_written [OF assms(1,2)]) simp
  have "list_ex (host_matches_block (canonical_host host)) (gate_blocklisted_hosts g) \<longleftrightarrow> list_ex (\<lambda>d. under_domain d host) domains"
    using assms(3) by (induction rule: list_all2_induct) (simp_all add: matches_block_iff)
  then have "find (host_matches_block (canonical_host host)) (gate_blocklisted_hosts g) \<noteq> None \<longleftrightarrow> list_ex (\<lambda>d. under_domain d host) domains"
    by (auto simp: find_None_iff list_ex_iff)
  then show ?thesis unfolding screen_network_def x Let_def private_host_exact by (auto split: option.split)
qed

lemma motor_gate_network_exact_witness:
  "screen_network (gate_with_blocklisted_host gate_new ''.evil.com:8443'') (url_text ''https'' ''u@'' ''cdn.Evil.com.'' '':80'' ''/x'') ''GET'' \<noteq> Allowed
   \<and> names_domain ''.evil.com:8443'' ''.evil.com'' \<and> under_domain ''.evil.com'' ''cdn.Evil.com.''
   \<and> screen_network gate_new (url_text ''https'' [] ''[FE80::1%25eth0]'' [] ''/'') ''GET'' \<noteq> Allowed"
proof -
  have f: "url_frame ''https'' ''u@'' '':80'' ''/x''" "host_text ''cdn.Evil.com.'' ''cdn.Evil.com.''"
    by (simp_all add: url_frame_def host_text_def plain_host_def is_digit_def digit_of_def)
  have p: "url_frame [] [] '':8443'' []" "host_text ''.evil.com'' ''.evil.com''"
    by (simp_all add: url_frame_def host_text_def plain_host_def is_digit_def digit_of_def)
  have "\<exists>c\<in>set ''.evil.com''. c \<noteq> CHR ''.''" "trim ''.evil.com:8443'' = ''.evil.com'' @ '':8443''"
    by (simp_all add: trim_def is_space_def)
  with p have n: "names_domain ''.evil.com:8443'' ''.evil.com''" unfolding names_domain_def by blast
  have e: "char_of (101 :: nat) = CHR ''e''" by code_simp
  have u: "under_domain ''.evil.com'' ''cdn.Evil.com.''"
    unfolding under_domain_def by (simp add: trim_end_dots_def to_lower_def e)
  have "list_all2 names_domain (gate_blocklisted_hosts (gate_with_blocklisted_host gate_new ''.evil.com:8443'')) [''.evil.com'']"
    using n by (simp add: gate_with_blocklisted_host_def gate_new_def)
  from motor_gate_network_exact [OF f this, of "''GET''"] u
  have one: "screen_network (gate_with_blocklisted_host gate_new ''.evil.com:8443'') (url_text ''https'' ''u@'' ''cdn.Evil.com.'' '':80'' ''/x'') ''GET'' \<noteq> Allowed"
    by simp
  have g: "url_frame ''https'' [] [] ''/''" "host_text ''[FE80::1%25eth0]'' ''FE80::1%25eth0''"
    by (simp_all add: url_frame_def host_text_def bracket_text_def)
  have c: "canonical_host ''FE80::1%25eth0'' = ''fe80::1%25eth0''" unfolding canonical_host_def by code_simp
  have "parse_ipv6 ''fe80::1'' = Some [0xfe80, 0, 0, 0, 0, 0, 0, 1]"
    by (simp add: parse_ipv6_def read_ipv6_addr_def read_separator_def read_ipv4_addr_def read_octet_def read_number_def to_digit_def
      to_lower_def read_groups_numeral) (simp add: numeral_eq_Suc)
  then have "private_target (canonical_host ''FE80::1%25eth0'')"
    unfolding c by (simp add: private_target_def private_address_def gate_reserved_ipv6_def)
  moreover have "list_all2 names_domain (gate_blocklisted_hosts gate_new) []" by (simp add: gate_new_def)
  ultimately have "screen_network gate_new (url_text ''https'' [] ''[FE80::1%25eth0]'' [] ''/'') ''GET'' \<noteq> Allowed"
    using motor_gate_network_exact [OF g, of gate_new "[]" "''GET''"] by simp
  with one n u show ?thesis by blast
qed

text \<open>The block list is no substring match: an entry does not block a host that merely ends in its letters, nor a path that
  contains it.\<close>

lemma block_list_is_no_substring_match:
  "screen_network (gate_with_blocklisted_host gate_new ''evil.com'') ''https://notevil.com/evil.com'' ''GET'' = Allowed"
proof -
  note ev = read_ipv6_addr_def read_separator_def read_ipv4_addr_def read_octet_def read_number_def to_digit_def
    to_lower_def read_groups_numeral
  have host: "extract_host ''https://notevil.com/evil.com'' = ''notevil.com''"
    by (simp add: extract_host_def split_once_str_def rsplit_once_def strip_prefix_def trim_end_dots_def to_lower_def)
  have "parse_ip ''notevil.com'' = None" by (simp add: parse_ip_def ev)
  moreover have "parse_inet_number ''notevil'' = None"
    by (simp add: parse_inet_number_def strip_prefix_def from_str_radix_def to_digit_def to_lower_def)
  then have "parse_ipv4_relaxed ''notevil.com'' = None" by (simp add: parse_ipv4_relaxed_def)
  ultimately have "\<not> is_private_or_metadata_host ''notevil.com''"
    by (simp add: is_private_or_metadata_host_def parse_host_ip_def suffix_def)
  moreover have "\<not> host_matches_block ''notevil.com'' ''evil.com''"
    by (simp add: host_matches_block_def extract_host_def split_once_str_def rsplit_once_def strip_prefix_def trim_end_dots_def
      to_lower_def trim_def is_space_def suffix_def)
  ultimately show ?thesis
    by (simp add: screen_network_def host gate_with_blocklisted_host_def gate_new_def)
qed

text \<open>Self-modification needs both the switch and a verified capability.\<close>

lemma self_modification_exact:
  "screen_self_modification g target change cap = Allowed \<longleftrightarrow>
     allow_self_modification g \<and> (\<exists>f. cap = Some (Verified f) \<and> cap_name f \<in> {''self.modify'', ''self.*''})"
  by (cases "(cap, [''self.modify'', ''self.*''])" rule: holds_capability.cases) (auto simp: screen_self_modification_def)

text \<open>A path is read from the root whatever the working directory of the caller is, so a relative path that reaches a
  critical directory only from there is let through.\<close>

lemma relative_path_passes: "screen_filesystem gate_new ''write'' ''passwd'' None = Allowed"
  by (simp add: screen_filesystem_def gate_new_def DEFAULT_CRITICAL_PREFIXES_def path_under_prefix_def normalize_path_def
      path_step_def trim_end_slashes_def strip_prefix_def)

text \<open>A zone identifier is cut off here; the egress guard takes the address for a host name and allows it.\<close>

lemma zone_identifier_passes_egress:
  "check_url guard_default ''https://[fe80::1%25eth0]/'' = Allow
   \<and> screen_network gate_new ''https://[fe80::1%25eth0]/'' ''GET'' \<noteq> Allowed"
proof -
  note ev = read_ipv6_addr_def read_separator_def read_ipv4_addr_def read_octet_def read_number_def to_digit_def
    to_lower_def read_groups_numeral
  have e: "check_url guard_default ''https://[fe80::1%25eth0]/'' = Allow"
    by (simp add: check_url_def guard_default_def parse_scheme_host_def authority_of_def strip_port_def
        strip_brackets_def suffix_def ssrf_check_def parse_ipv6_def ev)
  have "parse_ip ''fe80::1'' = Some (V6 [0xfe80, 0, 0, 0, 0, 0, 0, 1])"
    by (simp add: parse_ip_def ev) (simp add: numeral_eq_Suc)
  then have "parse_host_ip ''fe80::1%25eth0'' = Some (V6 [0xfe80, 0, 0, 0, 0, 0, 0, 1])"
    by (simp add: parse_host_ip_def to_ipv4_mapped_def)
  moreover have "extract_host ''https://[fe80::1%25eth0]/'' = ''fe80::1%25eth0''"
    by (simp add: extract_host_def split_once_str_def rsplit_once_def strip_prefix_def trim_end_dots_def to_lower_def)
  ultimately have "screen_network gate_new ''https://[fe80::1%25eth0]/'' ''GET'' \<noteq> Allowed"
    by (simp add: screen_network_def is_private_or_metadata_host_def)
  with e show ?thesis by simp
qed

end
