(* ===== verification/Constitution.thy ===== *)
theory Constitution
  imports Ascii_Text
begin

unbundle bit_operations_syntax

text \<open>
  The charter of the agent and its enforcement (\<^verbatim>\<open>crates/constitution/src\<close>: \<^verbatim>\<open>charter.rs\<close>, \<^verbatim>\<open>check.rs\<close>,
  \<^verbatim>\<open>corrigibility.rs\<close>). A charter has a core layer of prohibitions and an operator layer of further bounds; it is
  loaded with a seal, an HMAC over both layers, and every proposal is screened against it by its words. The hash of
  the \<^verbatim>\<open>sha2\<close> crate, the TOML parser and the JSON writer are arguments; a text is its bytes.
\<close>

section \<open>Data\<close>

record Prohibition =
  proh_id :: string
  proh_text :: string
  proh_keywords :: "string list"

text \<open>A drive ceiling is kept by its bit pattern, so infinities and the values that are no number are told apart here;
  nothing computes with it, and what the JSON writer makes of it is the writer's affair.\<close>

record DriveBound =
  drive :: string
  hard_ceiling :: u64
  rationale :: string

record CoreLayer =
  core_version :: u32
  purpose :: string
  corrigibility :: string
  prohibitions :: "Prohibition list"
  drive_bounds :: "DriveBound list"

datatype OperatorPriority = DefaultPriority | Elevated

record OperatorLayer =
  operator_version :: u32
  operator_agent_id :: string
  operator_priority :: OperatorPriority
  additional_bounds :: "string list"

record CharterMeta =
  charter_version :: u32
  hmac_hex :: string

record CharterFile =
  file_core :: CoreLayer
  file_operator :: OperatorLayer
  file_meta :: CharterMeta

record Charter =
  core :: CoreLayer
  operator :: OperatorLayer
  hmac_verified :: bool

datatype CharterError = ParseError string | HmacMismatch | Unsealed | SerialisationError string

section \<open>The seal\<close>

text \<open>RFC 2104 over the given hash, with its blocks of 64 bytes.\<close>

definition block_key :: "(u8 list \<Rightarrow> u8 list) \<Rightarrow> u8 list \<Rightarrow> u8 list" where
  "block_key sha key = (let k = (if 64 < length key then sha key else key) in k @ replicate (64 - length k) 0)"

definition hmac_sha256 :: "(u8 list \<Rightarrow> u8 list) \<Rightarrow> u8 list \<Rightarrow> u8 list list \<Rightarrow> u8 list" where
  "hmac_sha256 sha key parts =
     (let bk = block_key sha key;
          ipad = map (\<lambda>b. 0x36 XOR b) bk;
          opad = map (\<lambda>b. 0x5c XOR b) bk in
      sha (opad @ sha (ipad @ concat parts)))"

definition to_hex :: "u8 list \<Rightarrow> string" where
  "to_hex bytes = concat (map (\<lambda>b. [hex_digit (unat (drop_bit 4 b)), hex_digit (unat (b AND 0x0f))]) bytes)"

definition as_bytes :: "string \<Rightarrow> u8 list" where
  "as_bytes s = map of_char s"

definition ct_str_eq :: "string \<Rightarrow> string \<Rightarrow> bool" where
  "ct_str_eq a b =
     (if length a \<noteq> length b then False
      else fold (\<lambda>(x, y) diff. diff OR (x XOR y)) (zip (as_bytes a) (as_bytes b)) (0 :: u8) = 0)"

definition compute_hmac :: "(u8 list \<Rightarrow> u8 list) \<Rightarrow> (CoreLayer \<times> OperatorLayer \<Rightarrow> string + u8 list) \<Rightarrow> Charter \<Rightarrow> u8 list \<Rightarrow> CharterError + string" where
  "compute_hmac sha to_json c key =
     (case to_json (core c, operator c) of
        Inl e \<Rightarrow> Inl (SerialisationError e)
      | Inr payload \<Rightarrow> Inr (to_hex (hmac_sha256 sha key [payload])))"

definition verify_hmac :: "(u8 list \<Rightarrow> u8 list) \<Rightarrow> (CoreLayer \<times> OperatorLayer \<Rightarrow> string + u8 list) \<Rightarrow> u8 list option \<Rightarrow>
    CharterFile \<Rightarrow> u8 list option \<Rightarrow> CharterError + bool" where
  "verify_hmac sha to_json env_key f explicit_key =
     (let stored = hmac_hex (file_meta f) in
      if stored = [] then Inr False
      else case (case explicit_key of Some k \<Rightarrow> Some k | None \<Rightarrow> env_key) of
          None \<Rightarrow> Inl HmacMismatch
        | Some key \<Rightarrow>
            (case to_json (file_core f, file_operator f) of
               Inl e \<Rightarrow> Inl (SerialisationError e)
             | Inr payload \<Rightarrow>
                 if ct_str_eq (to_hex (hmac_sha256 sha key [payload])) stored then Inr True else Inl HmacMismatch))"

definition from_toml_str :: "(u8 list \<Rightarrow> u8 list) \<Rightarrow> (CoreLayer \<times> OperatorLayer \<Rightarrow> string + u8 list) \<Rightarrow> (string \<Rightarrow> string + CharterFile) \<Rightarrow>
    u8 list option \<Rightarrow> string \<Rightarrow> u8 list option \<Rightarrow> CharterError + Charter" where
  "from_toml_str sha to_json of_toml env_key toml hmac_key =
     (case of_toml toml of
        Inl e \<Rightarrow> Inl (ParseError e)
      | Inr f \<Rightarrow>
          (case verify_hmac sha to_json env_key f hmac_key of
             Inl e \<Rightarrow> Inl e
           | Inr verified \<Rightarrow> Inr \<lparr>core = file_core f, operator = file_operator f, hmac_verified = verified\<rparr>))"

text \<open>Reading the file gives its text or an I/O error.\<close>

definition from_path :: "(u8 list \<Rightarrow> u8 list) \<Rightarrow> (CoreLayer \<times> OperatorLayer \<Rightarrow> string + u8 list) \<Rightarrow> (string \<Rightarrow> string + CharterFile) \<Rightarrow>
    u8 list option \<Rightarrow> string + string \<Rightarrow> CharterError + Charter" where
  "from_path sha to_json of_toml env_key contents =
     (case contents of
        Inl e \<Rightarrow> Inl (ParseError e)
      | Inr toml \<Rightarrow> from_toml_str sha to_json of_toml env_key toml None)"

definition from_path_strict :: "(u8 list \<Rightarrow> u8 list) \<Rightarrow> (CoreLayer \<times> OperatorLayer \<Rightarrow> string + u8 list) \<Rightarrow> (string \<Rightarrow> string + CharterFile) \<Rightarrow>
    u8 list option \<Rightarrow> string + string \<Rightarrow> CharterError + Charter" where
  "from_path_strict sha to_json of_toml env_key contents =
     (case from_path sha to_json of_toml env_key contents of
        Inl e \<Rightarrow> Inl e
      | Inr c \<Rightarrow> if hmac_verified c then Inr c else Inl Unsealed)"

section \<open>Words and phrases\<close>

definition is_alphanumeric :: "char \<Rightarrow> bool" where
  "is_alphanumeric c =
     (let n = of_char c :: nat in (48 \<le> n \<and> n \<le> 57) \<or> (65 \<le> n \<and> n \<le> 90) \<or> (97 \<le> n \<and> n \<le> 122))"

text \<open>\<^verbatim>\<open>str::split\<close> with a predicate.\<close>

fun split_where :: "(char \<Rightarrow> bool) \<Rightarrow> string \<Rightarrow> string list" where
  "split_where sep [] = [[]]"
| "split_where sep (c # cs) =
     (if sep c then [] # split_where sep cs
      else (case split_where sep cs of [] \<Rightarrow> [[c]] | p # ps \<Rightarrow> (c # p) # ps))"

definition word_tokens :: "string \<Rightarrow> string list" where
  "word_tokens s = filter (\<lambda>w. w \<noteq> []) (split_where (\<lambda>c. \<not> is_alphanumeric c) s)"

definition phrase_present :: "string list \<Rightarrow> string \<Rightarrow> bool" where
  "phrase_present text_words keyword =
     (let kw = word_tokens keyword in
      if kw = [] \<or> length text_words < length kw then False
      else list_ex (\<lambda>start. list_all (\<lambda>i.
             let tw = text_words ! (start + i) in
             if i = length kw - 1 then prefix (kw ! i) tw else tw = kw ! i) [0..<length kw])
           [0..<length text_words - length kw + 1])"

definition first_keyword_match :: "string list \<Rightarrow> Prohibition \<Rightarrow> string option" where
  "first_keyword_match text_words p = find (\<lambda>kw. phrase_present text_words (to_ascii_lowercase kw)) (proh_keywords p)"

definition plain_text_match :: "string list \<Rightarrow> string \<Rightarrow> bool" where
  "plain_text_match text_words bound =
     (let meaningful = filter (\<lambda>w. 4 \<le> length w) (word_tokens bound) in
      if meaningful = [] then False else list_all (\<lambda>w. list_ex (\<lambda>tw. tw = w) text_words) meaningful)"

definition extract_first_word :: "string \<Rightarrow> string" where
  "extract_first_word s =
     (let tokens = word_tokens s in
      case find (\<lambda>w. 4 \<le> length w) tokens of
        Some w \<Rightarrow> w
      | None \<Rightarrow> (case tokens of w # _ \<Rightarrow> w | [] \<Rightarrow> []))"

section \<open>Screening\<close>

datatype ProposalType = CortexAction | SelfExtension | DriveGoal | OutboundAction

record ConstitutionProposal =
  proposal_intent :: string
  action_text :: string
  proposal_type :: ProposalType

datatype ClauseLayer = Core | Operator

record ClauseMatch =
  prohibition_id :: string
  clause_text :: string
  matched_keyword :: string
  clause_layer :: ClauseLayer

datatype CheckOutcome = CheckAllow | CheckVeto ClauseMatch

fun screen_core :: "string list \<Rightarrow> Prohibition list \<Rightarrow> ClauseMatch option" where
  "screen_core ws [] = None"
| "screen_core ws (p # ps) =
     (case first_keyword_match ws p of
        Some kw \<Rightarrow> Some \<lparr>prohibition_id = proh_id p, clause_text = proh_text p, matched_keyword = kw, clause_layer = Core\<rparr>
      | None \<Rightarrow> screen_core ws ps)"

fun screen_bounds :: "string list \<Rightarrow> nat \<Rightarrow> string list \<Rightarrow> ClauseMatch option" where
  "screen_bounds ws i [] = None"
| "screen_bounds ws i (b # bs) =
     (let lower = to_ascii_lowercase b in
      if plain_text_match ws lower then
        Some \<lparr>prohibition_id = ''OP'' @ decimal (i + 1), clause_text = b,
              matched_keyword = extract_first_word lower, clause_layer = Operator\<rparr>
      else screen_bounds ws (i + 1) bs)"

definition check_screen :: "Charter \<Rightarrow> ConstitutionProposal \<Rightarrow> CheckOutcome" where
  "check_screen charter p =
     (let combined = to_ascii_lowercase (proposal_intent p @ '' '' @ action_text p);
          ws = word_tokens combined in
      case screen_core ws (prohibitions (core charter)) of
        Some clause \<Rightarrow> CheckVeto clause
      | None \<Rightarrow>
          (case screen_bounds ws 0 (additional_bounds (operator charter)) of
             Some clause \<Rightarrow> CheckVeto clause
           | None \<Rightarrow> CheckAllow))"

definition prohibition_count :: "Charter \<Rightarrow> nat" where
  "prohibition_count c = length (prohibitions (core c)) + length (additional_bounds (operator c))"

section \<open>Corrigibility\<close>

datatype CorrigibilityReason =
    OperatorShutdown | EmergencyStop | PauseForReview | RollbackReason | GoalRedirect | CustomReason string

fun describe_reason :: "CorrigibilityReason \<Rightarrow> string" where
  "describe_reason OperatorShutdown = ''operator-initiated shutdown''"
| "describe_reason EmergencyStop = ''emergency stop''"
| "describe_reason PauseForReview = ''paused for operator review''"
| "describe_reason RollbackReason = ''rollback to prior state''"
| "describe_reason GoalRedirect = ''goal redirect by operator''"
| "describe_reason (CustomReason s) = s"

record CorrigibilityHold =
  hold_reason :: CorrigibilityReason
  created_at_ns :: u64

text \<open>The clock gives nanoseconds since 1970, or an error before it.\<close>

definition hold_new :: "nat option \<Rightarrow> CorrigibilityReason \<Rightarrow> CorrigibilityHold" where
  "hold_new clock r = \<lparr>hold_reason = r, created_at_ns = (case clock of Some d \<Rightarrow> of_nat d | None \<Rightarrow> 0)\<rparr>"

definition assert_holds :: "CorrigibilityHold \<Rightarrow> bool" where
  "assert_holds h = True"

definition describe_hold :: "CorrigibilityHold \<Rightarrow> string" where
  "describe_hold h = ''CorrigibilityHold['' @ describe_reason (hold_reason h) @ ''] created at '' @ decimal (unat (created_at_ns h)) @ ''ns''"

section \<open>The seal protects the charter\<close>

lemma fold_or_zero: "fold (\<lambda>(x, y) diff. diff OR (x XOR y)) ps (d :: u8) = 0 \<longleftrightarrow> d = 0 \<and> list_all (\<lambda>(x, y). x = y) ps"
proof (induction ps arbitrary: d)
  case (Cons p ps)
  have "d OR (x XOR y) = 0 \<longleftrightarrow> d = 0 \<and> x = y" for x y :: u8
  proof -
    have "x XOR y = 0 \<longleftrightarrow> x = y" by (metis bit.xor_left_self bit.xor_self xor.right_neutral)
    then show ?thesis by (simp add: or_eq_0_iff)
  qed
  with Cons show ?case by (cases p) auto
qed simp

lemma of_char_byte_inj: "(of_char a :: u8) = of_char b \<longleftrightarrow> a = b"
proof -
  have "unat (of_char c :: u8) = (of_char c :: nat)" for c :: char
  proof -
    have "(of_char c :: nat) < 2 ^ LENGTH(8)" by simp
    moreover have "(of_char c :: u8) = of_nat (of_char c)" by (simp only: of_nat_of_char)
    ultimately show ?thesis by (simp only: unat_of_nat mod_less)
  qed
  then show ?thesis by (metis of_char_eq_iff)
qed

lemma ct_str_eq_iff: "ct_str_eq a b \<longleftrightarrow> a = b"
proof -
  have "list_all (\<lambda>(x, y). x = y) (zip (as_bytes a) (as_bytes b)) \<longleftrightarrow> a = b" if "length a = length b"
    using that by (induction rule: list_induct2) (simp_all add: as_bytes_def of_char_byte_inj)
  then show ?thesis by (auto simp: ct_str_eq_def fold_or_zero)
qed

lemma byte_nibbles:
  fixes b :: u8
  shows "unat (drop_bit 4 b) = unat b div 16" "unat (b AND 0x0f) = unat b mod 16" "unat b div 16 < 16"
proof -
  have "b AND 0x0f = take_bit 4 b" by (simp add: take_bit_eq_mask mask_eq_exp_minus_1)
  then show "unat (b AND 0x0f) = unat b mod 16" unfolding \<open>b AND 0x0f = take_bit 4 b\<close> unsigned_take_bit_eq by (simp add: take_bit_eq_mod)
  show "unat (drop_bit 4 b) = unat b div 16" using unat_lt_pow [of b] unfolding unsigned_drop_bit_eq
    by (simp add: drop_bit_eq_div take_bit_nat_eq_self)
  show "unat b div 16 < 16" using unat_lt_pow [of b] by simp
qed

lemma to_hex_Cons: "to_hex (b # bs) = hex_digit (unat b div 16) # hex_digit (unat b mod 16) # to_hex bs"
  by (simp add: to_hex_def byte_nibbles)

lemma to_hex_Nil [simp]: "to_hex [] = []" "to_hex bs = [] \<longleftrightarrow> bs = []"
  by (cases bs; simp add: to_hex_def)+

lemma to_hex_inj: "to_hex xs = to_hex ys \<Longrightarrow> xs = ys"
proof (induction xs arbitrary: ys)
  case Nil
  then show ?case by (metis to_hex_Nil)
next
  case (Cons x xs)
  then obtain y zs where ys: "ys = y # zs" by (cases ys) simp_all
  have small: "unat b mod 16 < 16" for b :: u8 by simp
  from Cons.prems ys have "hex_digit (unat x div 16) = hex_digit (unat y div 16)" "hex_digit (unat x mod 16) = hex_digit (unat y mod 16)"
    and rest: "to_hex xs = to_hex zs" by (simp_all add: to_hex_Cons)
  then have "unat x div 16 = unat y div 16" "unat x mod 16 = unat y mod 16"
    using byte_nibbles(3) small by (auto intro: hex_digit_inj)
  then have "unat x = unat y" by (metis div_mult_mod_eq)
  with Cons.IH [OF rest] ys show ?case by (simp add: word_unat_eq_iff)
qed

lemma verify_hmac_true:
  "verify_hmac sha to_json env_key f explicit_key = Inr True \<longleftrightarrow>
     hmac_hex (file_meta f) \<noteq> []
     \<and> (\<exists>key p. (case explicit_key of Some k \<Rightarrow> Some k | None \<Rightarrow> env_key) = Some key
          \<and> to_json (file_core f, file_operator f) = Inr p
          \<and> to_hex (hmac_sha256 sha key [p]) = hmac_hex (file_meta f))"
  by (auto simp: verify_hmac_def ct_str_eq_iff Let_def split: sum.split option.split)

lemma load_strict_iff:
  "from_path_strict sha to_json of_toml env_key (Inr toml) = Inr c \<longleftrightarrow>
     (\<exists>f. of_toml toml = Inr f \<and> verify_hmac sha to_json env_key f None = Inr True
        \<and> c = \<lparr>core = file_core f, operator = file_operator f, hmac_verified = True\<rparr>)"
  by (auto simp: from_path_strict_def from_path_def from_toml_str_def split: sum.splits if_splits)

text \<open>The two texts that are hashed for a MAC. Two messages with the same MAC are equal, or two of the four texts hashed
  for them collide.\<close>

definition hmac_inputs :: "(u8 list \<Rightarrow> u8 list) \<Rightarrow> u8 list \<Rightarrow> u8 list \<Rightarrow> u8 list set" where
  "hmac_inputs sha key m =
     (let inner = map (\<lambda>b. 0x36 XOR b) (block_key sha key) @ m in
      {inner, map (\<lambda>b. 0x5c XOR b) (block_key sha key) @ sha inner})"

lemma hmac_inj_on:
  assumes inj: "inj_on sha (hmac_inputs sha key p \<union> hmac_inputs sha key q)"
    and e: "hmac_sha256 sha key [p] = hmac_sha256 sha key [q]"
  shows "p = q"
proof -
  let ?i = "map (\<lambda>b. 0x36 XOR b) (block_key sha key)" and ?o = "map (\<lambda>b. 0x5c XOR b) (block_key sha key)"
  have m: "?i @ p \<in> hmac_inputs sha key p \<union> hmac_inputs sha key q" "?i @ q \<in> hmac_inputs sha key p \<union> hmac_inputs sha key q"
    "?o @ sha (?i @ p) \<in> hmac_inputs sha key p \<union> hmac_inputs sha key q" "?o @ sha (?i @ q) \<in> hmac_inputs sha key p \<union> hmac_inputs sha key q"
    by (simp_all add: hmac_inputs_def Let_def)
  from e have "sha (?o @ sha (?i @ p)) = sha (?o @ sha (?i @ q))" by (simp add: hmac_sha256_def Let_def)
  from inj_onD [OF inj this m(3,4)] have "sha (?i @ p) = sha (?i @ q)" by simp
  from inj_onD [OF inj this m(1,2)] show ?thesis by simp
qed

definition collision_in :: "(u8 list \<Rightarrow> u8 list) \<Rightarrow> u8 list set \<Rightarrow> bool" where
  "collision_in sha A \<longleftrightarrow> (\<exists>x\<in>A. \<exists>y\<in>A. x \<noteq> y \<and> sha x = sha y)"

lemma no_collision: "\<not> collision_in sha A \<longleftrightarrow> inj_on sha A"
  unfolding collision_in_def inj_on_def by blast

text \<open>C36: a strict load accepts a file only with the seal of its own two layers: the environment has a key, both layers
  have a JSON text, and the stored seal, which is not empty, is the hex MAC of that text under the key. So when a layer
  is changed and the seal kept, and the changed file still loads, then the JSON text is the old one, or two of the four
  texts hashed for the two MACs are different and have the same hash. What is protected is the text: the writer spells
  infinite and undefined floats alike, so a drive ceiling changed from one to another keeps the seal
  (\<open>same_text_keeps_seal\<close>).\<close>

theorem sealed_charter_tamper_evident:
  assumes "from_path_strict sha to_json of_toml env_key (Inr original) = Inr c"
    and "from_path_strict sha to_json of_toml env_key (Inr altered) = Inr c'"
    and "of_toml original = Inr f" and "of_toml altered = Inr f'"
    and "hmac_hex (file_meta f') = hmac_hex (file_meta f)"
  shows "\<exists>key p q. env_key = Some key \<and> to_json (core c, operator c) = Inr p \<and> to_json (core c', operator c') = Inr q
    \<and> hmac_hex (file_meta f) \<noteq> [] \<and> hmac_hex (file_meta f) = to_hex (hmac_sha256 sha key [p])
    \<and> (q = p \<or> collision_in sha (hmac_inputs sha key p \<union> hmac_inputs sha key q))"
proof -
  from assms(1,3) have c: "c = \<lparr>core = file_core f, operator = file_operator f, hmac_verified = True\<rparr>"
    "verify_hmac sha to_json env_key f None = Inr True" unfolding load_strict_iff by auto
  from assms(2,4) have c': "c' = \<lparr>core = file_core f', operator = file_operator f', hmac_verified = True\<rparr>"
    "verify_hmac sha to_json env_key f' None = Inr True" unfolding load_strict_iff by auto
  from c(2) obtain key p where key: "env_key = Some key" "hmac_hex (file_meta f) \<noteq> []"
    and p: "to_json (file_core f, file_operator f) = Inr p" "to_hex (hmac_sha256 sha key [p]) = hmac_hex (file_meta f)"
    unfolding verify_hmac_true by auto
  from c'(2) key(1) obtain q where q: "to_json (file_core f', file_operator f') = Inr q"
    "to_hex (hmac_sha256 sha key [q]) = hmac_hex (file_meta f')" unfolding verify_hmac_true by auto
  from p(2) q(2) assms(5) have "hmac_sha256 sha key [p] = hmac_sha256 sha key [q]" by (intro to_hex_inj) simp
  with hmac_inj_on [of sha key p q] have "q = p \<or> collision_in sha (hmac_inputs sha key p \<union> hmac_inputs sha key q)"
    unfolding no_collision [symmetric] by blast
  with key p q c(1) c'(1) show ?thesis by auto
qed

text \<open>The other side: a change that leaves the JSON text as it is loads strictly under the old seal, changed layers and
  all.\<close>

lemma same_text_keeps_seal:
  assumes "from_path_strict sha to_json of_toml env_key (Inr original) = Inr c"
    and "of_toml original = Inr f" and "of_toml altered = Inr f'" and "hmac_hex (file_meta f') = hmac_hex (file_meta f)"
    and "to_json (file_core f', file_operator f') = to_json (file_core f, file_operator f)"
  shows "from_path_strict sha to_json of_toml env_key (Inr altered)
    = Inr \<lparr>core = file_core f', operator = file_operator f', hmac_verified = True\<rparr>"
  using assms unfolding load_strict_iff verify_hmac_true by auto

text \<open>Sealing works: a charter whose file stores the seal computed for it under the key loads strictly.\<close>

lemma sealed_charter_loads:
  assumes "compute_hmac sha to_json \<lparr>core = file_core f, operator = file_operator f, hmac_verified = v\<rparr> key = Inr (hmac_hex (file_meta f))"
    and "hmac_hex (file_meta f) \<noteq> []" and "of_toml toml = Inr f"
  shows "from_path_strict sha to_json of_toml (Some key) (Inr toml)
       = Inr \<lparr>core = file_core f, operator = file_operator f, hmac_verified = True\<rparr>"
  using assms unfolding load_strict_iff verify_hmac_true by (auto simp: compute_hmac_def split: sum.splits)

section \<open>What is vetoed\<close>

text \<open>A text says a phrase if the words of the phrase stand in it one after another, the last one perhaps with an
  ending; it covers a bound if every word of the bound of four letters or more, and there is one, is a word of it.\<close>

definition says :: "string list \<Rightarrow> string list \<Rightarrow> bool" where
  "says ws kw \<longleftrightarrow> kw \<noteq> [] \<and> (\<exists>before w after. ws = before @ butlast kw @ w # after \<and> prefix (last kw) w)"

definition covers :: "string list \<Rightarrow> string list \<Rightarrow> bool" where
  "covers ws bs \<longleftrightarrow> (\<exists>w\<in>set bs. 4 \<le> length w) \<and> (\<forall>w\<in>set bs. length w < 4 \<or> w \<in> set ws)"

definition proposal_words :: "ConstitutionProposal \<Rightarrow> string list" where
  "proposal_words p = word_tokens (to_ascii_lowercase (proposal_intent p @ '' '' @ action_text p))"

definition forbids :: "ConstitutionProposal \<Rightarrow> Prohibition \<Rightarrow> bool" where
  "forbids p pr \<longleftrightarrow> (\<exists>kw\<in>set (proh_keywords pr). says (proposal_words p) (word_tokens (to_ascii_lowercase kw)))"

lemma phrase_present_says: "phrase_present ws keyword \<longleftrightarrow> says ws (word_tokens keyword)"
proof -
  define kw where "kw = word_tokens keyword"
  let ?n = "length kw"
  show ?thesis
  proof (cases "kw = [] \<or> length ws < ?n")
    case True
    then show ?thesis by (auto simp: phrase_present_def says_def kw_def [symmetric] Let_def)
  next
    case False
    then have ne: "kw \<noteq> []" and len: "?n \<le> length ws" by auto
    then obtain ks k where kw: "kw = ks @ [k]" by (cases kw rule: rev_cases) auto
    have at: "list_all (\<lambda>i. let tw = ws ! (s + i) in if i = ?n - 1 then prefix (kw ! i) tw else tw = kw ! i) [0..<?n]
      \<longleftrightarrow> (\<exists>w after. drop s ws = ks @ w # after \<and> prefix k w)" if s: "s + ?n \<le> length ws" for s
    proof -
      have "(\<exists>w after. drop s ws = ks @ w # after \<and> prefix k w)
          \<longleftrightarrow> take (length ks) (drop s ws) = ks \<and> prefix k (ws ! (s + length ks))"
      proof
        assume "\<exists>w after. drop s ws = ks @ w # after \<and> prefix k w"
        then obtain w after where d: "drop s ws = ks @ w # after" "prefix k w" by blast
        have "ws ! (s + length ks) = drop s ws ! length ks" using s kw by simp
        with d show "take (length ks) (drop s ws) = ks \<and> prefix k (ws ! (s + length ks))" by simp
      next
        assume a: "take (length ks) (drop s ws) = ks \<and> prefix k (ws ! (s + length ks))"
        have "drop (length ks) (drop s ws) = ws ! (s + length ks) # drop (Suc (length ks)) (drop s ws)"
          using s kw by (simp add: Cons_nth_drop_Suc add.commute)
        with a have "drop s ws = ks @ ws ! (s + length ks) # drop (Suc (length ks)) (drop s ws)"
          by (metis append_take_drop_id)
        with a show "\<exists>w after. drop s ws = ks @ w # after \<and> prefix k w" by blast
      qed
      also have "take (length ks) (drop s ws) = ks \<longleftrightarrow> (\<forall>i<length ks. ws ! (s + i) = ks ! i)"
        using s kw by (auto simp: list_eq_iff_nth_eq)
      also have "(\<forall>i<length ks. ws ! (s + i) = ks ! i) \<and> prefix k (ws ! (s + length ks))
          \<longleftrightarrow> list_all (\<lambda>i. let tw = ws ! (s + i) in if i = ?n - 1 then prefix (kw ! i) tw else tw = kw ! i) [0..<?n]"
        by (auto simp: list_all_iff Let_def kw nth_append less_Suc_eq)
      finally show ?thesis by simp
    qed
    have "(\<exists>s. s + ?n \<le> length ws \<and> (\<exists>w after. drop s ws = ks @ w # after \<and> prefix k w))
      \<longleftrightarrow> (\<exists>before w after. ws = before @ ks @ w # after \<and> prefix k w)"
    proof
      assume "\<exists>s. s + ?n \<le> length ws \<and> (\<exists>w after. drop s ws = ks @ w # after \<and> prefix k w)"
      then show "\<exists>before w after. ws = before @ ks @ w # after \<and> prefix k w" by (metis append_take_drop_id)
    next
      assume "\<exists>before w after. ws = before @ ks @ w # after \<and> prefix k w"
      then obtain before w after where "ws = before @ ks @ w # after" "prefix k w" by blast
      then show "\<exists>s. s + ?n \<le> length ws \<and> (\<exists>w after. drop s ws = ks @ w # after \<and> prefix k w)"
        by (intro exI [of _ "length before"]) (auto simp: kw)
    qed
    moreover have lx: "list_ex P [0..<length ws - ?n + 1] \<longleftrightarrow> (\<exists>s. s + ?n \<le> length ws \<and> P s)" for P
    proof -
      have "s \<in> set [0..<length ws - ?n + 1] \<longleftrightarrow> s + ?n \<le> length ws" for s using len by (simp only: set_upt atLeastLessThan_iff) arith
      then show ?thesis unfolding list_ex_iff by blast
    qed
    moreover have "phrase_present ws keyword \<longleftrightarrow> (\<exists>s. s + ?n \<le> length ws \<and> (\<exists>w after. drop s ws = ks @ w # after \<and> prefix k w))"
      unfolding phrase_present_def kw_def [symmetric] Let_def if_not_P [OF False] lx
      using at [unfolded Let_def] by blast
    moreover have "says ws kw \<longleftrightarrow> (\<exists>before w after. ws = before @ ks @ w # after \<and> prefix k w)"
      by (simp add: says_def kw)
    ultimately show ?thesis unfolding kw_def by blast
  qed
qed

lemma plain_text_covers: "plain_text_match ws bound \<longleftrightarrow> covers ws (word_tokens bound)"
  by (auto simp: plain_text_match_def covers_def Let_def list_all_iff list_ex_iff filter_empty_conv)

lemma first_keyword_None: "first_keyword_match (proposal_words p) pr = None \<longleftrightarrow> \<not> forbids p pr"
  by (auto simp: first_keyword_match_def find_None_iff forbids_def phrase_present_says)

lemma first_keyword_Some:
  "first_keyword_match (proposal_words p) pr = Some kw \<Longrightarrow> kw \<in> set (proh_keywords pr) \<and> says (proposal_words p) (word_tokens (to_ascii_lowercase kw))"
  by (auto simp: first_keyword_match_def find_Some_iff phrase_present_says)

lemma screen_core_None: "screen_core (proposal_words p) ps = None \<longleftrightarrow> list_all (\<lambda>pr. \<not> forbids p pr) ps"
  by (induction ps) (auto simp: first_keyword_None [symmetric] split: option.splits)

lemma screen_bounds_None: "screen_bounds ws i bs = None \<longleftrightarrow> list_all (\<lambda>b. \<not> covers ws (word_tokens (to_ascii_lowercase b))) bs"
  by (induction bs arbitrary: i) (auto simp: plain_text_covers Let_def)

lemma screen_core_Some:
  assumes "screen_core (proposal_words p) ps = Some m"
  shows "\<exists>before pr after. ps = before @ pr # after \<and> list_all (\<lambda>q. \<not> forbids p q) before \<and> forbids p pr
     \<and> m = \<lparr>prohibition_id = proh_id pr, clause_text = proh_text pr, matched_keyword = matched_keyword m, clause_layer = Core\<rparr>
     \<and> matched_keyword m \<in> set (proh_keywords pr) \<and> says (proposal_words p) (word_tokens (to_ascii_lowercase (matched_keyword m)))"
  using assms
proof (induction ps)
  case (Cons pr ps)
  show ?case
  proof (cases "first_keyword_match (proposal_words p) pr")
    case None
    with Cons obtain before q after where "ps = before @ q # after" "list_all (\<lambda>q. \<not> forbids p q) before" "forbids p q"
      "m = \<lparr>prohibition_id = proh_id q, clause_text = proh_text q, matched_keyword = matched_keyword m, clause_layer = Core\<rparr>"
      "matched_keyword m \<in> set (proh_keywords q)" "says (proposal_words p) (word_tokens (to_ascii_lowercase (matched_keyword m)))"
      by auto
    moreover have "\<not> forbids p pr" using None first_keyword_None by blast
    ultimately show ?thesis by (intro exI [of _ "pr # before"] exI [of _ q] exI [of _ after]) simp
  next
    case (Some kw)
    then have "forbids p pr" using first_keyword_None [of p pr] by auto
    with Some Cons.prems first_keyword_Some [OF Some] show ?thesis
      by (intro exI [of _ "[]"] exI [of _ pr] exI [of _ ps]) auto
  qed
qed simp

text \<open>C35: screening allows a proposal exactly when its intent and action say no keyword phrase of a core prohibition
  and cover no bound of the operator; a veto of the core layer names the first prohibition that is violated and one of
  its keywords the text says, and no operator layer can lift it.\<close>

theorem constitution_screen_exact:
  "(check_screen c p = CheckAllow \<longleftrightarrow>
      list_all (\<lambda>pr. \<not> forbids p pr) (prohibitions (core c))
      \<and> list_all (\<lambda>b. \<not> covers (proposal_words p) (word_tokens (to_ascii_lowercase b))) (additional_bounds (operator c)))
   \<and> (list_ex (forbids p) (prohibitions (core c)) \<longleftrightarrow>
      (\<exists>before pr after kw. prohibitions (core c) = before @ pr # after \<and> list_all (\<lambda>q. \<not> forbids p q) before
         \<and> kw \<in> set (proh_keywords pr) \<and> says (proposal_words p) (word_tokens (to_ascii_lowercase kw))
         \<and> (\<forall>op. check_screen (c\<lparr>operator := op\<rparr>) p
             = CheckVeto \<lparr>prohibition_id = proh_id pr, clause_text = proh_text pr, matched_keyword = kw, clause_layer = Core\<rparr>)))"
proof (rule conjI)
  have ws: "word_tokens (to_ascii_lowercase (proposal_intent p @ '' '' @ action_text p)) = proposal_words p"
    by (simp add: proposal_words_def)
  note scr = check_screen_def [of _ p, unfolded Let_def ws]
  show "check_screen c p = CheckAllow \<longleftrightarrow>
      list_all (\<lambda>pr. \<not> forbids p pr) (prohibitions (core c))
      \<and> list_all (\<lambda>b. \<not> covers (proposal_words p) (word_tokens (to_ascii_lowercase b))) (additional_bounds (operator c))"
    unfolding screen_core_None [symmetric] screen_bounds_None [where i = 0, symmetric] by (auto simp: scr split: option.split)
  show "list_ex (forbids p) (prohibitions (core c)) \<longleftrightarrow>
      (\<exists>before pr after kw. prohibitions (core c) = before @ pr # after \<and> list_all (\<lambda>q. \<not> forbids p q) before
         \<and> kw \<in> set (proh_keywords pr) \<and> says (proposal_words p) (word_tokens (to_ascii_lowercase kw))
         \<and> (\<forall>op. check_screen (c\<lparr>operator := op\<rparr>) p
             = CheckVeto \<lparr>prohibition_id = proh_id pr, clause_text = proh_text pr, matched_keyword = kw, clause_layer = Core\<rparr>))"
    (is "_ \<longleftrightarrow> ?R")
  proof
    assume "list_ex (forbids p) (prohibitions (core c))"
    then obtain m where m: "screen_core (proposal_words p) (prohibitions (core c)) = Some m"
      using screen_core_None [of p "prohibitions (core c)"]
      by (cases "screen_core (proposal_words p) (prohibitions (core c))") (auto simp: list_ex_iff list_all_iff)
    from screen_core_Some [OF m] obtain before pr after where r: "prohibitions (core c) = before @ pr # after"
      "list_all (\<lambda>q. \<not> forbids p q) before"
      "m = \<lparr>prohibition_id = proh_id pr, clause_text = proh_text pr, matched_keyword = matched_keyword m, clause_layer = Core\<rparr>"
      "matched_keyword m \<in> set (proh_keywords pr)" "says (proposal_words p) (word_tokens (to_ascii_lowercase (matched_keyword m)))" by blast
    have "check_screen (c\<lparr>operator := op\<rparr>) p = CheckVeto m" for op by (simp add: scr m)
    with r show ?R
      by (intro exI [of _ before] exI [of _ pr] exI [of _ after] exI [of _ "matched_keyword m"]) auto
  next
    assume ?R
    then obtain before pr after kw where r: "prohibitions (core c) = before @ pr # after" "kw \<in> set (proh_keywords pr)"
      "says (proposal_words p) (word_tokens (to_ascii_lowercase kw))" by blast
    then have "forbids p pr" by (auto simp: forbids_def)
    with r(1) show "list_ex (forbids p) (prohibitions (core c))" by simp
  qed
qed

definition sample_core :: CoreLayer where
  "sample_core = \<lparr>core_version = 1, purpose = ''help'', corrigibility = ''always'', prohibitions = [], drive_bounds = []\<rparr>"

definition sample_operator :: OperatorLayer where
  "sample_operator = \<lparr>operator_version = 1, operator_agent_id = ''anima'', operator_priority = DefaultPriority, additional_bounds = []\<rparr>"

lemma sealed_charter_tamper_evident_witness:
  "\<exists>sha to_json of_toml key c c' f f' p.
     from_path_strict sha to_json of_toml (Some key) (Inr ''a'') = Inr c
     \<and> from_path_strict sha to_json of_toml (Some key) (Inr ''b'') = Inr c'
     \<and> of_toml ''a'' = Inr f \<and> of_toml ''b'' = Inr f' \<and> f \<noteq> f' \<and> hmac_hex (file_meta f') = hmac_hex (file_meta f)
     \<and> to_json (core c, operator c) = Inr p \<and> to_json (core c', operator c') = Inr p \<and> inj sha"
proof -
  let ?sha = "\<lambda>x. x" and ?j = "\<lambda>x. if x = (sample_core, sample_operator) then Inr [1] else Inl ''unsupported''"
  let ?seal = "to_hex (hmac_sha256 ?sha [7] [[1]])"
  let ?f = "\<lambda>v. \<lparr>file_core = sample_core, file_operator = sample_operator, file_meta = \<lparr>charter_version = v, hmac_hex = ?seal\<rparr>\<rparr>"
  let ?t = "\<lambda>s. if s = ''a'' then Inr (?f 1) else Inr (?f 2)"
  let ?c = "\<lparr>core = sample_core, operator = sample_operator, hmac_verified = True\<rparr>"
  have ne: "?seal \<noteq> []" by (simp add: hmac_sha256_def Let_def)
  have a: "from_path_strict ?sha ?j ?t (Some [7]) (Inr ''a'') = Inr ?c"
    and b: "from_path_strict ?sha ?j ?t (Some [7]) (Inr ''b'') = Inr ?c"
    unfolding load_strict_iff verify_hmac_true using ne by simp_all
  have "\<exists>key p q. Some [7] = Some key \<and> ?j (core ?c, operator ?c) = Inr p \<and> ?j (core ?c, operator ?c) = Inr q
      \<and> hmac_hex (file_meta (?f 1)) \<noteq> [] \<and> hmac_hex (file_meta (?f 1)) = to_hex (hmac_sha256 ?sha key [p])
      \<and> (q = p \<or> collision_in ?sha (hmac_inputs ?sha key p \<union> hmac_inputs ?sha key q))"
    by (rule sealed_charter_tamper_evident [where sha = ?sha, OF a b, where f = "?f 1" and f' = "?f 2"]) simp_all
  then have "hmac_hex (file_meta (?f 1)) = to_hex (hmac_sha256 ?sha [7] [[1]])" by auto
  with a b show ?thesis
    by (intro exI [of _ ?sha] exI [of _ ?j] exI [of _ ?t] exI [of _ "[7]"] exI [of _ ?c] exI [of _ "?f 1"] exI [of _ "?f 2"] exI [of _ "[1]"])
      simp
qed

text \<open>Words, not letters, trigger a clause: ``skill'' does not say ``kill'', ``harm humans'' says ``harm human''.\<close>

lemma word_boundaries:
  "\<not> phrase_present (word_tokens ''learn a skill'') ''kill''"
  "phrase_present (word_tokens ''never harm humans!'') ''harm human''"
  by code_simp+

end
