(* ===== verification/Defence_Layer.thy ===== *)
theory Defence_Layer
  imports Motor_Gate Constitution
begin

text \<open>
  The defence layer (\<^verbatim>\<open>crates/defence/src\<close>): the prompt-injection detector (\<^verbatim>\<open>injection.rs\<close>), the
  reward-hacking detector (\<^verbatim>\<open>reward_hacking.rs\<close>), the guard that asks the charter (\<^verbatim>\<open>constitution.rs\<close>) and
  the layer that screens every proposal of the cortex with them and with the motor gate (\<^verbatim>\<open>layer.rs\<close>), counts
  vetoes in a sliding window and demands attention when they pile up. The goal-drift monitor compares similarities in
  floating point; it is a component of the layer's state given from outside.
\<close>

section \<open>Proposals and configuration\<close>

datatype ActionKind =
    ToolCall string string
  | FilesystemOp string string
  | NetworkRequest string string
  | CompletionClaim string
  | SelfModification string string
  | ExternalText string string

record CortexProposal =
  invocation_id :: string
  intent :: string
  action :: ActionKind
  tool_calls_completed :: usize
  observable_evidence :: "string list"

text \<open>The drift threshold is kept by its bit pattern.\<close>

record DefenceConfig =
  veto_escalation_threshold :: usize
  veto_window_secs :: u64
  drift_threshold :: u32
  critical_paths :: "string list"
  config_blocklisted_hosts :: "string list"
  min_evidence_for_completion :: usize

definition defence_config_default :: DefenceConfig where
  "defence_config_default =
     \<lparr>veto_escalation_threshold = 3, veto_window_secs = 300, drift_threshold = 0x3f733333,
      critical_paths = [''/etc'', ''/boot'', ''/sys'', ''/proc'', ''/dev'', ''/usr/lib'', ''/usr/bin'', ''/usr/sbin'',
        ''/sbin'', ''/bin'', ''/lib'', ''/lib64''],
      config_blocklisted_hosts = [], min_evidence_for_completion = 1\<rparr>"

text \<open>Instants are nanoseconds on the monotonic clock.\<close>

record VetoEvent =
  veto_at :: nat
  veto_reason :: VetoReason
  veto_invocation :: string

section \<open>Prompt injection\<close>

definition DEFENCE_INJECTION_PATTERNS :: "string list" where
  "DEFENCE_INJECTION_PATTERNS =
     [''ignore previous instructions'', ''ignore all previous'', ''disregard all previous'',
      ''disregard previous instructions'', ''forget your instructions'', ''forget all previous'',
      ''your new instructions'', ''new system prompt'', ''your actual instructions'',
      ''your real instructions'', ''override:'', ''you are now'', ''act as if you are'', ''pretend you are'',
      ''pretend to be'', ''from now on you are'', ''you must now act as'', ''[system]:'', ''<|system|>'',
      ''<|im_start|>system'', ''<<sys>>'', ''### instruction'', ''### system'', ''### human'', ''[inst]'',
      ''[/inst]'', ''reveal your system prompt'', ''show me your system prompt'', ''print your system prompt'',
      ''repeat your system prompt'', ''output your instructions'', ''tell me your instructions'',
      ''what are your instructions'', ''what is your system prompt'', ''jailbreak mode'',
      ''jailbreak enabled'', ''developer mode'', ''dan mode'', ''no restrictions'', ''no content policy'',
      ''bypass safety'', ''bypass restrictions'', ''uncensored mode'', ''instead, do the following'',
      ''instead do the following'', ''your task is now'', ''your new task is'', ''your new goal is'',
      ''from now on, you'', ''from now on you'', ''stop following'', ''do not follow'', ''ignore the above'']"

text \<open>Of the characters the normalisation drops none is ASCII.\<close>

fun normalize_chars :: "bool \<Rightarrow> string \<Rightarrow> string" where
  "normalize_chars prev_space [] = []"
| "normalize_chars prev_space (c # cs) =
     (if is_space c then (if \<not> prev_space then CHR '' '' # normalize_chars True cs else normalize_chars True cs)
      else to_lower c # normalize_chars False cs)"

definition normalize_for_match :: "string \<Rightarrow> string" where
  "normalize_for_match text = trim (normalize_chars False text)"

record HeuristicClassifier =
  custom_patterns :: "string list"

definition classifier_new :: HeuristicClassifier where
  "classifier_new = \<lparr>custom_patterns = []\<rparr>"

definition with_pattern :: "HeuristicClassifier \<Rightarrow> string \<Rightarrow> HeuristicClassifier" where
  "with_pattern h p = h\<lparr>custom_patterns := custom_patterns h @ [normalize_for_match p]\<rparr>"

definition first_match :: "HeuristicClassifier \<Rightarrow> string \<Rightarrow> string option" where
  "first_match h text =
     (let normalized = normalize_for_match text in
      case find (contains_str normalized) DEFENCE_INJECTION_PATTERNS of
        Some p \<Rightarrow> Some p
      | None \<Rightarrow> find (contains_str normalized) (custom_patterns h))"

text \<open>The default detector: the heuristic classifier scores one or zero, and the threshold is one half.\<close>

definition injection_screen :: "string \<Rightarrow> string \<Rightarrow> VetoResult" where
  "injection_screen text source =
     (case first_match classifier_new text of
        Some pattern \<Rightarrow> Veto (PromptInjection pattern source)
      | None \<Rightarrow> Allowed)"

section \<open>Reward hacking\<close>

definition COMPLETION_CLAIM_PATTERNS :: "string list" where
  "COMPLETION_CLAIM_PATTERNS =
     [''task complete'', ''task completed'', ''task is complete'', ''work done'', ''work complete'',
      ''work is done'', ''work is complete'', ''finished successfully'', ''successfully completed'',
      ''successfully finished'', ''all done'', ''mission accomplished'', ''objective achieved'',
      ''objective met'', ''objectives met'', ''objectives achieved'', ''requirements satisfied'',
      ''requirements met'', ''implementation complete'', ''implementation is complete'',
      ''implementation done'', ''done.'', ''complete.'', ''completed.'', ''finished.'', ''i have completed'',
      (''i'' @ CHR 0x27 # ''ve completed''), ''i have finished'', (''i'' @ CHR 0x27 # ''ve finished''),
      ''i have done'', (''i'' @ CHR 0x27 # ''ve done''), ''the task is now complete'', ''everything is done'',
      ''everything is complete'']"

text \<open>\<^verbatim>\<open>str::match_indices\<close>: the matches from the left that do not overlap, with the character before each.\<close>

fun match_before :: "nat \<Rightarrow> char option \<Rightarrow> string \<Rightarrow> string \<Rightarrow> char option list" where
  "match_before skip before needle [] = (if needle = [] \<and> skip = 0 then [before] else [])"
| "match_before skip before needle (c # cs) =
     (if skip = 0 \<and> prefix needle (c # cs) then before # match_before (length needle - 1) (Some c) needle cs
      else match_before (skip - 1) (Some c) needle cs)"

definition contains_word_bounded :: "string \<Rightarrow> string \<Rightarrow> bool" where
  "contains_word_bounded haystack needle =
     (if needle = [] then False
      else list_ex (\<lambda>b. case b of None \<Rightarrow> True | Some c \<Rightarrow> \<not> is_alphanumeric c) (match_before 0 None needle haystack))"

record RewardHackingDetector =
  min_evidence :: usize

definition has_completion_claim :: "string \<Rightarrow> bool" where
  "has_completion_claim summary =
     (let lower = to_ascii_lowercase summary in list_ex (contains_word_bounded lower) COMPLETION_CLAIM_PATTERNS)"

definition hacking_screen :: "RewardHackingDetector \<Rightarrow> string \<Rightarrow> string list \<Rightarrow> VetoResult" where
  "hacking_screen d summary evidence =
     (if \<not> has_completion_claim summary then Allowed
      else
        (let evidence_count = length evidence in
         if unat (min_evidence d) \<le> evidence_count then Allowed
         else
           (let reason = (if evidence_count = 0 then
                  ''completion claimed with zero observable evidence (no tool calls, file writes, or network actions recorded)''
                else ''completion claimed with insufficient evidence ('' @ decimal evidence_count @ '' item(s) recorded, ''
                  @ decimal (unat (min_evidence d)) @ '' required)'') in
            Veto (RewardHacking summary reason))))"

section \<open>The charter's guard\<close>

record ConstitutionGuard =
  guard_charter :: Charter
  guard_sealed :: bool

definition guard_new :: "Charter \<Rightarrow> ConstitutionGuard" where
  "guard_new c = \<lparr>guard_charter = c, guard_sealed = hmac_verified c\<rparr>"

fun action_to_text :: "ActionKind \<Rightarrow> string" where
  "action_to_text (ToolCall tool_id payload) = ''tool:'' @ tool_id @ '' '' @ payload"
| "action_to_text (FilesystemOp operation path) = operation @ '' '' @ path"
| "action_to_text (NetworkRequest url http_method) = http_method @ '' '' @ url"
| "action_to_text (CompletionClaim summary) = summary"
| "action_to_text (SelfModification target change) = ''modify '' @ target @ '': '' @ change"
| "action_to_text (ExternalText source text) = ''external('' @ source @ ''): '' @ text"

fun action_to_proposal_type :: "ActionKind \<Rightarrow> ProposalType" where
  "action_to_proposal_type (SelfModification _ _) = SelfExtension"
| "action_to_proposal_type (NetworkRequest _ _) = OutboundAction"
| "action_to_proposal_type (FilesystemOp _ _) = OutboundAction"
| "action_to_proposal_type _ = CortexAction"

definition guard_proposal :: "CortexProposal \<Rightarrow> ConstitutionProposal" where
  "guard_proposal p = \<lparr>proposal_intent = intent p, action_text = action_to_text (action p),
     proposal_type = action_to_proposal_type (action p)\<rparr>"

definition guard_screen :: "ConstitutionGuard \<Rightarrow> CortexProposal \<Rightarrow> VetoResult" where
  "guard_screen g p =
     (case check_screen (guard_charter g) (guard_proposal p) of
        CheckAllow \<Rightarrow> Allowed
      | CheckVeto clause \<Rightarrow>
          Veto (CharterViolation (prohibition_id clause) (clause_text clause) (matched_keyword clause)))"

section \<open>The layer\<close>

record DefenceLayer =
  config :: DefenceConfig
  constitution :: "ConstitutionGuard option"
  drift :: "string \<Rightarrow> string \<Rightarrow> VetoResult"
  hacking :: RewardHackingDetector
  motor :: UnsafeMotorActionGate
  veto_history :: "VetoEvent list"
  attention_demand_count :: usize

record ScreeningOutcome =
  veto :: VetoResult
  attention_escalated :: bool
  detector :: string
  outcome_veto_count :: nat

definition layer_new :: "(string \<Rightarrow> string \<Rightarrow> VetoResult) \<Rightarrow> DefenceConfig \<Rightarrow> DefenceLayer" where
  "layer_new drift_monitor c =
     \<lparr>config = c, constitution = None, drift = drift_monitor,
      hacking = \<lparr>min_evidence = min_evidence_for_completion c\<rparr>,
      motor = foldl gate_with_blocklisted_host (foldl with_critical_prefix gate_new (critical_paths c)) (config_blocklisted_hosts c),
      veto_history = [], attention_demand_count = 0\<rparr>"

definition with_constitution :: "DefenceLayer \<Rightarrow> Charter \<Rightarrow> DefenceLayer" where
  "with_constitution l c = l\<lparr>constitution := Some (guard_new c)\<rparr>"

definition in_window :: "DefenceLayer \<Rightarrow> nat \<Rightarrow> VetoEvent \<Rightarrow> bool" where
  "in_window l now e \<longleftrightarrow> now - veto_at e \<le> unat (veto_window_secs (config l)) * 10 ^ 9"

definition veto_count_in_window :: "DefenceLayer \<Rightarrow> nat \<Rightarrow> nat" where
  "veto_count_in_window l now = length (filter (in_window l now) (veto_history l))"

definition prune_window :: "DefenceLayer \<Rightarrow> nat \<Rightarrow> DefenceLayer" where
  "prune_window l now = l\<lparr>veto_history := filter (in_window l now) (veto_history l)\<rparr>"

definition run_action_detectors :: "DefenceLayer \<Rightarrow> CortexProposal \<Rightarrow> VetoResult \<times> string" where
  "run_action_detectors l p =
     (case action p of
        ExternalText source text \<Rightarrow>
          (let r = injection_screen text source in
           if result_is_vetoed r then (r, ''PromptInjectionDetector'') else (Allowed, ''none''))
      | ToolCall tool_id payload \<Rightarrow>
          (let r = injection_screen payload (''tool:'' @ tool_id) in
           if result_is_vetoed r then (r, ''PromptInjectionDetector'') else (Allowed, ''none''))
      | FilesystemOp operation path \<Rightarrow>
          (let r = screen_filesystem (motor l) operation path None in
           if result_is_vetoed r then (r, ''UnsafeMotorActionGate'') else (Allowed, ''none''))
      | NetworkRequest url http_method \<Rightarrow>
          (let r = screen_network (motor l) url http_method in
           if result_is_vetoed r then (r, ''UnsafeMotorActionGate'') else (Allowed, ''none''))
      | SelfModification target change \<Rightarrow>
          (let r = screen_self_modification (motor l) target change None in
           if result_is_vetoed r then (r, ''UnsafeMotorActionGate'') else (Allowed, ''none''))
      | CompletionClaim summary \<Rightarrow>
          (let r = hacking_screen (hacking l) summary (observable_evidence p) in
           if result_is_vetoed r then (r, ''RewardHackingDetector'')
           else
             (let r' = drift l (intent p) summary in
              if result_is_vetoed r' then (r', ''GoalDriftMonitor'') else (Allowed, ''none''))))"

definition run_detectors :: "DefenceLayer \<Rightarrow> CortexProposal \<Rightarrow> VetoResult \<times> string" where
  "run_detectors l p =
     (case constitution l of
        Some g \<Rightarrow>
          (let r = guard_screen g p in
           if result_is_vetoed r then (r, ''ConstitutionGuard'') else run_action_detectors l p)
      | None \<Rightarrow> run_action_detectors l p)"

text \<open>The clock is read when the veto is recorded and again when the window is pruned or counted.\<close>

definition layer_screen :: "nat \<Rightarrow> nat \<Rightarrow> DefenceLayer \<Rightarrow> CortexProposal \<Rightarrow> ScreeningOutcome \<times> DefenceLayer" where
  "layer_screen at now l p =
     (case run_detectors l p of
        (Veto reason, det) \<Rightarrow>
          (let event = \<lparr>veto_at = at, veto_reason = reason, veto_invocation = invocation_id p\<rparr>;
               l1 = prune_window (l\<lparr>veto_history := veto_history l @ [event]\<rparr>) now;
               count = length (veto_history l1);
               escalated = unat (veto_escalation_threshold (config l1)) \<le> count;
               l2 = (if escalated then l1\<lparr>attention_demand_count := attention_demand_count l1 + 1\<rparr> else l1) in
           (\<lparr>veto = Veto reason, attention_escalated = escalated, detector = det, outcome_veto_count = count\<rparr>, l2))
      | (Allowed, _) \<Rightarrow>
          (\<lparr>veto = Allowed, attention_escalated = False, detector = ''none'', outcome_veto_count = veto_count_in_window l now\<rparr>, l))"

section \<open>What the injection detector sees\<close>

definition trim_end :: "string \<Rightarrow> string" where
  "trim_end s = rev (dropWhile is_space (rev s))"

lemma to_lower_space [simp]: "is_space (to_lower c) \<longleftrightarrow> is_space c"
proof -
  have sp: "c = CHR '' '' \<longleftrightarrow> (of_char c :: nat) = 32" for c :: char
  proof -
    have "(of_char CHR '' '' :: nat) = 32" by simp
    then show ?thesis by (metis of_char_eq_iff)
  qed
  show ?thesis unfolding is_space_def sp of_char_to_lower by (auto simp: Let_def)
qed

lemma trim_end_Cons: "trim_end (c # s) = (if trim_end s = [] \<and> is_space c then [] else c # trim_end s)"
  by (cases "\<exists>x\<in>set (rev s). \<not> is_space x")
    (auto simp: trim_end_def dropWhile_append3 dropWhile_append1 dropWhile_eq_Nil_conv)

lemma trim_end_word: "list_all (\<lambda>c. \<not> is_space c) w \<Longrightarrow> trim_end (w @ s) = w @ trim_end s"
  by (induction w) (auto simp: trim_end_Cons)

lemma trim_trim_end: "s = [] \<or> \<not> is_space (hd s) \<Longrightarrow> trim s = trim_end s"
  by (cases s) (simp_all add: trim_def trim_end_def)

lemma trim_space [simp]: "is_space c \<Longrightarrow> trim (c # s) = trim s"
  by (simp add: trim_def)

lemma normalize_True_hd: "normalize_chars True s = [] \<or> \<not> is_space (hd (normalize_chars True s))"
  by (induction s) auto

lemma split_ws_words: "list_all (\<lambda>w. w \<noteq> []) (split_ws_acc acc s)"
  by (induction acc s rule: split_ws_acc.induct) auto

lemma join_words_Nil: "list_all (\<lambda>w. w \<noteq> []) ws \<Longrightarrow> join_str sep ws = [] \<longleftrightarrow> ws = []"
  by (cases "(sep, ws)" rule: join_str.cases) auto

lemma normalize_words_acc:
  "(\<forall>acc. acc \<noteq> [] \<longrightarrow> list_all (\<lambda>c. \<not> is_space c) acc \<longrightarrow>
      trim (rev (map to_lower acc) @ normalize_chars False s) = join_str '' '' (map (map to_lower) (split_ws_acc acc s)))
   \<and> (\<forall>b. trim (normalize_chars b s) = join_str '' '' (map (map to_lower) (split_ws_acc [] s)))"
proof (induction s)
  case Nil
  have "trim (rev (map to_lower acc)) = rev (map to_lower acc)" if "acc \<noteq> []" "list_all (\<lambda>c. \<not> is_space c) acc" for acc
  proof -
    have w: "list_all (\<lambda>c. \<not> is_space c) (rev (map to_lower acc))" using that(2) by (simp add: list_all_iff)
    then have "hd (rev (map to_lower acc)) \<in> set (rev (map to_lower acc))" using that(1) by (intro hd_in_set) simp
    with w have "trim (rev (map to_lower acc)) = trim_end (rev (map to_lower acc))"
      by (intro trim_trim_end) (auto simp: list_all_iff)
    also have "\<dots> = rev (map to_lower acc)" using trim_end_word [OF w, of "[]"] by (simp add: trim_end_def)
    finally show ?thesis .
  qed
  then show ?case by (simp add: rev_map trim_def)
next
  case (Cons c s)
  from Cons have IH1: "acc \<noteq> [] \<Longrightarrow> list_all (\<lambda>c. \<not> is_space c) acc \<Longrightarrow>
      trim (rev (map to_lower acc) @ normalize_chars False s) = join_str '' '' (map (map to_lower) (split_ws_acc acc s))"
    and IH2: "trim (normalize_chars b s) = join_str '' '' (map (map to_lower) (split_ws_acc [] s))" for acc b by blast+
  show ?case
  proof (cases "is_space c")
    case False
    have "trim (rev (map to_lower acc) @ normalize_chars False (c # s)) = join_str '' '' (map (map to_lower) (split_ws_acc acc (c # s)))"
      if "list_all (\<lambda>c. \<not> is_space c) acc" for acc
      using IH1 [of "c # acc"] that False by simp
    from this this [of "[]"] False show ?thesis by simp
  next
    case True
    let ?ws = "map (map to_lower) (split_ws_acc [] s)"
    have nil: "trim_end (normalize_chars True s) = [] \<longleftrightarrow> ?ws = []"
      using trim_trim_end [OF normalize_True_hd [of s]] IH2 [of True] join_words_Nil [of ?ws "'' ''"] split_ws_words [of "[]" s]
      by (simp add: list_all_iff)
    have "trim (rev (map to_lower acc) @ normalize_chars False (c # s)) = join_str '' '' (rev (map to_lower acc) # ?ws)"
      if acc: "acc \<noteq> []" "list_all (\<lambda>c. \<not> is_space c) acc" for acc
    proof -
      have w: "list_all (\<lambda>c. \<not> is_space c) (rev (map to_lower acc))" using acc(2) by (simp add: list_all_iff)
      then have "hd (rev (map to_lower acc)) \<in> set (rev (map to_lower acc))" using acc(1) by (intro hd_in_set) simp
      with w acc(1) have "trim (rev (map to_lower acc) @ normalize_chars False (c # s))
          = rev (map to_lower acc) @ trim_end (CHR '' '' # normalize_chars True s)"
        using True by (subst trim_trim_end) (auto simp: list_all_iff trim_end_word [OF w])
      also have "\<dots> = join_str '' '' (rev (map to_lower acc) # ?ws)"
      proof (cases ?ws)
        case Nil
        with nil show ?thesis by (simp add: trim_end_Cons is_space_def)
      next
        case (Cons x xs)
        then have "trim_end (normalize_chars True s) = join_str '' '' ?ws"
          using trim_trim_end [OF normalize_True_hd [of s]] IH2 [of True] by simp
        with Cons nil show ?thesis by (simp add: trim_end_Cons)
      qed
      finally show ?thesis .
    qed
    moreover have "trim (normalize_chars b (c # s)) = join_str '' '' ?ws" for b
      using True IH2 [of True] by (cases b) (simp_all add: is_space_def)
    ultimately show ?thesis using True by (simp add: rev_map)
  qed
qed

lemma normalize_words: "normalize_for_match text = join_str '' '' (map to_ascii_lowercase (split_whitespace text))"
  using normalize_words_acc [of "text"] by (simp add: normalize_for_match_def split_whitespace_def)

text \<open>External text is let through exactly when its words, in lower case and separated by single spaces, contain
  none of the patterns: neither letter case nor the amount or kind of white space between words makes a difference.\<close>

theorem injection_screen_exact:
  "injection_screen text source = Allowed \<longleftrightarrow>
     list_all (\<lambda>p. \<not> (\<exists>a b. join_str '' '' (map to_ascii_lowercase (split_whitespace text)) = a @ p @ b)) DEFENCE_INJECTION_PATTERNS"
proof -
  have "injection_screen text source = Allowed \<longleftrightarrow> find (contains_str (normalize_for_match text)) DEFENCE_INJECTION_PATTERNS = None"
    by (auto simp: injection_screen_def first_match_def classifier_new_def Let_def split: option.split)
  then show ?thesis by (simp add: find_None_iff list_all_iff Ball_def normalize_words contains_str_iff)
qed

section \<open>Runs of the layer\<close>

text \<open>A run screens proposals one after another; each is given with its two clock readings.\<close>

fun layer_run :: "DefenceLayer \<Rightarrow> (nat \<times> nat \<times> CortexProposal) list \<Rightarrow> ScreeningOutcome list \<times> DefenceLayer" where
  "layer_run l [] = ([], l)"
| "layer_run l ((at, now, p) # steps) =
     (case layer_screen at now l p of (out, l') \<Rightarrow> case layer_run l' steps of (outs, l'') \<Rightarrow> (out # outs, l''))"

text \<open>The same run with a log of all vetoes that is never pruned: the count is the number of vetoes so far whose age
  is within the window.\<close>

fun reference_run :: "DefenceLayer \<Rightarrow> nat list \<Rightarrow> (nat \<times> nat \<times> CortexProposal) list \<Rightarrow> ScreeningOutcome list" where
  "reference_run l vetoes [] = []"
| "reference_run l vetoes ((at, now, p) # steps) =
     (let (r, det) = run_detectors l p;
          vetoes' = (if r = Allowed then vetoes else vetoes @ [at]);
          n = length (filter (\<lambda>t. now - t \<le> unat (veto_window_secs (config l)) * 10 ^ 9) vetoes') in
      \<lparr>veto = r,
       attention_escalated = (r \<noteq> Allowed \<and> unat (veto_escalation_threshold (config l)) \<le> n),
       detector = (if r = Allowed then ''none'' else det),
       outcome_veto_count = n\<rparr> # reference_run l vetoes' steps)"

fun clock_ordered :: "nat \<Rightarrow> (nat \<times> nat \<times> CortexProposal) list \<Rightarrow> bool" where
  "clock_ordered t [] \<longleftrightarrow> True"
| "clock_ordered t ((at, now, p) # steps) \<longleftrightarrow> t \<le> at \<and> at \<le> now \<and> clock_ordered now steps"

lemma layer_screen_fixed:
  assumes "layer_screen at now l p = (out, l')"
  shows "config l' = config l" "constitution l' = constitution l" "drift l' = drift l" "hacking l' = hacking l" "motor l' = motor l"
  using assms by (auto simp: layer_screen_def prune_window_def Let_def split: prod.splits VetoResult.splits if_splits)

lemma run_detectors_fixed:
  assumes "layer_screen at now l p = (out, l')"
  shows "run_detectors l' = run_detectors l"
proof -
  note fixed = layer_screen_fixed [OF assms]
  have "run_action_detectors l' = run_action_detectors l" unfolding run_action_detectors_def fixed ..
  note fixed = fixed this
  show ?thesis unfolding run_detectors_def fixed ..
qed

lemma reference_run_fixed:
  "run_detectors l' = run_detectors l \<Longrightarrow> config l' = config l \<Longrightarrow> reference_run l' vs steps = reference_run l vs steps"
  by (induction l vs steps rule: reference_run.induct) (auto simp: Let_def split: prod.splits)

text \<open>The history holds, up to events that have left the window for good, the vetoes of the log.\<close>

definition history_of :: "DefenceLayer \<Rightarrow> nat \<Rightarrow> nat list \<Rightarrow> bool" where
  "history_of l t vetoes \<longleftrightarrow>
     (\<forall>now\<ge>t. filter (\<lambda>u. now - u \<le> unat (veto_window_secs (config l)) * 10 ^ 9) (map veto_at (veto_history l))
            = filter (\<lambda>u. now - u \<le> unat (veto_window_secs (config l)) * 10 ^ 9) vetoes)"

lemma history_step:
  assumes inv: "history_of l t vetoes" and ord: "t \<le> at" "at \<le> now"
    and step: "layer_screen at now l p = (out, l')"
  shows "let (r, det) = run_detectors l p;
             vetoes' = (if r = Allowed then vetoes else vetoes @ [at]);
             n = length (filter (\<lambda>t. now - t \<le> unat (veto_window_secs (config l)) * 10 ^ 9) vetoes') in
         history_of l' now vetoes'
         \<and> out = \<lparr>veto = r, attention_escalated = (r \<noteq> Allowed \<and> unat (veto_escalation_threshold (config l)) \<le> n),
                  detector = (if r = Allowed then ''none'' else det), outcome_veto_count = n\<rparr>"
proof -
  let ?w = "unat (veto_window_secs (config l)) * 10 ^ 9"
  obtain r det where d: "run_detectors l p = (r, det)" by fastforce
  have fl: "filter (\<lambda>u. m - u \<le> ?w) (map veto_at (filter (in_window l now) es)) = filter (\<lambda>u. m - u \<le> ?w) (map veto_at es)"
    if "now \<le> m" for m es
    using that by (induction es) (auto simp: in_window_def)
  have len: "length (filter (in_window l now) es) = length (filter (\<lambda>u. now - u \<le> ?w) (map veto_at es))" for es
    by (induction es) (auto simp: in_window_def)
  have same: "in_window (l\<lparr>veto_history := h\<rparr>) now = in_window l now" for h by (simp add: in_window_def fun_eq_iff)
  show ?thesis
  proof (cases r)
    case Allowed
    with step d have l': "l' = l" and out: "out = \<lparr>veto = Allowed, attention_escalated = False, detector = ''none'',
        outcome_veto_count = length (filter (\<lambda>u. now - u \<le> ?w) (map veto_at (veto_history l)))\<rparr>"
      by (auto simp: layer_screen_def veto_count_in_window_def len)
    have "history_of l now vetoes" using inv ord by (auto simp: history_of_def)
    moreover have f: "filter (\<lambda>u. now - u \<le> ?w) (map veto_at (veto_history l)) = filter (\<lambda>u. now - u \<le> ?w) vetoes"
      using inv ord by (auto simp: history_of_def)
    ultimately show ?thesis using Allowed out [unfolded f] l' by (simp add: d)
  next
    case (Veto reason)
    let ?es = "veto_history l @ [\<lparr>veto_at = at, veto_reason = reason, veto_invocation = invocation_id p\<rparr>]"
    have es: "filter (\<lambda>u. m - u \<le> ?w) (map veto_at ?es) = filter (\<lambda>u. m - u \<le> ?w) (vetoes @ [at])" if "now \<le> m" for m
      using inv ord that by (simp add: history_of_def)
    have h: "veto_history l' = filter (in_window l now) ?es" "config l' = config l"
      "out = \<lparr>veto = r, attention_escalated = (unat (veto_escalation_threshold (config l)) \<le> length (filter (in_window l now) ?es)),
         detector = det, outcome_veto_count = length (filter (in_window l now) ?es)\<rparr>"
      using step d Veto by (auto simp: layer_screen_def prune_window_def same Let_def split: if_splits)
    have "history_of l' now (vetoes @ [at])"
      unfolding history_of_def by (intro allI impI) (simp only: h(1,2) fl es)
    then show ?thesis using Veto h(3) unfolding len es [OF order_refl] by (simp add: d)
  qed
qed

text \<open>C23: over any run with an advancing clock, every outcome of the layer, with its pruned history, is the outcome
  of the reference that never forgets a veto: the verdict of the detectors, the exact number of vetoes within the
  window, and the demand for attention exactly at a veto that meets the threshold.\<close>

theorem veto_window_exact:
  assumes "clock_ordered t steps" and "veto_history l = []"
  shows "fst (layer_run l steps) = reference_run l [] steps"
proof -
  have "fst (layer_run l steps) = reference_run l vetoes steps" if "history_of l t vetoes" "clock_ordered t steps" for l vetoes t
    using that
  proof (induction steps arbitrary: l vetoes t)
    case (Cons s steps)
    obtain at now p where s: "s = (at, now, p)" by (metis prod_cases3)
    obtain out l' where step: "layer_screen at now l p = (out, l')" by fastforce
    obtain r det where d: "run_detectors l p = (r, det)" by fastforce
    let ?v = "if r = Allowed then vetoes else vetoes @ [at]"
    from Cons.prems s have ord: "t \<le> at" "at \<le> now" "clock_ordered now steps" by simp_all
    from history_step [OF Cons.prems(1) ord(1,2) step] have i: "history_of l' now ?v"
      "out = \<lparr>veto = r, attention_escalated = (r \<noteq> Allowed \<and> unat (veto_escalation_threshold (config l))
           \<le> length (filter (\<lambda>t. now - t \<le> unat (veto_window_secs (config l)) * 10 ^ 9) ?v)),
         detector = (if r = Allowed then ''none'' else det),
         outcome_veto_count = length (filter (\<lambda>t. now - t \<le> unat (veto_window_secs (config l)) * 10 ^ 9) ?v)\<rparr>"
      by (simp_all add: d Let_def)
    have "fst (layer_run l' steps) = reference_run l ?v steps"
      using Cons.IH [OF i(1) ord(3)] reference_run_fixed [OF run_detectors_fixed [OF step] layer_screen_fixed(1) [OF step]] by simp
    moreover obtain outs l'' where "layer_run l' steps = (outs, l'')" by fastforce
    ultimately show ?case by (simp add: s step d Let_def i(2))
  qed simp
  moreover have "history_of l t []" using assms(2) by (simp add: history_of_def)
  ultimately show ?thesis using assms(1) by blast
qed

lemma veto_window_exact_witness:
  "let p = \<lparr>invocation_id = ''i'', intent = ''tidy'', action = FilesystemOp ''write'' ''/etc/passwd'', tool_calls_completed = 0,
            observable_evidence = []\<rparr>;
       l = layer_new (\<lambda>_ _. Allowed) (defence_config_default\<lparr>veto_escalation_threshold := 2, veto_window_secs := 0\<rparr>);
       steps = [(1, 1, p), (5, 5, p), (5, 5, p)] in
   clock_ordered 0 steps \<and> map outcome_veto_count (fst (layer_run l steps)) = [1, 1, 2]
   \<and> map attention_escalated (fst (layer_run l steps)) = [False, False, True]"
proof -
  let ?p = "\<lparr>invocation_id = ''i'', intent = ''tidy'', action = FilesystemOp ''write'' ''/etc/passwd'', tool_calls_completed = 0,
            observable_evidence = []\<rparr>"
  let ?l = "layer_new (\<lambda>_ _. Allowed) (defence_config_default\<lparr>veto_escalation_threshold := 2, veto_window_secs := 0\<rparr>)"
  let ?steps = "[(1, 1, ?p), (5, 5, ?p), (5, 5, ?p)]"
  have o: "clock_ordered 0 ?steps" "veto_history ?l = []" by (simp_all add: layer_new_def)
  have "fst (run_detectors ?l ?p) \<noteq> Allowed"
    by (simp add: run_detectors_def run_action_detectors_def layer_new_def defence_config_default_def screen_filesystem_def
        WRITE_OPS_def gate_new_def DEFAULT_CRITICAL_PREFIXES_def with_critical_prefix_def path_under_prefix_def
        normalize_path_def path_step_def trim_end_slashes_def strip_prefix_def to_lower_def)
  then obtain r det where d: "run_detectors ?l ?p = (r, det)" "r \<noteq> Allowed" by (metis prod.collapse)
  have c: "unat (veto_window_secs (config ?l)) = 0" "unat (veto_escalation_threshold (config ?l)) = 2"
    by (simp_all add: layer_new_def)
  note ev = reference_run.simps d Let_def case_prod_conv c
  have "map outcome_veto_count (reference_run ?l [] ?steps) = [1, 1, 2]" by (simp only: ev; simp)
  moreover have "map attention_escalated (reference_run ?l [] ?steps) = [False, False, True]" by (simp only: ev; simp)
  ultimately show ?thesis using o veto_window_exact [OF o] by (simp only: Let_def; simp)
qed

section \<open>Files behind the layer\<close>

definition default_critical_dirs :: "string list list" where
  "default_critical_dirs =
     [[''etc''], [''boot''], [''sys''], [''proc''], [''dev''], [''usr'', ''lib''], [''usr'', ''bin''], [''usr'', ''sbin''],
      [''sbin''], [''bin''], [''lib''], [''lib64'']]"

lemma default_dirs: "list_all2 names_dir DEFAULT_CRITICAL_PREFIXES default_critical_dirs"
  by (simp add: DEFAULT_CRITICAL_PREFIXES_def default_critical_dirs_def names_dir_def dir_name_def dir_text_def exI [of _ "0 :: nat"])

lemma layer_motor: "critical_prefixes (motor (layer_new m c)) = DEFAULT_CRITICAL_PREFIXES @ critical_paths c"
proof -
  have "critical_prefixes (foldl gate_with_blocklisted_host g hs) = critical_prefixes g" for g hs
    by (induction hs arbitrary: g) (simp_all add: gate_with_blocklisted_host_def)
  moreover have "critical_prefixes (foldl with_critical_prefix g ps) = critical_prefixes g @ ps" for g ps
    by (induction ps arbitrary: g) (simp_all add: with_critical_prefix_def)
  ultimately show ?thesis by (simp add: layer_new_def gate_new_def)
qed

lemma layer_run_fixed:
  "layer_run l steps = (outs, l') \<Longrightarrow> motor l' = motor l \<and> constitution l' = constitution l"
proof (induction steps arbitrary: l outs)
  case (Cons s steps)
  obtain at now p where s: "s = (at, now, p)" by (metis prod_cases3)
  obtain out l1 where step: "layer_screen at now l p = (out, l1)" by fastforce
  obtain outs1 l2 where rest: "layer_run l1 steps = (outs1, l2)" by fastforce
  with Cons.prems s step have "layer_run l1 steps = (outs1, l')" by simp
  from Cons.IH [OF this] layer_screen_fixed [OF step] show ?case by simp
qed simp

text \<open>C1: however many proposals it has screened, a layer with a charter lets a file operation of the cortex through
  exactly when the charter allows it and it does not write, or its path leads outside the default critical
  directories and those of the configuration; there is no capability by which the cortex could do more.\<close>

theorem layer_guards_files:
  assumes "list_all2 names_dir (critical_paths c) dirs"
    and "layer_run (with_constitution (layer_new m c) charter) steps = (outs, l)"
    and "action p = FilesystemOp operation path"
  shows "veto (fst (layer_screen at now l p)) = Allowed \<longleftrightarrow>
     check_screen charter (guard_proposal p) = CheckAllow
     \<and> (to_ascii_lowercase operation \<notin> set WRITE_OPS
        \<or> (\<exists>dest. leads_to path dest \<and> list_all (\<lambda>d. \<not> prefix d dest) (default_critical_dirs @ dirs)))"
proof -
  have l: "motor l = motor (layer_new m c)" "constitution l = Some (guard_new charter)"
    using layer_run_fixed [OF assms(2)] by (simp_all add: with_constitution_def)
  have "list_all2 names_dir (critical_prefixes (motor l)) (default_critical_dirs @ dirs)"
    unfolding l layer_motor using default_dirs assms(1) by (rule list_all2_appendI)
  note files = motor_gate_files_exact [OF this, of operation path None]
  have "veto (fst (layer_screen at now l p)) = fst (run_detectors l p)"
    by (auto simp: layer_screen_def Let_def split: prod.split VetoResult.split)
  also have "\<dots> = (if guard_screen (guard_new charter) p = Allowed then screen_filesystem (motor l) operation path None
      else guard_screen (guard_new charter) p)"
    by (simp add: run_detectors_def run_action_detectors_def l(2) assms(3) Let_def)
  also have "guard_screen (guard_new charter) p = Allowed \<longleftrightarrow> check_screen charter (guard_proposal p) = CheckAllow"
    by (simp add: guard_screen_def guard_new_def split: CheckOutcome.split)
  finally have v: "veto (fst (layer_screen at now l p))
      = (if check_screen charter (guard_proposal p) = CheckAllow then screen_filesystem (motor l) operation path None
         else guard_screen (guard_new charter) p)" .
  show ?thesis
  proof (cases "check_screen charter (guard_proposal p) = CheckAllow")
    case True
    then show ?thesis unfolding v using files by simp
  next
    case False
    then have "guard_screen (guard_new charter) p \<noteq> Allowed"
      by (auto simp: guard_screen_def guard_new_def split: CheckOutcome.splits)
    with False show ?thesis unfolding v by simp
  qed
qed

lemma layer_guards_files_witness:
  "let p = \<lparr>invocation_id = ''i'', intent = ''tidy'', action = FilesystemOp ''write'' ''/var/../etc/x'', tool_calls_completed = 0,
            observable_evidence = []\<rparr>;
       l = with_constitution (layer_new (\<lambda>_ _. Allowed) defence_config_default)
             \<lparr>core = sample_core, operator = sample_operator, hmac_verified = False\<rparr> in
   layer_run l [] = ([], l) \<and> veto (fst (layer_screen 0 0 l p)) \<noteq> Allowed
   \<and> list_all2 names_dir (critical_paths defence_config_default) default_critical_dirs"
proof -
  let ?p = "\<lparr>invocation_id = ''i'', intent = ''tidy'', action = FilesystemOp ''write'' ''/var/../etc/x'', tool_calls_completed = 0,
            observable_evidence = []\<rparr>"
  let ?l = "with_constitution (layer_new (\<lambda>_ _. Allowed) defence_config_default)
             \<lparr>core = sample_core, operator = sample_operator, hmac_verified = False\<rparr>"
  have d: "list_all2 names_dir (critical_paths defence_config_default) default_critical_dirs"
    using default_dirs by (simp add: defence_config_default_def DEFAULT_CRITICAL_PREFIXES_def)
  have r: "layer_run ?l [] = ([], ?l)" by simp
  have w: "to_ascii_lowercase ''write'' = ''write''" by (simp add: to_lower_def)
  have "\<not> (\<exists>dest. leads_to ''/var/../etc/x'' dest \<and> list_all (\<lambda>d. \<not> prefix d dest) (default_critical_dirs @ default_critical_dirs))"
    by (simp add: leads_to_def walks_foldl path_step_def default_critical_dirs_def)
  moreover have "to_ascii_lowercase ''write'' \<in> set WRITE_OPS" by (simp only: w) (simp add: WRITE_OPS_def)
  ultimately show ?thesis using layer_guards_files [OF d r, of ?p "''write''" "''/var/../etc/x''" 0 0] d r unfolding Let_def by simp
qed

end
