(* ===== verification/Audit_Trail.thy ===== *)
theory Audit_Trail
  imports Egress_Guard Constitution
begin

unbundle bit_operations_syntax

text \<open>
  The audit log of an agent (\<^verbatim>\<open>crates/vita/src/audit.rs\<close>): a bounded ring of entries in memory, an append-only
  file with one line of JSON per entry, and a sidecar file that chains a MAC over every line. A file is its text. The
  entries are of any type, the JSON writer and reader and the hash are arguments; the construction of the MAC is the
  one of the charter's seal (\<^verbatim>\<open>hmac_sha256\<close>, \<^verbatim>\<open>to_hex\<close>, repeated in the source).
\<close>

section \<open>The chain of MACs\<close>

definition from_hex :: "string \<Rightarrow> u8 list option" where
  "from_hex s =
     (let t = trim s in
      if length t \<noteq> 64 then None
      else those (map (\<lambda>i. case to_digit 16 (t ! (2 * i)) of None \<Rightarrow> None
                    | Some hi \<Rightarrow> (case to_digit 16 (t ! (2 * i + 1)) of None \<Rightarrow> None
                        | Some lo \<Rightarrow> Some (of_nat (hi * 16 + lo)))) [0..<32]))"

definition genesis :: "u8 list" where
  "genesis = replicate 32 0"

text \<open>A sidecar that cannot be opened has no text.\<close>

definition read_last_chain_mac :: "string option \<Rightarrow> u8 list" where
  "read_last_chain_mac sidecar =
     (case sidecar of
        None \<Rightarrow> genesis
      | Some s \<Rightarrow>
          (case filter (\<lambda>l. trim l \<noteq> []) (lines s) of
             [] \<Rightarrow> genesis
           | ls \<Rightarrow> (case from_hex (last ls) of Some m \<Rightarrow> m | None \<Rightarrow> genesis)))"

datatype ChainVerification =
    ChainOk nat
  | LengthMismatch nat nat
  | Tampered nat
  | MalformedChainLine nat

fun verify_from :: "(u8 list \<Rightarrow> u8 list) \<Rightarrow> u8 list \<Rightarrow> nat \<Rightarrow> u8 list \<Rightarrow> (string \<times> string) list \<Rightarrow> ChainVerification option" where
  "verify_from sha key i prev [] = None"
| "verify_from sha key i prev ((line, recorded) # rest) =
     (case from_hex recorded of
        None \<Rightarrow> Some (MalformedChainLine i)
      | Some recorded_mac \<Rightarrow>
          (let mac = hmac_sha256 sha key [prev, as_bytes line] in
           if mac \<noteq> recorded_mac then Some (Tampered i) else verify_from sha key (i + 1) mac rest))"

definition verify_audit_chain :: "(u8 list \<Rightarrow> u8 list) \<Rightarrow> string \<Rightarrow> string \<Rightarrow> u8 list \<Rightarrow> ChainVerification" where
  "verify_audit_chain sha jsonl_text chain_text key =
     (let jsonl = lines jsonl_text; chain = lines chain_text in
      if length jsonl \<noteq> length chain then LengthMismatch (length jsonl) (length chain)
      else case verify_from sha key 0 genesis (zip jsonl chain) of
          Some failure \<Rightarrow> failure
        | None \<Rightarrow> ChainOk (length jsonl))"

section \<open>The log\<close>

record IntegrityChain =
  chain_file :: string
  chain_key :: "u8 list"
  chain_prev :: "u8 list"

text \<open>What the clones of a log share: the file, the flag of its failure, the chain; and one handle on it.\<close>

record AuditSink =
  file_sink :: "string option"
  sink_failed :: bool
  integrity :: "IntegrityChain option"

record 'e AuditLog =
  entries :: "'e list"
  max_entries :: usize
  sink :: AuditSink

definition DEFAULT_MAX_IN_MEMORY_ENTRIES :: usize where
  "DEFAULT_MAX_IN_MEMORY_ENTRIES = 10000"

definition audit_new :: "'e AuditLog" where
  "audit_new = \<lparr>entries = [], max_entries = DEFAULT_MAX_IN_MEMORY_ENTRIES,
     sink = \<lparr>file_sink = None, sink_failed = False, integrity = None\<rparr>\<rparr>"

text \<open>Opening for appending keeps the text of a file that exists and creates an empty one otherwise.\<close>

definition opened :: "string option \<Rightarrow> string" where
  "opened f = (case f of Some s \<Rightarrow> s | None \<Rightarrow> [])"

definition audit_with_file :: "string option \<Rightarrow> 'e AuditLog" where
  "audit_with_file log_file = \<lparr>entries = [], max_entries = DEFAULT_MAX_IN_MEMORY_ENTRIES,
     sink = \<lparr>file_sink = Some (opened log_file), sink_failed = False, integrity = None\<rparr>\<rparr>"

definition with_file_hmac :: "string option \<Rightarrow> string option \<Rightarrow> u8 list \<Rightarrow> 'e AuditLog" where
  "with_file_hmac log_file sidecar key = \<lparr>entries = [], max_entries = DEFAULT_MAX_IN_MEMORY_ENTRIES,
     sink = \<lparr>file_sink = Some (opened log_file), sink_failed = False,
       integrity = Some \<lparr>chain_file = opened sidecar, chain_key = key, chain_prev = read_last_chain_mac sidecar\<rparr>\<rparr>\<rparr>"

definition with_max_entries :: "'e AuditLog \<Rightarrow> usize \<Rightarrow> 'e AuditLog" where
  "with_max_entries l n = l\<lparr>max_entries := n\<rparr>"

text \<open>The outcome of locking, writing and flushing: done; failed with any part of the text in the file; or the mutex
  is poisoned.\<close>

datatype IoOutcome = Written | WriteFailed string | LockPoisoned

definition extend_chain :: "(u8 list \<Rightarrow> u8 list) \<Rightarrow> IoOutcome \<Rightarrow> string \<Rightarrow> AuditSink \<Rightarrow> AuditSink" where
  "extend_chain sha io line s =
     (case integrity s of
        None \<Rightarrow> s
      | Some st \<Rightarrow>
          (case io of
             LockPoisoned \<Rightarrow> s\<lparr>sink_failed := True\<rparr>
           | Written \<Rightarrow>
               (let mac = hmac_sha256 sha (chain_key st) [chain_prev st, as_bytes line] in
                s\<lparr>integrity := Some (st\<lparr>chain_file := chain_file st @ to_hex mac @ [CHR ''\<newline>''], chain_prev := mac\<rparr>)\<rparr>)
           | WriteFailed part \<Rightarrow>
               s\<lparr>integrity := Some (st\<lparr>chain_file := chain_file st @ part\<rparr>), sink_failed := True\<rparr>))"

definition write_entry :: "(u8 list \<Rightarrow> u8 list) \<Rightarrow> ('e \<Rightarrow> string option) \<Rightarrow> IoOutcome \<Rightarrow> IoOutcome \<Rightarrow> 'e \<Rightarrow> AuditSink \<Rightarrow> AuditSink" where
  "write_entry sha to_json io chain_io entry s =
     (if sink_failed s then s
      else case file_sink s of
          None \<Rightarrow> s
        | Some text \<Rightarrow>
            (case to_json entry of
               None \<Rightarrow> s
             | Some line \<Rightarrow>
                 (case io of
                    LockPoisoned \<Rightarrow> s\<lparr>sink_failed := True\<rparr>
                  | WriteFailed part \<Rightarrow> s\<lparr>file_sink := Some (text @ part), sink_failed := True\<rparr>
                  | Written \<Rightarrow> extend_chain sha chain_io line (s\<lparr>file_sink := Some (text @ line @ [CHR ''\<newline>''])\<rparr>))))"

definition bound_ring :: "usize \<Rightarrow> 'e list \<Rightarrow> 'e list" where
  "bound_ring max_n es =
     (if 0 < max_n then
        (let slack = max (max_n div 8) 1 in
         if unat (max_n + slack) \<le> length es then drop (length es - unat max_n) es else es)
      else es)"

definition audit_push :: "(u8 list \<Rightarrow> u8 list) \<Rightarrow> ('e \<Rightarrow> string option) \<Rightarrow> IoOutcome \<Rightarrow> IoOutcome \<Rightarrow> 'e \<Rightarrow> 'e AuditLog \<Rightarrow> 'e AuditLog" where
  "audit_push sha to_json io chain_io entry l =
     l\<lparr>sink := write_entry sha to_json io chain_io entry (sink l), entries := bound_ring (max_entries l) (entries l @ [entry])\<rparr>"

section \<open>Reading back\<close>

definition load_entries_from_text :: "(string \<Rightarrow> 'e option) \<Rightarrow> string \<Rightarrow> 'e list" where
  "load_entries_from_text of_json s = List.map_filter of_json (filter (\<lambda>l. trim l \<noteq> []) (lines s))"

section \<open>The file of an agent\<close>

datatype PathComponent = RootDir | CurDir | ParentDir | Normal string

text \<open>\<^verbatim>\<open>Path::components\<close> on Unix: empty parts and dots after the start are dropped.\<close>

definition path_components :: "string \<Rightarrow> PathComponent list" where
  "path_components p =
     (let parts = split_on CHR ''/'' p;
          first = (if prefix ''/'' p then [RootDir] else if hd parts = ''.'' then [CurDir] else []) in
      first @ map (\<lambda>s. if s = ''..'' then ParentDir else Normal s) (filter (\<lambda>s. s \<noteq> [] \<and> s \<noteq> ''.'') parts))"

definition safe_agent_id :: "string \<Rightarrow> bool" where
  "safe_agent_id agent_id \<longleftrightarrow>
     (case path_components agent_id of [Normal _] \<Rightarrow> True | _ \<Rightarrow> False) \<and> CHR 0x5C \<notin> set agent_id"

text \<open>The environment: the audit directory, the key, and what the file system says to creating the parent directory
  and opening the two files for a path.\<close>

definition audit_from_env :: "string option \<Rightarrow> u8 list option \<Rightarrow> (string \<Rightarrow> (string option \<times> string option) option) \<Rightarrow> string \<Rightarrow> 'e AuditLog" where
  "audit_from_env dir hmac_key open_at agent_id =
     (if \<not> safe_agent_id agent_id then audit_new
      else case dir of
          None \<Rightarrow> audit_new
        | Some d \<Rightarrow>
            (case open_at (d @ ''/'' @ agent_id @ ''.jsonl'') of
               None \<Rightarrow> audit_new
             | Some (log_file, sidecar) \<Rightarrow>
                 (case hmac_key of
                    Some k \<Rightarrow> if k \<noteq> [] then with_file_hmac log_file sidecar k else audit_with_file log_file
                  | None \<Rightarrow> audit_with_file log_file)))"

section \<open>MACs and their texts\<close>

lemma to_digit_hex: "d < 16 \<Longrightarrow> to_digit 16 (hex_digit d) = Some d"
proof -
  assume d: "d < 16"
  then have "(of_char (hex_digit d) :: nat) = (if d < 10 then 48 + d else 87 + d)" by (simp add: hex_digit_def of_char_of)
  then show ?thesis using d by (cases "d < 10") (simp_all add: to_digit_def of_char_to_lower Let_def)
qed

lemma length_to_hex [simp]: "length (to_hex bs) = 2 * length bs"
  by (induction bs) (simp_all add: to_hex_Cons)

lemma nth_to_hex: "i < length bs \<Longrightarrow> to_hex bs ! (2 * i) = hex_digit (unat (bs ! i) div 16) \<and> to_hex bs ! (2 * i + 1) = hex_digit (unat (bs ! i) mod 16)"
proof (induction bs arbitrary: i)
  case (Cons b bs)
  then show ?case by (cases i) (simp_all add: to_hex_Cons)
qed simp

lemma hex_digit_not_space: "d < 16 \<Longrightarrow> \<not> is_space (hex_digit d) \<and> hex_digit d \<noteq> CHR ''\<newline>'' \<and> hex_digit d \<noteq> CHR 0x0D"
proof -
  assume d: "d < 16"
  have s: "\<not> is_space c" if "to_digit 16 c \<noteq> None" for c
  proof
    assume "is_space c"
    then have "(of_char c :: nat) = 32 \<or> (9 \<le> (of_char c :: nat) \<and> (of_char c :: nat) \<le> 13)" by (auto simp: is_space_def)
    with that show False unfolding to_digit_def of_char_to_lower by (auto simp: Let_def split: if_splits)
  qed
  have "is_space CHR ''\<newline>''" "is_space CHR 0x0D" by (simp_all add: is_space_def)
  with s [of "hex_digit d"] to_digit_hex [OF d] show ?thesis by auto
qed

lemma to_hex_chars: "c \<in> set (to_hex bs) \<Longrightarrow> \<not> is_space c \<and> c \<noteq> CHR ''\<newline>'' \<and> c \<noteq> CHR 0x0D"
proof (induction bs)
  case (Cons b bs)
  have "unat b mod 16 < 16" by simp
  with Cons hex_digit_not_space byte_nibbles(3) [of b] show ?case by (auto simp: to_hex_Cons)
qed simp

lemma trim_no_space: "(\<And>c. c \<in> set s \<Longrightarrow> \<not> is_space c) \<Longrightarrow> trim s = s"
proof -
  assume a: "\<And>c. c \<in> set s \<Longrightarrow> \<not> is_space c"
  have "dropWhile is_space s = s" "dropWhile is_space (rev s) = rev s"
    unfolding dropWhile_eq_self_iff using a hd_in_set [of s] hd_in_set [of "rev s"] by auto
  then show ?thesis by (simp add: trim_def)
qed

lemma from_to_hex: "length m = 32 \<Longrightarrow> from_hex (to_hex m) = Some m"
proof -
  assume m: "length m = 32"
  have t: "trim (to_hex m) = to_hex m" using to_hex_chars by (intro trim_no_space) blast
  have "(case to_digit 16 (to_hex m ! (2 * i)) of None \<Rightarrow> None
      | Some hi \<Rightarrow> (case to_digit 16 (to_hex m ! (2 * i + 1)) of None \<Rightarrow> None
          | Some lo \<Rightarrow> Some (of_nat (hi * 16 + lo) :: u8))) = Some (m ! i)" if "i < 32" for i
  proof -
    have "of_nat (unat (m ! i) div 16 * 16 + unat (m ! i) mod 16) = m ! i" by (simp only: div_mult_mod_eq) simp
    then show ?thesis using nth_to_hex [of i m] that m byte_nibbles(3) [of "m ! i"] by (simp add: to_digit_hex)
  qed
  then have e: "map (\<lambda>i. case to_digit 16 (to_hex m ! (2 * i)) of None \<Rightarrow> None
      | Some hi \<Rightarrow> (case to_digit 16 (to_hex m ! (2 * i + 1)) of None \<Rightarrow> None
          | Some lo \<Rightarrow> Some (of_nat (hi * 16 + lo) :: u8))) [0..<32] = map (\<lambda>i. Some (m ! i)) [0..<32]"
    by (intro map_cong) auto
  have o: "those (map (\<lambda>i. Some (m ! i)) [0..<32]) = Some m"
  proof -
    have "those (map Some xs) = Some xs" for xs :: "u8 list" by (induction xs) simp_all
    moreover have "map (\<lambda>i. Some (m ! i)) [0..<32] = map Some m" using m map_nth [of m] by (metis comp_apply list.map_comp map_cong)
    ultimately show ?thesis by simp
  qed
  show ?thesis unfolding from_hex_def Let_def t length_to_hex m e o by simp
qed

section \<open>What verification accepts\<close>

fun macs :: "(u8 list \<Rightarrow> u8 list) \<Rightarrow> u8 list \<Rightarrow> u8 list \<Rightarrow> string list \<Rightarrow> u8 list list" where
  "macs sha key prev [] = []"
| "macs sha key prev (l # ls) = (let m = hmac_sha256 sha key [prev, as_bytes l] in m # macs sha key m ls)"

lemma length_macs [simp]: "length (macs sha key prev ls) = length ls"
  by (induction ls arbitrary: prev) (simp_all add: Let_def)

lemma macs_snoc: "macs sha key prev (ls @ [l]) = macs sha key prev ls
    @ [hmac_sha256 sha key [last (prev # macs sha key prev ls), as_bytes l]]"
  by (induction ls arbitrary: prev) (simp_all add: Let_def)

lemma nth_macs: "i < length ls \<Longrightarrow> macs sha key prev ls ! i = hmac_sha256 sha key [(prev # macs sha key prev ls) ! i, as_bytes (ls ! i)]"
proof (induction ls arbitrary: prev i)
  case (Cons l ls)
  then show ?case by (cases i) (simp_all add: Let_def)
qed simp

lemma verify_from_None:
  "length ls = length cs \<Longrightarrow> verify_from sha key i prev (zip ls cs) = None \<longleftrightarrow> map from_hex cs = map Some (macs sha key prev ls)"
  by (induction ls cs arbitrary: i prev rule: list_induct2) (auto simp: Let_def split: option.split)

lemma verify_from_not_ok: "verify_from sha key i prev ps \<noteq> Some (ChainOk n)"
  by (induction sha key i prev ps rule: verify_from.induct) (auto simp: Let_def split: option.split)

lemma verify_ok_iff:
  "verify_audit_chain sha j c key = ChainOk n \<longleftrightarrow> length (lines j) = n \<and> map from_hex (lines c) = map Some (macs sha key genesis (lines j))"
proof (cases "length (lines j) = length (lines c)")
  case True
  then show ?thesis using verify_from_None [OF True, of sha key 0 genesis] verify_from_not_ok [of sha key 0 genesis "zip (lines j) (lines c)"]
    by (auto simp: verify_audit_chain_def Let_def split: option.split)
next
  case False
  then show ?thesis by (auto simp: verify_audit_chain_def Let_def dest: map_eq_imp_length_eq)
qed

section \<open>Tampering without the key\<close>

lemma as_bytes_inj: "as_bytes a = as_bytes b \<longleftrightarrow> a = b"
proof -
  have "inj (of_char :: char \<Rightarrow> u8)" using of_char_byte_inj by (intro injI) blast
  then show ?thesis by (auto simp: as_bytes_def dest: map_injective)
qed

lemma macs_lengths: "(\<And>x. length (sha x) = 32) \<Longrightarrow> m \<in> set (macs sha key prev ls) \<Longrightarrow> length m = 32"
  by (induction ls arbitrary: prev) (auto simp: Let_def hmac_sha256_def)

text \<open>All that is hashed while the MACs of a log are computed.\<close>

definition chain_inputs :: "(u8 list \<Rightarrow> u8 list) \<Rightarrow> u8 list \<Rightarrow> string list \<Rightarrow> u8 list set" where
  "chain_inputs sha key ls = (\<Union>i<length ls. hmac_inputs sha key ((genesis # macs sha key genesis ls) ! i @ as_bytes (ls ! i)))"

lemma macs_step_inj:
  assumes inj: "inj_on sha A" and sub: "chain_inputs sha key ls \<subseteq> A" "chain_inputs sha key ks \<subseteq> A"
    and len: "\<And>x. length (sha x) = 32"
    and i: "i < length ls" and j: "j < length ks" and e: "macs sha key genesis ls ! i = macs sha key genesis ks ! j"
  shows "(genesis # macs sha key genesis ls) ! i = (genesis # macs sha key genesis ks) ! j \<and> ls ! i = ks ! j"
proof -
  have "length ((genesis # macs sha key genesis us) ! n) = 32" if "n < length us" for us n
  proof (cases n)
    case (Suc m)
    then have "macs sha key genesis us ! m \<in> set (macs sha key genesis us)" using that by (intro nth_mem) simp
    with Suc macs_lengths [of sha, OF len] show ?thesis by simp
  qed (simp add: genesis_def)
  then have l: "length ((genesis # macs sha key genesis ls) ! i) = length ((genesis # macs sha key genesis ks) ! j)"
    using i j by simp
  let ?p = "(genesis # macs sha key genesis ls) ! i @ as_bytes (ls ! i)"
  let ?q = "(genesis # macs sha key genesis ks) ! j @ as_bytes (ks ! j)"
  have one: "hmac_sha256 sha key [x, y] = hmac_sha256 sha key [x @ y]" for x y by (simp add: hmac_sha256_def Let_def)
  have "hmac_inputs sha key ?p \<union> hmac_inputs sha key ?q \<subseteq> A" using sub i j unfolding chain_inputs_def by blast
  moreover have "hmac_sha256 sha key [?p] = hmac_sha256 sha key [?q]" using e i j by (simp only: nth_macs one)
  ultimately have "?p = ?q" using inj by (intro hmac_inj_on [of sha key ?p ?q]) (rule inj_on_subset)
  with l show ?thesis by (simp add: as_bytes_inj)
qed

lemma macs_distinct:
  assumes inj: "inj_on sha A" and sub: "chain_inputs sha key ls \<subseteq> A" and len: "\<And>x. length (sha x) = 32"
    and g: "genesis \<notin> set (macs sha key genesis ls)"
  shows "i < j \<Longrightarrow> j < length ls \<Longrightarrow> macs sha key genesis ls ! i \<noteq> macs sha key genesis ls ! j"
proof (induction i arbitrary: j)
  case 0
  show ?case
  proof
    assume "macs sha key genesis ls ! 0 = macs sha key genesis ls ! j"
    with 0 have "macs sha key genesis ls ! (j - 1) = genesis" using macs_step_inj [OF inj sub sub len, of 0 j] by (cases ls) (auto simp: nth_Cons')
    moreover have "macs sha key genesis ls ! (j - 1) \<in> set (macs sha key genesis ls)" using 0 by (intro nth_mem) simp
    ultimately show False using g by simp
  qed
next
  case (Suc i)
  show ?case
  proof
    assume "macs sha key genesis ls ! Suc i = macs sha key genesis ls ! j"
    with Suc.prems macs_step_inj [OF inj sub sub len, of "Suc i" j] have "macs sha key genesis ls ! i = macs sha key genesis ls ! (j - 1)"
      by (simp add: nth_Cons')
    moreover have "i < j - 1" "j - 1 < length ls" using Suc.prems by auto
    ultimately show False using Suc.IH by blast
  qed
qed

lemma known_macs_prefix:
  assumes inj: "inj_on sha (chain_inputs sha key ls \<union> chain_inputs sha key ls')" and len: "\<And>x. length (sha x) = 32"
    and g: "genesis \<notin> set (macs sha key genesis ls)"
    and sub: "set (macs sha key genesis ls') \<subseteq> set (macs sha key genesis ls)"
  shows "ls' = take (length ls') ls"
proof -
  let ?M = "macs sha key genesis ls" and ?M' = "macs sha key genesis ls'"
  note step = macs_step_inj [OF inj Un_upper2 Un_upper1 len]
  note distinct = macs_distinct [OF inj Un_upper1 len g]
  have same: "i < length ls \<and> ?M' ! i = ?M ! i \<and> ls' ! i = ls ! i" if "i < length ls'" for i
    using that
  proof (induction i)
    case 0
    then have "?M' ! 0 \<in> set ?M" using sub nth_mem [of 0 ?M'] by auto
    then obtain j where j: "j < length ls" "?M' ! 0 = ?M ! j" by (auto simp: in_set_conv_nth)
    from step [OF 0 j] have s: "(genesis # ?M) ! j = genesis" "ls' ! 0 = ls ! j" by simp_all
    have "j = 0"
    proof (rule ccontr)
      assume "j \<noteq> 0"
      with s(1) have "?M ! (j - 1) = genesis" by (simp add: nth_Cons')
      moreover have "?M ! (j - 1) \<in> set ?M" using j(1) by (intro nth_mem) simp
      ultimately show False using g by simp
    qed
    with j s show ?case by simp
  next
    case (Suc i)
    then have IH: "i < length ls" "?M' ! i = ?M ! i" by auto
    from Suc.prems have "?M' ! Suc i \<in> set ?M" using sub nth_mem [of "Suc i" ?M'] by auto
    then obtain j where j: "j < length ls" "?M' ! Suc i = ?M ! j" by (auto simp: in_set_conv_nth)
    from step [OF Suc.prems j] IH have s: "(genesis # ?M) ! j = ?M ! i" "ls' ! Suc i = ls ! j" by simp_all
    have "j = Suc i"
    proof (cases j)
      case 0
      with s(1) g nth_mem [of i ?M] IH(1) show ?thesis by simp
    next
      case (Suc k)
      with s(1) have "?M ! k = ?M ! i" by simp
      with distinct [of k i] distinct [of i k] Suc j(1) IH(1) have "k = i" by (metis Suc_lessD linorder_neqE_nat)
      with Suc show ?thesis by simp
    qed
    with j s show ?case by simp
  qed
  then have "length ls' \<le> length ls" by (metis (no_types) less_irrefl not_le)
  then show ?thesis using same by (intro nth_equalityI) simp_all
qed

text \<open>C21: whoever changes the log and its sidecar without the key, having only the MACs recorded in them to write
  into the new sidecar, can at best cut entries off the end: a forged pair that verifies holds the first lines of the
  log, unchanged and in order, or else among the texts hashed when the two logs are verified, four at most for each
  pair of lines, are two different ones with the same hash. The hash gives 32 bytes, and no recorded MAC is the
  starting value of zeros.\<close>

theorem audit_chain_tamper_evident:
  assumes "verify_audit_chain sha log chain key = ChainOk n"
    and "verify_audit_chain sha log' chain' key = ChainOk n'"
    and "set (map from_hex (lines chain')) \<subseteq> set (map from_hex (lines chain))"
    and "Some genesis \<notin> set (map from_hex (lines chain))"
    and "\<And>x. length (sha x) = 32"
  shows "(n' \<le> n \<and> lines log' = take n' (lines log))
    \<or> collision_in sha (chain_inputs sha key (lines log) \<union> chain_inputs sha key (lines log'))"
proof (cases "collision_in sha (chain_inputs sha key (lines log) \<union> chain_inputs sha key (lines log'))")
  case False
  then have inj: "inj_on sha (chain_inputs sha key (lines log) \<union> chain_inputs sha key (lines log'))" unfolding no_collision .
  from assms(1,2) have v: "length (lines log) = n" "map from_hex (lines chain) = map Some (macs sha key genesis (lines log))"
    "length (lines log') = n'" "map from_hex (lines chain') = map Some (macs sha key genesis (lines log'))"
    unfolding verify_ok_iff by simp_all
  from assms(3) have "set (macs sha key genesis (lines log')) \<subseteq> set (macs sha key genesis (lines log))"
    unfolding v(2,4) by auto
  moreover from assms(4) have "genesis \<notin> set (macs sha key genesis (lines log))" unfolding v(2) by auto
  ultimately have p: "lines log' = take n' (lines log)" using known_macs_prefix [OF inj assms(5)] v(3) by metis
  then have "length (lines log') \<le> length (lines log)" by (metis length_take min.cobounded1)
  with v p show ?thesis by simp
qed blast

text \<open>There are finitely many of them, so the second case says something of a hash of fixed length too.\<close>

lemma chain_inputs_bound: "finite (chain_inputs sha key ls) \<and> card (chain_inputs sha key ls) \<le> 2 * length ls"
proof -
  have "card (hmac_inputs sha key m) \<le> 2" for m by (simp add: hmac_inputs_def Let_def card_insert_if)
  then have "card (chain_inputs sha key ls) \<le> (\<Sum>i<length ls. 2)"
    unfolding chain_inputs_def by (intro order_trans [OF card_UN_le sum_mono]) simp_all
  then show ?thesis by (simp add: chain_inputs_def hmac_inputs_def Let_def)
qed

section \<open>Texts of lines\<close>

definition text_of :: "string list \<Rightarrow> string" where
  "text_of ls = concat (map (\<lambda>l. l @ [CHR ''\<newline>'']) ls)"

definition one_line :: "string \<Rightarrow> bool" where
  "one_line l \<longleftrightarrow> CHR ''\<newline>'' \<notin> set l \<and> (l = [] \<or> last l \<noteq> CHR 0x0D)"

lemma text_of_snoc: "text_of ls @ l @ [CHR ''\<newline>''] = text_of (ls @ [l])"
  by (simp add: text_of_def)

lemma lines_text_of: "list_all one_line ls \<Longrightarrow> lines (text_of ls) = ls"
proof -
  assume a: "list_all one_line ls"
  then have "split_on CHR ''\<newline>'' (text_of ls) = ls @ [[]]"
    by (induction ls) (auto simp: text_of_def one_line_def)
  moreover from a have "map strip_cr ls = ls" by (intro map_idI) (auto simp: list_all_iff one_line_def strip_cr_def)
  ultimately show ?thesis by (simp add: lines_def Let_def)
qed

lemma one_line_hex: "one_line (to_hex m)"
  using to_hex_chars last_in_set unfolding one_line_def by blast

text \<open>Truncation of log and sidecar together is not detected: every prefix of the two files verifies.\<close>

lemma macs_append: "macs sha key prev (ls @ ks) = macs sha key prev ls @ macs sha key (last (prev # macs sha key prev ls)) ks"
  by (induction ls arbitrary: prev) (simp_all add: Let_def)

lemma macs_take: "macs sha key prev (take k ls) = take k (macs sha key prev ls)"
  by (metis append_take_drop_id append_eq_conv_conj length_macs macs_append length_take min.commute take_take append_same_eq)

lemma joint_truncation_passes:
  assumes "list_all one_line ls" "list_all one_line cs" "verify_audit_chain sha (text_of ls) (text_of cs) key = ChainOk n"
  shows "verify_audit_chain sha (text_of (take k ls)) (text_of (take k cs)) key = ChainOk (min k n)"
proof -
  have t: "list_all one_line (take k ls)" "list_all one_line (take k cs)"
    using assms(1,2) by (auto simp: list_all_iff dest: in_set_takeD)
  from assms(3) show ?thesis
    unfolding verify_ok_iff lines_text_of [OF assms(1)] lines_text_of [OF assms(2)] lines_text_of [OF t(1)] lines_text_of [OF t(2)]
    by (simp add: macs_take take_map [symmetric] min.commute)
qed

section \<open>Sessions of the process\<close>

text \<open>A process opens the log and its sidecar, pushes entries whose writes succeed, and ends; the next one opens what
  it left.\<close>

definition audit_session :: "(u8 list \<Rightarrow> u8 list) \<Rightarrow> ('e \<Rightarrow> string option) \<Rightarrow> u8 list \<Rightarrow> 'e list \<Rightarrow> string option \<times> string option \<Rightarrow> string option \<times> string option" where
  "audit_session sha to_json key es files =
     (let s = sink (fold (audit_push sha to_json Written Written) es (with_file_hmac (fst files) (snd files) key)) in
      (file_sink s, map_option chain_file (integrity s)))"

definition chained :: "(u8 list \<Rightarrow> u8 list) \<Rightarrow> u8 list \<Rightarrow> string list \<Rightarrow> AuditSink \<Rightarrow> bool" where
  "chained sha key ls s \<longleftrightarrow> s = \<lparr>file_sink = Some (text_of ls), sink_failed = False,
     integrity = Some \<lparr>chain_file = text_of (map to_hex (macs sha key genesis ls)), chain_key = key,
       chain_prev = last (genesis # macs sha key genesis ls)\<rparr>\<rparr>"

lemma chained_push:
  assumes "chained sha key ls s"
  shows "chained sha key (ls @ (case to_json e of Some l \<Rightarrow> [l] | None \<Rightarrow> [])) (write_entry sha to_json Written Written e s)"
  using assms by (simp add: chained_def write_entry_def extend_chain_def macs_snoc text_of_def Let_def split: option.split)

lemma chained_pushes:
  "chained sha key ls (sink l) \<Longrightarrow> chained sha key (ls @ List.map_filter to_json es) (sink (fold (audit_push sha to_json Written Written) es l))"
proof (induction es arbitrary: ls l)
  case (Cons e es)
  from Cons.IH [of "ls @ (case to_json e of Some l \<Rightarrow> [l] | None \<Rightarrow> [])" "audit_push sha to_json Written Written e l"]
    chained_push [OF Cons.prems, of to_json e]
  show ?case by (cases "to_json e") (simp_all add: audit_push_def List.map_filter_simps)
qed (simp add: List.map_filter_simps)

lemma resumed_mac:
  assumes "\<And>x. length (sha x) = 32"
  shows "read_last_chain_mac (Some (text_of (map to_hex (macs sha key genesis ls)))) = last (genesis # macs sha key genesis ls)"
proof -
  let ?M = "macs sha key genesis ls"
  have h: "trim (to_hex m) \<noteq> []" if "m \<in> set ?M" for m
    using macs_lengths [of sha, OF assms that] to_hex_chars by (subst trim_no_space) auto
  have "list_all one_line (map to_hex ?M)" using one_line_hex by (auto simp: list_all_iff)
  then have f: "filter (\<lambda>l. trim l \<noteq> []) (lines (text_of (map to_hex ?M))) = map to_hex ?M"
    using h by (auto simp: lines_text_of filter_id_conv)
  show ?thesis
  proof (cases ?M)
    case Nil
    then show ?thesis using f by (simp add: read_last_chain_mac_def)
  next
    case (Cons m ms)
    then have e: "map to_hex ?M = to_hex m # map to_hex ms" by simp
    have l: "last (to_hex m # map to_hex ms) = to_hex (last ?M)" using last_map [of ?M to_hex] Cons by (simp only: e) simp
    have ne: "?M \<noteq> []" unfolding Cons by simp
    have "from_hex (to_hex (last ?M)) = Some (last ?M)"
      by (rule from_to_hex [OF macs_lengths [of sha, OF assms last_in_set [OF ne]]])
    then show ?thesis unfolding read_last_chain_mac_def option.case f unfolding e list.case l by (simp add: Cons)
  qed
qed

lemma sessions_chained:
  assumes "\<And>x. length (sha x) = 32"
  shows "fold (audit_session sha to_json key) ess (None, None) = (None, None) \<and> ess = []
    \<or> (let ls = List.map_filter to_json (concat ess) in
       fold (audit_session sha to_json key) ess (None, None) = (Some (text_of ls), Some (text_of (map to_hex (macs sha key genesis ls)))))"
proof (induction ess rule: rev_induct)
  case (snoc es ess)
  define f where "f = fold (audit_session sha to_json key) ess (None, None)"
  note snoc = snoc [folded f_def]
  let ?ls = "List.map_filter to_json (concat ess)"
  have mf: "List.map_filter to_json (xs @ ys) = List.map_filter to_json xs @ List.map_filter to_json ys" for xs ys
    by (simp add: List.map_filter_def)
  have "chained sha key ?ls (sink (with_file_hmac (fst f) (snd f) key))"
  proof (cases "ess = []")
    case True
    then show ?thesis by (simp add: f_def) (simp add: with_file_hmac_def chained_def opened_def read_last_chain_mac_def text_of_def List.map_filter_simps)
  next
    case False
    with snoc have "f = (Some (text_of ?ls), Some (text_of (map to_hex (macs sha key genesis ?ls))))" by (simp add: Let_def)
    then show ?thesis using resumed_mac [of sha, OF assms] by (simp add: with_file_hmac_def chained_def opened_def)
  qed
  from chained_pushes [OF this, of to_json es]
  have "audit_session sha to_json key es f = (Some (text_of (?ls @ List.map_filter to_json es)),
      Some (text_of (map to_hex (macs sha key genesis (?ls @ List.map_filter to_json es)))))"
    by (simp add: audit_session_def chained_def)
  then show ?case by (simp add: Let_def mf f_def)
qed simp

text \<open>C22: over any number of processes that open the log one after another and write without I/O failure, the log and
  its sidecar verify under the key with as many lines as there were entries with a JSON text, and reading the log gives
  back, in order, what those texts read as. So it gives back exactly these entries when the text of each of them reads
  back as it; a text that does not read back is passed over in silence, although it is in the log and verifies. The
  comment at the write counts on the writer to refuse such an entry (\<open>unreadable_entry_lost\<close>). A JSON text is one line
  that is not blank.\<close>

theorem audit_log_roundtrip:
  assumes "\<And>x. length (sha x) = 32"
    and "\<And>e l. to_json e = Some l \<Longrightarrow> one_line l \<and> trim l \<noteq> []"
    and "ess \<noteq> []"
  shows "\<exists>log chain. fold (audit_session sha to_json key) ess (None, None) = (Some log, Some chain)
     \<and> verify_audit_chain sha log chain key = ChainOk (length (filter (\<lambda>e. to_json e \<noteq> None) (concat ess)))
     \<and> load_entries_from_text of_json log = List.map_filter (\<lambda>e. Option.bind (to_json e) of_json) (concat ess)
     \<and> ((\<forall>e\<in>set (concat ess). \<forall>l. to_json e = Some l \<longrightarrow> of_json l = Some e) \<longrightarrow>
          load_entries_from_text of_json log = filter (\<lambda>e. to_json e \<noteq> None) (concat ess))"
proof -
  let ?ls = "List.map_filter to_json (concat ess)"
  have ls: "list_all one_line ?ls" "\<And>l. l \<in> set ?ls \<Longrightarrow> trim l \<noteq> []"
    using assms(2) by (auto simp: List.map_filter_def list_all_iff)
  have hx: "list_all one_line (map to_hex (macs sha key genesis ?ls))" using one_line_hex by (auto simp: list_all_iff)
  have len: "length (List.map_filter to_json es) = length (filter (\<lambda>e. to_json e \<noteq> None) es)"
    and read: "List.map_filter of_json (List.map_filter to_json es) = List.map_filter (\<lambda>e. Option.bind (to_json e) of_json) es"
    and inv: "(\<forall>e\<in>set es. \<forall>l. to_json e = Some l \<longrightarrow> of_json l = Some e) \<Longrightarrow>
      List.map_filter (\<lambda>e. Option.bind (to_json e) of_json) es = filter (\<lambda>e. to_json e \<noteq> None) es" for es
    by (induction es) (auto simp: List.map_filter_simps split: option.splits bind_splits)
  have "map from_hex (map to_hex (macs sha key genesis ?ls)) = map Some (macs sha key genesis ?ls)"
    using macs_lengths [of sha, OF assms(1)] from_to_hex by (auto simp: comp_def)
  then have "verify_audit_chain sha (text_of ?ls) (text_of (map to_hex (macs sha key genesis ?ls))) key = ChainOk (length ?ls)"
    unfolding verify_ok_iff lines_text_of [OF ls(1)] lines_text_of [OF hx] by simp
  moreover have "filter (\<lambda>l. trim l \<noteq> []) ?ls = ?ls" using ls(2) by (simp add: filter_id_conv)
  then have "load_entries_from_text of_json (text_of ?ls) = List.map_filter (\<lambda>e. Option.bind (to_json e) of_json) (concat ess)"
    by (simp add: load_entries_from_text_def lines_text_of [OF ls(1)] read)
  ultimately show ?thesis
    using sessions_chained [of sha to_json key ess, OF assms(1)] assms(3) inv [of "concat ess"] by (auto simp: Let_def len)
qed

text \<open>An entry whose text does not read back is written, verifies, and is not among the entries read. The writer of the
  source's JSON library spells a float that is infinite or no number as null, which does not read back as a float.\<close>

lemma unreadable_entry_lost:
  assumes "\<And>x. length (sha x) = 32" and "to_json e = Some l" "of_json l = None" "one_line l" "trim l \<noteq> []"
  shows "\<exists>log chain. audit_session sha to_json key [e] (None, None) = (Some log, Some chain)
     \<and> verify_audit_chain sha log chain key = ChainOk 1 \<and> load_entries_from_text of_json log = []"
proof -
  have "fold (audit_session sha to_json key) [[e]] (None, None) = (Some (text_of [l]), Some (text_of (map to_hex (macs sha key genesis [l]))))"
    using sessions_chained [of sha to_json key "[[e]]", OF assms(1)] by (simp add: assms(2) List.map_filter_simps Let_def)
  then have a: "audit_session sha to_json key [e] (None, None) = (Some (text_of [l]), Some (text_of (map to_hex (macs sha key genesis [l]))))"
    by simp
  have ls: "list_all one_line [l]" using assms(4) by simp
  have hx: "list_all one_line (map to_hex (macs sha key genesis [l]))" by (simp add: one_line_hex Let_def)
  have "map from_hex (map to_hex (macs sha key genesis [l])) = map Some (macs sha key genesis [l])"
    using macs_lengths [of sha, OF assms(1)] from_to_hex by (auto simp del: macs.simps)
  then have "verify_audit_chain sha (text_of [l]) (text_of (map to_hex (macs sha key genesis [l]))) key = ChainOk 1"
    unfolding verify_ok_iff lines_text_of [OF ls] lines_text_of [OF hx] by simp
  moreover have "load_entries_from_text of_json (text_of [l]) = []"
    using assms(3,5) by (simp add: load_entries_from_text_def lines_text_of [OF ls] List.map_filter_simps)
  ultimately show ?thesis using a by blast
qed

lemma audit_log_roundtrip_witness:
  "\<exists>sha to_json of_json key log chain. fold (audit_session sha to_json key) [[True], [False, True]] (None, None) = (Some log, Some chain)
     \<and> verify_audit_chain sha log chain key = ChainOk 3 \<and> load_entries_from_text of_json log = [True, False, True]"
proof -
  let ?sha = "\<lambda>_ :: u8 list. replicate 32 (1 :: u8)"
  let ?j = "\<lambda>b. Some (if b then ''t'' else ''f'')" and ?o = "\<lambda>s. if s = ''t'' then Some True else if s = ''f'' then Some False else None"
  let ?ess = "[[True], [False, True]]"
  have "\<exists>log chain. fold (audit_session ?sha ?j [7]) ?ess (None, None) = (Some log, Some chain)
     \<and> verify_audit_chain ?sha log chain [7] = ChainOk (length (filter (\<lambda>e. ?j e \<noteq> None) (concat ?ess)))
     \<and> load_entries_from_text ?o log = List.map_filter (\<lambda>e. Option.bind (?j e) ?o) (concat ?ess)
     \<and> ((\<forall>e\<in>set (concat ?ess). \<forall>l. ?j e = Some l \<longrightarrow> ?o l = Some e) \<longrightarrow>
          load_entries_from_text ?o log = filter (\<lambda>e. ?j e \<noteq> None) (concat ?ess))"
    by (rule audit_log_roundtrip) (auto simp: one_line_def trim_def is_space_def split: if_splits)
  then obtain log chain where "fold (audit_session ?sha ?j [7]) ?ess (None, None) = (Some log, Some chain)"
     "verify_audit_chain ?sha log chain [7] = ChainOk 3" "load_entries_from_text ?o log = [True, False, True]" by auto
  then show ?thesis by blast
qed

lemma audit_chain_tamper_evident_witness:
  "\<exists>sha key log chain log' chain'. verify_audit_chain sha log chain key = ChainOk 2 \<and> verify_audit_chain sha log' chain' key = ChainOk 1
     \<and> set (map from_hex (lines chain')) \<subseteq> set (map from_hex (lines chain))
     \<and> lines log' = [''a''] \<and> lines log = [''a'', ''b'']
     \<and> ((1 :: nat) \<le> 2 \<and> lines log' = take 1 (lines log)
        \<or> collision_in sha (chain_inputs sha key (lines log) \<union> chain_inputs sha key (lines log')))"
proof -
  let ?sha = "\<lambda>_ :: u8 list. replicate 32 (1 :: u8)"
  let ?log = "text_of [''a'', ''b'']" and ?log' = "text_of [''a'']"
  have m: "macs ?sha [7] genesis [''a'', ''b''] = [replicate 32 1, replicate 32 1]" "macs ?sha [7] genesis [''a''] = [replicate 32 1]"
    by (simp_all add: Let_def hmac_sha256_def)
  let ?m = "to_hex (replicate 32 1)"
  define c c' where "c = text_of [?m, ?m]" and "c' = text_of [?m]"
  have "list_all one_line [?m, ?m]" "list_all one_line [?m]" by (simp_all add: one_line_hex)
  then have ch: "lines c = [?m, ?m]" "lines c' = [?m]" unfolding c_def c'_def by (simp_all only: lines_text_of)
  have "list_all one_line [''a'', ''b'']" "list_all one_line [''a'']" by (simp_all add: one_line_def)
  then have l: "lines ?log = [''a'', ''b'']" "lines ?log' = [''a'']" by (simp_all only: lines_text_of)
  have fh: "from_hex ?m = Some (replicate 32 1)" by (intro from_to_hex) simp
  have v: "verify_audit_chain ?sha ?log c [7] = ChainOk 2" "verify_audit_chain ?sha ?log' c' [7] = ChainOk 1"
    unfolding verify_ok_iff l m ch list.map fh by simp_all
  have s: "set (map from_hex (lines c')) \<subseteq> set (map from_hex (lines c))" unfolding ch by simp
  have "genesis \<noteq> replicate 32 1" by (simp add: genesis_def)
  then have g: "Some genesis \<notin> set (map from_hex (lines c))" unfolding ch list.map fh by simp
  have "(1 :: nat) \<le> 2 \<and> lines ?log' = take 1 (lines ?log)
      \<or> collision_in ?sha (chain_inputs ?sha [7] (lines ?log) \<union> chain_inputs ?sha [7] (lines ?log'))"
    by (rule audit_chain_tamper_evident [OF v s g]) simp
  with v s l show ?thesis
    by (intro exI [of _ ?sha] exI [of _ "[7]"] exI [of _ ?log] exI [of _ c] exI [of _ ?log'] exI [of _ c']) simp
qed

section \<open>The ring in memory\<close>

lemma ring_step:
  fixes n :: usize
  assumes "suffix r all" "unat n + unat (max (n div 8) 1) < 2 ^ 64"
    and "0 < n \<longrightarrow> length r < unat n + unat (max (n div 8) 1) \<and> min (unat n) (length all) \<le> length r" "n = 0 \<longrightarrow> r = all"
  shows "suffix (bound_ring n (r @ [e])) (all @ [e])"
    and "0 < n \<longrightarrow> length (bound_ring n (r @ [e])) < unat n + unat (max (n div 8) 1) \<and> min (unat n) (length (all @ [e])) \<le> length (bound_ring n (r @ [e]))"
    and "n = 0 \<longrightarrow> bound_ring n (r @ [e]) = all @ [e]"
proof -
  have sum: "unat (n + max (n div 8) 1) = unat n + unat (max (n div 8) 1)" using assms(2) by (simp add: unat_add_exact)
  have pos: "0 < unat (max (n div 8) 1)" by (simp add: uint_simps)
  have "suffix (r @ [e]) (all @ [e])" using assms(1) by (auto simp: suffix_def)
  moreover have "suffix (bound_ring n (r @ [e])) (r @ [e])"
    unfolding bound_ring_def Let_def by (simp only: suffix_drop suffix_order.refl split: if_split) blast
  ultimately show "suffix (bound_ring n (r @ [e])) (all @ [e])" by (rule suffix_order.trans [rotated])
  show "0 < n \<longrightarrow> length (bound_ring n (r @ [e])) < unat n + unat (max (n div 8) 1) \<and> min (unat n) (length (all @ [e])) \<le> length (bound_ring n (r @ [e]))"
    using assms(3) pos by (auto simp: bound_ring_def Let_def sum)
  show "n = 0 \<longrightarrow> bound_ring n (r @ [e]) = all @ [e]" using assms(4) by (simp add: bound_ring_def)
qed

text \<open>C40: whatever the files do, the ring in memory holds the most recent entries in order: all of them without a cap,
  else at least as many as the cap while there are so many, and fewer than the cap and its slack of one eighth.\<close>

theorem audit_ring_bounded:
  fixes n :: usize
  assumes "unat n + unat (max (n div 8) 1) < 2 ^ 64"
    and "entries l = []" and "max_entries l = n"
    and "r = entries (fold (\<lambda>(io, chain_io, e). audit_push sha to_json io chain_io e) pushes l)"
  shows "suffix r (map (\<lambda>(_, _, e). e) pushes)
     \<and> (if n = 0 then r = map (\<lambda>(_, _, e). e) pushes
        else min (unat n) (length pushes) \<le> length r \<and> length r < unat n + unat (max (n div 8) 1))"
proof -
  let ?l = "fold (\<lambda>(io, chain_io, e). audit_push sha to_json io chain_io e) pushes l"
  let ?all = "map (\<lambda>(_, _, e). e) pushes"
  have "max_entries ?l = n \<and> suffix (entries ?l) ?all
      \<and> (0 < n \<longrightarrow> length (entries ?l) < unat n + unat (max (n div 8) 1) \<and> min (unat n) (length ?all) \<le> length (entries ?l))
      \<and> (n = 0 \<longrightarrow> entries ?l = ?all)"
  proof (induction pushes rule: rev_induct)
    case Nil
    have "0 < unat (max (n div 8) 1)" by (simp add: uint_simps)
    with assms(2,3) show ?case by simp
  next
    case (snoc x pushes)
    obtain io chain_io e where x: "x = (io, chain_io, e)" by (metis prod_cases3)
    let ?m = "fold (\<lambda>(io, chain_io, e). audit_push sha to_json io chain_io e) pushes l"
    from snoc have r: "suffix (entries ?m) (map (\<lambda>(_, _, e). e) pushes)"
      "0 < n \<longrightarrow> length (entries ?m) < unat n + unat (max (n div 8) 1) \<and> min (unat n) (length (map (\<lambda>(_, _, e). e) pushes)) \<le> length (entries ?m)"
      "n = 0 \<longrightarrow> entries ?m = map (\<lambda>(_, _, e). e) pushes" and n: "max_entries ?m = n" by blast+
    have p: "entries (audit_push sha to_json io chain_io e ?m) = bound_ring n (entries ?m @ [e])"
      "max_entries (audit_push sha to_json io chain_io e ?m) = n" by (simp_all add: audit_push_def n)
    show ?case using ring_step [OF r(1) assms(1) r(2,3), of e] by (simp add: x p)
  qed
  then show ?thesis using assms(4) by (simp add: word_gt_0)
qed

lemma audit_ring_bounded_witness:
  "entries (fold (\<lambda>(io, chain_io, e). audit_push (\<lambda>x. x) (\<lambda>_. None) io chain_io e)
      [(Written, Written, 1), (Written, Written, 2), (Written, Written, 3 :: nat)] (with_max_entries audit_new 2)) = [2, 3]"
proof -
  let ?ps = "[(Written, Written, 1), (Written, Written, 2), (Written, Written, 3 :: nat)]"
  let ?r = "entries (fold (\<lambda>(io, chain_io, e). audit_push (\<lambda>x. x) (\<lambda>_. None) io chain_io e) ?ps (with_max_entries audit_new 2))"
  have "suffix ?r [1, 2, 3] \<and> 2 \<le> length ?r \<and> length ?r < 3"
    using audit_ring_bounded [of 2 "with_max_entries audit_new 2" ?r "\<lambda>x. x" "\<lambda>_. None" ?ps]
    by (simp add: with_max_entries_def audit_new_def)
  then have "suffix ?r [1, 2, 3]" "length ?r = 2" by auto
  moreover have "r = [2, 3]" if "suffix r [1, 2, 3]" "length r = 2" for r :: "nat list"
    using that by (auto simp: suffix_def Cons_eq_append_conv)
  ultimately show ?thesis by blast
qed

section \<open>Where the file lies\<close>

text \<open>An identifier that is accepted names one directory entry below the audit directory: it has no backslash, no
  parent segment and no root; slashes and dots at its end are accepted.\<close>

lemma safe_agent_id_parts:
  assumes "safe_agent_id a"
  shows "CHR 0x5C \<notin> set a \<and> \<not> prefix ''/'' a \<and> ''..'' \<notin> set (split_on CHR ''/'' a)
    \<and> (\<exists>n. filter (\<lambda>s. s \<noteq> [] \<and> s \<noteq> ''.'') (split_on CHR ''/'' a) = [n])"
proof -
  let ?ps = "filter (\<lambda>s. s \<noteq> [] \<and> s \<noteq> ''.'') (split_on CHR ''/'' a)"
  from assms obtain n where n: "path_components a = [Normal n]" and b: "CHR 0x5C \<notin> set a"
    by (auto simp: safe_agent_id_def split: list.splits PathComponent.splits)
  then have r: "\<not> prefix ''/'' a" and m: "map (\<lambda>s. if s = ''..'' then ParentDir else Normal s) ?ps = [Normal n]"
    by (auto simp: path_components_def Let_def split: if_splits)
  from m have p: "?ps = [n]" "n \<noteq> ''..''" by (auto simp: map_eq_Cons_conv split: if_splits)
  have "''..'' \<notin> set (split_on CHR ''/'' a)"
  proof
    assume "''..'' \<in> set (split_on CHR ''/'' a)"
    then have "''..'' \<in> set ?ps" by simp
    with p show False by (metis list.set_cases set_ConsD empty_iff list.set(1))
  qed
  with b r p(1) show ?thesis by blast
qed

lemma trailing_separator_accepted: "safe_agent_id ''agent/'' \<and> safe_agent_id ''agent/.'' \<and> \<not> safe_agent_id ''../agent''"
  by (simp add: safe_agent_id_def path_components_def Let_def)

end
