(* ===== verification/Tls_Wire.thy ===== *)
theory Tls_Wire
  imports Anima_Prelude
begin

unbundle bit_operations_syntax

text \<open>
  The wire format of the TLS 1.3 code of the microVM kernel (\<^verbatim>\<open>kernels/microvm/src/tls.rs\<close>): records, handshake
  messages, the two hello messages and the parsers that find the key share in them. Every access to a byte outside
  its buffer is a panic of the program and a value of its own here, so that its absence is a theorem. The elliptic
  curve, the hash, the key derivation and the cipher are third-party crates and are arguments, collected in a record.
\<close>

section \<open>Outcomes\<close>

datatype 'a outcome = Ok 'a | Err string | Panic

primrec and_then :: "'a outcome \<Rightarrow> ('a \<Rightarrow> 'b outcome) \<Rightarrow> 'b outcome" where
  "and_then (Ok x) f = f x"
| "and_then (Err e) f = Err e"
| "and_then Panic f = Panic"

lemma and_then_cong [fundef_cong]: "m = n \<Longrightarrow> (\<And>x. n = Ok x \<Longrightarrow> f x = g x) \<Longrightarrow> and_then m f = and_then n g"
  by (cases n) simp_all

lemma and_then_Ok_iff: "and_then m f = Ok y \<longleftrightarrow> (\<exists>x. m = Ok x \<and> f x = Ok y)"
  by (cases m) simp_all

lemma and_then_no_panic: "m \<noteq> Panic \<Longrightarrow> (\<And>x. m = Ok x \<Longrightarrow> f x \<noteq> Panic) \<Longrightarrow> and_then m f \<noteq> Panic"
  by (cases m) simp_all

text \<open>\<^verbatim>\<open>ok_or\<close> and \<^verbatim>\<open>expect\<close>.\<close>

definition ok_or :: "'a option \<Rightarrow> string \<Rightarrow> 'a outcome" where
  "ok_or x e = (case x of Some v \<Rightarrow> Ok v | None \<Rightarrow> Err e)"

definition expect :: "'a option \<Rightarrow> 'a outcome" where
  "expect x = (case x of Some v \<Rightarrow> Ok v | None \<Rightarrow> Panic)"

lemma ok_or_simps [simp]: "ok_or (Some v) e = Ok v" "ok_or None e = Err e" "ok_or x e \<noteq> Panic"
  "expect (Some v) = Ok v" "expect None = Panic"
  by (simp_all add: ok_or_def expect_def split: option.split)

lemma ok_or_Ok [simp]: "ok_or x e = Ok v \<longleftrightarrow> x = Some v" "expect x = Ok v \<longleftrightarrow> x = Some v"
  by (simp_all add: ok_or_def expect_def split: option.split)

section \<open>Bytes\<close>

type_synonym bytes = "u8 list"

definition idx :: "bytes \<Rightarrow> nat \<Rightarrow> u8 outcome" where
  "idx xs i = (if i < length xs then Ok (xs ! i) else Panic)"

definition sub_slice :: "bytes \<Rightarrow> nat \<Rightarrow> nat \<Rightarrow> bytes outcome" where
  "sub_slice xs a b = (if a \<le> b \<and> b \<le> length xs then Ok (take (b - a) (drop a xs)) else Panic)"

definition u16_from_be :: "u8 \<Rightarrow> u8 \<Rightarrow> u16" where
  "u16_from_be a b = push_bit 8 (ucast a) OR ucast b"

definition u16_bytes :: "u16 \<Rightarrow> bytes" where
  "u16_bytes w = [ucast (drop_bit 8 w), ucast w]"

definition u64_bytes :: "u64 \<Rightarrow> bytes" where
  "u64_bytes w = map (\<lambda>i. ucast (drop_bit (56 - 8 * i) w)) [0..<8]"

definition read_u16 :: "bytes \<Rightarrow> nat \<Rightarrow> u16 outcome" where
  "read_u16 xs i = and_then (idx xs i) (\<lambda>a. and_then (idx xs (i + 1)) (\<lambda>b. Ok (u16_from_be a b)))"

text \<open>The bytes of a byte string literal.\<close>

definition lit :: "string \<Rightarrow> bytes" where
  "lit s = map of_char s"

section \<open>Records\<close>

definition CT_HANDSHAKE :: u8 where "CT_HANDSHAKE = 22"

definition CT_APP_DATA :: u8 where "CT_APP_DATA = 23"

definition LEGACY_VERSION :: bytes where "LEGACY_VERSION = [0x03, 0x03]"

definition TLS13_VERSION :: bytes where "TLS13_VERSION = [0x03, 0x04]"

definition CIPHER_SUITE :: bytes where "CIPHER_SUITE = [0x13, 0x01]"

definition write_record :: "bytes \<Rightarrow> u8 \<Rightarrow> bytes \<Rightarrow> bytes" where
  "write_record buf content_type payload =
     buf @ [content_type] @ LEGACY_VERSION @ u16_bytes (of_nat (length payload)) @ payload"

text \<open>The result and the position reached, which advances over the header even when the payload is short.\<close>

definition read_record :: "bytes \<Rightarrow> nat \<Rightarrow> (u8 \<times> bytes) outcome \<times> nat" where
  "read_record data pos =
     (if length data < pos + 5 then (Err ''record: not enough header bytes'', pos)
      else case and_then (idx data pos) (\<lambda>ct. and_then (read_u16 data (pos + 3)) (\<lambda>len. Ok (ct, unat len))) of
          Err e \<Rightarrow> (Err e, pos)
        | Panic \<Rightarrow> (Panic, pos)
        | Ok (ct, len) \<Rightarrow>
            (let pos = pos + 5 in
             if length data < pos + len then (Err ''record: not enough payload bytes'', pos)
             else (and_then (sub_slice data pos (pos + len)) (\<lambda>payload. Ok (ct, payload)), pos + len)))"

definition record_header :: "u8 \<Rightarrow> nat \<Rightarrow> bytes" where
  "record_header content_type payload_len =
     (let len = of_nat payload_len :: u16 in
      [content_type, LEGACY_VERSION ! 0, LEGACY_VERSION ! 1, ucast (drop_bit 8 len), ucast len])"

definition write_handshake :: "bytes \<Rightarrow> u8 \<Rightarrow> bytes \<Rightarrow> bytes" where
  "write_handshake buf msg_type body =
     (let len = of_nat (length body) :: u32 in
      buf @ [msg_type, ucast (drop_bit 16 len), ucast (drop_bit 8 len), ucast len] @ body)"

section \<open>Hello messages\<close>

text \<open>The third-party crates: \<^verbatim>\<open>sha2\<close>, \<^verbatim>\<open>hkdf\<close>, \<^verbatim>\<open>hmac\<close>, \<^verbatim>\<open>aes-gcm\<close>, \<^verbatim>\<open>p256\<close>.\<close>

record ('pk, 'esk, 'prk, 'cipher, 'sk, 'sig) crypto =
  sha256 :: "bytes \<Rightarrow> bytes"
  hkdf_extract :: "bytes \<Rightarrow> bytes \<Rightarrow> 'prk"
  hkdf_from_prk :: "bytes \<Rightarrow> 'prk option"
  hkdf_expand :: "'prk \<Rightarrow> bytes \<Rightarrow> nat \<Rightarrow> bytes option"
  hmac :: "bytes \<Rightarrow> bytes \<Rightarrow> bytes"
  aes_new :: "bytes \<Rightarrow> 'cipher option"
  aes_encrypt :: "'cipher \<Rightarrow> bytes \<Rightarrow> bytes \<Rightarrow> bytes \<Rightarrow> (bytes \<times> bytes) option"
  aes_decrypt :: "'cipher \<Rightarrow> bytes \<Rightarrow> bytes \<Rightarrow> bytes \<Rightarrow> bytes \<Rightarrow> bytes option"
  to_sec1 :: "'pk \<Rightarrow> bytes"
  from_sec1 :: "bytes \<Rightarrow> 'pk option"
  public_key :: "'esk \<Rightarrow> 'pk"
  diffie_hellman :: "'esk \<Rightarrow> 'pk \<Rightarrow> bytes"
  from_pkcs8 :: "bytes \<Rightarrow> 'sk option"
  sign :: "'sk \<Rightarrow> bytes \<Rightarrow> bytes"
  der_signature :: "bytes \<Rightarrow> 'sig option"
  verifies :: "'sk \<Rightarrow> bytes \<Rightarrow> 'sig \<Rightarrow> bool"

definition push_extension :: "bytes \<Rightarrow> u16 \<Rightarrow> bytes \<Rightarrow> bytes" where
  "push_extension buf ext_type data = buf @ u16_bytes ext_type @ u16_bytes (of_nat (length data)) @ data"

definition build_client_hello :: "('pk, 'esk, 'prk, 'cipher, 'sk, 'sig) crypto \<Rightarrow> bytes \<Rightarrow> 'pk \<Rightarrow> bytes" where
  "build_client_hello c client_random client_public_key =
     (let body = LEGACY_VERSION @ client_random @ [0x00] @ [0x00, 0x02] @ CIPHER_SUITE @ [0x01, 0x00];
          exts = push_extension [] 0x002b ([0x02] @ TLS13_VERSION);
          exts = push_extension exts 0x000a ([0x00, 0x02] @ [0x00, 0x17]);
          exts = push_extension exts 0x000d ([0x00, 0x02] @ [0x04, 0x03]);
          pk_bytes = to_sec1 c client_public_key;
          key_exchange_len = of_nat (length pk_bytes) :: u16;
          entry_len = of_nat (2 + 2 + length pk_bytes) :: u16;
          exts = push_extension exts 0x0033
            (u16_bytes entry_len @ [0x00, 0x17] @ u16_bytes key_exchange_len @ pk_bytes) in
      body @ u16_bytes (of_nat (length exts)) @ exts)"

definition build_server_hello :: "('pk, 'esk, 'prk, 'cipher, 'sk, 'sig) crypto \<Rightarrow> bytes \<Rightarrow> 'pk \<Rightarrow> bytes" where
  "build_server_hello c server_random server_public_key =
     (let body = LEGACY_VERSION @ server_random @ [0x00] @ CIPHER_SUITE @ [0x00];
          exts = push_extension [] 0x002b TLS13_VERSION;
          pk_bytes = to_sec1 c server_public_key;
          exts = push_extension exts 0x0033 ([0x00, 0x17] @ u16_bytes (of_nat (length pk_bytes)) @ pk_bytes) in
      body @ u16_bytes (of_nat (length exts)) @ exts)"

section \<open>Parsing\<close>

text \<open>The entries of a key share extension of a client, from position \<open>p\<close> on.\<close>

function client_shares :: "('pk, 'esk, 'prk, 'cipher, 'sk, 'sig) crypto \<Rightarrow> bytes \<Rightarrow> nat \<Rightarrow> nat \<Rightarrow> 'pk outcome" where
  "client_shares c ext_data list_end p =
     (if p + 4 \<le> list_end \<and> p + 4 \<le> length ext_data then
        and_then (read_u16 ext_data p) (\<lambda>group. and_then (read_u16 ext_data (p + 2)) (\<lambda>ke.
          (let ke_len = unat ke; p = p + 4 in
           if group = 0x0017 then
             (if length ext_data < p + ke_len then Err ''CH: key_share entry out of bounds''
              else and_then (sub_slice ext_data p (p + ke_len)) (\<lambda>pk_bytes.
                ok_or (from_sec1 c pk_bytes) ''CH: invalid P-256 public key''))
           else client_shares c ext_data list_end (p + ke_len))))
      else Err ''CH: no P-256 key share found'')"
  by pat_completeness auto
termination by (relation "measure (\<lambda>(c, d, e, p). e - p)") auto

definition client_key_share :: "('pk, 'esk, 'prk, 'cipher, 'sk, 'sig) crypto \<Rightarrow> bytes \<Rightarrow> 'pk outcome" where
  "client_key_share c ext_data =
     (if length ext_data < 2 then Err ''key_share: too short''
      else and_then (read_u16 ext_data 0) (\<lambda>list_len. client_shares c ext_data (2 + unat list_len) 2))"

definition server_key_share :: "('pk, 'esk, 'prk, 'cipher, 'sk, 'sig) crypto \<Rightarrow> bytes \<Rightarrow> 'pk outcome" where
  "server_key_share c ext_data =
     (if length ext_data < 4 then Err ''SH key_share: too short''
      else and_then (read_u16 ext_data 0) (\<lambda>group.
        if group \<noteq> 0x0017 then Err ''SH key_share: unexpected group (expected P-256)''
        else and_then (read_u16 ext_data 2) (\<lambda>ke.
          (let ke_len = unat ke in
           if length ext_data < 4 + ke_len then Err ''SH key_share: key bytes out of bounds''
           else and_then (sub_slice ext_data 4 (4 + ke_len)) (\<lambda>pk_bytes.
             ok_or (from_sec1 c pk_bytes) ''SH: invalid P-256 public key'')))))"

text \<open>The loop over the extensions, the same in both parsers: what is done with the key share and the two error
  texts are arguments.\<close>

function find_key_share :: "(bytes \<Rightarrow> 'pk outcome) \<Rightarrow> string \<Rightarrow> string \<Rightarrow> bytes \<Rightarrow> nat \<Rightarrow> nat \<Rightarrow> 'pk outcome" where
  "find_key_share share out_of_bounds not_found body exts_end pos =
     (if pos + 4 \<le> exts_end then
        and_then (read_u16 body pos) (\<lambda>ext_type. and_then (read_u16 body (pos + 2)) (\<lambda>el.
          (let ext_len = unat el; pos = pos + 4 in
           if length body < pos + ext_len then Err out_of_bounds
           else and_then (sub_slice body pos (pos + ext_len)) (\<lambda>ext_data.
             if ext_type = 0x0033 then share ext_data
             else find_key_share share out_of_bounds not_found body exts_end (pos + ext_len)))))
      else Err not_found)"
  by pat_completeness auto
termination by (relation "measure (\<lambda>(share, oob, nf, b, e, p). e - p)") auto

definition extract_client_key_share :: "('pk, 'esk, 'prk, 'cipher, 'sk, 'sig) crypto \<Rightarrow> bytes \<Rightarrow> 'pk outcome" where
  "extract_client_key_share c ch_body =
     (let pos = 2 + 32 in
      if length ch_body \<le> pos then Err ''CH: truncated at session_id_len''
      else and_then (idx ch_body pos) (\<lambda>sid_len. let pos = pos + 1 + unat sid_len in
        if length ch_body < pos + 2 then Err ''CH: truncated at cipher_suites_len''
        else and_then (read_u16 ch_body pos) (\<lambda>cs_len. let pos = pos + 2 + unat cs_len in
          if length ch_body \<le> pos then Err ''CH: truncated at compression_methods_len''
          else and_then (idx ch_body pos) (\<lambda>cm_len. let pos = pos + 1 + unat cm_len in
            if length ch_body < pos + 2 then Err ''CH: truncated at extensions_len''
            else and_then (read_u16 ch_body pos) (\<lambda>exts_len. let pos = pos + 2; exts_end = pos + unat exts_len in
              if length ch_body < exts_end then Err ''CH: extensions extend beyond body''
              else find_key_share (client_key_share c) ''CH: extension data out of bounds''
                     ''CH: key_share extension not found'' ch_body exts_end pos)))))"

definition extract_server_key_share :: "('pk, 'esk, 'prk, 'cipher, 'sk, 'sig) crypto \<Rightarrow> bytes \<Rightarrow> 'pk outcome" where
  "extract_server_key_share c sh_body =
     (let pos = 2 + 32 in
      if length sh_body \<le> pos then Err ''SH: truncated at session_id_len''
      else and_then (idx sh_body pos) (\<lambda>sid_len. let pos = pos + 1 + unat sid_len + 2 + 1 in
        if length sh_body < pos + 2 then Err ''SH: truncated at extensions_len''
        else and_then (read_u16 sh_body pos) (\<lambda>exts_len. let pos = pos + 2; exts_end = pos + unat exts_len in
          if length sh_body < exts_end then Err ''SH: extensions extend beyond body''
          else find_key_share (server_key_share c) ''SH: extension data out of bounds''
                 ''SH: key_share extension not found'' sh_body exts_end pos)))"

declare client_shares.simps [simp del] find_key_share.simps [simp del]

section \<open>No byte is read outside its buffer\<close>

definition safe :: "'a outcome \<Rightarrow> bool" where
  "safe m \<longleftrightarrow> m \<noteq> Panic"

lemma safe_simps [simp]:
  "safe (Ok x)" "safe (Err e)" "\<not> safe Panic" "safe (ok_or v e)"
  "safe (if b then m else n) \<longleftrightarrow> (if b then safe m else safe n)"
  "safe (and_then m f) \<longleftrightarrow> safe m \<and> (\<forall>x. m = Ok x \<longrightarrow> safe (f x))"
  by (simp_all add: safe_def) (cases m; simp)

lemma safe_idx [simp]: "safe (idx xs i) \<longleftrightarrow> i < length xs"
  by (simp add: idx_def)

lemma safe_read_u16 [simp]: "safe (read_u16 xs i) \<longleftrightarrow> i + 1 < length xs"
  by (auto simp: read_u16_def idx_def)

lemma safe_sub_slice [simp]: "safe (sub_slice xs a b) \<longleftrightarrow> a \<le> b \<and> b \<le> length xs"
  by (simp add: sub_slice_def)

lemma client_shares_safe: "safe (client_shares c d e p)"
proof (induction c d e p rule: client_shares.induct)
  case (1 c d e p)
  then show ?case by (subst client_shares.simps) (auto simp: Let_def)
qed

lemma client_key_share_safe: "safe (client_key_share c d)"
  by (simp add: client_key_share_def client_shares_safe)

lemma server_key_share_safe: "safe (server_key_share c d)"
  by (simp add: server_key_share_def Let_def)

lemma find_key_share_safe:
  "e \<le> length b \<Longrightarrow> (\<And>d. safe (share d)) \<Longrightarrow> safe (find_key_share share oob nf b e p)"
proof (induction share oob nf b e p rule: find_key_share.induct)
  case (1 share oob nf b e p)
  then show ?case by (subst find_key_share.simps) (auto simp: Let_def)
qed

lemma extract_client_safe: "safe (extract_client_key_share c b)"
  unfolding extract_client_key_share_def Let_def by (simp add: find_key_share_safe client_key_share_safe)

lemma extract_server_safe: "safe (extract_server_key_share c b)"
  unfolding extract_server_key_share_def Let_def by (simp add: find_key_share_safe server_key_share_safe)

lemma read_record_cases:
  "read_record data pos =
     (if length data < pos + 5 then (Err ''record: not enough header bytes'', pos)
      else let len = unat (u16_from_be (data ! (pos + 3)) (data ! (pos + 4))) in
        if length data < pos + 5 + len then (Err ''record: not enough payload bytes'', pos + 5)
        else (Ok (data ! pos, take len (drop (pos + 5) data)), pos + 5 + len))"
  by (simp add: read_record_def idx_def read_u16_def sub_slice_def Let_def numeral_eq_Suc)

lemma read_record_safe [simp]: "safe (fst (read_record data pos))"
  by (simp add: read_record_cases Let_def)

section \<open>Reading what was written\<close>

lemma u16_from_be_bytes [simp]: "u16_from_be (ucast (drop_bit 8 w)) (ucast w) = w"
  unfolding u16_from_be_def by (rule bit_word_eqI) (auto simp: bit_simps)

lemma length_u16_bytes [simp]: "length (u16_bytes w) = 2"
  by (simp add: u16_bytes_def)

lemma unat_of_length [simp]: "n < 2 ^ 16 \<Longrightarrow> unat (of_nat n :: u16) = n"
  by (simp add: unat_of_nat)

lemma nth_at: "drop i xs = b # post \<Longrightarrow> i < length xs \<and> xs ! i = b"
  by (metis drop_all hd_drop_conv_nth linorder_not_le list.discI list.sel(1))

lemma idx_at: "drop i xs = b # post \<Longrightarrow> idx xs i = Ok b"
  using nth_at [of i xs b post] by (simp add: idx_def)

lemma drop_step: "drop i xs = a @ post \<Longrightarrow> drop (i + length a) xs = post"
  by (metis add.commute append_eq_conv_conj drop_drop)

lemma read_u16_at: "drop i xs = u16_bytes w @ post \<Longrightarrow> read_u16 xs i = Ok w"
proof -
  assume d: "drop i xs = u16_bytes w @ post"
  then have "drop i xs = ucast (drop_bit 8 w) # ucast w # post" by (simp add: u16_bytes_def)
  moreover from this have "drop (i + 1) xs = ucast w # post" by (metis drop_Suc drop_drop list.sel(3) Suc_eq_plus1 drop_tl tl_drop)
  ultimately show ?thesis by (simp add: read_u16_def idx_at)
qed

lemma sub_slice_at: "drop i xs = d @ post \<Longrightarrow> n = i + length d \<Longrightarrow> d \<noteq> [] \<or> i \<le> length xs \<Longrightarrow> sub_slice xs i n = Ok d"
proof -
  assume d: "drop i xs = d @ post" and n: "n = i + length d" and "d \<noteq> [] \<or> i \<le> length xs"
  then have i: "i \<le> length xs" using drop_all [of xs i] by (cases "i \<le> length xs") auto
  then have "length xs - i = length d + length post" using d by (metis length_append length_drop)
  then show ?thesis using d n i by (simp add: sub_slice_def)
qed

lemma drop_length_le: "drop i xs = a @ post \<Longrightarrow> a \<noteq> [] \<Longrightarrow> i + length a + length post = length xs"
proof -
  assume d: "drop i xs = a @ post" "a \<noteq> []"
  then have "i \<le> length xs" using drop_all [of xs i] by (cases "i \<le> length xs") auto
  moreover have "length xs - i = length a + length post" using d(1) by (metis length_append length_drop)
  ultimately show ?thesis by simp
qed

text \<open>A list of extensions, and a list of key share entries, are written in the same format.\<close>

definition entry_bytes :: "u16 \<times> bytes \<Rightarrow> bytes" where
  "entry_bytes e = u16_bytes (fst e) @ u16_bytes (of_nat (length (snd e))) @ snd e"

definition entries_bytes :: "(u16 \<times> bytes) list \<Rightarrow> bytes" where
  "entries_bytes es = concat (map entry_bytes es)"

definition short_entries :: "(u16 \<times> bytes) list \<Rightarrow> bool" where
  "short_entries es \<longleftrightarrow> list_all (\<lambda>e. length (snd e) < 2 ^ 16) es"

lemma entries_bytes_simps [simp]: "entries_bytes [] = []" "entries_bytes (e # es) = entry_bytes e @ entries_bytes es"
  "length (entry_bytes e) = 4 + length (snd e)"
  by (simp_all add: entries_bytes_def entry_bytes_def)

lemma push_extension_entry: "push_extension buf t d = buf @ entry_bytes (t, d)"
  by (simp add: push_extension_def entry_bytes_def)

lemma entry_at:
  assumes "drop p xs = entry_bytes (t, d) @ post" "length d < 2 ^ 16"
  shows "read_u16 xs p = Ok t" "read_u16 xs (p + 2) = Ok (of_nat (length d))"
    "sub_slice xs (p + 4) (p + 4 + length d) = Ok d" "drop (p + 4 + length d) xs = post"
    "p + 4 + length d + length post = length xs"
proof -
  let ?n = "of_nat (length d) :: u16"
  have 0: "drop p xs = u16_bytes t @ u16_bytes ?n @ d @ post" using assms(1) by (simp add: entry_bytes_def)
  from drop_step [OF 0] have 1: "drop (p + 2) xs = u16_bytes ?n @ d @ post" by simp
  from drop_step [OF 1] have 2: "drop (p + 4) xs = d @ post" by (simp del: add_2_eq_Suc' add: add.assoc)
  from drop_length_le [OF 0] show l: "p + 4 + length d + length post = length xs" by (simp add: u16_bytes_def)
  show "read_u16 xs p = Ok t" using 0 by (rule read_u16_at)
  show "read_u16 xs (p + 2) = Ok ?n" using 1 by (rule read_u16_at)
  show "sub_slice xs (p + 4) (p + 4 + length d) = Ok d" using 2 l by (intro sub_slice_at) auto
  show "drop (p + 4 + length d) xs = post" using 2 by (rule drop_step)
qed

lemma find_key_share_entries:
  assumes "drop p body = entries_bytes es @ post" "e = p + length (entries_bytes es)" "short_entries es"
  shows "find_key_share share oob nf body e p = (case map_of es 0x0033 of None \<Rightarrow> Err nf | Some d \<Rightarrow> share d)"
  using assms
proof (induction es arbitrary: p)
  case Nil
  then show ?case by (subst find_key_share.simps) simp
next
  case (Cons x es)
  obtain t d where x: "x = (t, d)" by (cases x)
  have len: "length d < 2 ^ 16" and sh: "short_entries es" using Cons.prems(3) x by (simp_all add: short_entries_def)
  have "drop p body = entry_bytes (t, d) @ entries_bytes es @ post" using Cons.prems(1) x by simp
  note at = entry_at [OF this len]
  have IH: "find_key_share share oob nf body e (p + 4 + length d) = (case map_of es 0x0033 of None \<Rightarrow> Err nf | Some d \<Rightarrow> share d)"
    using Cons.IH [OF at(4) _ sh] Cons.prems(2) x by simp
  have c: "p + 4 \<le> e" "\<not> length body < p + 4 + length d" using Cons.prems(2) x at(5) by simp_all
  show ?case using len c at(3) by (subst find_key_share.simps) (simp add: at(1,2) Let_def x IH del: add_2_eq_Suc')
qed

lemma client_shares_entries:
  assumes "drop p d = entries_bytes es @ post" "e = p + length (entries_bytes es)" "short_entries es"
  shows "client_shares c d e p = (case map_of es 0x0017 of None \<Rightarrow> Err ''CH: no P-256 key share found''
    | Some k \<Rightarrow> ok_or (from_sec1 c k) ''CH: invalid P-256 public key'')"
  using assms
proof (induction es arbitrary: p)
  case Nil
  then show ?case by (subst client_shares.simps) simp
next
  case (Cons x es)
  obtain t k where x: "x = (t, k)" by (cases x)
  have len: "length k < 2 ^ 16" and sh: "short_entries es" using Cons.prems(3) x by (simp_all add: short_entries_def)
  have "drop p d = entry_bytes (t, k) @ entries_bytes es @ post" using Cons.prems(1) x by simp
  note at = entry_at [OF this len]
  have IH: "client_shares c d e (p + 4 + length k) = (case map_of es 0x0017 of None \<Rightarrow> Err ''CH: no P-256 key share found''
    | Some k \<Rightarrow> ok_or (from_sec1 c k) ''CH: invalid P-256 public key'')"
    using Cons.IH [OF at(4) _ sh] Cons.prems(2) x by simp
  have c: "p + 4 \<le> e" "p + 4 \<le> length d" "\<not> length d < p + 4 + length k" using Cons.prems(2) x at(5) by simp_all
  show ?case using len c at(3) by (subst client_shares.simps) (simp add: at(1,2) Let_def x IH del: add_2_eq_Suc')
qed
section \<open>Hello messages in general\<close>

text \<open>What a conforming client hello and server hello hold, and their bytes.\<close>

record hello =
  h_version :: bytes
  h_random :: bytes
  h_session :: bytes
  h_extensions :: "(u16 \<times> bytes) list"

definition client_hello_bytes :: "hello \<Rightarrow> bytes \<Rightarrow> bytes \<Rightarrow> bytes" where
  "client_hello_bytes h suites compression =
     h_version h @ h_random h @ [of_nat (length (h_session h))] @ h_session h
     @ u16_bytes (of_nat (length suites)) @ suites @ [of_nat (length compression)] @ compression
     @ u16_bytes (of_nat (length (entries_bytes (h_extensions h)))) @ entries_bytes (h_extensions h)"

definition server_hello_bytes :: "hello \<Rightarrow> bytes \<Rightarrow> u8 \<Rightarrow> bytes" where
  "server_hello_bytes h suite compression =
     h_version h @ h_random h @ [of_nat (length (h_session h))] @ h_session h @ suite @ [compression]
     @ u16_bytes (of_nat (length (entries_bytes (h_extensions h)))) @ entries_bytes (h_extensions h)"

definition hello_ok :: "hello \<Rightarrow> bool" where
  "hello_ok h \<longleftrightarrow> length (h_version h) = 2 \<and> length (h_random h) = 32 \<and> length (h_session h) < 2 ^ 8
     \<and> short_entries (h_extensions h) \<and> length (entries_bytes (h_extensions h)) < 2 ^ 16"

definition share_list_bytes :: "(u16 \<times> bytes) list \<Rightarrow> bytes" where
  "share_list_bytes es = u16_bytes (of_nat (length (entries_bytes es))) @ entries_bytes es"

lemma length_share_list [simp]: "length (share_list_bytes es) = 2 + length (entries_bytes es)"
  by (simp add: share_list_bytes_def)

lemma unat_of_length8 [simp]: "n < 2 ^ 8 \<Longrightarrow> unat (of_nat n :: u8) = n"
  by (simp add: unat_of_nat)

lemma byte_at: "drop i xs = b # post \<Longrightarrow> idx xs i = Ok b \<and> i < length xs \<and> drop (i + 1) xs = post"
  using idx_at [of i xs b post] nth_at [of i xs b post] by (simp add: drop_Suc [symmetric] flip: drop_tl) (metis drop_Suc drop_tl list.sel(3))

lemma word_at: "drop i xs = u16_bytes w @ post \<Longrightarrow> read_u16 xs i = Ok w \<and> i + 2 \<le> length xs \<and> drop (i + 2) xs = post"
  using read_u16_at [of i xs w post] drop_step [of i xs "u16_bytes w" post] drop_length_le [of i xs "u16_bytes w" post]
  by (simp add: u16_bytes_def)

lemma length_at: "drop i xs = post \<Longrightarrow> i \<le> length xs \<Longrightarrow> length xs = i + length post"
  by (metis add_diff_inverse_nat length_drop linorder_not_le)

lemma extract_client_stages:
  assumes "2 + 32 < length b" "idx b (2 + 32) = Ok sid" "p1 = 2 + 32 + 1 + unat sid"
    and "p1 + 2 \<le> length b" "read_u16 b p1 = Ok cs" "p2 = p1 + 2 + unat cs"
    and "p2 < length b" "idx b p2 = Ok cm" "p3 = p2 + 1 + unat cm"
    and "p3 + 2 \<le> length b" "read_u16 b p3 = Ok el" "p4 = p3 + 2" "e = p4 + unat el" "e \<le> length b"
  shows "extract_client_key_share c b = find_key_share (client_key_share c) ''CH: extension data out of bounds''
    ''CH: key_share extension not found'' b e p4"
  using assms by (simp add: extract_client_key_share_def Let_def not_le not_less)

lemma extract_server_stages:
  assumes "2 + 32 < length b" "idx b (2 + 32) = Ok sid" "p1 = 2 + 32 + 1 + unat sid + 2 + 1"
    and "p1 + 2 \<le> length b" "read_u16 b p1 = Ok el" "p4 = p1 + 2" "e = p4 + unat el" "e \<le> length b"
  shows "extract_server_key_share c b = find_key_share (server_key_share c) ''SH: extension data out of bounds''
    ''SH: key_share extension not found'' b e p4"
  using assms by (simp add: extract_server_key_share_def Let_def not_le not_less)

lemma extract_client_parses:
  assumes h: "hello_ok h" and s: "length suites < 2 ^ 16" "length compression < 2 ^ 8"
  shows "extract_client_key_share c (client_hello_bytes h suites compression) =
    (case map_of (h_extensions h) 0x0033 of None \<Rightarrow> Err ''CH: key_share extension not found'' | Some d \<Rightarrow> client_key_share c d)"
proof -
  let ?b = "client_hello_bytes h suites compression" and ?x = "entries_bytes (h_extensions h)"
  let ?n1 = "length (h_session h)" and ?n2 = "length suites" and ?n3 = "length compression"
  have len: "?n1 < 2 ^ 8" "length ?x < 2 ^ 16" "short_entries (h_extensions h)" using h by (simp_all add: hello_ok_def)
  have "drop 34 ?b = of_nat ?n1 # h_session h @ u16_bytes (of_nat ?n2) @ suites @ of_nat ?n3 # compression @ u16_bytes (of_nat (length ?x)) @ ?x"
    using h by (simp add: hello_ok_def client_hello_bytes_def)
  note a1 = byte_at [OF this]
  have "drop (35 + ?n1) ?b = u16_bytes (of_nat ?n2) @ suites @ of_nat ?n3 # compression @ u16_bytes (of_nat (length ?x)) @ ?x"
    using drop_step [OF conjunct2 [OF conjunct2 [OF a1]]] by simp
  note a2 = word_at [OF this]
  have "drop (37 + ?n1 + ?n2) ?b = of_nat ?n3 # compression @ u16_bytes (of_nat (length ?x)) @ ?x"
    using drop_step [OF conjunct2 [OF conjunct2 [OF a2]]] by (simp add: ac_simps)
  note a3 = byte_at [OF this]
  have "drop (38 + ?n1 + ?n2 + ?n3) ?b = u16_bytes (of_nat (length ?x)) @ ?x"
    using drop_step [OF conjunct2 [OF conjunct2 [OF a3]]] by (simp add: ac_simps)
  note a4 = word_at [OF this]
  have d: "drop (40 + ?n1 + ?n2 + ?n3) ?b = ?x @ []" using a4 by (simp add: ac_simps)
  have e: "40 + ?n1 + ?n2 + ?n3 + length ?x = length ?b" using h by (simp add: hello_ok_def client_hello_bytes_def)
  have "extract_client_key_share c ?b = find_key_share (client_key_share c) ''CH: extension data out of bounds''
      ''CH: key_share extension not found'' ?b (40 + ?n1 + ?n2 + ?n3 + length ?x) (40 + ?n1 + ?n2 + ?n3)"
    by (rule extract_client_stages [where sid = "of_nat ?n1" and ?p1.0 = "35 + ?n1" and cs = "of_nat ?n2" and ?p2.0 = "37 + ?n1 + ?n2"
      and cm = "of_nat ?n3" and ?p3.0 = "38 + ?n1 + ?n2 + ?n3" and el = "of_nat (length ?x)"])
      (use a1 a2 a3 a4 len s e in simp_all)
  then show ?thesis using find_key_share_entries [OF d refl len(3)] by simp
qed

lemma extract_server_parses:
  assumes h: "hello_ok h" and s: "length suite = 2"
  shows "extract_server_key_share c (server_hello_bytes h suite compression) =
    (case map_of (h_extensions h) 0x0033 of None \<Rightarrow> Err ''SH: key_share extension not found'' | Some d \<Rightarrow> server_key_share c d)"
proof -
  let ?b = "server_hello_bytes h suite compression" and ?x = "entries_bytes (h_extensions h)" and ?n1 = "length (h_session h)"
  have len: "?n1 < 2 ^ 8" "length ?x < 2 ^ 16" "short_entries (h_extensions h)" using h by (simp_all add: hello_ok_def)
  have "drop 34 ?b = of_nat ?n1 # (h_session h @ suite @ [compression]) @ u16_bytes (of_nat (length ?x)) @ ?x"
    using h by (simp add: hello_ok_def server_hello_bytes_def)
  note a1 = byte_at [OF this]
  have "drop (38 + ?n1) ?b = u16_bytes (of_nat (length ?x)) @ ?x"
    using drop_step [OF conjunct2 [OF conjunct2 [OF a1]]] s by (simp add: ac_simps)
  note a2 = word_at [OF this]
  have d: "drop (40 + ?n1) ?b = ?x @ []" using a2 by (simp add: ac_simps)
  have e: "40 + ?n1 + length ?x = length ?b" using h s by (simp add: hello_ok_def server_hello_bytes_def)
  have "extract_server_key_share c ?b = find_key_share (server_key_share c) ''SH: extension data out of bounds''
      ''SH: key_share extension not found'' ?b (40 + ?n1 + length ?x) (40 + ?n1)"
    by (rule extract_server_stages [where sid = "of_nat ?n1" and ?p1.0 = "38 + ?n1" and el = "of_nat (length ?x)"])
      (use a1 a2 len s e in simp_all)
  then show ?thesis using find_key_share_entries [OF d refl len(3)] by simp
qed

lemma client_key_share_list:
  assumes "short_entries es" "length (entries_bytes es) < 2 ^ 16"
  shows "client_key_share c (share_list_bytes es) = (case map_of es 0x0017 of None \<Rightarrow> Err ''CH: no P-256 key share found''
    | Some k \<Rightarrow> ok_or (from_sec1 c k) ''CH: invalid P-256 public key'')"
proof -
  let ?d = "share_list_bytes es" and ?n = "length (entries_bytes es)"
  have "drop 0 ?d = u16_bytes (of_nat ?n) @ entries_bytes es" by (simp add: share_list_bytes_def)
  note a = word_at [OF this]
  then have "drop 2 ?d = entries_bytes es @ []" by (simp add: numeral_2_eq_2)
  from client_shares_entries [OF this refl assms(1)] show ?thesis
    using a assms(2) by (simp add: client_key_share_def not_less numeral_2_eq_2)
qed

lemma server_key_share_entry:
  assumes "length k < 2 ^ 16"
  shows "server_key_share c (entry_bytes (g, k)) = (if g = 0x0017 then ok_or (from_sec1 c k) ''SH: invalid P-256 public key''
    else Err ''SH key_share: unexpected group (expected P-256)'')"
proof -
  have "drop 0 (entry_bytes (g, k)) = entry_bytes (g, k) @ []" by simp
  note a = entry_at [OF this assms]
  have "read_u16 (entry_bytes (g, k)) 2 = Ok (of_nat (length k))" using a(2) by (simp add: numeral_2_eq_2)
  with a show ?thesis using assms by (cases "g = 0x0017") (simp_all add: server_key_share_def Let_def)
qed
lemma build_client_hello_bytes:
  "build_client_hello c r pk = client_hello_bytes \<lparr>h_version = LEGACY_VERSION, h_random = r, h_session = [],
     h_extensions = [(0x002b, 0x02 # TLS13_VERSION), (0x000a, [0x00, 0x02, 0x00, 0x17]), (0x000d, [0x00, 0x02, 0x04, 0x03]),
       (0x0033, share_list_bytes [(0x0017, to_sec1 c pk)])]\<rparr> CIPHER_SUITE [0x00]"
  by (simp add: build_client_hello_def client_hello_bytes_def Let_def push_extension_entry share_list_bytes_def)
    (simp add: entry_bytes_def u16_bytes_def CIPHER_SUITE_def)

lemma build_server_hello_bytes:
  "build_server_hello c r pk = server_hello_bytes \<lparr>h_version = LEGACY_VERSION, h_random = r, h_session = [],
     h_extensions = [(0x002b, TLS13_VERSION), (0x0033, entry_bytes (0x0017, to_sec1 c pk))]\<rparr> CIPHER_SUITE 0"
  by (simp add: build_server_hello_def server_hello_bytes_def Let_def push_extension_entry)
    (simp add: entry_bytes_def u16_bytes_def CIPHER_SUITE_def)

lemma client_hello_roundtrip:
  assumes "length r = 32" "length (to_sec1 c pk) < 2 ^ 15"
  shows "extract_client_key_share c (build_client_hello c r pk) = ok_or (from_sec1 c (to_sec1 c pk)) ''CH: invalid P-256 public key''"
  unfolding build_client_hello_bytes using assms
  by (subst extract_client_parses)
    (simp_all add: hello_ok_def short_entries_def CIPHER_SUITE_def LEGACY_VERSION_def TLS13_VERSION_def client_key_share_list)

lemma server_hello_roundtrip:
  assumes "length r = 32" "length (to_sec1 c pk) < 2 ^ 15"
  shows "extract_server_key_share c (build_server_hello c r pk) = ok_or (from_sec1 c (to_sec1 c pk)) ''SH: invalid P-256 public key''"
  unfolding build_server_hello_bytes using assms
  by (subst extract_server_parses)
    (simp_all add: hello_ok_def short_entries_def CIPHER_SUITE_def LEGACY_VERSION_def TLS13_VERSION_def server_key_share_entry)

text \<open>A record is read back from where it was written, whatever follows it.\<close>

lemma write_record_append: "write_record buf ct payload = buf @ write_record [] ct payload"
  by (simp add: write_record_def)

lemma length_write_record [simp]: "length (write_record buf ct payload) = length buf + 5 + length payload"
  by (simp add: write_record_def LEGACY_VERSION_def)

lemma read_record_written:
  assumes "length payload < 2 ^ 16"
  shows "read_record (write_record buf ct payload @ post) (length buf) = (Ok (ct, payload), length (write_record buf ct payload))"
proof -
  let ?n = "of_nat (length payload) :: u16"
  let ?h = "[ct, 3, 3, ucast (drop_bit 8 ?n), ucast ?n]"
  let ?b = "buf @ ?h @ payload @ post"
  have b: "write_record buf ct payload @ post = ?b" by (simp add: write_record_def LEGACY_VERSION_def u16_bytes_def)
  have "?b ! (length buf + i) = ?h ! i" if "i < 5" for i unfolding nth_append_length_plus using that by (intro nth_append_left) simp
  from this [of 0] this [of 3] this [of 4]
  have n: "?b ! length buf = ct" "?b ! (length buf + 3) = ucast (drop_bit 8 ?n)" "?b ! (length buf + 4) = ucast ?n" by simp_all
  have d: "take (length payload) (drop (length buf + 5) ?b) = payload" by simp
  have l: "length ?b = length buf + 5 + length payload + length post" by simp
  show ?thesis unfolding b read_record_cases n u16_from_be_bytes unat_of_length [OF assms] Let_def d l by simp
qed

lemma read_record_at:
  assumes "drop pos data = write_record [] ct payload @ post" "length payload < 2 ^ 16"
  shows "read_record data pos = (Ok (ct, payload), pos + 5 + length payload)" "drop (pos + 5 + length payload) data = post"
proof -
  have "pos + length (write_record [] ct payload) + length post = length data"
    using assms(1) by (rule drop_length_le) (simp add: write_record_def)
  then have pos: "pos \<le> length data" by simp
  have d: "data = write_record (take pos data) ct payload @ post"
    using assms(1) by (metis append_assoc append_take_drop_id write_record_append)
  with read_record_written [OF assms(2), of "take pos data" ct post] pos
  show "read_record data pos = (Ok (ct, payload), pos + 5 + length payload)" by simp
  show "drop (pos + 5 + length payload) data = post"
    using drop_step [OF assms(1)] by (simp add: ac_simps)
qed
text \<open>C16: the parsers find the key share in every conforming hello, whatever other extensions stand before or after it
  and whatever session, cipher suites and compression methods it offers: the client's parser returns the first P-256
  entry of the first key share extension, the server's parser the share if it is for P-256, and the errors say what is
  missing.\<close>

theorem hello_key_share_exact:
  assumes "hello_ok h" "length suites < 2 ^ 16" "length compression < 2 ^ 8" "length suite = 2"
    and "short_entries es" "length (entries_bytes es) < 2 ^ 16" "length key < 2 ^ 16"
  shows "(map_of (h_extensions h) 0x0033 = Some (share_list_bytes es) \<longrightarrow>
       extract_client_key_share c (client_hello_bytes h suites compression) =
         (case map_of es 0x0017 of None \<Rightarrow> Err ''CH: no P-256 key share found''
          | Some k \<Rightarrow> ok_or (from_sec1 c k) ''CH: invalid P-256 public key''))
    \<and> (map_of (h_extensions h) 0x0033 = Some (entry_bytes (g, key)) \<longrightarrow>
       extract_server_key_share c (server_hello_bytes h suite method) =
         (if g = 0x0017 then ok_or (from_sec1 c key) ''SH: invalid P-256 public key''
          else Err ''SH key_share: unexpected group (expected P-256)''))
    \<and> (map_of (h_extensions h) 0x0033 = None \<longrightarrow>
       extract_client_key_share c (client_hello_bytes h suites compression) = Err ''CH: key_share extension not found''
       \<and> extract_server_key_share c (server_hello_bytes h suite method) = Err ''SH: key_share extension not found'')"
  unfolding extract_client_parses [OF assms(1-3)] extract_server_parses [OF assms(1,4)]
  by (simp add: client_key_share_list [OF assms(5,6)] server_key_share_entry [OF assms(7)])

lemma hello_key_share_exact_witness:
  "let h = \<lparr>h_version = [3, 3], h_random = replicate 32 0, h_session = [1],
       h_extensions = [(0x000a, [0, 0x17]), (0x0033, share_list_bytes [(0x001d, [9]), (0x0017, [4, 5])])]\<rparr> in
   \<forall>c. extract_client_key_share c (client_hello_bytes h [0x13, 0x01] [0]) = ok_or (from_sec1 c [4, 5]) ''CH: invalid P-256 public key''"
proof -
  let ?es = "[(0x001d, [9]), (0x0017, [4, 5])] :: (u16 \<times> bytes) list"
  let ?h = "\<lparr>h_version = [3, 3], h_random = replicate 32 0, h_session = [1],
       h_extensions = [(0x000a, [0, 0x17]), (0x0033, share_list_bytes ?es)]\<rparr>"
  have "hello_ok ?h" "short_entries ?es" by (simp_all add: hello_ok_def short_entries_def)
  note ok = this
  show ?thesis unfolding Let_def
  proof
    show "extract_client_key_share c (client_hello_bytes ?h [0x13, 0x01] [0]) = ok_or (from_sec1 c [4, 5]) ''CH: invalid P-256 public key''" for c
      using hello_key_share_exact [OF ok(1) _ _ _ ok(2), of "[0x13, 0x01]" "[0]" "[0x13, 0x01]" "[]" c] by simp
  qed
qed

end
