(* ===== verification/Tls_Handshake.thy ===== *)
theory Tls_Handshake
  imports Tls_Wire
begin

text \<open>
  The TLS 1.3 handshake of the microVM kernel (\<^verbatim>\<open>kernels/microvm/src/tls.rs\<close>): the key schedule, the sealed records
  and the complete exchange of \<^verbatim>\<open>run_tls_loopback_test\<close>, in which a client and a server talk over two byte buffers.
  The running hash of the source is here the text it has absorbed.
\<close>

section \<open>Key derivation\<close>

type_synonym ('pk, 'esk, 'prk, 'cipher, 'sk, 'sig) suite = "('pk, 'esk, 'prk, 'cipher, 'sk, 'sig) crypto"

definition hkdf_label :: "bytes \<Rightarrow> bytes \<Rightarrow> u16 \<Rightarrow> bytes outcome" where
  "hkdf_label label context len =
     (let full_label = lit ''tls13 '' @ label in
      if \<not> length full_label \<le> 255 then Panic
      else if \<not> length context \<le> 255 then Panic
      else Ok (u16_bytes len @ [of_nat (length full_label)] @ full_label @ [of_nat (length context)] @ context))"

definition hkdf_expand_label :: "('pk, 'esk, 'prk, 'cipher, 'sk, 'sig) suite \<Rightarrow> 'prk \<Rightarrow> bytes \<Rightarrow> bytes \<Rightarrow> nat \<Rightarrow> bytes outcome" where
  "hkdf_expand_label c prk label context out_len =
     and_then (hkdf_label label context (of_nat out_len)) (\<lambda>info. expect (hkdf_expand c prk info out_len))"

definition derive_secret :: "('pk, 'esk, 'prk, 'cipher, 'sk, 'sig) suite \<Rightarrow> 'prk \<Rightarrow> bytes \<Rightarrow> bytes \<Rightarrow> bytes outcome" where
  "derive_secret c prk label transcript_hash = hkdf_expand_label c prk label transcript_hash 32"

definition hkdf_extract_bytes :: "('pk, 'esk, 'prk, 'cipher, 'sk, 'sig) suite \<Rightarrow> bytes \<Rightarrow> bytes \<Rightarrow> 'prk" where
  "hkdf_extract_bytes c salt ikm = hkdf_extract c salt ikm"

definition compute_finished_mac :: "('pk, 'esk, 'prk, 'cipher, 'sk, 'sig) suite \<Rightarrow> bytes \<Rightarrow> bytes \<Rightarrow> bytes outcome" where
  "compute_finished_mac c traffic_secret transcript_hash =
     and_then (expect (hkdf_from_prk c traffic_secret)) (\<lambda>prk.
       and_then (hkdf_expand_label c prk (lit ''finished'') [] 32) (\<lambda>finished_key. Ok (hmac c finished_key transcript_hash)))"

section \<open>Sealed records\<close>

record 'cipher TrafficKeys =
  cipher :: 'cipher
  iv :: bytes
  seq :: u64

definition from_secret :: "('pk, 'esk, 'prk, 'cipher, 'sk, 'sig) suite \<Rightarrow> bytes \<Rightarrow> 'cipher TrafficKeys outcome" where
  "from_secret c secret =
     and_then (expect (hkdf_from_prk c secret)) (\<lambda>prk.
       and_then (hkdf_expand_label c prk (lit ''key'') [] 16) (\<lambda>key.
         and_then (hkdf_expand_label c prk (lit ''iv'') [] 12) (\<lambda>base_iv.
           and_then (expect (aes_new c key)) (\<lambda>ci. Ok \<lparr>cipher = ci, iv = base_iv, seq = 0\<rparr>))))"

definition record_nonce :: "'cipher TrafficKeys \<Rightarrow> bytes" where
  "record_nonce k = take 4 (iv k) @ map (\<lambda>(b, s). b XOR s) (zip (drop 4 (iv k)) (u64_bytes (seq k)))"

text \<open>The buffer that is sealed or opened in place and the keys with their counter. On an error the callers return at
  once and drop both.\<close>

definition seal :: "('pk, 'esk, 'prk, 'cipher, 'sk, 'sig) suite \<Rightarrow> 'cipher TrafficKeys \<Rightarrow> bytes \<Rightarrow> bytes \<Rightarrow> ('cipher TrafficKeys \<times> bytes) outcome" where
  "seal c k header inner =
     (if seq k = - 1 then Err ''TLS key exhausted: sequence number at u64::MAX - key update required''
      else and_then (expect (aes_encrypt c (cipher k) (record_nonce k) header inner)) (\<lambda>(ct, tag).
        Ok (k\<lparr>seq := seq k + 1\<rparr>, ct @ tag)))"

definition open_record :: "('pk, 'esk, 'prk, 'cipher, 'sk, 'sig) suite \<Rightarrow> 'cipher TrafficKeys \<Rightarrow> bytes \<Rightarrow> bytes \<Rightarrow> ('cipher TrafficKeys \<times> bytes) outcome" where
  "open_record c k header ct =
     (if length ct < 16 then Err ''AES-GCM: ciphertext too short for tag''
      else if seq k = - 1 then Err ''TLS key exhausted: sequence number at u64::MAX - key update required''
      else let tag_pos = length ct - 16 in
        and_then (sub_slice ct tag_pos (length ct)) (\<lambda>tag.
          and_then (ok_or (aes_decrypt c (cipher k) (record_nonce k) header (take tag_pos ct) tag) ''AES-GCM decrypt failed'')
            (\<lambda>plain. Ok (k\<lparr>seq := seq k + 1\<rparr>, plain))))"

definition send_encrypted :: "('pk, 'esk, 'prk, 'cipher, 'sk, 'sig) suite \<Rightarrow> u8 \<Rightarrow> bytes \<Rightarrow> 'cipher TrafficKeys \<Rightarrow> bytes \<Rightarrow> (bytes \<times> 'cipher TrafficKeys) outcome" where
  "send_encrypted c inner_type buf keys msg =
     (let inner = msg @ [inner_type]; ct_len = length inner + 16; hdr = record_header CT_APP_DATA ct_len in
      and_then (seal c keys hdr inner) (\<lambda>(keys, sealed). Ok (write_record buf CT_APP_DATA sealed, keys)))"

definition send_encrypted_handshake :: "('pk, 'esk, 'prk, 'cipher, 'sk, 'sig) suite \<Rightarrow> bytes \<Rightarrow> 'cipher TrafficKeys \<Rightarrow> bytes \<Rightarrow> (bytes \<times> 'cipher TrafficKeys) outcome" where
  "send_encrypted_handshake c buf keys msg = send_encrypted c CT_HANDSHAKE buf keys msg"

text \<open>Reading, decrypting and checking the two content types; the error texts differ between the callers.\<close>

definition receive_encrypted :: "('pk, 'esk, 'prk, 'cipher, 'sk, 'sig) suite \<Rightarrow> u8 \<Rightarrow> string \<Rightarrow> string \<Rightarrow> string \<Rightarrow> bytes \<Rightarrow> nat \<Rightarrow> 'cipher TrafficKeys
    \<Rightarrow> (bytes \<times> nat \<times> 'cipher TrafficKeys) outcome" where
  "receive_encrypted c inner_type bad_outer empty_plain bad_inner data pos keys =
     (case read_record data pos of (r, pos) \<Rightarrow>
        and_then r (\<lambda>(ct, payload).
          if ct \<noteq> CT_APP_DATA then Err bad_outer
          else and_then (open_record c keys (record_header CT_APP_DATA (length payload)) payload) (\<lambda>(keys, plain).
            if plain = [] then Err empty_plain
            else if last plain \<noteq> inner_type then Err bad_inner
            else Ok (butlast plain, pos, keys))))"

definition read_decrypt_handshake :: "('pk, 'esk, 'prk, 'cipher, 'sk, 'sig) suite \<Rightarrow> bytes \<Rightarrow> nat \<Rightarrow> 'cipher TrafficKeys \<Rightarrow> u8
    \<Rightarrow> (bytes \<times> nat \<times> 'cipher TrafficKeys) outcome" where
  "read_decrypt_handshake c data pos keys expected_type =
     and_then (receive_encrypted c CT_HANDSHAKE ''read_decrypt_handshake: expected CT_APP_DATA outer type'' ''decrypted record empty''
         ''read_decrypt_handshake: inner content type is not handshake'' data pos keys) (\<lambda>(plain, pos, keys).
       if plain = [] \<or> hd plain \<noteq> expected_type then Err ''read_decrypt_handshake: unexpected handshake message type''
       else Ok (plain, pos, keys))"

section \<open>The exchange\<close>

definition zero32 :: bytes where
  "zero32 = replicate 32 0"

text \<open>The handshake secret and the traffic secrets of both directions, derived by each side.\<close>

definition handshake_secrets :: "('pk, 'esk, 'prk, 'cipher, 'sk, 'sig) suite \<Rightarrow> bytes \<Rightarrow> bytes \<Rightarrow> ('prk \<times> bytes \<times> bytes) outcome" where
  "handshake_secrets c ecdhe ch_sh_hash =
     (let early_secret = hkdf_extract_bytes c zero32 zero32 in
      and_then (derive_secret c early_secret (lit ''derived'') (sha256 c [])) (\<lambda>derived.
        let hs = hkdf_extract_bytes c derived ecdhe in
        and_then (derive_secret c hs (lit ''c hs traffic'') ch_sh_hash) (\<lambda>c_hs_ts.
          and_then (derive_secret c hs (lit ''s hs traffic'') ch_sh_hash) (\<lambda>s_hs_ts. Ok (hs, c_hs_ts, s_hs_ts)))))"

definition client_app_secret :: "('pk, 'esk, 'prk, 'cipher, 'sk, 'sig) suite \<Rightarrow> 'prk \<Rightarrow> bytes \<Rightarrow> bytes outcome" where
  "client_app_secret c hs transcript_hash =
     and_then (derive_secret c hs (lit ''derived'') (sha256 c [])) (\<lambda>derived.
       derive_secret c (hkdf_extract_bytes c derived zero32) (lit ''c ap traffic'') transcript_hash)"

definition client_hello_msg :: "('pk, 'esk, 'prk, 'cipher, 'sk, 'sig) suite \<Rightarrow> 'esk \<Rightarrow> bytes \<Rightarrow> bytes" where
  "client_hello_msg c client_secret client_random =
     write_handshake [] 0x01 (build_client_hello c client_random (public_key c client_secret))"

definition certificate_msg :: "bytes \<Rightarrow> bytes" where
  "certificate_msg cert =
     (let cert_entry_len = of_nat (3 + length cert + 2) :: u32; len = of_nat (length cert) :: u64 in
      write_handshake [] 0x0b
        ([0x00, ucast (drop_bit 16 cert_entry_len), ucast (drop_bit 8 cert_entry_len), ucast cert_entry_len,
          ucast (drop_bit 16 len), ucast (drop_bit 8 len), ucast len] @ cert @ [0x00, 0x00]))"

definition cv_input :: "bytes \<Rightarrow> bytes" where
  "cv_input transcript_hash =
     replicate 64 0x20 @ lit ''TLS 1.3, server CertificateVerify'' @ [0x00] @ transcript_hash"

definition cv_msg :: "bytes \<Rightarrow> bytes" where
  "cv_msg sig_bytes = write_handshake [] 0x0f ([0x04, 0x03] @ u16_bytes (of_nat (length sig_bytes)) @ sig_bytes)"
primrec send_flight :: "('pk, 'esk, 'prk, 'cipher, 'sk, 'sig) suite \<Rightarrow> bytes list \<Rightarrow> bytes \<Rightarrow> 'cipher TrafficKeys \<Rightarrow> (bytes \<times> 'cipher TrafficKeys) outcome" where
  "send_flight c [] buf keys = Ok (buf, keys)"
| "send_flight c (m # ms) buf keys =
     and_then (send_encrypted_handshake c buf keys m) (\<lambda>(buf, keys). send_flight c ms buf keys)"

text \<open>What the server keeps after its flight: the handshake secret, the secret and the keys of the client's direction,
  what it has hashed, and how far it has read.\<close>

record ('prk, 'cipher) server_state =
  st_hs :: 'prk
  st_c_hs_ts :: bytes
  st_client_keys :: "'cipher TrafficKeys"
  st_transcript :: bytes
  st_pos :: nat

definition server_flight :: "('pk, 'esk, 'prk, 'cipher, 'sk, 'sig) suite \<Rightarrow> 'esk \<Rightarrow> bytes \<Rightarrow> bytes \<Rightarrow> bytes \<Rightarrow> bytes \<Rightarrow> bytes
    \<Rightarrow> (bytes \<times> bytes \<times> ('prk, 'cipher) server_state) outcome" where
  "server_flight c server_secret server_random cert_der key_der ch_msg c2s =
     (case read_record c2s 0 of (r, pos) \<Rightarrow> and_then r (\<lambda>(_, payload).
        if payload = [] \<or> hd payload \<noteq> 0x01 then Err ''server: expected ClientHello handshake message type''
        else if length payload < 4 then Err ''server: ClientHello handshake msg too short''
        else and_then (sub_slice payload 4 (length payload)) (\<lambda>ch_body.
          and_then (extract_client_key_share c ch_body) (\<lambda>client_pk.
            let ecdhe = diffie_hellman c server_secret client_pk;
                sh_msg = write_handshake [] 0x02 (build_server_hello c server_random (public_key c server_secret));
                s2c = write_record [] CT_HANDSHAKE sh_msg;
                transcript = ch_msg @ sh_msg in
            and_then (handshake_secrets c ecdhe (sha256 c transcript)) (\<lambda>(hs, c_hs_ts, s_hs_ts).
              and_then (from_secret c s_hs_ts) (\<lambda>server_hs_keys.
                and_then (from_secret c c_hs_ts) (\<lambda>client_hs_keys.
                  let ee_msg = write_handshake [] 0x08 [0x00, 0x00];
                      cert_msg = certificate_msg cert_der;
                      transcript = transcript @ ee_msg @ cert_msg in
                  and_then (ok_or (from_pkcs8 c key_der) ''CertificateVerify: failed to load signing key'') (\<lambda>signing_key.
                    let cv = cv_msg (sign c signing_key (cv_input (sha256 c transcript)));
                        transcript = transcript @ cv in
                    and_then (compute_finished_mac c s_hs_ts (sha256 c transcript)) (\<lambda>mac.
                      let sfin_msg = write_handshake [] 0x14 mac in
                      and_then (send_flight c [ee_msg, cert_msg, cv, sfin_msg] s2c server_hs_keys) (\<lambda>(s2c, _).
                        Ok (s2c, sh_msg, \<lparr>st_hs = hs, st_c_hs_ts = c_hs_ts, st_client_keys = client_hs_keys,
                          st_transcript = transcript @ sfin_msg, st_pos = pos\<rparr>)))))))))))"

definition verify_certificate_verify :: "('pk, 'esk, 'prk, 'cipher, 'sk, 'sig) suite \<Rightarrow> bytes \<Rightarrow> bytes \<Rightarrow> bytes \<Rightarrow> unit outcome" where
  "verify_certificate_verify c key_der transcript cv_payload =
     (let input = cv_input (sha256 c transcript) in
      if length cv_payload < 8 then Err ''client: CertificateVerify too short''
      else and_then (read_u16 cv_payload 4) (\<lambda>sig_alg.
        if sig_alg \<noteq> 0x0403 then Err ''client: CertificateVerify uses unexpected signature algorithm''
        else and_then (read_u16 cv_payload 6) (\<lambda>sl. let sig_len = unat sl in
          if length cv_payload < 8 + sig_len then Err ''client: CertificateVerify signature truncated''
          else and_then (sub_slice cv_payload 8 (8 + sig_len)) (\<lambda>sig_bytes.
            and_then (ok_or (from_pkcs8 c key_der) ''client: failed to load server public key for CV verification'') (\<lambda>vk.
              and_then (ok_or (der_signature c sig_bytes) ''client: CertificateVerify DER signature invalid'') (\<lambda>sig.
                if verifies c vk input sig then Ok ()
                else Err ''client: CertificateVerify signature verification FAILED''))))))"

definition client_flight :: "('pk, 'esk, 'prk, 'cipher, 'sk, 'sig) suite \<Rightarrow> 'esk \<Rightarrow> bytes \<Rightarrow> bytes \<Rightarrow> bytes \<Rightarrow> bytes \<Rightarrow> bytes
    \<Rightarrow> (bytes \<times> 'prk \<times> bytes) outcome" where
  "client_flight c client_secret key_der ch_msg sh_msg s2c c2s =
     (case read_record s2c 0 of (r, pos) \<Rightarrow> and_then r (\<lambda>(_, payload).
        if payload = [] \<or> hd payload \<noteq> 0x02 then Err ''client: expected ServerHello''
        else if length payload < 4 then Err ''client: ServerHello handshake msg too short''
        else and_then (sub_slice payload 4 (length payload)) (\<lambda>sh_body.
          and_then (extract_server_key_share c sh_body) (\<lambda>server_pk.
            let ecdhe = diffie_hellman c client_secret server_pk;
                transcript = ch_msg @ sh_msg in
            and_then (handshake_secrets c ecdhe (sha256 c transcript)) (\<lambda>(hs, c_hs_ts, s_hs_ts).
              and_then (from_secret c s_hs_ts) (\<lambda>recv_keys.
                and_then (from_secret c c_hs_ts) (\<lambda>send_keys.
                  and_then (read_decrypt_handshake c s2c pos recv_keys 0x08) (\<lambda>(ee, pos, recv_keys).
                    and_then (read_decrypt_handshake c s2c pos recv_keys 0x0b) (\<lambda>(cert, pos, recv_keys).
                      and_then (read_decrypt_handshake c s2c pos recv_keys 0x0f) (\<lambda>(cv, pos, recv_keys).
                        let transcript = transcript @ ee @ cert in
                        and_then (verify_certificate_verify c key_der transcript cv) (\<lambda>_.
                          let transcript = transcript @ cv in
                          and_then (read_decrypt_handshake c s2c pos recv_keys 0x14) (\<lambda>(sfin, pos, recv_keys).
                            if length sfin < 4 then Err ''client: server Finished too short''
                            else and_then (compute_finished_mac c s_hs_ts (sha256 c transcript)) (\<lambda>mac.
                              if drop 4 sfin \<noteq> mac then Err ''client: server Finished MAC mismatch''
                              else let hash = sha256 c (transcript @ sfin) in
                                and_then (compute_finished_mac c c_hs_ts hash) (\<lambda>client_mac.
                                  and_then (send_encrypted_handshake c c2s send_keys (write_handshake [] 0x14 client_mac))
                                    (\<lambda>(c2s, _). Ok (c2s, hs, hash))))))))))))))))"

definition server_finish :: "('pk, 'esk, 'prk, 'cipher, 'sk, 'sig) suite \<Rightarrow> ('prk, 'cipher) server_state \<Rightarrow> bytes \<Rightarrow> (nat \<times> bytes) outcome" where
  "server_finish c st c2s =
     and_then (receive_encrypted c CT_HANDSHAKE ''server: expected encrypted client Finished (CT_APP_DATA outer type)''
         ''server: decrypted client Finished is empty'' ''server: client Finished inner content type is not CT_HANDSHAKE''
         c2s (st_pos st) (st_client_keys st)) (\<lambda>(plain, pos, _).
       if length plain < 4 \<or> hd plain \<noteq> 0x14 then Err ''server: expected client Finished handshake type''
       else let hash = sha256 c (st_transcript st) in
         and_then (compute_finished_mac c (st_c_hs_ts st) hash) (\<lambda>mac.
           if drop 4 plain \<noteq> mac then Err ''server: client Finished MAC mismatch'' else Ok (pos, hash)))"

definition exchange_ping :: "('pk, 'esk, 'prk, 'cipher, 'sk, 'sig) suite \<Rightarrow> 'prk \<Rightarrow> bytes \<Rightarrow> 'prk \<Rightarrow> bytes \<Rightarrow> bytes \<Rightarrow> nat \<Rightarrow> unit outcome" where
  "exchange_ping c client_hs client_hash hs server_hash c2s pos =
     and_then (client_app_secret c client_hs client_hash) (\<lambda>c_app_ts.
       and_then (from_secret c c_app_ts) (\<lambda>client_app_send.
         and_then (client_app_secret c hs server_hash) (\<lambda>s_app_recv_ts.
           and_then (from_secret c s_app_recv_ts) (\<lambda>server_app_recv.
             and_then (send_encrypted c CT_APP_DATA c2s client_app_send (lit ''PING'')) (\<lambda>(c2s, _).
               and_then (receive_encrypted c CT_APP_DATA ''server: expected encrypted PING record (CT_APP_DATA outer type)''
                   ''server: decrypted PING is empty'' ''server: PING inner content type is not CT_APP_DATA'' c2s pos server_app_recv)
                 (\<lambda>(ping, _, _). if ping \<noteq> lit ''PING'' then Err ''server: received unexpected payload instead of PING'' else Ok ()))))))"

definition run_tls_loopback_test :: "('pk, 'esk, 'prk, 'cipher, 'sk, 'sig) suite \<Rightarrow> bool \<Rightarrow> 'esk \<Rightarrow> 'esk \<Rightarrow> bytes \<Rightarrow> bytes \<Rightarrow> bytes \<Rightarrow> bytes \<Rightarrow> unit outcome" where
  "run_tls_loopback_test c rdrand_available client_secret server_secret client_random server_random cert_der key_der =
     (if \<not> rdrand_available then Err ''RDRAND not available on this CPU (CPUID leaf 1, ECX bit 30 not set)''
      else let ch_msg = client_hello_msg c client_secret client_random;
               c2s = write_record [] CT_HANDSHAKE ch_msg in
        and_then (server_flight c server_secret server_random cert_der key_der ch_msg c2s) (\<lambda>(s2c, sh_msg, st).
          and_then (client_flight c client_secret key_der ch_msg sh_msg s2c c2s) (\<lambda>(c2s, client_hs, client_hash).
            and_then (server_finish c st c2s) (\<lambda>(pos, server_hash).
              exchange_ping c client_hs client_hash (st_hs st) server_hash c2s pos))))"
section \<open>What the crates promise\<close>

text \<open>Documented behaviour of the third-party crates: lengths of outputs and of keys, decryption inverts encryption and
  nothing else decrypts, encoded points and signatures read back, and Diffie and Hellman agree.\<close>

definition aead_law :: "('pk, 'esk, 'prk, 'cipher, 'sk, 'sig) suite \<Rightarrow> bool" where
  "aead_law c \<longleftrightarrow>
     (\<forall>k n h m. length m < 2 ^ 36 \<longrightarrow>
        (\<exists>ct tag. aes_encrypt c k n h m = Some (ct, tag) \<and> length ct = length m \<and> length tag = 16))
     \<and> (\<forall>k n h ct tag m. aes_decrypt c k n h ct tag = Some m \<longleftrightarrow> aes_encrypt c k n h m = Some (ct, tag))
     \<and> (\<forall>k. length k = 16 \<longrightarrow> aes_new c k \<noteq> None)"

definition kdf_law :: "('pk, 'esk, 'prk, 'cipher, 'sk, 'sig) suite \<Rightarrow> bool" where
  "kdf_law c \<longleftrightarrow>
     (\<forall>prk info n. n \<le> 255 * 32 \<longrightarrow> (\<exists>out. hkdf_expand c prk info n = Some out \<and> length out = n))
     \<and> (\<forall>s. 32 \<le> length s \<longrightarrow> hkdf_from_prk c s \<noteq> None)
     \<and> (\<forall>m. length (sha256 c m) = 32) \<and> (\<forall>k m. length (hmac c k m) = 32)"

definition curve_law :: "('pk, 'esk, 'prk, 'cipher, 'sk, 'sig) suite \<Rightarrow> bool" where
  "curve_law c \<longleftrightarrow>
     (\<forall>pk. from_sec1 c (to_sec1 c pk) = Some pk \<and> length (to_sec1 c pk) = 65)
     \<and> (\<forall>a b. diffie_hellman c a (public_key c b) = diffie_hellman c b (public_key c a))"

definition signature_law :: "('pk, 'esk, 'prk, 'cipher, 'sk, 'sig) suite \<Rightarrow> bool" where
  "signature_law c \<longleftrightarrow>
     (\<forall>sk m. length (sign c sk m) \<le> 72
        \<and> (\<exists>sig. der_signature c (sign c sk m) = Some sig \<and> verifies c sk m sig))"

definition lawful :: "('pk, 'esk, 'prk, 'cipher, 'sk, 'sig) suite \<Rightarrow> bool" where
  "lawful c \<longleftrightarrow> aead_law c \<and> kdf_law c \<and> curve_law c \<and> signature_law c"

lemma kdf_lawD:
  assumes "kdf_law c"
  shows "n \<le> 255 * 32 \<Longrightarrow> \<exists>out. hkdf_expand c prk info n = Some out \<and> length out = n"
    and "length s = 32 \<Longrightarrow> \<exists>prk. hkdf_from_prk c s = Some prk"
    and "length (sha256 c m) = 32" and "length (hmac c k m) = 32"
  using assms unfolding kdf_law_def by (blast, metis le_refl not_None_eq, blast+)

section \<open>The key schedule does not fail\<close>

lemma hkdf_label_Ok: "length label \<le> 200 \<Longrightarrow> length ctx \<le> 255 \<Longrightarrow> \<exists>info. hkdf_label label ctx n = Ok info"
  by (simp add: hkdf_label_def lit_def)

lemma expand_Ok:
  assumes "kdf_law c" "length label \<le> 200" "length ctx \<le> 255" "n \<le> 255 * 32"
  shows "\<exists>out. hkdf_expand_label c prk label ctx n = Ok out \<and> length out = n"
proof -
  obtain info where "hkdf_label label ctx (of_nat n) = Ok info" using hkdf_label_Ok [OF assms(2,3)] by blast
  moreover obtain out where "hkdf_expand c prk info n = Some out" "length out = n" using kdf_lawD(1) [OF assms(1,4)] by blast
  ultimately show ?thesis by (simp add: hkdf_expand_label_def)
qed

lemma derive_Ok:
  "kdf_law c \<Longrightarrow> length label \<le> 200 \<Longrightarrow> length ctx = 32 \<Longrightarrow> \<exists>out. derive_secret c prk label ctx = Ok out \<and> length out = 32"
  unfolding derive_secret_def by (rule expand_Ok) simp_all

lemma finished_Ok:
  assumes "kdf_law c" "length ts = 32"
  shows "\<exists>mac. compute_finished_mac c ts h = Ok mac \<and> length mac = 32"
proof -
  obtain prk where p: "hkdf_from_prk c ts = Some prk" using kdf_lawD(2) [OF assms] by blast
  obtain k where k: "hkdf_expand_label c prk (lit ''finished'') [] 32 = Ok k" using expand_Ok [OF assms(1), of "lit ''finished''" "[]" 32] by (auto simp: lit_def)
  have "length (hmac c k h) = 32" using assms(1) by (simp add: kdf_law_def)
  with p k show ?thesis by (simp add: compute_finished_mac_def)
qed

lemma from_secret_Ok:
  assumes "aead_law c" "kdf_law c" "length s = 32"
  shows "\<exists>k. from_secret c s = Ok k \<and> seq k = 0 \<and> length (iv k) = 12"
proof -
  obtain prk where p: "hkdf_from_prk c s = Some prk" using kdf_lawD(2) [OF assms(2,3)] by blast
  obtain k where k: "hkdf_expand_label c prk (lit ''key'') [] 16 = Ok k" "length k = 16" using expand_Ok [OF assms(2), of "lit ''key''" "[]" 16] by (auto simp: lit_def)
  obtain v where v: "hkdf_expand_label c prk (lit ''iv'') [] 12 = Ok v" "length v = 12" using expand_Ok [OF assms(2), of "lit ''iv''" "[]" 12] by (auto simp: lit_def)
  obtain ci where "aes_new c k = Some ci" using assms(1) k(2) by (auto simp: aead_law_def)
  with p k v show ?thesis by (simp add: from_secret_def)
qed

lemma secrets_Ok:
  assumes "kdf_law c" "length h = 32"
  shows "\<exists>hs a b. handshake_secrets c x h = Ok (hs, a, b) \<and> length a = 32 \<and> length b = 32"
proof -
  have e: "length (sha256 c []) = 32" using assms(1) by (simp add: kdf_law_def)
  have l: "length (lit ''derived'') \<le> 200" "length (lit ''c hs traffic'') \<le> 200" "length (lit ''s hs traffic'') \<le> 200" by (simp_all add: lit_def)
  obtain d where d: "derive_secret c (hkdf_extract_bytes c zero32 zero32) (lit ''derived'') (sha256 c []) = Ok d"
    using derive_Ok [OF assms(1) l(1) e] by blast
  from derive_Ok [OF assms(1) l(2) assms(2)] derive_Ok [OF assms(1) l(3) assms(2)] d show ?thesis
    unfolding handshake_secrets_def Let_def by (simp add: d) (metis and_then.simps(1))
qed

lemma app_secret_Ok:
  assumes "kdf_law c" "length h = 32"
  shows "\<exists>a. client_app_secret c hs h = Ok a \<and> length a = 32"
proof -
  have e: "length (sha256 c []) = 32" using assms(1) by (simp add: kdf_law_def)
  have l: "length (lit ''derived'') \<le> 200" "length (lit ''c ap traffic'') \<le> 200" by (simp_all add: lit_def)
  obtain d where d: "derive_secret c hs (lit ''derived'') (sha256 c []) = Ok d" using derive_Ok [OF assms(1) l(1) e] by blast
  from derive_Ok [OF assms(1) l(2) assms(2)] show ?thesis by (simp add: client_app_secret_def d)
qed

section \<open>A sealed record is opened\<close>

lemma seal_Ok:
  assumes "aead_law c" "seq k \<noteq> - 1" "length m < 2 ^ 36"
  obtains ct tag where "aes_encrypt c (cipher k) (record_nonce k) h m = Some (ct, tag)" "length ct = length m" "length tag = 16"
    "seal c k h m = Ok (k\<lparr>seq := seq k + 1\<rparr>, ct @ tag)"
proof -
  obtain ct tag where "aes_encrypt c (cipher k) (record_nonce k) h m = Some (ct, tag)" "length ct = length m" "length tag = 16"
    using assms(1,3) unfolding aead_law_def by blast
  with assms(2) that show ?thesis by (simp add: seal_def)
qed

lemma open_sealed:
  assumes "aead_law c" "seq k \<noteq> - 1" "aes_encrypt c (cipher k) (record_nonce k) h m = Some (ct, tag)" "length tag = 16"
  shows "open_record c k h (ct @ tag) = Ok (k\<lparr>seq := seq k + 1\<rparr>, m)"
proof -
  have "aes_decrypt c (cipher k) (record_nonce k) h ct tag = Some m" using assms(1,3) by (simp add: aead_law_def)
  with assms(2,4) show ?thesis by (simp add: open_record_def sub_slice_def Let_def)
qed

text \<open>What is written for a message does not depend on the buffer, and is read wherever it stands.\<close>

lemma send_receive:
  assumes a: "aead_law c" and s: "seq k \<noteq> - 1" and m: "length msg < 2 ^ 15"
  obtains r where "\<And>buf. send_encrypted c ty buf k msg = Ok (buf @ r, k\<lparr>seq := seq k + 1\<rparr>)"
    and "\<And>e1 e2 e3 data pos post. drop pos data = r @ post \<Longrightarrow>
      receive_encrypted c ty e1 e2 e3 data pos k = Ok (msg, pos + length r, k\<lparr>seq := seq k + 1\<rparr>) \<and> drop (pos + length r) data = post"
proof -
  let ?h = "record_header CT_APP_DATA (length (msg @ [ty]) + 16)"
  have len: "length (msg @ [ty]) < 2 ^ 36" using m by simp
  obtain ct tag where e: "aes_encrypt c (cipher k) (record_nonce k) ?h (msg @ [ty]) = Some (ct, tag)" "length ct = length (msg @ [ty])" "length tag = 16"
    "seal c k ?h (msg @ [ty]) = Ok (k\<lparr>seq := seq k + 1\<rparr>, ct @ tag)" using seal_Ok [OF a s len] by blast
  let ?r = "write_record [] CT_APP_DATA (ct @ tag)"
  have l: "length (ct @ tag) < 2 ^ 16" "length (ct @ tag) = length (msg @ [ty]) + 16" using e m by simp_all
  show thesis
  proof (rule that [of ?r])
    show "send_encrypted c ty buf k msg = Ok (buf @ ?r, k\<lparr>seq := seq k + 1\<rparr>)" for buf
      unfolding send_encrypted_def Let_def e(4) by simp (metis write_record_append)
    show "receive_encrypted c ty e1 e2 e3 data pos k = Ok (msg, pos + length ?r, k\<lparr>seq := seq k + 1\<rparr>) \<and> drop (pos + length ?r) data = post"
      if d: "drop pos data = ?r @ post" for e1 e2 e3 data pos post
      using read_record_at [OF d l(1)] open_sealed [OF a s e(1,3)] l(2)
      by (simp add: receive_encrypted_def add.assoc)
  qed
qed
lemma write_handshake_msg: "write_handshake [] ty body \<noteq> []" "hd (write_handshake [] ty body) = ty"
  "length (write_handshake [] ty body) = 4 + length body" "drop 4 (write_handshake [] ty body) = body"
  by (simp_all add: write_handshake_def Let_def)

lemma send_receive_handshake:
  assumes a: "aead_law c" and s: "seq k \<noteq> - 1" and m: "length body < 2 ^ 15 - 4" and msg: "msg = write_handshake [] ty body"
  obtains r where "\<And>buf. send_encrypted_handshake c buf k msg = Ok (buf @ r, k\<lparr>seq := seq k + 1\<rparr>)"
    and "\<And>data pos post. drop pos data = r @ post \<Longrightarrow>
      read_decrypt_handshake c data pos k ty = Ok (msg, pos + length r, k\<lparr>seq := seq k + 1\<rparr>) \<and> drop (pos + length r) data = post"
proof -
  have "length msg < 2 ^ 15" using m by (simp add: msg write_handshake_msg)
  from send_receive [OF a s this, where ty = CT_HANDSHAKE] obtain r where r:
    "\<And>buf. send_encrypted c CT_HANDSHAKE buf k msg = Ok (buf @ r, k\<lparr>seq := seq k + 1\<rparr>)"
    "\<And>e1 e2 e3 data pos post. drop pos data = r @ post \<Longrightarrow>
      receive_encrypted c CT_HANDSHAKE e1 e2 e3 data pos k = Ok (msg, pos + length r, k\<lparr>seq := seq k + 1\<rparr>) \<and> drop (pos + length r) data = post"
    by blast
  show thesis
  proof (rule that [of r])
    show "send_encrypted_handshake c buf k msg = Ok (buf @ r, k\<lparr>seq := seq k + 1\<rparr>)" for buf
      by (simp add: send_encrypted_handshake_def r(1))
    show "read_decrypt_handshake c data pos k ty = Ok (msg, pos + length r, k\<lparr>seq := seq k + 1\<rparr>) \<and> drop (pos + length r) data = post"
      if "drop pos data = r @ post" for data pos post
      using r(2) [OF that] by (simp add: read_decrypt_handshake_def msg write_handshake_msg)
  qed
qed

text \<open>The four messages of the server's flight are written behind what is there and read back in order.\<close>

lemma flight_received:
  assumes a: "aead_law c" and s: "seq k = 0"
    and m: "m1 = write_handshake [] t1 b1" "m2 = write_handshake [] t2 b2" "m3 = write_handshake [] t3 b3" "m4 = write_handshake [] t4 b4"
    and l: "length b1 < 2 ^ 15 - 4" "length b2 < 2 ^ 15 - 4" "length b3 < 2 ^ 15 - 4" "length b4 < 2 ^ 15 - 4"
  obtains k1 k2 k3 k4 r p1 p2 p3 p4 where "send_flight c [m1, m2, m3, m4] buf k = Ok (buf @ r, k4)"
    and "read_decrypt_handshake c (buf @ r) (length buf) k t1 = Ok (m1, p1, k1)"
    and "read_decrypt_handshake c (buf @ r) p1 k1 t2 = Ok (m2, p2, k2)"
    and "read_decrypt_handshake c (buf @ r) p2 k2 t3 = Ok (m3, p3, k3)"
    and "read_decrypt_handshake c (buf @ r) p3 k3 t4 = Ok (m4, p4, k4)"
proof -
  define k1 where "k1 = k\<lparr>seq := seq k + 1\<rparr>"
  define k2 where "k2 = k1\<lparr>seq := seq k1 + 1\<rparr>"
  define k3 where "k3 = k2\<lparr>seq := seq k2 + 1\<rparr>"
  define k4 where "k4 = k3\<lparr>seq := seq k3 + 1\<rparr>"
  have q: "seq k \<noteq> - 1" "seq k1 \<noteq> - 1" "seq k2 \<noteq> - 1" "seq k3 \<noteq> - 1" by (simp_all add: k1_def k2_def k3_def s)
  from send_receive_handshake [OF a q(1) l(1) m(1), folded k1_def] obtain r1 where r1:
    "\<And>buf. send_encrypted_handshake c buf k m1 = Ok (buf @ r1, k1)"
    "\<And>data pos post. drop pos data = r1 @ post \<Longrightarrow> read_decrypt_handshake c data pos k t1 = Ok (m1, pos + length r1, k1) \<and> drop (pos + length r1) data = post" by blast
  from send_receive_handshake [OF a q(2) l(2) m(2), folded k2_def] obtain r2 where r2:
    "\<And>buf. send_encrypted_handshake c buf k1 m2 = Ok (buf @ r2, k2)"
    "\<And>data pos post. drop pos data = r2 @ post \<Longrightarrow> read_decrypt_handshake c data pos k1 t2 = Ok (m2, pos + length r2, k2) \<and> drop (pos + length r2) data = post" by blast
  from send_receive_handshake [OF a q(3) l(3) m(3), folded k3_def] obtain r3 where r3:
    "\<And>buf. send_encrypted_handshake c buf k2 m3 = Ok (buf @ r3, k3)"
    "\<And>data pos post. drop pos data = r3 @ post \<Longrightarrow> read_decrypt_handshake c data pos k2 t3 = Ok (m3, pos + length r3, k3) \<and> drop (pos + length r3) data = post" by blast
  from send_receive_handshake [OF a q(4) l(4) m(4), folded k4_def] obtain r4 where r4:
    "\<And>buf. send_encrypted_handshake c buf k3 m4 = Ok (buf @ r4, k4)"
    "\<And>data pos post. drop pos data = r4 @ post \<Longrightarrow> read_decrypt_handshake c data pos k3 t4 = Ok (m4, pos + length r4, k4) \<and> drop (pos + length r4) data = post" by blast
  let ?r = "r1 @ r2 @ r3 @ r4" and ?n = "length buf"
  have "drop ?n (buf @ ?r) = r1 @ r2 @ r3 @ r4" by simp
  note c1 = r1(2) [OF this]
  note c2 = r2(2) [OF conjunct2 [OF c1]]
  note c3 = r3(2) [OF conjunct2 [OF c2]]
  have "drop (?n + length r1 + length r2 + length r3) (buf @ ?r) = r4 @ []" using c3 by simp
  note c4 = r4(2) [OF this]
  show thesis
    by (rule that [OF _ conjunct1 [OF c1] conjunct1 [OF c2] conjunct1 [OF c3] conjunct1 [OF c4]])
      (simp add: r1(1) r2(1) r3(1) r4(1))
qed

section \<open>The handshake completes\<close>

lemma verify_cv_Ok:
  assumes "signature_law c" "from_pkcs8 c key = Some sk"
  shows "verify_certificate_verify c key t (cv_msg (sign c sk (cv_input (sha256 c t)))) = Ok ()"
proof -
  let ?s = "sign c sk (cv_input (sha256 c t))" and ?p = "cv_msg (sign c sk (cv_input (sha256 c t)))"
  have s: "length ?s \<le> 72" using assms(1) by (simp add: signature_law_def)
  obtain sig where sig: "der_signature c ?s = Some sig" "verifies c sk (cv_input (sha256 c t)) sig"
    using assms(1) by (auto simp: signature_law_def)
  have "drop 4 ?p = u16_bytes 0x0403 @ u16_bytes (of_nat (length ?s)) @ ?s @ []"
    by (simp add: cv_msg_def write_handshake_msg) (simp add: u16_bytes_def)
  note a1 = word_at [OF this]
  then have "drop 6 ?p = u16_bytes (of_nat (length ?s)) @ ?s @ []" by simp
  note a2 = word_at [OF this]
  then have a3: "drop 8 ?p = ?s @ []" by simp
  have l: "length ?p = 8 + length ?s" by (simp add: cv_msg_def write_handshake_msg)
  have "sub_slice ?p 8 (8 + length ?s) = Ok ?s" using a3 l by (intro sub_slice_at) simp_all
  then show ?thesis using a1 a2 l s sig assms(2) by (simp add: verify_certificate_verify_def Let_def)
qed
lemma ping_Ok:
  assumes "aead_law c" "kdf_law c" "length h = 32"
  shows "exchange_ping c hs h hs h c2s (length c2s) = Ok ()"
proof -
  obtain a where a: "client_app_secret c hs h = Ok a" "length a = 32" using app_secret_Ok [OF assms(2,3)] by blast
  obtain k where k: "from_secret c a = Ok k" "seq k = 0" using from_secret_Ok [OF assms(1,2) a(2)] by blast
  have "seq k \<noteq> - 1" "length (lit ''PING'') < 2 ^ 15" using k(2) by (simp_all add: lit_def)
  from send_receive [OF assms(1) this, where ty = CT_APP_DATA] obtain r where r:
    "\<And>buf. send_encrypted c CT_APP_DATA buf k (lit ''PING'') = Ok (buf @ r, k\<lparr>seq := seq k + 1\<rparr>)"
    "\<And>e1 e2 e3 data pos post. drop pos data = r @ post \<Longrightarrow> receive_encrypted c CT_APP_DATA e1 e2 e3 data pos k
      = Ok (lit ''PING'', pos + length r, k\<lparr>seq := seq k + 1\<rparr>) \<and> drop (pos + length r) data = post" by blast
  have "drop (length c2s) (c2s @ r) = r @ []" by simp
  note rec = conjunct1 [OF r(2) [OF this]]
  show ?thesis unfolding exchange_ping_def a(1) and_then.simps k(1) r(1) prod.case rec by simp
qed

lemma length_client_hello: "curve_law c \<Longrightarrow> length r = 32 \<Longrightarrow> length (build_client_hello c r pk) = 141"
  by (simp add: curve_law_def build_client_hello_def Let_def push_extension_def LEGACY_VERSION_def CIPHER_SUITE_def TLS13_VERSION_def)

lemma length_server_hello: "curve_law c \<Longrightarrow> length r = 32 \<Longrightarrow> length (build_server_hello c r pk) = 119"
  by (simp add: curve_law_def build_server_hello_def Let_def push_extension_def LEGACY_VERSION_def CIPHER_SUITE_def TLS13_VERSION_def)

lemma certificate_msg_body: "\<exists>b. certificate_msg cert = write_handshake [] 0x0b b \<and> length b = length cert + 9"
  unfolding certificate_msg_def Let_def by (rule exI, rule conjI, rule refl) simp

lemma cv_msg_body: "\<exists>b. cv_msg s = write_handshake [] 0x0f b \<and> length b = length s + 4"
  unfolding cv_msg_def by (rule exI, rule conjI, rule refl) simp

text \<open>The first record of each side, as its peer reads it.\<close>

lemma first_record:
  assumes "length body < 2 ^ 15" "msg = write_handshake [] ty body"
  shows "read_record (write_record [] CT_HANDSHAKE msg @ post) 0 = (Ok (CT_HANDSHAKE, msg), length (write_record [] CT_HANDSHAKE msg))"
    "msg \<noteq> []" "hd msg = ty" "\<not> length msg < 4" "sub_slice msg 4 (length msg) = Ok body"
proof -
  have "length msg < 2 ^ 16" using assms by (simp add: write_handshake_msg)
  from read_record_written [OF this, of "[]"]
  show "read_record (write_record [] CT_HANDSHAKE msg @ post) 0 = (Ok (CT_HANDSHAKE, msg), length (write_record [] CT_HANDSHAKE msg))" by simp
  show "msg \<noteq> []" "hd msg = ty" "\<not> length msg < 4" using assms(2) by (simp_all add: write_handshake_msg)
  show "sub_slice msg 4 (length msg) = Ok body" using assms(2) by (intro sub_slice_at [of _ _ _ "[]"]) (simp_all add: write_handshake_msg)
qed

text \<open>Both sides derive the same secrets, and the flight of the server passes every check of the client.\<close>

lemma flights_agree:
  assumes law: "lawful c" and r: "length cr = 32" "length sr = 32" and cert: "length cert < 2 ^ 15 - 13" and key: "from_pkcs8 c key = Some sk"
    and ch: "ch = client_hello_msg c ec cr" and c2s: "c2s = write_record [] CT_HANDSHAKE ch"
  obtains s2c sh st hash kc c_ts mac where "server_flight c es sr cert key ch c2s = Ok (s2c, sh, st)"
    and "from_secret c c_ts = Ok kc" "seq kc = 0" "compute_finished_mac c c_ts hash = Ok mac" "length mac = 32"
    and "st_client_keys st = kc" "st_c_hs_ts st = c_ts" "st_pos st = length c2s" "sha256 c (st_transcript st) = hash" "length hash = 32"
    and "\<forall>rest k'. send_encrypted_handshake c c2s kc (write_handshake [] 0x14 mac) = Ok (rest, k')
      \<longrightarrow> client_flight c ec key ch sh s2c c2s = Ok (rest, st_hs st, hash)"
proof -
  have laws: "aead_law c" "kdf_law c" "curve_law c" "signature_law c" using law by (simp_all add: lawful_def)
  have pk: "from_sec1 c (to_sec1 c p) = Some p" "length (to_sec1 c p) < 2 ^ 15" for p using laws(3) by (simp_all add: curve_law_def)
  have sha: "length (sha256 c m) = 32" for m using kdf_lawD(3) [OF laws(2)] .
  let ?ch = "build_client_hello c cr (public_key c ec)" and ?sh = "build_server_hello c sr (public_key c es)"
  have chl: "length ?ch < 2 ^ 15" and shl: "length ?sh < 2 ^ 15" using laws(3) r by (simp_all add: length_client_hello length_server_hello)
  note f1 = first_record [OF chl ch [unfolded client_hello_msg_def]]
  define sh where "sh = write_handshake [] 0x02 ?sh"
  note f2 = first_record [OF shl sh_def]
  have x1: "extract_client_key_share c ?ch = Ok (public_key c ec)" and x2: "extract_server_key_share c ?sh = Ok (public_key c es)"
    using client_hello_roundtrip [OF r(1) pk(2)] server_hello_roundtrip [OF r(2) pk(2)] pk(1) by simp_all
  have dh: "diffie_hellman c ec (public_key c es) = diffie_hellman c es (public_key c ec)" using laws(3) by (simp add: curve_law_def)
  obtain hs c_ts s_ts where hs: "handshake_secrets c (diffie_hellman c es (public_key c ec)) (sha256 c (ch @ sh)) = Ok (hs, c_ts, s_ts)"
    and ts: "length c_ts = 32" "length s_ts = 32" using secrets_Ok [OF laws(2) sha] by blast
  obtain kc where kc: "from_secret c c_ts = Ok kc" "seq kc = 0" using from_secret_Ok [OF laws(1,2) ts(1)] by blast
  obtain ks where ks: "from_secret c s_ts = Ok ks" "seq ks = 0" using from_secret_Ok [OF laws(1,2) ts(2)] by blast
  define ee where "ee = write_handshake [] 0x08 ([0, 0] :: bytes)"
  define t where "t = (ch @ sh) @ ee @ certificate_msg cert"
  define cv where "cv = cv_msg (sign c sk (cv_input (sha256 c t)))"
  obtain smac where smac: "compute_finished_mac c s_ts (sha256 c (t @ cv)) = Ok smac" "length smac = 32" using finished_Ok [OF laws(2) ts(2)] by blast
  define sfin where "sfin = write_handshake [] 0x14 smac"
  define hash where "hash = sha256 c ((t @ cv) @ sfin)"
  obtain mac where mac: "compute_finished_mac c c_ts hash = Ok mac" "length mac = 32" using finished_Ok [OF laws(2) ts(1)] by blast
  obtain bc where bc: "certificate_msg cert = write_handshake [] 0x0b bc" "length bc = length cert + 9" using certificate_msg_body by blast
  obtain bv where bv: "cv = write_handshake [] 0x0f bv" "length bv = length (sign c sk (cv_input (sha256 c t))) + 4" using cv_msg_body cv_def by blast
  have "length (sign c sk (cv_input (sha256 c t))) \<le> 72" using laws(4) by (simp add: signature_law_def)
  then have l: "length ([0, 0] :: bytes) < 2 ^ 15 - 4" "length bc < 2 ^ 15 - 4" "length bv < 2 ^ 15 - 4" "length smac < 2 ^ 15 - 4"
    using bc(2) bv(2) smac(2) cert by simp_all
  let ?buf = "write_record [] CT_HANDSHAKE sh"
  obtain k1 k2 k3 k4 rr p1 p2 p3 p4 where fl: "send_flight c [ee, certificate_msg cert, cv, sfin] ?buf ks = Ok (?buf @ rr, k4)"
    "read_decrypt_handshake c (?buf @ rr) (length ?buf) ks 0x08 = Ok (ee, p1, k1)"
    "read_decrypt_handshake c (?buf @ rr) p1 k1 0x0b = Ok (certificate_msg cert, p2, k2)"
    "read_decrypt_handshake c (?buf @ rr) p2 k2 0x0f = Ok (cv, p3, k3)"
    "read_decrypt_handshake c (?buf @ rr) p3 k3 0x14 = Ok (sfin, p4, k4)"
    by (rule flight_received [OF laws(1) ks(2) ee_def bc(1) bv(1) sfin_def l, of ?buf])
  let ?st = "\<lparr>st_hs = hs, st_c_hs_ts = c_ts, st_client_keys = kc, st_transcript = (t @ cv) @ sfin, st_pos = length c2s\<rparr>"
  have rec: "read_record c2s 0 = (Ok (CT_HANDSHAKE, ch), length c2s)" using f1(1) [of "[]"] by (simp add: c2s)
  have server: "server_flight c es sr cert key ch c2s = Ok (?buf @ rr, sh, ?st)"
    unfolding server_flight_def rec prod.case and_then.simps f1(3,5) x1 Let_def sh_def [symmetric] hs ks(1) kc(1) ok_or_simps(1) key
      ee_def [symmetric] t_def [symmetric] cv_def [symmetric] smac(1) sfin_def [symmetric] fl(1)
    using f1(2,4) by simp
  have client: "client_flight c ec key ch sh (?buf @ rr) c2s = Ok (rest, hs, hash)"
    if s: "send_encrypted_handshake c c2s kc (write_handshake [] 0x14 mac) = Ok (rest, k')" for rest k'
    unfolding client_flight_def f2(1) prod.case and_then.simps f2(3,5) x2 Let_def dh hs ks(1) kc(1) fl(2-5) t_def [symmetric]
      verify_cv_Ok [OF laws(4) key, of t, folded cv_def] smac(1) hash_def [symmetric] mac(1) s
    using f2(2,4) by (simp add: sfin_def write_handshake_msg)
  show thesis
    by (rule that [OF server kc mac]) (simp_all add: hash_def sha client)
qed

text \<open>C8: with crates that keep their promises the loopback test succeeds, for all ephemeral keys and random values, every
  certificate that fits a record and every readable signing key: both sides find each other's key share, derive the
  same secrets, the four records of the server and the Finished of the client decrypt in order, the signature and both
  MACs verify, and the application record arrives.\<close>

theorem tls_handshake_completes:
  assumes law: "lawful c" and r: "length client_random = 32" "length server_random = 32"
    and cert: "length cert_der < 2 ^ 15 - 13" and key: "from_pkcs8 c key_der = Some sk"
  shows "run_tls_loopback_test c True client_secret server_secret client_random server_random cert_der key_der = Ok ()"
proof -
  have laws: "aead_law c" "kdf_law c" using law by (simp_all add: lawful_def)
  let ?ch = "client_hello_msg c client_secret client_random" and ?c2s = "write_record [] CT_HANDSHAKE (client_hello_msg c client_secret client_random)"
  obtain s2c sh st hash kc c_ts mac where f: "server_flight c server_secret server_random cert_der key_der ?ch ?c2s = Ok (s2c, sh, st)"
    "from_secret c c_ts = Ok kc" "seq kc = 0" "compute_finished_mac c c_ts hash = Ok mac" "length mac = 32"
    "st_client_keys st = kc" "st_c_hs_ts st = c_ts" "st_pos st = length ?c2s" "sha256 c (st_transcript st) = hash" "length hash = 32"
    "\<forall>rest k'. send_encrypted_handshake c ?c2s kc (write_handshake [] 0x14 mac) = Ok (rest, k')
      \<longrightarrow> client_flight c client_secret key_der ?ch sh s2c ?c2s = Ok (rest, st_hs st, hash)"
    by (rule flights_agree [OF law r cert key refl refl, where es = server_secret and ec = client_secret])
  have "seq kc \<noteq> - 1" "length (write_handshake [] 0x14 mac) < 2 ^ 15" using f(3,5) by (simp_all add: write_handshake_msg)
  from send_receive [OF laws(1) this, where ty = CT_HANDSHAKE] obtain w where w:
    "\<And>buf. send_encrypted c CT_HANDSHAKE buf kc (write_handshake [] 0x14 mac) = Ok (buf @ w, kc\<lparr>seq := seq kc + 1\<rparr>)"
    "\<And>e1 e2 e3 data pos post. drop pos data = w @ post \<Longrightarrow> receive_encrypted c CT_HANDSHAKE e1 e2 e3 data pos kc
      = Ok (write_handshake [] 0x14 mac, pos + length w, kc\<lparr>seq := seq kc + 1\<rparr>) \<and> drop (pos + length w) data = post" by blast
  have cf: "client_flight c client_secret key_der ?ch sh s2c ?c2s = Ok (?c2s @ w, st_hs st, hash)"
    using f(11) w(1) [of ?c2s] by (simp add: send_encrypted_handshake_def)
  have "drop (length ?c2s) (?c2s @ w) = w @ []" by simp
  note rec = conjunct1 [OF w(2) [OF this]]
  have sf: "server_finish c st (?c2s @ w) = Ok (length (?c2s @ w), hash)"
    unfolding server_finish_def f(6-9) rec by (simp add: write_handshake_msg f(4) Let_def)
  show ?thesis unfolding run_tls_loopback_test_def Let_def f(1) cf and_then.simps prod.case sf
    by (simp only: not_True_eq_False if_False ping_Ok [OF laws f(10)])
qed
section \<open>No bytes from the peer make a side panic\<close>

lemma outcome_OkD: "m = Ok x \<Longrightarrow> \<exists>y. m = Ok y \<and> P y \<Longrightarrow> P x"
  by simp

lemma safe_Ok_ex: "\<exists>y. m = Ok y \<and> P y \<Longrightarrow> safe m"
  by auto

lemma safe_secrets:
  assumes "kdf_law c" "length h = 32"
  shows "safe (handshake_secrets c x h)" and "handshake_secrets c x h = Ok (hs, a, b) \<Longrightarrow> length a = 32 \<and> length b = 32"
  using secrets_Ok [OF assms, of x] by auto

lemma safe_from_secret: "aead_law c \<Longrightarrow> kdf_law c \<Longrightarrow> length s = 32 \<Longrightarrow> safe (from_secret c s)"
  using from_secret_Ok by (rule safe_Ok_ex)

lemma safe_finished:
  assumes "kdf_law c" "length ts = 32"
  shows "safe (compute_finished_mac c ts h)" and "compute_finished_mac c ts h = Ok mac \<Longrightarrow> length mac = 32"
  using finished_Ok [OF assms, of h] by auto

lemma safe_open [simp]: "safe (open_record c k h ct)"
  by (simp add: open_record_def Let_def split: prod.split)

lemma safe_fst_read [simp]: "read_record d p = (r, q) \<Longrightarrow> safe r"
  by (metis fst_conv read_record_safe)

lemma safe_receive [simp]: "safe (receive_encrypted c ty e1 e2 e3 d p k)"
  by (auto simp: receive_encrypted_def split: prod.split)

lemma safe_read_decrypt [simp]: "safe (read_decrypt_handshake c d p k ty)"
  by (auto simp: read_decrypt_handshake_def split: prod.split)

lemma safe_send:
  assumes "aead_law c" "length m < 2 ^ 36 - 1"
  shows "safe (send_encrypted c ty buf k m)"
proof -
  have "length (m @ [ty]) < 2 ^ 36" using assms(2) by simp
  then obtain ct tag where "aes_encrypt c (cipher k) (record_nonce k) (record_header CT_APP_DATA (length (m @ [ty]) + 16)) (m @ [ty]) = Some (ct, tag)"
    using assms(1) unfolding aead_law_def by blast
  then show ?thesis by (auto simp: send_encrypted_def Let_def seal_def split: prod.split)
qed

lemma safe_send_flight: "aead_law c \<Longrightarrow> list_all (\<lambda>m. length m < 2 ^ 36 - 1) ms \<Longrightarrow> safe (send_flight c ms buf k)"
  by (induction ms arbitrary: buf k) (auto simp: send_encrypted_handshake_def safe_send split: prod.split)

lemma safe_verify_cv [simp]: "safe (verify_certificate_verify c key t p)"
  by (simp add: verify_certificate_verify_def Let_def)

lemma client_flight_safe:
  assumes "lawful c"
  shows "safe (client_flight c ec key ch sh s2c c2s)"
proof -
  have laws: "aead_law c" "kdf_law c" using assms by (simp_all add: lawful_def)
  have sha: "length (sha256 c m) = 32" for m using kdf_lawD(3) [OF laws(2)] .
  have send: "safe (send_encrypted_handshake c buf k (write_handshake [] 0x14 mac))" if "length mac = 32" for buf k mac
    unfolding send_encrypted_handshake_def using that by (intro safe_send [OF laws(1)]) (simp add: write_handshake_msg)
  obtain r pos where rp: "read_record s2c 0 = (r, pos)" by (cases "read_record s2c 0")
  show ?thesis unfolding client_flight_def Let_def rp prod.case
    using safe_fst_read [OF rp] safe_secrets [OF laws(2) sha] safe_from_secret [OF laws] safe_finished [OF laws(2)]
    by (auto simp: extract_server_safe split: prod.split) (use send in blast)
qed

lemma server_flight_safe:
  assumes "lawful c" "length cert < 2 ^ 35"
  shows "safe (server_flight c es sr cert key ch c2s)"
proof -
  have laws: "aead_law c" "kdf_law c" "signature_law c" using assms by (simp_all add: lawful_def)
  have sha: "length (sha256 c m) = 32" for m using kdf_lawD(3) [OF laws(2)] .
  have sl: "length (sign c sk m) \<le> 72" for sk m using laws(3) by (simp add: signature_law_def)
  have cv: "length (cv_msg (sign c sk m)) < 2 ^ 36 - 1" for sk m
    using sl [of sk m] by (simp add: cv_msg_def write_handshake_msg)
  have ce: "length (certificate_msg cert) < 2 ^ 36 - 1"
    using certificate_msg_body [of cert] assms(2) by (auto simp: write_handshake_msg)
  have fl: "safe (send_flight c [write_handshake [] 0x08 [0, 0], certificate_msg cert, cv_msg (sign c sk m), write_handshake [] 0x14 mac] buf k)"
    if "length mac = 32" for sk m mac buf k
    using cv [of sk m] ce that by (intro safe_send_flight [OF laws(1)]) (simp add: write_handshake_msg)
  obtain r pos where rp: "read_record c2s 0 = (r, pos)" by (cases "read_record c2s 0")
  show ?thesis unfolding server_flight_def Let_def rp prod.case
    using safe_fst_read [OF rp] safe_secrets [OF laws(2) sha] safe_from_secret [OF laws(1,2)] safe_finished [OF laws(2)]
    by (auto simp: extract_client_safe simp del: send_flight.simps split: prod.split) (use fl in blast)
qed

lemma server_finish_safe:
  assumes "kdf_law c" "length (st_c_hs_ts st) = 32"
  shows "safe (server_finish c st c2s)"
  using safe_finished [OF assms] by (auto simp: server_finish_def Let_def split: prod.split)
text \<open>C11: no panic is reachable from the network. Whatever bytes the server receives for the client's hello and later
  for its Finished, and whatever bytes the client receives for the server's flight, each side ends with a result or an
  error: no byte is read outside a buffer, no slice is malformed, and no \<^verbatim>\<open>expect\<close> or \<^verbatim>\<open>assert\<close> of the key
  schedule and the cipher fails.\<close>

theorem tls_peers_never_panic:
  assumes "lawful c" "length cert < 2 ^ 35"
  shows "server_flight c es sr cert key ch from_client \<noteq> Panic
    \<and> client_flight c ec key ch sh from_server c2s \<noteq> Panic
    \<and> (length (st_c_hs_ts st) = 32 \<longrightarrow> server_finish c st from_client \<noteq> Panic)
    \<and> extract_client_key_share c from_client \<noteq> Panic \<and> extract_server_key_share c from_server \<noteq> Panic"
  using client_flight_safe [OF assms(1)] server_flight_safe [OF assms] server_finish_safe assms(1) extract_client_safe extract_server_safe
  unfolding safe_def lawful_def by blast

section \<open>No nonce is used twice\<close>

lemma nth_u64_bytes: "i < 8 \<Longrightarrow> u64_bytes w ! i = ucast (drop_bit (56 - 8 * i) w)"
  by (simp add: u64_bytes_def)

lemma u64_bytes_inj: "u64_bytes v = u64_bytes w \<longleftrightarrow> v = w"
proof
  assume e: "u64_bytes v = u64_bytes w"
  show "v = w"
  proof (rule bit_word_eqI)
    fix n
    assume n: "n < LENGTH(64)"
    let ?i = "7 - n div 8"
    have i: "?i < 8" by simp
    have "56 - 8 * ?i = 8 * (n div 8)" using n by simp
    then have "(ucast (drop_bit (8 * (n div 8)) v) :: u8) = ucast (drop_bit (8 * (n div 8)) w)"
      using e nth_u64_bytes [OF i, of v] nth_u64_bytes [OF i, of w] by simp
    then have "bit (ucast (drop_bit (8 * (n div 8)) v) :: u8) (n mod 8) = bit (ucast (drop_bit (8 * (n div 8)) w) :: u8) (n mod 8)" by simp
    then show "bit v n = bit w n" by (simp add: bit_simps)
  qed
qed simp

lemma map_xor_inj:
  "length a = length s \<Longrightarrow> length s = length t \<Longrightarrow> map (\<lambda>(b, x). b XOR x) (zip a s) = map (\<lambda>(b, x). b XOR x) (zip a t) \<longleftrightarrow> s = (t :: u8 list)"
proof (induction a s t rule: list_induct3)
  case (Cons a as s ss t ts)
  have "a XOR s = a XOR t \<longleftrightarrow> s = t" by (metis xor.assoc xor.left_neutral xor_self_eq)
  with Cons show ?case by simp
qed simp

lemma record_nonce_inj:
  assumes "length (iv k) = 12"
  shows "record_nonce (k\<lparr>seq := v\<rparr>) = record_nonce (k\<lparr>seq := w\<rparr>) \<longleftrightarrow> v = w"
proof -
  have l: "length (drop 4 (iv k)) = length (u64_bytes v)" "length (u64_bytes v) = length (u64_bytes w)"
    using assms by (simp_all add: u64_bytes_def)
  show ?thesis using map_xor_inj [OF l] by (simp add: record_nonce_def u64_bytes_inj)
qed

text \<open>The records sealed one after the other with one set of keys, each a header and a text, up to the first refusal.\<close>

fun seal_all :: "('pk, 'esk, 'prk, 'cipher, 'sk, 'sig) suite \<Rightarrow> 'cipher TrafficKeys \<Rightarrow> (bytes \<times> bytes) list \<Rightarrow> bytes list" where
  "seal_all c k [] = []"
| "seal_all c k ((h, m) # rs) = (case seal c k h m of Ok (k', x) \<Rightarrow> x # seal_all c k' rs | _ \<Rightarrow> [])"

lemma seal_next:
  assumes "seal c k h m = Ok (k', x)"
  shows "k' = k\<lparr>seq := seq k + 1\<rparr>" "unat (seq k') = Suc (unat (seq k))"
proof -
  have s: "seq k \<noteq> - 1" and k: "k' = k\<lparr>seq := seq k + 1\<rparr>"
    using assms by (auto simp: seal_def and_then_Ok_iff split: if_splits prod.splits)
  have "unat (seq k) \<noteq> unat (- 1 :: u64)" using s by (simp add: word_unat_eq_iff)
  then have "unat (seq k) + 1 < 2 ^ LENGTH(64)" using unat_lt_pow [of "seq k"] unat_minus_one_word_max [where 'a = 64] by simp
  then show "unat (seq k') = Suc (unat (seq k))" using k by (simp add: unat_word_ariths)
  show "k' = k\<lparr>seq := seq k + 1\<rparr>" by (rule k)
qed

text \<open>The record that is sealed at a position is the cipher's answer for the nonce of that position; the positions stay
  below the top of the counter.\<close>

lemma seal_all_nth:
  "i < length (seal_all c k rs) \<Longrightarrow>
     unat (seq k) + i < 2 ^ 64 - 1 \<and> (\<exists>ct tag. seal_all c k rs ! i = ct @ tag
       \<and> aes_encrypt c (cipher k) (record_nonce (k\<lparr>seq := seq k + of_nat i\<rparr>)) (fst (rs ! i)) (snd (rs ! i)) = Some (ct, tag))"
proof (induction c k rs arbitrary: i rule: seal_all.induct)
  case (2 c k h m rs)
  from 2(2) obtain k' x where s: "seal c k h m = Ok (k', x)" by (auto split: outcome.splits)
  note nx = seal_next [OF s]
  show ?case
  proof (cases i)
    case 0
    have "seq k \<noteq> - 1" and e: "\<exists>ct tag. x = ct @ tag \<and> aes_encrypt c (cipher k) (record_nonce k) h m = Some (ct, tag)"
      using s by (auto simp: seal_def and_then_Ok_iff split: if_splits prod.splits option.splits)
    have "unat (seq k) < 2 ^ 64 - 1" using nx(2) unat_lt_pow [of "seq k'"] by simp
    with e s 0 show ?thesis by simp
  next
    case (Suc j)
    with 2(2) s have "j < length (seal_all c k' rs)" by simp
    from "2.IH" [OF s refl this] nx s Suc show ?thesis by (simp add: ac_simps)
  qed
qed simp

lemma seal_all_complete:
  assumes "aead_law c"
  shows "list_all (\<lambda>(h, m). length m < 2 ^ 36) rs \<Longrightarrow> unat (seq k) + length rs < 2 ^ 64 \<Longrightarrow> length (seal_all c k rs) = length rs"
proof (induction rs arbitrary: k)
  case (Cons r rs)
  obtain h m where r: "r = (h, m)" by (cases r)
  from Cons.prems have "unat (seq k) \<noteq> unat (- 1 :: u64)" using unat_minus_one_word_max [where 'a = 64] by simp
  then have "seq k \<noteq> - 1" by auto
  from seal_Ok [OF assms this, of m] Cons.prems(1) obtain x where s: "seal c k h m = Ok (k\<lparr>seq := seq k + 1\<rparr>, x)" by (auto simp: r)
  from seal_next(2) [OF s] Cons show ?case by (simp add: r s)
qed simp

text \<open>C31: with the keys derived from one traffic secret no two records are sealed under the same nonce, however many
  are sealed. The records that \<open>seal\<close> gives out are, one by one, what the cipher made of the header and the text under
  the nonces of the positions 0, 1, 2 and so on, each the derived base of twelve bytes combined with its position, and these nonces are
  pairwise different: the counter is refused before it wraps. And sealing goes on as long as the counter lasts, when
  the cipher keeps its promise.\<close>

theorem tls_nonces_distinct:
  assumes "kdf_law c" "from_secret c secret = Ok k"
  shows "let out = seal_all c k rs; nonces = map (\<lambda>i. record_nonce (k\<lparr>seq := of_nat i\<rparr>)) [0..<length out] in
    distinct nonces \<and> list_all (\<lambda>n. length n = 12) nonces
    \<and> (\<forall>i < length out. \<exists>ct tag. out ! i = ct @ tag
         \<and> aes_encrypt c (cipher k) (nonces ! i) (fst (rs ! i)) (snd (rs ! i)) = Some (ct, tag))
    \<and> (aead_law c \<and> list_all (\<lambda>(h, m). length m < 2 ^ 36) rs \<and> length rs < 2 ^ 64 \<longrightarrow> length out = length rs)"
proof -
  obtain prk where v: "hkdf_expand_label c prk (lit ''iv'') [] 12 = Ok (iv k)" and k: "seq k = 0"
    using assms(2) by (auto simp: from_secret_def and_then_Ok_iff)
  have "\<exists>out. hkdf_expand_label c prk (lit ''iv'') [] 12 = Ok out \<and> length out = 12"
    by (rule expand_Ok [OF assms(1)]) (simp_all add: lit_def)
  with v have l: "length (iv k) = 12" by auto
  note at = seal_all_nth [where c = c and k = k and rs = rs, unfolded k, simplified]
  have "i = j" if "i < length (seal_all c k rs)" "j < length (seal_all c k rs)" "(of_nat i :: u64) = of_nat j" for i j
  proof -
    have "i < 2 ^ LENGTH(64)" "j < 2 ^ LENGTH(64)" using at [OF that(1)] at [OF that(2)] by simp_all
    then have "unat (of_nat i :: u64) = i" "unat (of_nat j :: u64) = j" by (simp_all only: unat_of_nat mod_less)
    with that(3) show ?thesis by metis
  qed
  then have "distinct (map (\<lambda>i. record_nonce (k\<lparr>seq := of_nat i\<rparr>)) [0..<length (seal_all c k rs)])"
    unfolding distinct_map inj_on_def by (auto simp: record_nonce_inj [OF l])
  moreover have "length (record_nonce (k\<lparr>seq := w\<rparr>)) = 12" for w using l by (simp add: record_nonce_def u64_bytes_def)
  ultimately show ?thesis
    using at seal_all_complete [where c = c and rs = rs and k = k] k by (simp add: Let_def list_all_iff)
qed

section \<open>What the record layer accepts\<close>

text \<open>A record is accepted exactly if its payload is the message sealed under the nonce of the reader's position: a
  record that is altered, repeated or out of order passes only where the cipher itself gives the same text under
  another nonce.\<close>

lemma receive_accepts_iff:
  assumes law: "aead_law c" and r: "read_record data pos = (Ok (CT_APP_DATA, payload), p)"
  shows "receive_encrypted c ty e1 e2 e3 data pos k = Ok (msg, p, k\<lparr>seq := seq k + 1\<rparr>) \<longleftrightarrow>
    seq k \<noteq> - 1 \<and> (\<exists>ct tag. payload = ct @ tag \<and> length tag = 16
      \<and> aes_encrypt c (cipher k) (record_nonce k) (record_header CT_APP_DATA (length payload)) (msg @ [ty]) = Some (ct, tag))"
    (is "?l \<longleftrightarrow> seq k \<noteq> - 1 \<and> ?sealed")
proof -
  let ?h = "record_header CT_APP_DATA (length payload)" and ?n = "length payload - 16"
  have dec: "aes_decrypt c (cipher k) (record_nonce k) ?h ct tag = Some m \<longleftrightarrow> aes_encrypt c (cipher k) (record_nonce k) ?h m = Some (ct, tag)" for ct tag m
    using law by (simp add: aead_law_def)
  have plain: "m \<noteq> [] \<and> last m = ty \<and> butlast m = msg \<longleftrightarrow> m = msg @ [ty]" for m by (cases m rule: rev_cases) auto
  have "?l \<longleftrightarrow> \<not> length payload < 16 \<and> seq k \<noteq> - 1
      \<and> (\<exists>m. aes_decrypt c (cipher k) (record_nonce k) ?h (take ?n payload) (drop ?n payload) = Some m \<and> m \<noteq> [] \<and> last m = ty \<and> butlast m = msg)"
    by (auto simp: receive_encrypted_def r open_record_def sub_slice_def Let_def and_then_Ok_iff split: if_splits)
  also have "\<dots> \<longleftrightarrow> seq k \<noteq> - 1 \<and> ?sealed" unfolding plain dec
  proof safe
    assume "\<not> length payload < 16" "aes_encrypt c (cipher k) (record_nonce k) ?h (msg @ [ty]) = Some (take ?n payload, drop ?n payload)"
    then show ?sealed by (intro exI [of _ "take ?n payload"] exI [of _ "drop ?n payload"]) simp
  qed simp_all
  finally show ?thesis .
qed

text \<open>The two version bytes of a record are neither read nor authenticated: the header that is authenticated is
  rebuilt.\<close>

lemma record_version_unauthenticated:
  assumes "i = 1 \<or> i = 2"
  shows "receive_encrypted c ty e1 e2 e3 (data[pos + i := v]) pos k = receive_encrypted c ty e1 e2 e3 data pos k"
proof -
  have "read_record (data[pos + i := v]) pos = read_record data pos" using assms by (auto simp: read_record_cases Let_def)
  then show ?thesis by (simp add: receive_encrypted_def)
qed

section \<open>Crates that keep their promises\<close>

text \<open>A lawful suite exists: addition for the curve, the identity with a constant tag for the cipher.\<close>

definition plain_suite :: "(u8, u8, bytes, bytes, bytes, bytes) suite" where
  "plain_suite = \<lparr>sha256 = (\<lambda>m. take 32 (m @ replicate 32 0)), hkdf_extract = (\<lambda>salt ikm. salt @ ikm), hkdf_from_prk = Some,
     hkdf_expand = (\<lambda>prk info n. Some (take n (prk @ info @ replicate n 0))), hmac = (\<lambda>k m. take 32 (k @ m @ replicate 32 0)),
     aes_new = Some, aes_encrypt = (\<lambda>k n h m. Some (m, replicate 16 0)),
     aes_decrypt = (\<lambda>k n h ct tag. if tag = replicate 16 0 then Some ct else None),
     to_sec1 = (\<lambda>pk. pk # replicate 64 0), from_sec1 = (\<lambda>bs. if bs = [] then None else Some (hd bs)),
     public_key = (\<lambda>s. s), diffie_hellman = (\<lambda>a b. [a + b]), from_pkcs8 = Some,
     sign = (\<lambda>sk m. [7]), der_signature = Some, verifies = (\<lambda>sk m s. s = [7])\<rparr>"

lemma plain_suite_lawful: "lawful plain_suite"
  by (auto simp: lawful_def aead_law_def kdf_law_def curve_law_def signature_law_def plain_suite_def)

lemma tls_handshake_completes_witness:
  "run_tls_loopback_test plain_suite True 3 5 (replicate 32 1) (replicate 32 2) [48, 130] [9] = Ok ()"
  by (rule tls_handshake_completes [OF plain_suite_lawful]) (simp_all add: plain_suite_def)

lemma tls_peers_never_panic_witness:
  "server_flight plain_suite 5 (replicate 32 2) [48] [9] [] [22, 3, 3, 255, 255, 1] \<noteq> Panic
    \<and> extract_client_key_share plain_suite (replicate 34 0 @ [255]) \<noteq> Panic"
  using tls_peers_never_panic [OF plain_suite_lawful, of "[48]" 5 "replicate 32 2" "[9]" "[]" "[22, 3, 3, 255, 255, 1]"]
    tls_peers_never_panic [OF plain_suite_lawful, of "[48]" 5 "[]" "[9]" "[]" "replicate 34 0 @ [255]"] by simp

text \<open>A cipher that shows its nonce shows two different ones.\<close>

lemma tls_nonces_distinct_witness:
  "let c = plain_suite\<lparr>aes_encrypt := \<lambda>k n h m. Some (m, n)\<rparr> in
   \<exists>k a b. from_secret c (replicate 32 0) = Ok k \<and> seal_all c k [([], [1]), ([], [1])] = [1 # a, 1 # b] \<and> a \<noteq> b"
proof -
  let ?c = "plain_suite\<lparr>aes_encrypt := \<lambda>k n h m. Some (m, n)\<rparr>" and ?rs = "[([], [1]), ([], [1])] :: (bytes \<times> bytes) list"
  have law: "aead_law plain_suite" "kdf_law plain_suite" using plain_suite_lawful by (simp_all add: lawful_def)
  then have law': "kdf_law ?c" by (simp add: kdf_law_def)
  obtain k where "from_secret plain_suite (replicate 32 0) = Ok k" "seq k = 0"
    using from_secret_Ok [OF law, of "replicate 32 0"] by auto
  then have k: "from_secret ?c (replicate 32 0) = Ok k" "seq k = 0"
    by (simp_all add: from_secret_def hkdf_expand_label_def)
  define out where "out = seal_all ?c k ?rs"
  define ns where "ns = map (\<lambda>i. record_nonce (k\<lparr>seq := of_nat i\<rparr>)) [0..<length out]"
  have two: "length out = 2" using k(2) by (simp add: out_def seal_def)
  from tls_nonces_distinct [OF law' k(1), of ?rs, folded out_def] have
    d: "distinct ns" and o: "\<forall>i < 2. \<exists>ct tag. out ! i = ct @ tag \<and> aes_encrypt ?c (cipher k) (ns ! i) (fst (?rs ! i)) (snd (?rs ! i)) = Some (ct, tag)"
    by (simp_all add: Let_def ns_def two)
  have "out ! 0 = 1 # ns ! 0" "out ! 1 = 1 # ns ! 1" using o by (auto simp: less_2_cases_iff)
  then have "out = [1 # ns ! 0, 1 # ns ! 1]" using two by (auto simp: list_eq_iff_nth_eq less_2_cases_iff)
  moreover have "ns ! 0 \<noteq> ns ! 1" using d two nth_eq_iff_index_eq [of ns 0 1] unfolding ns_def by simp
  ultimately show ?thesis using k(1) unfolding out_def Let_def by blast
qed

end
