(* ===== verification/Webhooks.thy ===== *)
theory Webhooks
  imports Motor_Gate Audit_Trail "HOL-Library.Char_ord" "HOL-Library.List_Lexorder"
begin

unbundle bit_operations_syntax

text \<open>
  Webhooks (\<^verbatim>\<open>crates/webhooks/src\<close>): endpoints and their event filters (\<^verbatim>\<open>endpoint.rs\<close>), the registry with its check of
  target addresses and its file (\<^verbatim>\<open>registry.rs\<close>), signatures (\<^verbatim>\<open>payload.rs\<close>) and delivery with retries
  (\<^verbatim>\<open>dispatcher.rs\<close>). The helpers that take a host apart and classify its address are repeated in the source word for
  word from the motor gate and are those of \<open>Motor_Gate\<close>, as the construction of the MAC is that of \<open>Constitution\<close>. The
  JSON codec, the hash, the write of the file and the sender of a request are arguments.
\<close>

section \<open>Endpoints\<close>

datatype EventFilter = FilterAll | Selected "string list"

primrec filter_matches :: "EventFilter \<Rightarrow> string \<Rightarrow> bool" where
  "filter_matches FilterAll kind = True"
| "filter_matches (Selected kinds) kind = (kind \<in> set kinds)"

definition filter_only :: "string list \<Rightarrow> EventFilter" where
  "filter_only kinds = Selected (remdups kinds)"

record WebhookEndpoint =
  ep_id :: string
  ep_url :: string
  ep_secret :: "string option"
  ep_filter :: EventFilter
  ep_enabled :: bool
  ep_created_at_ns :: u64

definition endpoint_new :: "string \<Rightarrow> string \<Rightarrow> string option \<Rightarrow> EventFilter \<Rightarrow> u64 \<Rightarrow> WebhookEndpoint" where
  "endpoint_new i url secret f now_ns =
     \<lparr>ep_id = i, ep_url = url, ep_secret = secret, ep_filter = f, ep_enabled = True, ep_created_at_ns = now_ns\<rparr>"

section \<open>Target addresses\<close>

datatype WebhookUrlError = MissingScheme | UnsupportedScheme string | UrlWithoutHost | UnsafeHost string

datatype WebhookRegistryError = AlreadyExists string | EndpointNotFound string | InvalidUrl WebhookUrlError | WebhookIo

definition webhook_host :: "string \<Rightarrow> string" where
  "webhook_host url = extract_host url"

definition host_is_ssrf_unsafe :: "string \<Rightarrow> bool" where
  "host_is_ssrf_unsafe host \<longleftrightarrow> is_private_or_metadata_host host"

definition validate_webhook_url :: "string \<Rightarrow> WebhookRegistryError + unit" where
  "validate_webhook_url url =
     (case find_str ''://'' url of
        None \<Rightarrow> Inl (InvalidUrl MissingScheme)
      | Some scheme_end \<Rightarrow>
          (let scheme = take scheme_end url in
           if scheme \<noteq> ''https'' \<and> scheme \<noteq> ''http'' then Inl (InvalidUrl (UnsupportedScheme scheme))
           else let host = webhook_host url in
             if host = [] then Inl (InvalidUrl UrlWithoutHost)
             else if host_is_ssrf_unsafe host then Inl (InvalidUrl (UnsafeHost host))
             else Inr ()))"

section \<open>Registry\<close>

text \<open>The store, whether it has a file, and the file.\<close>

record 'raw WebhookRegistry =
  endpoints :: "(string \<times> WebhookEndpoint) list"
  wh_path :: bool
  wh_file :: "'raw option"

definition webhooks_in_memory :: "'raw WebhookRegistry" where
  "webhooks_in_memory = \<lparr>endpoints = [], wh_path = False, wh_file = None\<rparr>"

definition webhooks_open :: "('raw \<Rightarrow> (string \<times> WebhookEndpoint) list option) \<Rightarrow> 'raw option \<Rightarrow> WebhookRegistryError + 'raw WebhookRegistry" where
  "webhooks_open from_json f =
     (case f of
        None \<Rightarrow> Inr \<lparr>endpoints = [], wh_path = True, wh_file = None\<rparr>
      | Some raw \<Rightarrow> (case from_json raw of
            None \<Rightarrow> Inl WebhookIo
          | Some store \<Rightarrow> Inr \<lparr>endpoints = filter (\<lambda>(_, ep). validate_webhook_url (ep_url ep) = Inr ()) store,
              wh_path = True, wh_file = Some raw\<rparr>))"

definition webhooks_flush :: "((string \<times> WebhookEndpoint) list \<Rightarrow> 'raw option) \<Rightarrow> bool \<Rightarrow> 'raw WebhookRegistry
    \<Rightarrow> (WebhookRegistryError + unit) \<times> 'raw WebhookRegistry" where
  "webhooks_flush to_json write_ok r =
     (if \<not> wh_path r then (Inr (), r)
      else case to_json (endpoints r) of
          None \<Rightarrow> (Inl WebhookIo, r)
        | Some raw \<Rightarrow> if write_ok then (Inr (), r\<lparr>wh_file := Some raw\<rparr>) else (Inl WebhookIo, r))"

definition webhook_register :: "((string \<times> WebhookEndpoint) list \<Rightarrow> 'raw option) \<Rightarrow> bool \<Rightarrow> 'raw WebhookRegistry \<Rightarrow> WebhookEndpoint
    \<Rightarrow> (WebhookRegistryError + unit) \<times> 'raw WebhookRegistry" where
  "webhook_register to_json write_ok r ep =
     (case validate_webhook_url (ep_url ep) of
        Inl e \<Rightarrow> (Inl e, r)
      | Inr _ \<Rightarrow>
          (if hm_contains (endpoints r) (ep_id ep) then (Inl (AlreadyExists (ep_id ep)), r)
           else webhooks_flush to_json write_ok (r\<lparr>endpoints := hm_insert (ep_id ep) ep (endpoints r)\<rparr>)))"

definition webhook_remove :: "((string \<times> WebhookEndpoint) list \<Rightarrow> 'raw option) \<Rightarrow> bool \<Rightarrow> 'raw WebhookRegistry \<Rightarrow> string
    \<Rightarrow> (WebhookRegistryError + WebhookEndpoint) \<times> 'raw WebhookRegistry" where
  "webhook_remove to_json write_ok r i =
     (case hm_get (endpoints r) i of
        None \<Rightarrow> (Inl (EndpointNotFound i), r)
      | Some ep \<Rightarrow> (case webhooks_flush to_json write_ok (r\<lparr>endpoints := hm_remove i (endpoints r)\<rparr>) of
            (Inl e, r') \<Rightarrow> (Inl e, r')
          | (Inr _, r') \<Rightarrow> (Inr ep, r')))"

definition webhook_get :: "'raw WebhookRegistry \<Rightarrow> string \<Rightarrow> WebhookEndpoint option" where
  "webhook_get r i = hm_get (endpoints r) i"

definition set_enabled :: "((string \<times> WebhookEndpoint) list \<Rightarrow> 'raw option) \<Rightarrow> bool \<Rightarrow> 'raw WebhookRegistry \<Rightarrow> string \<Rightarrow> bool
    \<Rightarrow> (WebhookRegistryError + unit) \<times> 'raw WebhookRegistry" where
  "set_enabled to_json write_ok r i b =
     (case hm_get (endpoints r) i of
        None \<Rightarrow> (Inl (EndpointNotFound i), r)
      | Some ep \<Rightarrow> webhooks_flush to_json write_ok (r\<lparr>endpoints := hm_insert i (ep\<lparr>ep_enabled := b\<rparr>) (endpoints r)\<rparr>))"

definition webhook_list :: "'raw WebhookRegistry \<Rightarrow> WebhookEndpoint list" where
  "webhook_list r = sort_key ep_id (map snd (endpoints r))"

definition endpoints_for_event :: "'raw WebhookRegistry \<Rightarrow> string \<Rightarrow> WebhookEndpoint list" where
  "endpoints_for_event r kind = filter (\<lambda>ep. ep_enabled ep \<and> filter_matches (ep_filter ep) kind) (map snd (endpoints r))"

section \<open>Signatures\<close>

definition hex_val :: "u8 \<Rightarrow> u8 option" where
  "hex_val b =
     (if 48 \<le> b \<and> b \<le> 57 then Some (b - 48)
      else if 97 \<le> b \<and> b \<le> 102 then Some (b - 97 + 10)
      else if 65 \<le> b \<and> b \<le> 70 then Some (b - 65 + 10)
      else None)"

definition parse_sha256_hex :: "string \<Rightarrow> u8 list option" where
  "parse_sha256_hex signature =
     (case strip_prefix ''sha256='' signature of
        None \<Rightarrow> None
      | Some hex \<Rightarrow>
          (if length hex \<noteq> 64 then None
           else let bytes = as_bytes hex in
             those (map (\<lambda>i. case hex_val (bytes ! (i * 2)) of None \<Rightarrow> None
                | Some hi \<Rightarrow> (case hex_val (bytes ! (i * 2 + 1)) of None \<Rightarrow> None
                    | Some lo \<Rightarrow> Some (push_bit 4 hi OR lo))) [0..<32])))"

definition constant_time_eq :: "u8 list \<Rightarrow> u8 list \<Rightarrow> bool" where
  "constant_time_eq a b =
     (if length a \<noteq> length b then False
      else fold (\<lambda>(x, y) diff. diff OR (x XOR y)) (zip a b) (0 :: u8) = 0)"

definition webhook_sign :: "(u8 list \<Rightarrow> u8 list) \<Rightarrow> string \<Rightarrow> string \<Rightarrow> string" where
  "webhook_sign sha body_json secret = ''sha256='' @ to_hex (hmac_sha256 sha (as_bytes secret) [as_bytes body_json])"

definition verify_signature :: "(u8 list \<Rightarrow> u8 list) \<Rightarrow> string \<Rightarrow> string \<Rightarrow> string \<Rightarrow> bool" where
  "verify_signature sha body_json secret signature =
     (let expected = hmac_sha256 sha (as_bytes secret) [as_bytes body_json] in
      case parse_sha256_hex signature of
        None \<Rightarrow> False
      | Some candidate \<Rightarrow> constant_time_eq expected candidate)"

section \<open>Delivery\<close>

datatype DeliveryOutcome = Accepted | Rejected u16 string | NetworkError string

definition is_accepted :: "DeliveryOutcome \<Rightarrow> bool" where
  "is_accepted d \<longleftrightarrow> d = Accepted"

record DispatchStats =
  ds_endpoint_id :: string
  ds_attempts :: u32
  ds_success :: bool
  ds_final_status :: "u16 option"
  ds_last_error :: "string option"

record CumulativeStats =
  total_dispatches :: u64
  cs_successful :: u64
  cs_failed :: u64
  total_attempts :: u64
  cs_retries :: u64

record DispatchConfig =
  max_delivery_attempts :: u32
  base_backoff_ms :: u64

definition dispatch_config_default :: DispatchConfig where
  "dispatch_config_default = \<lparr>max_delivery_attempts = 3, base_backoff_ms = 100\<rparr>"

text \<open>The wait before an attempt, in milliseconds; the shift and the product wrap.\<close>

definition backoff_ms :: "DispatchConfig \<Rightarrow> u32 \<Rightarrow> u64" where
  "backoff_ms cfg attempt =
     (if 0 < attempt then base_backoff_ms cfg * push_bit (unat (saturating_sub attempt 1) mod 64) 1 else 0)"

text \<open>One request as the sender sees it: the wait before it, the address, the body and the signature header. What the
  sender answers may depend on the attempt.\<close>

record request =
  req_wait :: u64
  req_url :: string
  req_body :: string
  req_signature :: "string option"

primrec delivery_loop :: "(nat \<Rightarrow> request \<Rightarrow> DeliveryOutcome) \<Rightarrow> (nat \<Rightarrow> request) \<Rightarrow> nat \<Rightarrow> nat \<Rightarrow> DeliveryOutcome
    \<Rightarrow> nat \<times> DeliveryOutcome \<times> request list" where
  "delivery_loop send req attempt 0 last_outcome = (attempt, last_outcome, [])"
| "delivery_loop send req attempt (Suc left) last_outcome =
     (let out = send attempt (req attempt) in
      if is_accepted out then (attempt + 1, out, [req attempt])
      else case delivery_loop send req (attempt + 1) left out of (n, d, rs) \<Rightarrow> (n, d, req attempt # rs))"

definition webhook_dispatch :: "(u8 list \<Rightarrow> u8 list) \<Rightarrow> (nat \<Rightarrow> request \<Rightarrow> DeliveryOutcome) \<Rightarrow> DispatchConfig \<Rightarrow> CumulativeStats
    \<Rightarrow> WebhookEndpoint \<Rightarrow> string \<Rightarrow> DispatchStats \<times> CumulativeStats \<times> request list" where
  "webhook_dispatch sha send cfg st ep json =
     (let signature = map_option (webhook_sign sha json) (ep_secret ep);
          max_n = unat (max (max_delivery_attempts cfg) 1);
          req = (\<lambda>attempt. \<lparr>req_wait = backoff_ms cfg (of_nat attempt), req_url = ep_url ep, req_body = json, req_signature = signature\<rparr>);
          (n, last_outcome, sent) = delivery_loop send req 0 max_n (NetworkError ''no attempt made'');
          attempts = of_nat n :: u32;
          success = is_accepted last_outcome;
          (final_status, last_error) = (case last_outcome of
             Accepted \<Rightarrow> (Some 200, None)
           | Rejected status e \<Rightarrow> (Some status, Some e)
           | NetworkError e \<Rightarrow> (None, Some e));
          st = st\<lparr>total_dispatches := total_dispatches st + 1, total_attempts := total_attempts st + ucast attempts,
                  cs_retries := cs_retries st + ucast (attempts - 1)\<rparr>;
          st = (if success then st\<lparr>cs_successful := cs_successful st + 1\<rparr> else st\<lparr>cs_failed := cs_failed st + 1\<rparr>) in
      (\<lparr>ds_endpoint_id = ep_id ep, ds_attempts = attempts, ds_success = success, ds_final_status = final_status,
         ds_last_error = last_error\<rparr>, st, sent))"

section \<open>Registered targets are safe\<close>

datatype webhook_call = Register bool WebhookEndpoint | Remove bool string | SetEnabled bool string bool

primrec webhook_step :: "((string \<times> WebhookEndpoint) list \<Rightarrow> 'raw option) \<Rightarrow> 'raw WebhookRegistry \<Rightarrow> webhook_call \<Rightarrow> 'raw WebhookRegistry" where
  "webhook_step j r (Register w ep) = snd (webhook_register j w r ep)"
| "webhook_step j r (Remove w i) = snd (webhook_remove j w r i)"
| "webhook_step j r (SetEnabled w i b) = snd (set_enabled j w r i b)"

definition targets_valid :: "'raw WebhookRegistry \<Rightarrow> bool" where
  "targets_valid r \<longleftrightarrow> list_all (\<lambda>(_, ep). validate_webhook_url (ep_url ep) = Inr ()) (endpoints r)"

lemma flush_endpoints [simp]: "endpoints (snd (webhooks_flush j w r)) = endpoints r"
  by (simp add: webhooks_flush_def split: option.split)

lemma targets_insert:
  "targets_valid r \<Longrightarrow> validate_webhook_url (ep_url ep) = Inr () \<Longrightarrow> targets_valid (r\<lparr>endpoints := hm_insert i ep (endpoints r)\<rparr>)"
  using set_hm_insert [of i ep "endpoints r"] by (auto simp: targets_valid_def list_all_iff)

lemma targets_remove: "targets_valid r \<Longrightarrow> targets_valid (r\<lparr>endpoints := hm_remove i (endpoints r)\<rparr>)"
  using set_hm_remove [of i "endpoints r"] by (auto simp: targets_valid_def list_all_iff)

lemma targets_flush [simp]: "targets_valid (snd (webhooks_flush j w r)) \<longleftrightarrow> targets_valid r"
  by (simp add: targets_valid_def)

lemma webhook_step_valid:
  assumes "targets_valid r"
  shows "targets_valid (webhook_step j r x)"
proof (cases x)
  case (Register w ep)
  then show ?thesis using assms targets_insert [OF assms] by (auto simp: webhook_register_def split: sum.split)
next
  case (Remove w i)
  have "snd (webhook_remove j w r i) = (if hm_get (endpoints r) i = None then r
      else snd (webhooks_flush j w (r\<lparr>endpoints := hm_remove i (endpoints r)\<rparr>)))"
    by (auto simp: webhook_remove_def split: option.split prod.split sum.split)
  with Remove assms show ?thesis by (simp add: targets_remove)
next
  case (SetEnabled w i b)
  show ?thesis
  proof (cases "hm_get (endpoints r) i")
    case (Some ep)
    then have "validate_webhook_url (ep_url (ep\<lparr>ep_enabled := b\<rparr>)) = Inr ()"
      using assms map_of_SomeD [OF Some] by (auto simp: targets_valid_def list_all_iff)
    from targets_insert [OF assms this] show ?thesis using SetEnabled Some by (simp add: set_enabled_def)
  qed (use SetEnabled assms in \<open>simp add: set_enabled_def\<close>)
qed

interpretation webhook_machine: op_machine "webhook_step j" targets_valid
  by unfold_locales (rule webhook_step_valid)

text \<open>The registries a process can hold: a new one or one opened on any file, then changed by calls.\<close>

definition webhooks_started :: "('raw \<Rightarrow> (string \<times> WebhookEndpoint) list option) \<Rightarrow> 'raw WebhookRegistry \<Rightarrow> bool" where
  "webhooks_started from_json r \<longleftrightarrow> r = webhooks_in_memory \<or> (\<exists>f. webhooks_open from_json f = Inr r)"

lemma webhooks_started_valid:
  assumes "webhooks_started from_json r"
  shows "targets_valid r"
proof -
  consider "r = webhooks_in_memory" | f where "webhooks_open from_json f = Inr r" using assms by (auto simp: webhooks_started_def)
  then show ?thesis
  proof cases
    case (2 f)
    then show ?thesis by (cases f) (auto simp: webhooks_open_def targets_valid_def list_all_iff split: option.splits)
  qed (simp add: webhooks_in_memory_def targets_valid_def)
qed

lemma webhook_find_scheme:
  assumes "CHR '':'' \<notin> set scheme"
  shows "find_str ''://'' (scheme @ ''://'' @ rest) = Some (length scheme)"
  using assms by (induction scheme) (cases rest; auto)+

lemma scheme_split:
  assumes "find_str ''://'' url = Some n"
  shows "\<exists>rest. url = take n url @ ''://'' @ rest"
  using find_str_Some [OF assms] by auto

text \<open>Every target the check accepts, well formed or not: an \<^verbatim>\<open>http\<close> or \<^verbatim>\<open>https\<close> URL whose host is neither empty nor
  private.\<close>

definition safe_target :: "string \<Rightarrow> bool" where
  "safe_target url \<longleftrightarrow> (\<exists>scheme rest. url = scheme @ ''://'' @ rest \<and> scheme \<in> {''http'', ''https''})
     \<and> webhook_host url \<noteq> [] \<and> \<not> private_target (webhook_host url)"

lemma validate_safe:
  assumes "validate_webhook_url url = Inr ()"
  shows "safe_target url"
proof -
  from assms obtain n where n: "find_str ''://'' url = Some n" and s: "take n url \<in> {''http'', ''https''}"
    and h: "webhook_host url \<noteq> []" "\<not> private_target (webhook_host url)"
    unfolding validate_webhook_url_def host_is_ssrf_unsafe_def private_host_exact Let_def
    by (auto split: option.splits if_splits)
  from scheme_split [OF n] s h show ?thesis unfolding safe_target_def by blast
qed

text \<open>And the host so found is the one a well-formed URL is written with.\<close>

lemma written_host:
  assumes "url_frame scheme userinfo port rest" "host_text t host"
  shows "webhook_host (url_text scheme userinfo t port rest) = canonical_host host"
  unfolding webhook_host_def by (rule extract_written [OF assms]) simp

lemma validate_exact:
  assumes f: "url_frame scheme userinfo port rest" and h: "host_text t host"
  shows "validate_webhook_url (url_text scheme userinfo t port rest) = Inr () \<longleftrightarrow>
    scheme \<in> {''http'', ''https''} \<and> canonical_host host \<noteq> [] \<and> \<not> private_target (canonical_host host)"
proof -
  have s: "CHR '':'' \<notin> set scheme" using f by (simp add: url_frame_def)
  have sc: "find_str ''://'' (url_text scheme userinfo t port rest) = Some (length scheme)"
    "take (length scheme) (url_text scheme userinfo t port rest) = scheme"
    using webhook_find_scheme [OF s] by (simp_all add: url_text_def)
  show ?thesis
    unfolding validate_webhook_url_def Let_def written_host [OF f h] sc option.case host_is_ssrf_unsafe_def private_host_exact by auto
qed

text \<open>C12: no event is delivered to a private address. Whatever file the registry was opened on and whatever was
  registered, removed or switched since, with or without write errors, the endpoints found for an event are switched
  on and subscribed to it, and the target of each one is an \<^verbatim>\<open>http\<close> or \<^verbatim>\<open>https\<close> URL whose host is no local or metadata
  name and no loopback, private, link-local, unique local or unspecified address, be it IPv4 in a notation a resolver
  accepts or IPv6, in brackets, with or without a zone or a mapped IPv4 address. The host is the one the URL's
  authority names when the URL is well formed. The comment on an endpoint's address, which allows \<^verbatim>\<open>http\<close> for
  localhost only, is not what the check does: localhost is refused under either scheme and \<^verbatim>\<open>http\<close> accepted elsewhere
  (\<open>http_scheme_accepted\<close>).\<close>

theorem webhook_targets_safe:
  assumes "webhooks_started from_json r0" and "ep \<in> set (endpoints_for_event (foldl (webhook_step j) r0 calls) kind)"
  shows "ep_enabled ep \<and> filter_matches (ep_filter ep) kind \<and> safe_target (ep_url ep)
    \<and> (url_frame scheme userinfo port rest \<and> host_text t host \<and> ep_url ep = url_text scheme userinfo t port rest \<longrightarrow>
        scheme \<in> {''http'', ''https''} \<and> canonical_host host \<noteq> [] \<and> \<not> private_target (canonical_host host))"
proof -
  have "targets_valid (foldl (webhook_step j) r0 calls)"
    using webhooks_started_valid [OF assms(1)] by (rule webhook_machine.run_inv)
  then have v: "validate_webhook_url (ep_url ep) = Inr ()" "ep_enabled ep \<and> filter_matches (ep_filter ep) kind"
    using assms(2) by (auto simp: endpoints_for_event_def targets_valid_def list_all_iff)
  then show ?thesis using validate_safe [OF v(1)] validate_exact [of scheme userinfo port rest t host] by metis
qed

lemma name_valid: "scheme = ''http'' \<or> scheme = ''https'' \<Longrightarrow> validate_webhook_url (url_text scheme [] ''h'' [] ''/'') = Inr ()"
proof -
  assume s: "scheme = ''http'' \<or> scheme = ''https''"
  have f: "url_frame scheme [] [] ''/''" "host_text ''h'' ''h''" using s by (auto simp: url_frame_def host_text_def plain_host_def)
  have c: "canonical_host ''h'' = ''h''" by (simp add: canonical_host_def trim_end_dots_def to_lower_def)
  have "\<not> lenient_number ''h'' n" for n
    by (auto simp: lenient_number.simps inet_number.simps digits_of_def list_all2_Cons1 to_digit_def to_lower_def)
  then have "\<not> lenient_address ''h'' n" for n by (auto simp: lenient_address_def list_all2_Cons1)
  moreover have "parse_ipv6 ''h'' = None"
    by (simp add: parse_ipv6_def read_ipv6_addr_def read_separator_def read_ipv4_addr_def read_octet_def read_number_def to_digit_def
      to_lower_def read_groups_numeral)
  ultimately have "\<not> private_target ''h''" by (simp add: private_target_def private_address_def suffix_def)
  with validate_exact [OF f] s show ?thesis unfolding c by auto
qed

lemma webhook_targets_safe_witness:
  "let ep = endpoint_new ''a'' ''https://h/'' None FilterAll 0;
       r = foldl (webhook_step Some) (webhooks_in_memory :: (string \<times> WebhookEndpoint) list WebhookRegistry) [Register True ep, SetEnabled True ''a'' True] in
   endpoints_for_event r ''e'' = [ep] \<and> safe_target ''https://h/'' \<and> \<not> private_target ''h''"
proof -
  let ?ep = "endpoint_new ''a'' ''https://h/'' None FilterAll 0"
  let ?calls = "[Register True ?ep, SetEnabled True ''a'' True]"
  let ?r = "foldl (webhook_step Some) (webhooks_in_memory :: (string \<times> WebhookEndpoint) list WebhookRegistry) ?calls"
  have a: "validate_webhook_url ''https://h/'' = Inr ()" using name_valid [of "''https''"] by (simp add: url_text_def)
  have e: "endpoints_for_event ?r ''e'' = [?ep]"
    by (simp add: webhook_register_def set_enabled_def endpoint_new_def a webhooks_in_memory_def webhooks_flush_def hm_contains_def endpoints_for_event_def)
  have st: "webhooks_started Some (webhooks_in_memory :: (string \<times> WebhookEndpoint) list WebhookRegistry)" by (simp add: webhooks_started_def)
  have f: "url_frame ''https'' [] [] ''/''" "host_text ''h'' ''h''" "ep_url ?ep = url_text ''https'' [] ''h'' [] ''/''"
    by (auto simp: url_frame_def host_text_def plain_host_def endpoint_new_def url_text_def)
  have "canonical_host ''h'' = ''h''" by (simp add: canonical_host_def trim_end_dots_def to_lower_def)
  with webhook_targets_safe [OF st, of ?ep Some ?calls "''e''" "''https''" "[]" "[]" "''/''" "''h''" "''h''"] e f show ?thesis
    by (simp add: endpoint_new_def)
qed

text \<open>The comment on an endpoint's address allows \<^verbatim>\<open>http\<close> for localhost only; localhost is refused and \<^verbatim>\<open>http\<close> accepted
  elsewhere.\<close>

lemma http_scheme_accepted:
  "validate_webhook_url ''http://h/'' = Inr () \<and> validate_webhook_url ''http://localhost/'' = Inl (InvalidUrl (UnsafeHost ''localhost''))"
proof
  show "validate_webhook_url ''http://h/'' = Inr ()" using name_valid [of "''http''"] by (simp add: url_text_def)
  have "webhook_host ''http://localhost/'' = ''localhost''" unfolding webhook_host_def by code_simp
  moreover have "find_str ''://'' ''http://localhost/'' = Some 4" by code_simp
  ultimately show "validate_webhook_url ''http://localhost/'' = Inl (InvalidUrl (UnsafeHost ''localhost''))"
    by (simp add: validate_webhook_url_def host_is_ssrf_unsafe_def is_private_or_metadata_host_def numeral_eq_Suc)
qed

section \<open>Which signatures verify\<close>

lemma u8_of_char: "unat (of_char c :: u8) = (of_char c :: nat)"
proof -
  have "(of_char c :: u8) = of_nat (of_char c)" by (simp only: of_nat_of_char)
  moreover have "(of_char c :: nat) < 2 ^ LENGTH(8)" by simp
  ultimately show ?thesis by (simp only: unat_of_nat mod_less)
qed

lemma to_digit_iff: "to_digit 16 c = Some d \<longleftrightarrow> d < 16 \<and> to_lower c = hex_digit d"
proof -
  have "to_lower c = hex_digit d \<longleftrightarrow> (of_char (to_lower c) :: nat) = of_char (hex_digit d)" by (simp only: of_char_eq_iff)
  moreover have "(of_char (hex_digit d) :: nat) = (if d < 10 then 48 + d else 87 + d)" if "d < 16" using that by (simp add: hex_digit_def of_char_of)
  moreover have "to_digit 16 c = Some d \<Longrightarrow> d < 16" using to_digit_range [of 16 c d] by simp
  ultimately show ?thesis by (auto simp: to_digit_def Let_def split: if_splits)
qed

lemma hex_val_nat:
  assumes "n < 256"
  shows "hex_val (of_nat n) = (if 48 \<le> n \<and> n \<le> 57 then Some (of_nat (n - 48)) else if 97 \<le> n \<and> n \<le> 102 then Some (of_nat (n - 87))
      else if 65 \<le> n \<and> n \<le> 70 then Some (of_nat (n - 55)) else None)"
proof -
  have le: "of_nat m \<le> (of_nat n :: u8) \<longleftrightarrow> m \<le> n" "(of_nat n :: u8) \<le> of_nat m \<longleftrightarrow> n \<le> m" if "m < 256" for m
    using that assms by (simp_all add: word_le_nat_alt unat_of_nat)
  have sub: "(of_nat n :: u8) - of_nat m = of_nat (n - m)" if "m \<le> n" for m
    using that by (simp add: of_nat_diff)
  show ?thesis
    unfolding hex_val_def using le [of 48] le [of 57] le [of 97] le [of 102] le [of 65] le [of 70] sub [of 48] sub [of 87] sub [of 55] by simp
qed

lemma hex_val_digit: "hex_val (of_char c) = map_option of_nat (to_digit 16 c)"
proof -
  have c: "(of_char c :: u8) = of_nat (of_char c)" "(of_char c :: nat) < 256" by (simp_all only: of_nat_of_char) simp
  show ?thesis unfolding c(1) hex_val_nat [OF c(2)] to_digit_def of_char_to_lower by (auto simp: Let_def)
qed

lemma to_hex_lower: "to_ascii_lowercase (to_hex bs) = to_hex bs"
proof (induction bs)
  case (Cons b bs)
  have "to_lower (hex_digit d) = hex_digit d" if "d < 16" for d using to_digit_hex [OF that] by (simp add: to_digit_iff)
  with Cons byte_nibbles(3) [of b] show ?case by (simp add: to_hex_Cons)
qed simp

lemma those_map_iff: "those (map f [0..<n]) = Some m \<longleftrightarrow> length m = n \<and> (\<forall>i<n. f i = Some (m ! i))"
proof (induction n arbitrary: m)
  case (Suc n)
  have app: "those (xs @ [y]) = (case those xs of None \<Rightarrow> None | Some zs \<Rightarrow> (case y of None \<Rightarrow> None | Some z \<Rightarrow> Some (zs @ [z])))" for xs and y :: "'b option"
    by (induction xs) (auto split: option.splits)
  show ?case
  proof (cases m rule: rev_cases)
    case (snoc zs z)
    have "those (map f [0..<Suc n]) = Some (zs @ [z]) \<longleftrightarrow> those (map f [0..<n]) = Some zs \<and> f n = Some z"
      by (auto simp: app split: option.splits)
    also have "\<dots> \<longleftrightarrow> length (zs @ [z]) = Suc n \<and> (\<forall>i<Suc n. f i = Some ((zs @ [z]) ! i))"
      unfolding Suc.IH by (auto simp: less_Suc_eq nth_append)
    finally show ?thesis by (simp only: snoc)
  qed (auto simp: app split: option.splits)
qed auto

lemma nibbles:
  assumes "x < 16" "y < 16"
  shows "push_bit 4 (of_nat x) OR of_nat y = (b :: u8) \<longleftrightarrow> x = unat b div 16 \<and> y = unat b mod 16"
proof -
  have "push_bit 4 (of_nat x) OR of_nat y = (of_nat (push_bit 4 x OR y) :: u8)"
    by (simp only: of_nat_or_eq of_nat_push_bit)
  moreover have "push_bit 4 x OR y = 16 * x + y"
  proof -
    have y: "y = take_bit 4 y" using assms(2) by (simp add: take_bit_nat_eq_self)
    have "push_bit 4 x AND take_bit 4 y = 0" by (auto simp: bit_eq_iff bit_simps)
    then have "push_bit 4 x + y = push_bit 4 x OR y" using y by (intro disjunctive_add_eq_or) simp
    then show ?thesis by (simp add: push_bit_eq_mult)
  qed
  ultimately have "push_bit 4 (of_nat x) OR of_nat y = (of_nat (16 * x + y) :: u8)" by (simp only:)
  moreover have "16 * x + y < 2 ^ LENGTH(8)" using assms by simp
  ultimately have "unat (push_bit 4 (of_nat x) OR of_nat y :: u8) = 16 * x + y" by (simp only: unat_of_nat mod_less)
  moreover have "16 * x + y = n \<longleftrightarrow> x = n div 16 \<and> y = n mod 16" for n
  proof
    show "16 * x + y = n \<Longrightarrow> x = n div 16 \<and> y = n mod 16" using assms(2) by auto
  qed simp
  ultimately show ?thesis unfolding word_unat_eq_iff by simp
qed
lemma parse_sha256_iff:
  "parse_sha256_hex (''sha256='' @ h) = Some m \<longleftrightarrow> length m = 32 \<and> to_ascii_lowercase h = to_hex m"
proof (cases "length h = 64")
  case False
  moreover have "to_ascii_lowercase h = to_hex m \<Longrightarrow> length h = 2 * length m" by (metis length_map length_to_hex)
  ultimately show ?thesis by (auto simp: parse_sha256_hex_def strip_prefix_def)
next
  case True
  let ?f = "\<lambda>i. case hex_val (as_bytes h ! (i * 2)) of None \<Rightarrow> None
    | Some hi \<Rightarrow> (case hex_val (as_bytes h ! (i * 2 + 1)) of None \<Rightarrow> None | Some lo \<Rightarrow> Some (push_bit 4 hi OR lo))"
  have f: "?f i = Some b \<longleftrightarrow> to_lower (h ! (2 * i)) = hex_digit (unat b div 16) \<and> to_lower (h ! (2 * i + 1)) = hex_digit (unat b mod 16)"
    if i: "i < 32" for i and b :: u8
  proof -
    have at: "as_bytes h ! (i * 2) = of_char (h ! (2 * i))" "as_bytes h ! (i * 2 + 1) = of_char (h ! (2 * i + 1))"
      using i True by (simp_all add: as_bytes_def mult.commute)
    have "?f i = Some b \<longleftrightarrow> (\<exists>x y. to_digit 16 (h ! (2 * i)) = Some x \<and> to_digit 16 (h ! (2 * i + 1)) = Some y
        \<and> push_bit 4 (of_nat x) OR of_nat y = b)"
      unfolding at hex_val_digit by (auto split: option.splits)
    also have "\<dots> \<longleftrightarrow> (\<exists>x y. x < 16 \<and> y < 16 \<and> to_lower (h ! (2 * i)) = hex_digit x \<and> to_lower (h ! (2 * i + 1)) = hex_digit y
        \<and> x = unat b div 16 \<and> y = unat b mod 16)"
      unfolding to_digit_iff using nibbles [of _ _ b] by blast
    finally show ?thesis using byte_nibbles(3) [of b] by auto
  qed
  have "parse_sha256_hex (''sha256='' @ h) = those (map ?f [0..<32])"
    using True by (simp add: parse_sha256_hex_def strip_prefix_def Let_def)
  then have "parse_sha256_hex (''sha256='' @ h) = Some m \<longleftrightarrow> length m = 32 \<and> (\<forall>i<32. ?f i = Some (m ! i))"
    by (simp only: those_map_iff)
  also have "\<dots> \<longleftrightarrow> length m = 32 \<and> (\<forall>i<32. to_lower (h ! (2 * i)) = to_hex m ! (2 * i) \<and> to_lower (h ! (2 * i + 1)) = to_hex m ! (2 * i + 1))"
    using f nth_to_hex [of _ m] by auto
  also have "\<dots> \<longleftrightarrow> length m = 32 \<and> (\<forall>k<64. to_lower (h ! k) = to_hex m ! k)"
  proof -
    have "(\<forall>i<32. P (2 * i) \<and> P (2 * i + 1)) \<longleftrightarrow> (\<forall>k<64. P k)" for P :: "nat \<Rightarrow> bool"
    proof (intro iffI allI impI)
      fix k :: nat
      assume a: "\<forall>i<32. P (2 * i) \<and> P (2 * i + 1)" and k: "k < 64"
      have "P (2 * (k div 2)) \<and> P (2 * (k div 2) + 1)" using a k by simp
      then show "P k" by (cases "even k") (auto elim!: evenE oddE)
    qed auto
    from this [of "\<lambda>k. to_lower (h ! k) = to_hex m ! k"] show ?thesis by (simp only:)
  qed
  also have "\<dots> \<longleftrightarrow> length m = 32 \<and> to_ascii_lowercase h = to_hex m"
    using True by (auto simp: list_eq_iff_nth_eq)
  finally show ?thesis .
qed

lemma verify_signature_iff:
  assumes "\<And>x. length (sha x) = 32"
  shows "(verify_signature sha body secret header \<longleftrightarrow>
      (\<exists>h. header = ''sha256='' @ h \<and> to_ascii_lowercase h = to_hex (hmac_sha256 sha (as_bytes secret) [as_bytes body])))
    \<and> verify_signature sha body secret (webhook_sign sha body secret)"
proof -
  let ?m = "hmac_sha256 sha (as_bytes secret) [as_bytes body]"
  have len: "length ?m = 32" using assms by (simp add: hmac_sha256_def Let_def)
  have ct: "constant_time_eq a b \<longleftrightarrow> a = b" for a b
  proof -
    have "list_all (\<lambda>(x, y). x = y) (zip a b) \<longleftrightarrow> a = b" if "length a = length b" using that by (induction rule: list_induct2) simp_all
    then show ?thesis by (auto simp: constant_time_eq_def fold_or_zero)
  qed
  have pre: "(\<exists>h. header = ''sha256='' @ h) \<or> parse_sha256_hex header = None" for header
    by (auto simp: parse_sha256_hex_def strip_prefix_def prefix_def)
  have iff: "verify_signature sha body secret header \<longleftrightarrow> (\<exists>h. header = ''sha256='' @ h \<and> to_ascii_lowercase h = to_hex ?m)" for header
  proof -
    have "verify_signature sha body secret header \<longleftrightarrow> parse_sha256_hex header = Some ?m"
      by (auto simp: verify_signature_def Let_def ct split: option.split)
    then show ?thesis using pre [of header] parse_sha256_iff [of _ ?m] len by auto
  qed
  with to_hex_lower [of ?m] show ?thesis by (auto simp: webhook_sign_def)
qed

lemma webhook_signature_exact_sign: "(\<And>x. length (sha x) = 32) \<Longrightarrow> verify_signature sha body secret (webhook_sign sha body secret)"
  using verify_signature_iff [of sha] by blast

text \<open>A delivery is accepted as signed exactly if the header is \<^verbatim>\<open>sha256=\<close> and the MAC of the received body under the
  secret in hexadecimal digits of either case; so the header the dispatcher sends is accepted, and no other MAC is.\<close>

theorem webhook_signature_exact:
  assumes "\<And>x. length (sha x) = 32"
  shows "(verify_signature sha body secret header \<longleftrightarrow>
      (\<exists>h. header = ''sha256='' @ h \<and> to_ascii_lowercase h = to_hex (hmac_sha256 sha (as_bytes secret) [as_bytes body])))
    \<and> verify_signature sha body secret (webhook_sign sha body secret)"
  using verify_signature_iff [OF assms] .

lemma webhook_signature_exact_witness:
  "verify_signature (\<lambda>x. take 32 (x @ replicate 32 0)) ''{}'' ''key'' (webhook_sign (\<lambda>x. take 32 (x @ replicate 32 0)) ''{}'' ''key'')"
  by (rule conjunct2 [OF webhook_signature_exact]) simp

section \<open>Delivery\<close>

text \<open>The number of attempts: up to the first that is accepted, or all of them.\<close>

lemma delivery_loop_exact:
  "delivery_loop send req a n d =
     (if \<exists>i<n. send (a + i) (req (a + i)) = Accepted
      then let k = Suc (LEAST i. send (a + i) (req (a + i)) = Accepted) in (a + k, Accepted, map (\<lambda>i. req (a + i)) [0..<k])
      else (a + n, if n = 0 then d else send (a + n - 1) (req (a + n - 1)), map (\<lambda>i. req (a + i)) [0..<n]))"
proof (induction n arbitrary: a d)
  case (Suc n)
  let ?acc = "\<lambda>i. send (a + i) (req (a + i)) = Accepted"
  have shift: "map (\<lambda>i. req (a + i)) [0..<Suc k] = req a # map (\<lambda>i. req (Suc a + i)) [0..<k]" for k
    by (simp add: map_upt_Suc del: upt_Suc)
  show ?case
  proof (cases "?acc 0")
    case True
    then have "(LEAST i. ?acc i) = 0" by (intro Least_equality) auto
    with True show ?thesis by (auto simp: is_accepted_def Let_def)
  next
    case False
    have ex: "(\<exists>i<Suc n. ?acc i) \<longleftrightarrow> (\<exists>i<n. send (Suc a + i) (req (Suc a + i)) = Accepted)"
      using False by (auto simp: less_Suc_eq_0_disj)
    have least: "(LEAST i. ?acc i) = Suc (LEAST i. send (Suc a + i) (req (Suc a + i)) = Accepted)"
      if "\<exists>i<n. send (Suc a + i) (req (Suc a + i)) = Accepted"
    proof -
      from that obtain i where "?acc (Suc i)" by auto
      from Least_Suc [of ?acc, OF this] False show ?thesis by simp
    qed
    show ?thesis
    proof (cases "\<exists>i<n. send (Suc a + i) (req (Suc a + i)) = Accepted")
      case True
      then show ?thesis using False least Suc.IH [of "Suc a"] by (simp add: ex is_accepted_def Let_def shift del: upt_Suc)
    next
      case no: False
      let ?out = "send a (req a)"
      have rest: "delivery_loop send req (Suc a) n ?out
          = (a + Suc n, send (a + n) (req (a + n)), map (\<lambda>i. req (Suc a + i)) [0..<n])"
        by (subst Suc.IH, subst if_not_P [OF no]) simp
      have none: "\<not> (\<exists>i<Suc n. ?acc i)" using no by (simp add: ex)
      have "delivery_loop send req a (Suc n) d = (a + Suc n, send (a + n) (req (a + n)), req a # map (\<lambda>i. req (Suc a + i)) [0..<n])"
        using False rest by (simp add: is_accepted_def Let_def)
      then show ?thesis unfolding if_not_P [OF none] shift by simp
    qed
  qed
qed simp

definition stats_consistent :: "CumulativeStats \<Rightarrow> bool" where
  "stats_consistent st \<longleftrightarrow> total_dispatches st = cs_successful st + cs_failed st \<and> total_attempts st = total_dispatches st + cs_retries st"

text \<open>A dispatch, from what its loop returned.\<close>

definition outcome_report :: "DeliveryOutcome \<Rightarrow> u16 option \<times> string option" where
  "outcome_report out = (case out of
       Accepted \<Rightarrow> (Some 200, None) | Rejected s e \<Rightarrow> (Some s, Some e) | NetworkError e \<Rightarrow> (None, Some e))"

lemma webhook_dispatch_from_loop:
  assumes "delivery_loop send
      (\<lambda>attempt. \<lparr>req_wait = backoff_ms cfg (of_nat attempt), req_url = ep_url ep, req_body = json,
        req_signature = map_option (webhook_sign sha json) (ep_secret ep)\<rparr>)
      0 (unat (max (max_delivery_attempts cfg) 1)) (NetworkError ''no attempt made'') = (k, out, sent)"
  shows "webhook_dispatch sha send cfg st ep json =
    (\<lparr>ds_endpoint_id = ep_id ep, ds_attempts = of_nat k, ds_success = (out = Accepted),
       ds_final_status = fst (outcome_report out), ds_last_error = snd (outcome_report out)\<rparr>,
     \<lparr>total_dispatches = total_dispatches st + 1,
       cs_successful = cs_successful st + (if out = Accepted then 1 else 0),
       cs_failed = cs_failed st + (if out = Accepted then 0 else 1),
       total_attempts = total_attempts st + ucast (of_nat k :: u32),
       cs_retries = cs_retries st + ucast (of_nat k - 1 :: u32)\<rparr>, sent)"
proof (cases st)
  case fields
  show ?thesis unfolding fields webhook_dispatch_def Let_def assms prod.case is_accepted_def outcome_report_def
    by (cases out) (simp_all only: DeliveryOutcome.case DeliveryOutcome.distinct if_True if_False prod.case fst_conv snd_conv
      CumulativeStats.simps refl simp_thms add_0_right)
qed

text \<open>A dispatch sends the same body with the same signature to the endpoint's own address, at least once and at
  most as often as configured, and stops at the first acceptance; it reports success exactly if one request was
  accepted; the header of every request verifies under the endpoint's secret; and the counters stay consistent:
  dispatches are successes and failures, attempts are dispatches and retries.\<close>

theorem webhook_delivery_exact:
  assumes sha: "\<And>x. length (sha x) = 32" and st: "stats_consistent st"
    and d: "webhook_dispatch sha send cfg st ep json = (r, st', sent)"
  shows "let n = unat (max (max_delivery_attempts cfg) 1); acc = (\<lambda>i. send i (sent ! i) = Accepted) in
    ds_endpoint_id r = ep_id ep \<and> unat (ds_attempts r) = length sent \<and> 1 \<le> length sent \<and> length sent \<le> n
    \<and> (\<forall>i < length sent - 1. \<not> acc i) \<and> (ds_success r \<longleftrightarrow> acc (length sent - 1)) \<and> (\<not> ds_success r \<longrightarrow> length sent = n)
    \<and> list_all (\<lambda>q. req_url q = ep_url ep \<and> req_body q = json
        \<and> (case ep_secret ep of None \<Rightarrow> req_signature q = None
           | Some s \<Rightarrow> \<exists>h. req_signature q = Some h \<and> verify_signature sha json s h)) sent
    \<and> stats_consistent st' \<and> total_dispatches st' = total_dispatches st + 1"
proof -
  let ?n = "unat (max (max_delivery_attempts cfg) 1)"
  define req where "req = (\<lambda>attempt. \<lparr>req_wait = backoff_ms cfg (of_nat attempt), req_url = ep_url ep, req_body = json,
    req_signature = map_option (webhook_sign sha json) (ep_secret ep)\<rparr>)"
  have n: "1 \<le> ?n" "?n < 2 ^ 32" using unat_lt_pow [of "max (max_delivery_attempts cfg) 1"] by (simp_all add: max_def word_le_nat_alt)
  obtain k out where l: "delivery_loop send req 0 ?n (NetworkError ''no attempt made'') = (k, out, sent)"
    using d unfolding webhook_dispatch_def Let_def req_def [symmetric] by (auto split: prod.splits)
  have shape: "1 \<le> k \<and> k \<le> ?n \<and> sent = map req [0..<k] \<and> (\<forall>i<k - 1. send i (req i) \<noteq> Accepted)
      \<and> out = send (k - 1) (req (k - 1)) \<and> (out \<noteq> Accepted \<longrightarrow> k = ?n)"
  proof (cases "\<exists>i<?n. send i (req i) = Accepted")
    case True
    define i where "i = (LEAST i. send i (req i) = Accepted)"
    have i: "send i (req i) = Accepted" "i < ?n" "\<And>j. j < i \<Longrightarrow> send j (req j) \<noteq> Accepted"
      using True unfolding i_def by (auto intro: LeastI_ex dest: not_less_Least elim: order.strict_trans1 [OF Least_le])
    have "delivery_loop send req 0 ?n (NetworkError ''no attempt made'') = (Suc i, Accepted, map req [0..<Suc i])"
      unfolding delivery_loop_exact add_0 if_P [OF True] Let_def i_def ..
    then have "k = Suc i" "out = Accepted" "sent = map req [0..<Suc i]" using l by (simp_all only: prod.inject)
    with i show ?thesis by (simp del: upt_Suc)
  next
    case False
    from l n False have "k = ?n" "out = send (?n - 1) (req (?n - 1))" "sent = map req [0..<?n]"
      by (auto simp: delivery_loop_exact split: if_splits)
    with False n show ?thesis by auto
  qed
  note fields = trans [OF sym [OF d] webhook_dispatch_from_loop [OF l [unfolded req_def]], unfolded prod.inject]
  have r: "ds_endpoint_id r = ep_id ep" "ds_attempts r = of_nat k" "ds_success r \<longleftrightarrow> out = Accepted"
    and s: "total_dispatches st' = total_dispatches st + 1" "total_attempts st' = total_attempts st + ucast (of_nat k :: u32)"
      "cs_retries st' = cs_retries st + ucast (of_nat k - 1 :: u32)"
      "cs_successful st' + cs_failed st' = cs_successful st + cs_failed st + 1"
    unfolding fields [THEN conjunct1] fields [THEN conjunct2, THEN conjunct1] by simp_all
  have "1 \<le> k" using shape by blast
  have "k < 2 ^ 32" by (rule order.strict_trans1 [OF _ n(2)]) (use shape in blast)
  then have k: "unat (of_nat k :: u32) = k" by (simp add: unat_of_nat)
  have "ucast (of_nat k :: u32) = (1 :: u64) + ucast (of_nat k - 1 :: u32)"
  proof -
    have "unat (of_nat k - 1 :: u32) = k - 1" using \<open>1 \<le> k\<close> k by (simp add: unat_sub_if_size word_le_nat_alt)
    then show ?thesis using \<open>1 \<le> k\<close> \<open>k < 2 ^ 32\<close> k unfolding word_unat_eq_iff by (simp add: unat_word_ariths)
  qed
  then have "stats_consistent st'" using st s by (simp add: stats_consistent_def)
  moreover have "list_all (\<lambda>q. req_url q = ep_url ep \<and> req_body q = json
      \<and> (case ep_secret ep of None \<Rightarrow> req_signature q = None
         | Some s \<Rightarrow> \<exists>h. req_signature q = Some h \<and> verify_signature sha json s h)) (map req [0..<k])"
    using webhook_signature_exact_sign [OF sha] by (auto simp: list_all_iff req_def split: option.split)
  moreover have sent: "sent = map req [0..<k]" and early: "\<forall>i<k - 1. send i (req i) \<noteq> Accepted"
    and last: "out = send (k - 1) (req (k - 1))" and le: "k \<le> ?n" and all: "out \<noteq> Accepted \<Longrightarrow> k = ?n"
    using shape by blast+
  moreover have len: "length sent = k" unfolding sent length_map length_upt by (rule diff_zero)
  have nth: "sent ! i = req i" if "i < k" for i unfolding sent using that by simp
  have "send i (sent ! i) \<noteq> Accepted" if "i < k - 1" for i
    using early that nth [OF less_le_trans [OF that diff_le_self]] by metis
  moreover have "out = send (k - 1) (sent ! (k - 1))" using \<open>1 \<le> k\<close> nth [of "k - 1"] last by simp
  ultimately show ?thesis using s(1) k \<open>1 \<le> k\<close> len unfolding Let_def r by metis
qed

lemma webhook_delivery_exact_witness:
  "\<exists>r st' sent. webhook_dispatch (\<lambda>x. take 32 (x @ replicate 32 0)) (\<lambda>i _. if i = 0 then Rejected 503 ''busy'' else Accepted)
      dispatch_config_default \<lparr>total_dispatches = 0, cs_successful = 0, cs_failed = 0, total_attempts = 0, cs_retries = 0\<rparr>
      (endpoint_new ''hook'' ''https://example.com/in'' (Some ''key'') FilterAll 0) ''{}'' = (r, st', sent)
    \<and> stats_consistent st' \<and> total_dispatches st' = 1 \<and> ds_success r \<and> ds_attempts r = 2"
proof -
  let ?run = "webhook_dispatch (\<lambda>x. take 32 (x @ replicate 32 0)) (\<lambda>i _. if i = 0 then Rejected 503 ''busy'' else Accepted)
      dispatch_config_default \<lparr>total_dispatches = 0, cs_successful = 0, cs_failed = 0, total_attempts = 0, cs_retries = 0\<rparr>
      (endpoint_new ''hook'' ''https://example.com/in'' (Some ''key'') FilterAll 0) ''{}''"
  obtain r st' sent where run: "?run = (r, st', sent)" by (rule prod_cases3)
  have sha: "length (take 32 (x @ replicate 32 0)) = 32" for x :: "u8 list" by simp
  have st: "stats_consistent \<lparr>total_dispatches = 0, cs_successful = 0, cs_failed = 0, total_attempts = 0, cs_retries = 0\<rparr>"
    by (simp add: stats_consistent_def)
  have max: "unat (max (max_delivery_attempts dispatch_config_default) 1) = 3" by (simp add: dispatch_config_default_def max_def word_le_nat_alt)
  note exact = webhook_delivery_exact [OF sha st run, unfolded Let_def CumulativeStats.simps max]
  have "length sent \<noteq> 1" using exact by (metis DeliveryOutcome.distinct(1) diff_self_eq_0 numeral_eq_one_iff semiring_norm(86))
  moreover have "\<not> 1 < length sent - 1" using exact by (metis one_neq_zero)
  ultimately have "length sent = 2" using exact by linarith
  moreover have "unat (ds_attempts r) = length sent" "\<not> ds_success r \<longrightarrow> length sent = 3" "stats_consistent st'"
    "total_dispatches st' = 0 + 1"
    using exact by blast+
  ultimately show ?thesis using run by (auto simp: word_unat_eq_iff)
qed

end
