(* ===== verification/Channels.thy ===== *)
theory Channels
  imports Senses Egress_Guard
begin

text \<open>
  Communication channels (\<^verbatim>\<open>crates/comms/src\<close>): the messages and the gateway (\<^verbatim>\<open>lib.rs\<close>), routing by modality
  (\<^verbatim>\<open>routing.rs\<close>), the Telegram and Slack adapters (\<^verbatim>\<open>adapters.rs\<close>) and the voice providers (\<^verbatim>\<open>voice.rs\<close>). The gateway
  feeds the bridge of \<open>Senses\<close> and the adapters screen their addresses with the guard of \<open>Egress_Guard\<close>. An HTTP request
  is a value and the network a function from requests to replies; the texts of errors are constructors.
\<close>

section \<open>Messages\<close>

datatype Modality = MText | MImage | MVoice

primrec modality_str :: "Modality \<Rightarrow> string" where
  "modality_str MText = ''text''"
| "modality_str MImage = ''image''"
| "modality_str MVoice = ''voice''"

datatype ChannelContent =
    CText string
  | CImage "u8 list" string "string option"
  | CVoice "16 word list"

fun content_modality :: "ChannelContent \<Rightarrow> Modality" where
  "content_modality (CText _) = MText"
| "content_modality (CImage _ _ _) = MImage"
| "content_modality (CVoice _) = MVoice"

record ChannelMessage =
  msg_from :: string
  msg_content :: ChannelContent

record OutboundMessage =
  out_to :: string
  out_content :: ChannelContent

datatype api_failure =
    EgressBlocked EgressDenialReason
  | TokenNotSet string
  | StatusFailure u16
  | SlackFailure string
  | NoLiveFeature
  | NoAdapter string

datatype ChannelError =
    LiveModeNotEnabled
  | ApiError api_failure
  | ModalityUnsupported string
  | TransientFailure string

section \<open>Voice providers\<close>

text \<open>A provider answers \<open>Inl\<close> a reason or \<open>Inr\<close> its result.\<close>

type_synonym stt = "16 word list \<Rightarrow> string + string"
type_synonym tts = "string \<Rightarrow> string + 16 word list"

record FixtureStt =
  transcripts :: "(nat \<times> string) list"
  default_transcript :: "string option"

definition stt_new :: FixtureStt where
  "stt_new = \<lparr>transcripts = [], default_transcript = None\<rparr>"

definition with_transcript :: "FixtureStt \<Rightarrow> nat \<Rightarrow> string \<Rightarrow> FixtureStt" where
  "with_transcript f n t = f\<lparr>transcripts := hm_insert n t (transcripts f)\<rparr>"

definition stt_with_default :: "FixtureStt \<Rightarrow> string \<Rightarrow> FixtureStt" where
  "stt_with_default f t = f\<lparr>default_transcript := Some t\<rparr>"

definition fixture_transcribe :: "FixtureStt \<Rightarrow> stt" where
  "fixture_transcribe f samples =
     (case hm_get (transcripts f) (length samples) of
        Some t \<Rightarrow> Inr t
      | None \<Rightarrow> (case default_transcript f of Some t \<Rightarrow> Inr t | None \<Rightarrow> Inl ''no transcript registered''))"

record FixtureTts =
  audio :: "(string \<times> 16 word list) list"
  default_samples :: "16 word list option"

definition tts_new :: FixtureTts where
  "tts_new = \<lparr>audio = [], default_samples = None\<rparr>"

definition with_audio :: "FixtureTts \<Rightarrow> string \<Rightarrow> 16 word list \<Rightarrow> FixtureTts" where
  "with_audio f s pcm = f\<lparr>audio := hm_insert s pcm (audio f)\<rparr>"

definition tts_with_default :: "FixtureTts \<Rightarrow> 16 word list \<Rightarrow> FixtureTts" where
  "tts_with_default f pcm = f\<lparr>default_samples := Some pcm\<rparr>"

definition fixture_synthesise :: "FixtureTts \<Rightarrow> tts" where
  "fixture_synthesise f s =
     (case hm_get (audio f) s of
        Some pcm \<Rightarrow> Inr pcm
      | None \<Rightarrow> (case default_samples f of Some pcm \<Rightarrow> Inr pcm | None \<Rightarrow> Inl ''no audio registered''))"

section \<open>Routing by modality\<close>

record ModalityCapability =
  cap_vision :: bool
  cap_stt :: bool
  cap_tts :: bool

definition text_only :: ModalityCapability where
  "text_only = \<lparr>cap_vision = False, cap_stt = False, cap_tts = False\<rparr>"

definition full_capability :: ModalityCapability where
  "full_capability = \<lparr>cap_vision = True, cap_stt = True, cap_tts = True\<rparr>"

definition from_vision :: "bool \<Rightarrow> ModalityCapability" where
  "from_vision v = \<lparr>cap_vision = v, cap_stt = False, cap_tts = False\<rparr>"

definition with_stt :: "ModalityCapability \<Rightarrow> bool \<Rightarrow> ModalityCapability" where
  "with_stt c b = c\<lparr>cap_stt := b\<rparr>"

definition with_tts :: "ModalityCapability \<Rightarrow> bool \<Rightarrow> ModalityCapability" where
  "with_tts c b = c\<lparr>cap_tts := b\<rparr>"

fun serves :: "ModalityCapability \<Rightarrow> Modality \<Rightarrow> bool" where
  "serves c MText = True"
| "serves c MImage = cap_vision c"
| "serves c MVoice = cap_stt c"

datatype RouteAuditKind = Received | Sent | Unsupported

record RouteAudit =
  ra_kind :: RouteAuditKind
  ra_channel :: string
  ra_peer :: string
  ra_modality :: string

datatype unsupported_reason = NoVisionNoCaption | NoStt | SttFailed string

datatype RouteDecision =
    Routed Modality
  | RoutedFallback Modality string
  | RoutedViaStt string
  | RouteUnsupported Modality unsupported_reason

fun is_routed :: "RouteDecision \<Rightarrow> bool" where
  "is_routed (RouteUnsupported _ _) = False"
| "is_routed _ = True"

datatype OutboundPlan = PlanText string | PlanVoice "16 word list"

fun plan_modality :: "OutboundPlan \<Rightarrow> Modality" where
  "plan_modality (PlanText _) = MText"
| "plan_modality (PlanVoice _) = MVoice"

fun into_content :: "OutboundPlan \<Rightarrow> ChannelContent" where
  "into_content (PlanText t) = CText t"
| "into_content (PlanVoice pcm) = CVoice pcm"

datatype DeliveryPreference = PreferText | PreferVoice

fun route_inbound :: "ChannelContent \<Rightarrow> ModalityCapability \<Rightarrow> stt \<Rightarrow> RouteDecision" where
  "route_inbound (CText _) caps stt = Routed MText"
| "route_inbound (CImage _ _ caption) caps stt =
     (if cap_vision caps then Routed MImage
      else case caption of
          None \<Rightarrow> RouteUnsupported MImage NoVisionNoCaption
        | Some cap \<Rightarrow> if cap \<noteq> [] then RoutedFallback MImage cap else RouteUnsupported MImage NoVisionNoCaption)"
| "route_inbound (CVoice samples) caps stt =
     (if \<not> cap_stt caps then RouteUnsupported MVoice NoStt
      else case stt samples of
          Inr transcript \<Rightarrow> RoutedViaStt transcript
        | Inl e \<Rightarrow> RouteUnsupported MVoice (SttFailed e))"

fun plan_outbound :: "string \<Rightarrow> DeliveryPreference \<Rightarrow> ModalityCapability \<Rightarrow> tts \<Rightarrow> OutboundPlan" where
  "plan_outbound s PreferText caps tts = PlanText s"
| "plan_outbound s PreferVoice caps tts =
     (if cap_tts caps then (case tts s of Inr pcm \<Rightarrow> PlanVoice pcm | Inl _ \<Rightarrow> PlanText s) else PlanText s)"

fun inbound_audit :: "string \<Rightarrow> string \<Rightarrow> RouteDecision \<Rightarrow> RouteAudit" where
  "inbound_audit channel peer (Routed m) = \<lparr>ra_kind = Received, ra_channel = channel, ra_peer = peer, ra_modality = modality_str m\<rparr>"
| "inbound_audit channel peer (RoutedFallback _ _) = \<lparr>ra_kind = Received, ra_channel = channel, ra_peer = peer, ra_modality = modality_str MText\<rparr>"
| "inbound_audit channel peer (RoutedViaStt _) = \<lparr>ra_kind = Received, ra_channel = channel, ra_peer = peer, ra_modality = modality_str MText\<rparr>"
| "inbound_audit channel peer (RouteUnsupported m _) = \<lparr>ra_kind = Unsupported, ra_channel = channel, ra_peer = [], ra_modality = modality_str m\<rparr>"

definition outbound_audit :: "string \<Rightarrow> string \<Rightarrow> OutboundPlan \<Rightarrow> RouteAudit" where
  "outbound_audit channel to plan =
     \<lparr>ra_kind = Sent, ra_channel = channel, ra_peer = to, ra_modality = modality_str (plan_modality plan)\<rparr>"

section \<open>Adapters\<close>

text \<open>An HTTP request carries the credential in its URL (Telegram) or in a header (Slack). A reply's body is read for
  the two fields the code looks at.\<close>

record http_request =
  hr_url :: string
  hr_bearer :: "string option"
  hr_to :: string
  hr_text :: string

record slack_body =
  sb_ok :: "bool option"
  sb_error :: "string option"

datatype http_reply =
    ClientBuildFailed string
  | SendFailed string
  | Response u16 "string + slack_body"

datatype Platform = Telegram | Slack

primrec api_base :: "Platform \<Rightarrow> string" where
  "api_base Telegram = ''https://api.telegram.org''"
| "api_base Slack = ''https://slack.com''"

primrec platform_id :: "Platform \<Rightarrow> string" where
  "platform_id Telegram = ''telegram''"
| "platform_id Slack = ''slack''"

definition comms_live_enabled :: "string option \<Rightarrow> bool" where
  "comms_live_enabled var =
     (case var of None \<Rightarrow> False
      | Some v \<Rightarrow> to_ascii_lowercase (trim v) \<in> {''1'', ''true'', ''yes'', ''on''})"

definition screen_egress :: "EgressGuard \<Rightarrow> string \<Rightarrow> ChannelError + unit" where
  "screen_egress guard url =
     (case check_url guard url of Allow \<Rightarrow> Inr () | Deny reason \<Rightarrow> Inl (ApiError (EgressBlocked reason)))"

definition outbound_text :: "OutboundMessage \<Rightarrow> ChannelError + string" where
  "outbound_text m =
     (case out_content m of
        CText t \<Rightarrow> Inr t
      | other \<Rightarrow> Inl (ModalityUnsupported (modality_str (content_modality other))))"

text \<open>The two adapters have the same fields: the fixture queue, the live flag and the guard.\<close>

record Adapter =
  platform :: Platform
  fixture :: "ChannelMessage list"
  live :: bool
  egress_guard :: EgressGuard

definition with_fixture :: "Platform \<Rightarrow> string option \<Rightarrow> ChannelMessage list \<Rightarrow> Adapter" where
  "with_fixture p var messages = \<lparr>platform = p, fixture = messages, live = comms_live_enabled var, egress_guard = guard_default\<rparr>"

definition with_egress_guard :: "Adapter \<Rightarrow> EgressGuard \<Rightarrow> Adapter" where
  "with_egress_guard a g = a\<lparr>egress_guard := g\<rparr>"

definition fixture_exhausted :: "Adapter \<Rightarrow> bool" where
  "fixture_exhausted a \<longleftrightarrow> fixture a = []"

definition adapter_id :: "Adapter \<Rightarrow> string" where
  "adapter_id a = platform_id (platform a)"

definition receive :: "Adapter \<Rightarrow> ChannelMessage option \<times> Adapter" where
  "receive a = (case fixture a of [] \<Rightarrow> (None, a) | m # ms \<Rightarrow> (Some m, a\<lparr>fixture := ms\<rparr>))"

text \<open>What a process has from its surroundings: whether it was built with the \<^verbatim>\<open>live\<close> feature, the two tokens of the
  environment, and the network. A send returns its result and the requests it made.\<close>

record surroundings =
  live_feature :: bool
  bot_token :: "Platform \<Rightarrow> string option"
  network :: "http_request \<Rightarrow> http_reply"

definition is_success :: "u16 \<Rightarrow> bool" where
  "is_success status \<longleftrightarrow> 200 \<le> status \<and> status < 300"

definition telegram_post_message :: "surroundings \<Rightarrow> string \<Rightarrow> string \<Rightarrow> (ChannelError + unit) \<times> http_request list" where
  "telegram_post_message w to text =
     (if \<not> live_feature w then (Inl (ApiError NoLiveFeature), [])
      else case bot_token w Telegram of
          None \<Rightarrow> (Inl (ApiError (TokenNotSet ''ANIMA_TELEGRAM_TOKEN'')), [])
        | Some token \<Rightarrow>
            (let r = \<lparr>hr_url = api_base Telegram @ ''/bot'' @ token @ ''/sendMessage'', hr_bearer = None, hr_to = to, hr_text = text\<rparr> in
             case network w r of
               ClientBuildFailed e \<Rightarrow> (Inl (TransientFailure e), [])
             | SendFailed e \<Rightarrow> (Inl (TransientFailure e), [r])
             | Response status _ \<Rightarrow>
                 (if \<not> is_success status then (Inl (ApiError (StatusFailure status)), [r]) else (Inr (), [r]))))"

definition slack_post_message :: "surroundings \<Rightarrow> string \<Rightarrow> string \<Rightarrow> (ChannelError + unit) \<times> http_request list" where
  "slack_post_message w to text =
     (if \<not> live_feature w then (Inl (ApiError NoLiveFeature), [])
      else case bot_token w Slack of
          None \<Rightarrow> (Inl (ApiError (TokenNotSet ''ANIMA_SLACK_TOKEN'')), [])
        | Some token \<Rightarrow>
            (let r = \<lparr>hr_url = api_base Slack @ ''/api/chat.postMessage'', hr_bearer = Some token, hr_to = to, hr_text = text\<rparr> in
             case network w r of
               ClientBuildFailed e \<Rightarrow> (Inl (TransientFailure e), [])
             | SendFailed e \<Rightarrow> (Inl (TransientFailure e), [r])
             | Response status body \<Rightarrow>
                 (if \<not> is_success status then (Inl (ApiError (StatusFailure status)), [r])
                  else case body of
                      Inl e \<Rightarrow> (Inl (TransientFailure e), [r])
                    | Inr parsed \<Rightarrow>
                        (if sb_ok parsed \<noteq> Some True
                         then (Inl (ApiError (SlackFailure (case sb_error parsed of Some e \<Rightarrow> e | None \<Rightarrow> ''unknown''))), [r])
                         else (Inr (), [r])))))"

primrec post_message :: "Platform \<Rightarrow> surroundings \<Rightarrow> string \<Rightarrow> string \<Rightarrow> (ChannelError + unit) \<times> http_request list" where
  "post_message Telegram = telegram_post_message"
| "post_message Slack = slack_post_message"

definition adapter_send :: "surroundings \<Rightarrow> Adapter \<Rightarrow> OutboundMessage \<Rightarrow> (ChannelError + unit) \<times> http_request list" where
  "adapter_send w a m =
     (if \<not> live a then (Inl LiveModeNotEnabled, [])
      else case outbound_text m of
          Inl e \<Rightarrow> (Inl e, [])
        | Inr text \<Rightarrow> (case screen_egress (egress_guard a) (api_base (platform a)) of
              Inl e \<Rightarrow> (Inl e, [])
            | Inr _ \<Rightarrow> post_message (platform a) w (out_to m) text))"

section \<open>The gateway\<close>

record GatewayConfig =
  text_priority :: SensoryPriority
  image_priority :: SensoryPriority
  voice_priority :: SensoryPriority
  gw_max_image_bytes :: nat
  gw_max_pcm_samples :: nat

definition gateway_config_default :: GatewayConfig where
  "gateway_config_default = \<lparr>text_priority = PNormal, image_priority = PNormal, voice_priority = PNormal,
     gw_max_image_bytes = 10 * 1024 * 1024, gw_max_pcm_samples = 16000 * 60\<rparr>"

datatype rejection = ImageOverLimit nat nat | VoiceOverLimit nat nat | BridgePolicy violation | BridgeInvalidInput

record PollOutcome =
  po_channel :: string
  po_from :: string
  po_modality :: Modality
  po_enqueued :: bool
  po_rejection :: "rejection option"

record ChannelGateway =
  adapters :: "Adapter list"
  gw_bridge :: SensoryBridge
  gw_config :: GatewayConfig

definition gateway_new :: "Adapter list \<Rightarrow> SensoryBridge \<Rightarrow> GatewayConfig \<Rightarrow> ChannelGateway" where
  "gateway_new as b cfg = \<lparr>adapters = as, gw_bridge = b, gw_config = cfg\<rparr>"

definition adapter_count :: "ChannelGateway \<Rightarrow> nat" where
  "adapter_count g = length (adapters g)"

fun outcome_from_result :: "string \<Rightarrow> string \<Rightarrow> Modality \<Rightarrow> unit sensory_result \<Rightarrow> PollOutcome" where
  "outcome_from_result channel peer m (Inr _) =
     \<lparr>po_channel = channel, po_from = peer, po_modality = m, po_enqueued = True, po_rejection = None\<rparr>"
| "outcome_from_result channel peer m (Inl (PolicyViolation v)) =
     \<lparr>po_channel = channel, po_from = peer, po_modality = m, po_enqueued = False, po_rejection = Some (BridgePolicy v)\<rparr>"
| "outcome_from_result channel peer m (Inl InvalidInput) =
     \<lparr>po_channel = channel, po_from = peer, po_modality = m, po_enqueued = False, po_rejection = Some BridgeInvalidInput\<rparr>"

definition ingest_msg :: "GatewayConfig \<Rightarrow> SensoryBridge \<Rightarrow> string \<Rightarrow> ChannelMessage \<Rightarrow> PollOutcome \<times> SensoryBridge" where
  "ingest_msg cfg b channel m =
     (let modality = content_modality (msg_content m);
          refused = (\<lambda>why. (\<lparr>po_channel = channel, po_from = msg_from m, po_modality = modality, po_enqueued = False,
                              po_rejection = Some why\<rparr>, b));
          report = (\<lambda>(result, b). (outcome_from_result channel (msg_from m) modality result, b)) in
      case msg_content m of
        CText text \<Rightarrow> report (packetize_text_checked b text (text_priority cfg))
      | CImage bytes mime caption \<Rightarrow>
          (if length bytes > gw_max_image_bytes cfg then refused (ImageOverLimit (length bytes) (gw_max_image_bytes cfg))
           else report (packetize_image_checked b bytes mime caption (image_priority cfg)))
      | CVoice samples \<Rightarrow>
          (if length samples > gw_max_pcm_samples cfg then refused (VoiceOverLimit (length samples) (gw_max_pcm_samples cfg))
           else report (packetize_pcm_checked b samples (voice_priority cfg))))"

record RoutedOutcome =
  ro_decision :: RouteDecision
  ro_audit :: RouteAudit
  ro_poll :: "PollOutcome option"

definition ingest_routed :: "GatewayConfig \<Rightarrow> ModalityCapability \<Rightarrow> stt \<Rightarrow> SensoryBridge \<Rightarrow> string \<Rightarrow> ChannelMessage
    \<Rightarrow> RoutedOutcome \<times> SensoryBridge" where
  "ingest_routed cfg caps stt b channel m =
     (let decision = route_inbound (msg_content m) caps stt;
          audit = inbound_audit channel (msg_from m) decision;
          (poll, b) = (case decision of
              Routed _ \<Rightarrow> map_prod Some id (ingest_msg cfg b channel m)
            | RoutedFallback _ text \<Rightarrow> map_prod Some id (ingest_msg cfg b channel \<lparr>msg_from = msg_from m, msg_content = CText text\<rparr>)
            | RoutedViaStt text \<Rightarrow> map_prod Some id (ingest_msg cfg b channel \<lparr>msg_from = msg_from m, msg_content = CText text\<rparr>)
            | RouteUnsupported _ _ \<Rightarrow> (None, b)) in
      (\<lparr>ro_decision = decision, ro_audit = audit, ro_poll = poll\<rparr>, b))"

text \<open>One adapter is polled until it has no message or fifty were taken; \<open>handle\<close> is the ingest of the poll.\<close>

function poll_adapter :: "(SensoryBridge \<Rightarrow> string \<Rightarrow> ChannelMessage \<Rightarrow> 'o \<times> SensoryBridge) \<Rightarrow> nat \<Rightarrow> Adapter \<Rightarrow> SensoryBridge
    \<Rightarrow> 'o list \<times> Adapter \<times> SensoryBridge" where
  "poll_adapter handle count a b =
     (case receive a of
        (None, a) \<Rightarrow> ([], a, b)
      | (Some m, a) \<Rightarrow>
          (let (out, b) = handle b (adapter_id a) m in
           if 50 \<le> count + 1 then ([out], a, b)
           else let (outs, a, b) = poll_adapter handle (count + 1) a b in (out # outs, a, b)))"
  by pat_completeness auto
termination by (relation "measure (\<lambda>(_, count, _, _). 50 - count)") auto

declare poll_adapter.simps [simp del]

primrec poll_adapters :: "(SensoryBridge \<Rightarrow> string \<Rightarrow> ChannelMessage \<Rightarrow> 'o \<times> SensoryBridge) \<Rightarrow> Adapter list \<Rightarrow> SensoryBridge
    \<Rightarrow> 'o list \<times> Adapter list \<times> SensoryBridge" where
  "poll_adapters handle [] b = ([], [], b)"
| "poll_adapters handle (a # as) b =
     (let (outs, a, b) = poll_adapter handle 0 a b; (outs', as, b) = poll_adapters handle as b in (outs @ outs', a # as, b))"

definition run_once :: "ChannelGateway \<Rightarrow> PollOutcome list \<times> ChannelGateway" where
  "run_once g =
     (let (outs, as, b) = poll_adapters (ingest_msg (gw_config g)) (adapters g) (gw_bridge g) in
      (outs, g\<lparr>adapters := as, gw_bridge := b\<rparr>))"

definition run_once_routed :: "ChannelGateway \<Rightarrow> ModalityCapability \<Rightarrow> stt \<Rightarrow> RoutedOutcome list \<times> ChannelGateway" where
  "run_once_routed g caps stt =
     (let (outs, as, b) = poll_adapters (ingest_routed (gw_config g) caps stt) (adapters g) (gw_bridge g) in
      (outs, g\<lparr>adapters := as, gw_bridge := b\<rparr>))"

definition send_routed :: "surroundings \<Rightarrow> ChannelGateway \<Rightarrow> ModalityCapability \<Rightarrow> tts \<Rightarrow> string \<Rightarrow> string \<Rightarrow> string
    \<Rightarrow> DeliveryPreference \<Rightarrow> (ChannelError + RouteAudit) \<times> http_request list" where
  "send_routed w g caps tts channel to text pref =
     (case find (\<lambda>a. adapter_id a = channel) (adapters g) of
        None \<Rightarrow> (Inl (ApiError (NoAdapter channel)), [])
      | Some a \<Rightarrow>
          (let plan = plan_outbound text pref caps tts;
               audit = outbound_audit channel to plan in
           case adapter_send w a \<lparr>out_to = to, out_content = into_content plan\<rparr> of
             (Inl e, rs) \<Rightarrow> (Inl e, rs)
           | (Inr _, rs) \<Rightarrow> (Inr audit, rs)))"

section \<open>What a poll delivers\<close>

text \<open>The messages a poll takes: at most fifty of each adapter, in the order of the adapters.\<close>

definition received :: "Adapter list \<Rightarrow> (string \<times> ChannelMessage) list" where
  "received as = concat (map (\<lambda>a. map (Pair (adapter_id a)) (take 50 (fixture a))) as)"

primrec handle_all :: "(SensoryBridge \<Rightarrow> string \<Rightarrow> ChannelMessage \<Rightarrow> 'o \<times> SensoryBridge) \<Rightarrow> (string \<times> ChannelMessage) list
    \<Rightarrow> SensoryBridge \<Rightarrow> 'o list \<times> SensoryBridge" where
  "handle_all handle [] b = ([], b)"
| "handle_all handle (x # xs) b =
     (let (out, b) = handle b (fst x) (snd x); (outs, b) = handle_all handle xs b in (out # outs, b))"

lemma handle_all_append:
  "handle_all handle (xs @ ys) b =
     (let (outs, b) = handle_all handle xs b; (outs', b) = handle_all handle ys b in (outs @ outs', b))"
  by (induction xs arbitrary: b) (auto simp: Let_def split: prod.splits)

lemma poll_adapter_exact:
  "count < 50 \<Longrightarrow> poll_adapter handle count a b =
     (let (outs, b) = handle_all handle (map (Pair (adapter_id a)) (take (50 - count) (fixture a))) b in
      (outs, a\<lparr>fixture := drop (50 - count) (fixture a)\<rparr>, b))"
proof (induction handle count a b rule: poll_adapter.induct)
  case (1 handle count a b)
  show ?case
  proof (cases "fixture a")
    case Nil
    then show ?thesis by (simp add: poll_adapter.simps [of handle count] receive_def)
  next
    case (Cons m ms)
    let ?a = "a\<lparr>fixture := ms\<rparr>"
    obtain out b1 where h: "handle b (adapter_id a) m = (out, b1)" by (rule prod.exhaust)
    have r: "receive a = (Some m, ?a)" "adapter_id ?a = adapter_id a" using Cons by (simp_all add: receive_def adapter_id_def)
    show ?thesis
    proof (cases "50 \<le> count + 1")
      case True
      with 1(2) have "count = 49" by linarith
      then show ?thesis using Cons r h by (simp add: poll_adapter.simps [of handle 49])
    next
      case False
      then have "50 - count = Suc (50 - (count + 1))" by linarith
      moreover have "poll_adapter handle (count + 1) ?a b1 =
          (let (outs, b) = handle_all handle (map (Pair (adapter_id a)) (take (50 - (count + 1)) ms)) b1 in
           (outs, ?a\<lparr>fixture := drop (50 - (count + 1)) ms\<rparr>, b))"
        using 1(1) [OF r(1) [symmetric] refl refl h [symmetric, folded r(2)] False] False r(2) by simp
      ultimately show ?thesis using Cons r h False
        by (simp add: poll_adapter.simps [of handle count] Let_def split: prod.splits)
    qed
  qed
qed

lemma poll_adapters_exact:
  "poll_adapters handle as b =
     (let (outs, b) = handle_all handle (received as) b in (outs, map (\<lambda>a. a\<lparr>fixture := drop 50 (fixture a)\<rparr>) as, b))"
  by (induction as arbitrary: b)
    (simp_all add: received_def poll_adapter_exact handle_all_append Let_def split: prod.splits)

text \<open>What the backend gets of a content: the content itself, a caption or a transcript in its place, or nothing.\<close>

fun effective :: "ModalityCapability \<Rightarrow> stt \<Rightarrow> ChannelContent \<Rightarrow> ChannelContent option" where
  "effective caps stt (CText s) = Some (CText s)"
| "effective caps stt (CImage img mime caption) =
     (if cap_vision caps then Some (CImage img mime caption)
      else case caption of Some (c # cs) \<Rightarrow> Some (CText (c # cs)) | _ \<Rightarrow> None)"
| "effective caps stt (CVoice samples) =
     (if cap_stt caps then (case stt samples of Inr t \<Rightarrow> Some (CText t) | Inl _ \<Rightarrow> None) else None)"

text \<open>The packet of a content, with the gateway's priority for it, from the operator and without an override.\<close>

fun offered :: "GatewayConfig \<Rightarrow> ChannelContent \<Rightarrow> PrioritizedPacket" where
  "offered cfg (CText s) = ingress_packet (TextFrom s (text_priority cfg) None FromOperator)"
| "offered cfg (CImage img mime caption) = ingress_packet (ImageFrom img mime caption (image_priority cfg) FromOperator)"
| "offered cfg (CVoice samples) = ingress_packet (PcmFrom samples (voice_priority cfg) FromOperator)"

fun within_gateway :: "GatewayConfig \<Rightarrow> ChannelContent \<Rightarrow> bool" where
  "within_gateway cfg (CText s) = True"
| "within_gateway cfg (CImage img mime caption) \<longleftrightarrow> length img \<le> gw_max_image_bytes cfg"
| "within_gateway cfg (CVoice samples) \<longleftrightarrow> length samples \<le> gw_max_pcm_samples cfg"

definition delivered :: "GatewayConfig \<Rightarrow> ModalityCapability \<Rightarrow> stt \<Rightarrow> HumanGuidance \<Rightarrow> ChannelMessage \<Rightarrow> PrioritizedPacket option" where
  "delivered cfg caps stt bounds m =
     (case effective caps stt (msg_content m) of
        None \<Rightarrow> None
      | Some c \<Rightarrow> if within_gateway cfg c \<and> admitted bounds (offered cfg c) then Some (offered cfg c) else None)"

lemma ingest_msg_exact:
  assumes "ingest_msg cfg b channel m = (out, b')"
  defines "ok \<equiv> within_gateway cfg (msg_content m) \<and> admitted (active_bounds b) (offered cfg (msg_content m))"
  shows "b' = (if ok then push_back b (offered cfg (msg_content m)) else b)" "po_enqueued out \<longleftrightarrow> ok"
    "po_rejection out = None \<longleftrightarrow> ok" "po_channel out = channel" "po_from out = msg_from m"
    "po_modality out = content_modality (msg_content m)"
proof -
  have report: "b' = (if admitted (active_bounds b) (ingress_packet i) then push_back b (ingress_packet i) else b)
      \<and> (po_enqueued out \<longleftrightarrow> admitted (active_bounds b) (ingress_packet i))
      \<and> (po_rejection out = None \<longleftrightarrow> admitted (active_bounds b) (ingress_packet i))
      \<and> po_channel out = channel \<and> po_from out = msg_from m \<and> po_modality out = md"
    if "(case ingest b i of (r, b) \<Rightarrow> (outcome_from_result channel (msg_from m) md r, b)) = (out, b')" for i md
    using that ingest_spec [of b i] by (cases "(channel, msg_from m, md, fst (ingest b i))" rule: outcome_from_result.cases)
      (auto split: prod.splits)
  have "b' = (if ok then push_back b (offered cfg (msg_content m)) else b) \<and> (po_enqueued out \<longleftrightarrow> ok)
    \<and> (po_rejection out = None \<longleftrightarrow> ok) \<and> po_channel out = channel \<and> po_from out = msg_from m
    \<and> po_modality out = content_modality (msg_content m)"
  proof (cases "msg_content m")
    case (CText s)
    show ?thesis using assms(1) report [where i = "TextFrom s (text_priority cfg) None FromOperator" and md = MText]
      by (simp add: CText ok_def ingest_msg_def packetize_text_checked_def packetize_text_tagged_def)
  next
    case (CImage img mime caption)
    show ?thesis using assms(1) report [where i = "ImageFrom img mime caption (image_priority cfg) FromOperator" and md = MImage]
      by (auto simp: CImage ok_def ingest_msg_def packetize_image_checked_def split: if_splits)
  next
    case (CVoice samples)
    show ?thesis using assms(1) report [where i = "PcmFrom samples (voice_priority cfg) FromOperator" and md = MVoice]
      by (auto simp: CVoice ok_def ingest_msg_def packetize_pcm_checked_def split: if_splits)
  qed
  then show "b' = (if ok then push_back b (offered cfg (msg_content m)) else b)" "po_enqueued out \<longleftrightarrow> ok"
    "po_rejection out = None \<longleftrightarrow> ok" "po_channel out = channel" "po_from out = msg_from m"
    "po_modality out = content_modality (msg_content m)" by blast+
qed

text \<open>What is reported of a message: the decision of the route, the audit record, which says received of whatever the route
  serves, and the outcome at the bridge, which is there for whatever the route serves and says itself whether the
  packet entered. The comment that ties the outcome to an enqueued message is
  contradicted by \<open>refused_reported_received\<close>.\<close>

definition routed_report :: "GatewayConfig \<Rightarrow> ModalityCapability \<Rightarrow> stt \<Rightarrow> HumanGuidance \<Rightarrow> string \<times> ChannelMessage \<Rightarrow> RoutedOutcome \<Rightarrow> bool" where
  "routed_report cfg caps stt bounds x out \<longleftrightarrow>
     (let m = snd x; eff = effective caps stt (msg_content m) in
      ro_audit out = (case eff of
          None \<Rightarrow> \<lparr>ra_kind = Unsupported, ra_channel = fst x, ra_peer = [], ra_modality = modality_str (content_modality (msg_content m))\<rparr>
        | Some c \<Rightarrow> \<lparr>ra_kind = Received, ra_channel = fst x, ra_peer = msg_from m, ra_modality = modality_str (content_modality c)\<rparr>)
      \<and> ro_decision out = route_inbound (msg_content m) caps stt \<and> (is_routed (ro_decision out) \<longleftrightarrow> eff \<noteq> None)
      \<and> (case ro_poll out of
           None \<Rightarrow> eff = None
         | Some p \<Rightarrow> map_option content_modality eff = Some (po_modality p) \<and> po_channel p = fst x \<and> po_from p = msg_from m
             \<and> (po_enqueued p \<longleftrightarrow> delivered cfg caps stt bounds m \<noteq> None) \<and> (po_enqueued p \<longleftrightarrow> po_rejection p = None)))"

lemma route_effective:
  "effective caps stt c = (case route_inbound c caps stt of
     Routed _ \<Rightarrow> Some c | RoutedFallback _ t \<Rightarrow> Some (CText t) | RoutedViaStt t \<Rightarrow> Some (CText t) | RouteUnsupported _ _ \<Rightarrow> None)"
  by (cases "(c, caps, stt)" rule: route_inbound.cases) (auto split: option.splits list.splits sum.splits)

lemma route_modality:
  "route_inbound c caps stt = Routed md \<Longrightarrow> md = content_modality c"
  "route_inbound c caps stt = RouteUnsupported md why \<Longrightarrow> md = content_modality c"
  by (cases "(c, caps, stt)" rule: route_inbound.cases; auto split: option.splits if_splits sum.splits)+

lemma ingest_routed_exact:
  assumes "ingest_routed cfg caps stt b channel m = (out, b')"
  shows "routed_report cfg caps stt (active_bounds b) (channel, m) out"
    and "queue b' = queue b @ (case delivered cfg caps stt (active_bounds b) m of None \<Rightarrow> [] | Some p \<Rightarrow> [p])"
    and "active_bounds b' = active_bounds b"
proof -
  let ?dec = "route_inbound (msg_content m) caps stt"
  have served: "routed_report cfg caps stt (active_bounds b) (channel, m) out
      \<and> queue b' = queue b @ (case delivered cfg caps stt (active_bounds b) m of None \<Rightarrow> [] | Some p \<Rightarrow> [p])
      \<and> active_bounds b' = active_bounds b"
    if eff: "effective caps stt (msg_content m) = Some c" and from_m: "msg_from m' = msg_from m" "msg_content m' = c"
      and run: "ingest_msg cfg b channel m' = (p, b')" and poll: "ro_poll out = Some p" "ro_decision out = ?dec" "is_routed ?dec"
      and audit: "ro_audit out = \<lparr>ra_kind = Received, ra_channel = channel, ra_peer = msg_from m, ra_modality = modality_str (content_modality c)\<rparr>"
    for c m' p
    using ingest_msg_exact [OF run] eff from_m poll audit
    by (auto simp: routed_report_def Let_def delivered_def push_back_def)
  have "routed_report cfg caps stt (active_bounds b) (channel, m) out
      \<and> queue b' = queue b @ (case delivered cfg caps stt (active_bounds b) m of None \<Rightarrow> [] | Some p \<Rightarrow> [p])
      \<and> active_bounds b' = active_bounds b"
  proof (cases ?dec)
    case (Routed md)
    obtain p b1 where run: "ingest_msg cfg b channel m = (p, b1)" by (rule prod.exhaust)
    show ?thesis
      using assms Routed route_modality(1) [OF Routed] route_effective [of caps stt "msg_content m"]
      by (intro served [where m' = m and p = p, OF _ refl refl]) (auto simp: ingest_routed_def Let_def run)
  next
    case (RoutedFallback md t)
    let ?m = "\<lparr>msg_from = msg_from m, msg_content = CText t\<rparr>"
    obtain p b1 where run: "ingest_msg cfg b channel ?m = (p, b1)" by (rule prod.exhaust)
    show ?thesis
      using assms RoutedFallback route_effective [of caps stt "msg_content m"]
      by (intro served [where m' = ?m and c = "CText t" and p = p]) (auto simp: ingest_routed_def Let_def run)
  next
    case (RoutedViaStt t)
    let ?m = "\<lparr>msg_from = msg_from m, msg_content = CText t\<rparr>"
    obtain p b1 where run: "ingest_msg cfg b channel ?m = (p, b1)" by (rule prod.exhaust)
    show ?thesis
      using assms RoutedViaStt route_effective [of caps stt "msg_content m"]
      by (intro served [where m' = ?m and c = "CText t" and p = p]) (auto simp: ingest_routed_def Let_def run)
  next
    case (RouteUnsupported md why)
    then show ?thesis
      using assms route_modality(2) [OF RouteUnsupported] route_effective [of caps stt "msg_content m"]
      by (auto simp: ingest_routed_def routed_report_def delivered_def)
  qed
  then show "routed_report cfg caps stt (active_bounds b) (channel, m) out"
    "queue b' = queue b @ (case delivered cfg caps stt (active_bounds b) m of None \<Rightarrow> [] | Some p \<Rightarrow> [p])"
    "active_bounds b' = active_bounds b" by blast+
qed

lemma handle_all_routed:
  assumes "handle_all (ingest_routed cfg caps stt) xs b = (outs, b')"
  shows "active_bounds b' = active_bounds b
    \<and> queue b' = queue b @ List.map_filter (\<lambda>x. delivered cfg caps stt (active_bounds b) (snd x)) xs
    \<and> list_all2 (routed_report cfg caps stt (active_bounds b)) xs outs"
  using assms
proof (induction xs arbitrary: b outs)
  case Nil
  then show ?case by (simp add: map_filter_simps)
next
  case (Cons x xs)
  obtain out b1 outs1 where s: "ingest_routed cfg caps stt b (fst x) (snd x) = (out, b1)"
    "handle_all (ingest_routed cfg caps stt) xs b1 = (outs1, b')" "outs = out # outs1"
    using Cons.prems by (auto simp: Let_def split: prod.splits)
  show ?case using Cons.IH [OF s(2)] ingest_routed_exact [OF s(1)] s(3)
    by (simp add: map_filter_simps split: option.splits)
qed

text \<open>No packet of a poll bypasses the policy.\<close>

definition no_bypass :: "ModalityCapability \<Rightarrow> HumanGuidance \<Rightarrow> PrioritizedPacket \<Rightarrow> bool" where
  "no_bypass caps bounds x \<longleftrightarrow> admitted bounds x \<and> origin x = FromOperator \<and> gate_override_reason x = None
     \<and> (case packet x of PText _ \<Rightarrow> True | Image _ _ _ \<Rightarrow> cap_vision caps | Pcm _ \<Rightarrow> False)"

lemma delivered_no_bypass: "delivered cfg caps stt bounds m = Some x \<Longrightarrow> no_bypass caps bounds x"
  by (cases "(caps, stt, msg_content m)" rule: effective.cases)
    (auto simp: delivered_def no_bypass_def split: if_splits option.splits list.splits sum.splits)

text \<open>C17: a poll of the gateway takes at most fifty messages of each adapter, in order, and leaves the rest; the bridge
  gets, in the order of the messages and at the configured priority, exactly the packets of what the route can serve
  (the text; the image if the backend sees, else its caption; the transcript of a voice) as far as the gateway's limits
  and the operator's bounds admit it; each packet comes from the operator, without an override, as text or as an image
  for a backend that sees. Each message has one report, with the route's decision. Its audit record says received, with
  channel, sender and modality, of every message the route serves, also of one the bridge then refuses, and unsupported
  of the others; only its poll outcome, present for every message the route serves, says whether the packet entered the
  bridge. So the comment that a poll outcome means an enqueued message does not hold
  (\<open>refused_reported_received\<close>).\<close>

theorem channel_poll_exact:
  "let (outs, g') = run_once_routed g caps stt;
       taken = received (adapters g); b = gw_bridge g; b' = gw_bridge g';
       new = List.map_filter (\<lambda>x. delivered (gw_config g) caps stt (active_bounds b) (snd x)) taken in
   adapters g' = map (\<lambda>a. a\<lparr>fixture := drop 50 (fixture a)\<rparr>) (adapters g)
   \<and> active_bounds b' = active_bounds b \<and> queue b' = queue b @ new
   \<and> list_all (no_bypass caps (active_bounds b)) new
   \<and> list_all2 (routed_report (gw_config g) caps stt (active_bounds b)) taken outs"
proof -
  obtain outs b' where h: "handle_all (ingest_routed (gw_config g) caps stt) (received (adapters g)) (gw_bridge g) = (outs, b')"
    by (rule prod.exhaust)
  have "list_all (no_bypass caps (active_bounds (gw_bridge g)))
      (List.map_filter (\<lambda>x. delivered (gw_config g) caps stt (active_bounds (gw_bridge g)) (snd x)) (received (adapters g)))"
    by (auto simp: list_all_iff List.map_filter_def delivered_no_bypass)
  then show ?thesis using handle_all_routed [OF h] by (simp add: run_once_routed_def poll_adapters_exact h)
qed

section \<open>What leaves the process\<close>

text \<open>A request of an adapter: its address on the platform's origin, the credential, the recipient and the text.\<close>

fun request_of :: "surroundings \<Rightarrow> Adapter \<Rightarrow> string \<Rightarrow> string \<Rightarrow> http_request \<Rightarrow> bool" where
  "request_of w a to text r \<longleftrightarrow> hr_to r = to \<and> hr_text r = text \<and>
     (case bot_token w (platform a) of
        None \<Rightarrow> False
      | Some token \<Rightarrow> (case platform a of
            Telegram \<Rightarrow> hr_url r = ''https://api.telegram.org/bot'' @ token @ ''/sendMessage'' \<and> hr_bearer r = None
          | Slack \<Rightarrow> hr_url r = ''https://slack.com/api/chat.postMessage'' \<and> hr_bearer r = Some token))"

definition may_send :: "surroundings \<Rightarrow> Adapter \<Rightarrow> bool" where
  "may_send w a \<longleftrightarrow> live a \<and> live_feature w \<and> check_url (egress_guard a) (api_base (platform a)) = Allow"

lemma post_message_exact:
  assumes "post_message (platform a) w to text = (res, rs)"
  shows "(rs = [] \<or> (\<exists>r. rs = [r] \<and> live_feature w \<and> request_of w a to text r)) \<and> (isl res \<or> rs \<noteq> [])"
  using assms
  by (cases "platform a")
    (auto simp: telegram_post_message_def slack_post_message_def Let_def
      split: if_splits option.splits http_reply.splits sum.splits)

lemma adapter_send_exact:
  assumes "adapter_send w a m = (res, rs)"
  shows "(rs = [] \<or> (\<exists>r t. rs = [r] \<and> out_content m = CText t \<and> may_send w a \<and> request_of w a (out_to m) t r))
    \<and> (isl res \<or> rs \<noteq> [])"
  using assms post_message_exact [of a w "out_to m"]
  by (auto simp: adapter_send_def outbound_text_def screen_egress_def may_send_def
      split: if_splits ChannelContent.splits EgressVerdict.splits sum.splits)

text \<open>C32: a reply makes at most one request. A request is made only by the first adapter registered for the channel, if
  it is live, the build has the live feature, the token is set and the adapter's egress guard admits the platform's
  origin; it goes to that origin with the reply's text to the recipient. A reply is reported as sent, as a text to that
  recipient, only if its request was made.\<close>

theorem channel_send_exact:
  "case send_routed w g caps tts channel to text pref of (res, rs) \<Rightarrow>
     (rs = [] \<or> (\<exists>a r. find (\<lambda>a. adapter_id a = channel) (adapters g) = Some a \<and> rs = [r] \<and> may_send w a \<and> request_of w a to text r))
     \<and> (case res of Inl _ \<Rightarrow> True
          | Inr audit \<Rightarrow> rs \<noteq> [] \<and> audit = \<lparr>ra_kind = Sent, ra_channel = channel, ra_peer = to, ra_modality = ''text''\<rparr>)"
proof (cases "find (\<lambda>a. adapter_id a = channel) (adapters g)")
  case None
  then show ?thesis by (simp add: send_routed_def)
next
  case (Some a)
  let ?plan = "plan_outbound text pref caps tts"
  obtain res rs where s: "adapter_send w a \<lparr>out_to = to, out_content = into_content ?plan\<rparr> = (res, rs)" by (rule prod.exhaust)
  have plan: "?plan = PlanText text \<or> (\<exists>pcm. ?plan = PlanVoice pcm)"
    by (cases "(text, pref, caps, tts)" rule: plan_outbound.cases) (auto split: sum.splits)
  have run: "send_routed w g caps tts channel to text pref = (case res of Inl e \<Rightarrow> (Inl e, rs) | Inr _ \<Rightarrow> (Inr (outbound_audit channel to ?plan), rs))"
    by (simp add: send_routed_def Some s)
  from plan show ?thesis
  proof
    assume p: "?plan = PlanText text"
    show ?thesis unfolding run using adapter_send_exact [OF s]
      by (auto simp: p Some outbound_audit_def split: sum.splits)
  next
    assume "\<exists>pcm. ?plan = PlanVoice pcm"
    then obtain pcm where p: "?plan = PlanVoice pcm" ..
    show ?thesis unfolding run using adapter_send_exact [OF s]
      by (auto simp: p Some outbound_audit_def split: sum.splits)
  qed
qed

text \<open>The guard an adapter is made with admits both origins, so a live adapter does send.\<close>

lemma default_guard_admits: "check_url guard_default (api_base p) = Allow"
proof (cases p)
  case Telegram
  show ?thesis unfolding Telegram by code_simp
next
  case Slack
  show ?thesis unfolding Slack by code_simp
qed

text \<open>A spoken reply is lost on both platforms: the plan is a voice note whenever the synthesis succeeds, and no adapter
  sends one, though the text alone would have been sent.\<close>

lemma spoken_reply_lost:
  assumes "find (\<lambda>a. adapter_id a = channel) (adapters g) = Some a" "live a" "cap_tts caps" "tts text = Inr pcm"
  shows "send_routed w g caps tts channel to text PreferVoice = (Inl (ModalityUnsupported ''voice''), [])"
  using assms by (simp add: send_routed_def adapter_send_def outbound_text_def)

text \<open>A message the bridge refuses is still reported as received.\<close>

lemma refused_reported_received:
  "let b = bridge_new ((guidance_new [])\<lparr>max_text_length := Some 1\<rparr>);
       (out, b') = ingest_routed gateway_config_default text_only (fixture_transcribe stt_new) b ''slack''
         \<lparr>msg_from = ''u'', msg_content = CText ''hi''\<rparr> in
   b' = b \<and> ra_kind (ro_audit out) = Received \<and> map_option po_enqueued (ro_poll out) = Some False"
  by (simp add: ingest_routed_def ingest_msg_def bridge_new_def guidance_new_def packetize_text_checked_def
      packetize_text_tagged_def packetize_text_from_def text_violation_def)

end
