(* ===== verification/Tool_Dispatch.thy ===== *)
theory Tool_Dispatch
  imports Egress_Guard Audit_Trail "HOL-Library.Char_ord" "HOL-Library.List_Lexorder"
begin

text \<open>
  Dispatch of tool calls (\<^verbatim>\<open>crates/vita/src/dispatch.rs\<close>, \<^verbatim>\<open>agent_pool.rs\<close>): the wrapper that screens the address of a
  network tool and writes it, redacted, to the audit buffer, and the wrapper that sends a call to another agent of the
  pool. A dispatcher passes a state: the buffer of the wrapper and the state of what it wraps. The JSON codec and the
  agents are arguments. Calls of several threads share the counter of identifiers and the buffer; for them the steps of
  a delegation are a relation.
\<close>

section \<open>Dispatchers and audit entries\<close>

text \<open>The five entries these wrappers write; the denial reason is the constructor behind its text.\<close>

datatype AuditEntry =
    EgressRequested string string
  | EgressBlocked string string EgressDenialReason
  | AgentDelegated string string string string
  | AgentDelegationCompleted string string string bool usize u64 string
  | AgentDelegationFailed string string string string

datatype dispatch_error = EgressDenied EgressDenialReason | ToolError string

type_synonym 's dispatcher = "string \<Rightarrow> string \<Rightarrow> 's \<Rightarrow> (dispatch_error + string) \<times> 's"

text \<open>The buffer is flushed into the log entry by entry; each push has its own outcomes of the writes.\<close>

definition flush_audit :: "(u8 list \<Rightarrow> u8 list) \<Rightarrow> (AuditEntry \<Rightarrow> string option) \<Rightarrow> (nat \<Rightarrow> IoOutcome \<times> IoOutcome)
    \<Rightarrow> AuditEntry list \<Rightarrow> AuditEntry AuditLog \<Rightarrow> AuditEntry list \<times> AuditEntry AuditLog" where
  "flush_audit sha to_json io buf l =
     ([], fold (\<lambda>(i, e). audit_push sha to_json (fst (io i)) (snd (io i)) e) (enumerate 0 buf) l)"

section \<open>Redaction of addresses\<close>

definition is_sensitive :: "string \<Rightarrow> bool" where
  "is_sensitive s \<longleftrightarrow>
     list_ex (contains_str (to_ascii_lowercase s)) [''key'', ''token'', ''secret'', ''auth'', ''password'', ''api'']"

definition redact_pair :: "string \<Rightarrow> string" where
  "redact_pair pair =
     (case split_once CHR ''='' pair of
        None \<Rightarrow> pair
      | Some (k, v) \<Rightarrow> if is_sensitive k \<or> is_sensitive v then k @ ''=[REDACTED]'' else pair)"

definition redact_url :: "string \<Rightarrow> string" where
  "redact_url url =
     (if CHR ''?'' \<notin> set url then url
      else let url_no_frag = (case split_once CHR ''#'' url of Some (u, _) \<Rightarrow> u | None \<Rightarrow> url) in
        case split_once CHR ''?'' url_no_frag of
          None \<Rightarrow> url_no_frag
        | Some (base, query) \<Rightarrow> base @ ''?'' @ join_str ''&'' (map redact_pair (split_on CHR ''&'' query)))"

section \<open>Screening of network tools\<close>

definition NETWORK_TOOL_IDS :: "string list" where
  "NETWORK_TOOL_IDS = [''web-search'', ''browser'', ''navigate'', ''browse'', ''extract'']"

record EgressAwareDispatcher =
  ed_guard :: EgressGuard
  network_tool_ids :: "string list"

definition egress_aware_new :: "EgressGuard \<Rightarrow> EgressAwareDispatcher" where
  "egress_aware_new g = \<lparr>ed_guard = g, network_tool_ids = NETWORK_TOOL_IDS\<rparr>"

text \<open>\<open>json args\<close> is the text at a field of the arguments, if they are JSON and the field is a string.\<close>

definition extract_url_from_args :: "(string \<Rightarrow> (string \<Rightarrow> string option) option) \<Rightarrow> string \<Rightarrow> string option" where
  "extract_url_from_args json args =
     (case json args of
        None \<Rightarrow> None
      | Some field \<Rightarrow> Option.bind (find (\<lambda>key. field key \<noteq> None) [''url'', ''base_url'', ''href'', ''link'', ''navigate_to'']) field)"

definition egress_dispatch :: "(string \<Rightarrow> (string \<Rightarrow> string option) option) \<Rightarrow> EgressAwareDispatcher \<Rightarrow> 's dispatcher
    \<Rightarrow> (AuditEntry list \<times> 's) dispatcher" where
  "egress_dispatch json d inner tool_name args st =
     (let (buf, s) = st;
          forward = (\<lambda>buf. case inner tool_name args s of (r, s) \<Rightarrow> (r, (buf, s))) in
      if tool_name \<in> set (network_tool_ids d) then
        (case extract_url_from_args json args of
           Some url \<Rightarrow>
             (case check_url (ed_guard d) url of
                Allow \<Rightarrow> forward (buf @ [EgressRequested tool_name (redact_url url)])
              | Deny reason \<Rightarrow> (Inl (EgressDenied reason), (buf @ [EgressBlocked tool_name (redact_url url) reason], s)))
         | None \<Rightarrow> forward (buf @ [EgressRequested tool_name ''(url embedded in tool driver)'']))
      else forward buf)"

section \<open>The agent pool\<close>

record A2aRequest =
  req_task :: string
  req_context :: string
  req_max_turns :: u32

record A2aResponse =
  resp_summary :: string
  tool_calls_made :: usize
  resp_success :: bool
  resp_duration_ms :: u64

definition default_max_turns :: u32 where
  "default_max_turns = 4"

record DelegatePayload =
  dp_agent :: string
  dp_task :: string
  dp_context :: string
  dp_max_turns :: u32

text \<open>The payload as the codec finds it, before its defaults.\<close>

record raw_payload =
  raw_agent :: string
  raw_task :: string
  raw_context :: "string option"
  raw_max_turns :: "u32 option"

definition delegate_payload :: "raw_payload \<Rightarrow> DelegatePayload" where
  "delegate_payload r = \<lparr>dp_agent = raw_agent r, dp_task = raw_task r,
     dp_context = (case raw_context r of Some c \<Rightarrow> c | None \<Rightarrow> []),
     dp_max_turns = (case raw_max_turns r of Some n \<Rightarrow> n | None \<Rightarrow> default_max_turns)\<rparr>"

text \<open>An agent may change the state when it is invoked.\<close>

record 's AgentEndpoint =
  endpoint_id :: string
  invoke :: "A2aRequest \<Rightarrow> 's \<Rightarrow> (string + A2aResponse) \<times> 's"

record MockAgentEndpoint =
  mock_id :: string
  mock_summary :: string
  mock_tool_calls :: usize
  should_fail :: bool
  fail_reason :: string

definition mock_new :: "string \<Rightarrow> string \<Rightarrow> MockAgentEndpoint" where
  "mock_new i s = \<lparr>mock_id = i, mock_summary = s, mock_tool_calls = 1, should_fail = False, fail_reason = []\<rparr>"

definition mock_failing :: "string \<Rightarrow> string \<Rightarrow> MockAgentEndpoint" where
  "mock_failing i reason = \<lparr>mock_id = i, mock_summary = [], mock_tool_calls = 0, should_fail = True, fail_reason = reason\<rparr>"

definition with_tool_calls :: "MockAgentEndpoint \<Rightarrow> usize \<Rightarrow> MockAgentEndpoint" where
  "with_tool_calls k n = k\<lparr>mock_tool_calls := n\<rparr>"

definition mock_invoke :: "MockAgentEndpoint \<Rightarrow> A2aRequest \<Rightarrow> string + A2aResponse" where
  "mock_invoke k req =
     (if should_fail k then Inl (fail_reason k)
      else Inr \<lparr>resp_summary = mock_summary k @ '' (task: '' @ req_task req @ '')'', tool_calls_made = mock_tool_calls k,
        resp_success = True, resp_duration_ms = 0\<rparr>)"

definition mock_endpoint :: "MockAgentEndpoint \<Rightarrow> 's AgentEndpoint" where
  "mock_endpoint k = \<lparr>endpoint_id = mock_id k, invoke = (\<lambda>req s. (mock_invoke k req, s))\<rparr>"

type_synonym 's AgentPool = "(string \<times> 's AgentEndpoint) list"

definition pool_register :: "'s AgentPool \<Rightarrow> 's AgentEndpoint \<Rightarrow> 's AgentPool" where
  "pool_register pool ep = hm_insert (endpoint_id ep) ep pool"

definition pool_get :: "'s AgentPool \<Rightarrow> string \<Rightarrow> 's AgentEndpoint option" where
  "pool_get pool i = hm_get pool i"

definition pool_len :: "'s AgentPool \<Rightarrow> nat" where
  "pool_len pool = length pool"

definition pool_list :: "'s AgentPool \<Rightarrow> string list" where
  "pool_list pool = sort (map fst pool)"

section \<open>Delegation\<close>

text \<open>The counter is global; the buffer is the dispatcher's.\<close>

record 's a2a_state =
  delegation_counter :: u64
  a2a_buffer :: "AuditEntry list"
  a2a_inner :: 's

definition delegation_id :: "u64 \<Rightarrow> string" where
  "delegation_id n = ''dlg-'' @ decimal (unat n)"

definition next_delegation_id :: "'s a2a_state \<Rightarrow> string \<times> 's a2a_state" where
  "next_delegation_id s = (delegation_id (delegation_counter s), s\<lparr>delegation_counter := delegation_counter s + 1\<rparr>)"

definition a2a_push_entry :: "AuditEntry \<Rightarrow> 's a2a_state \<Rightarrow> 's a2a_state" where
  "a2a_push_entry e s = s\<lparr>a2a_buffer := a2a_buffer s @ [e]\<rparr>"

definition a2a_dispatch :: "(string \<Rightarrow> string + raw_payload) \<Rightarrow> (A2aResponse \<Rightarrow> string + string) \<Rightarrow> u64 \<Rightarrow> 's a2a_state AgentPool
    \<Rightarrow> string \<Rightarrow> 's dispatcher \<Rightarrow> 's a2a_state dispatcher" where
  "a2a_dispatch of_json to_json duration_ms pool parent inner tool_name args s =
     (if tool_name \<noteq> ''delegate'' then
        (case inner tool_name args (a2a_inner s) of (r, i) \<Rightarrow> (r, s\<lparr>a2a_inner := i\<rparr>))
      else case of_json args of
        Inl e \<Rightarrow> (Inl (ToolError (''delegate: invalid JSON payload: '' @ e)), s)
      | Inr raw \<Rightarrow>
          (let payload = delegate_payload raw;
               (dlg, s) = next_delegation_id s;
               target_id = dp_agent payload;
               s = a2a_push_entry (AgentDelegated parent target_id dlg (dp_task payload)) s in
           case pool_get pool (dp_agent payload) of
             None \<Rightarrow>
               (let reason = ''unknown agent: '' @ dp_agent payload in
                (Inl (ToolError reason), a2a_push_entry (AgentDelegationFailed parent target_id dlg reason) s))
           | Some ep \<Rightarrow>
               (case invoke ep \<lparr>req_task = dp_task payload, req_context = dp_context payload, req_max_turns = dp_max_turns payload\<rparr> s of
                  (Inr resp, s) \<Rightarrow>
                    (let resp = resp\<lparr>resp_duration_ms := duration_ms\<rparr>;
                         s = a2a_push_entry (AgentDelegationCompleted parent target_id dlg (resp_success resp) (tool_calls_made resp)
                               duration_ms (resp_summary resp)) s in
                     (case to_json resp of Inr text \<Rightarrow> Inr text | Inl e \<Rightarrow> Inl (ToolError e), s))
                | (Inl err, s) \<Rightarrow> (Inl (ToolError err), a2a_push_entry (AgentDelegationFailed parent target_id dlg err) s))))"

section \<open>What redaction hides\<close>

text \<open>A query is a list of parts, a name alone or with a value. A text is secret if it says one of the six words in any
  letter case.\<close>

definition says_secret :: "string \<Rightarrow> bool" where
  "says_secret s \<longleftrightarrow> (\<exists>w \<in> {''key'', ''token'', ''secret'', ''auth'', ''password'', ''api''}. \<exists>a b. to_ascii_lowercase s = a @ w @ b)"

fun query_part :: "string \<times> string option \<Rightarrow> string" where
  "query_part (k, None) = k"
| "query_part (k, Some v) = k @ ''='' @ v"

fun hidden_part :: "string \<times> string option \<Rightarrow> string \<times> string option" where
  "hidden_part (k, None) = (k, None)"
| "hidden_part (k, Some v) = (k, Some (if says_secret k \<or> says_secret v then ''[REDACTED]'' else v))"

definition free_of :: "string \<Rightarrow> string \<Rightarrow> bool" where
  "free_of chars s \<longleftrightarrow> set chars \<inter> set s = {}"

fun part_ok :: "string \<times> string option \<Rightarrow> bool" where
  "part_ok (k, None) \<longleftrightarrow> free_of ''=&#'' k"
| "part_ok (k, Some v) \<longleftrightarrow> free_of ''=&#'' k \<and> free_of ''&#'' v"

definition query_ok :: "(string \<times> string option) list \<Rightarrow> bool" where
  "query_ok parts \<longleftrightarrow> parts \<noteq> [] \<and> list_all part_ok parts"

lemma is_sensitive_iff: "is_sensitive s \<longleftrightarrow> says_secret s"
  by (simp add: is_sensitive_def says_secret_def contains_str_iff)

lemma redact_pair_exact: "part_ok p \<Longrightarrow> redact_pair (query_part p) = query_part (hidden_part p)"
  by (cases p rule: hidden_part.cases) (auto simp: redact_pair_def is_sensitive_iff free_of_def)

lemma query_part_chars: "part_ok p \<Longrightarrow> CHR ''&'' \<notin> set (query_part p) \<and> CHR ''#'' \<notin> set (query_part p)"
  by (cases p rule: hidden_part.cases) (auto simp: free_of_def)

lemma query_parts_clean: "query_ok parts \<Longrightarrow> list_all (\<lambda>x. CHR ''&'' \<notin> set x) (map query_part parts)"
  using query_part_chars by (auto simp: query_ok_def list_all_iff)

lemma query_text_clean: "query_ok parts \<Longrightarrow> CHR ''#'' \<notin> set (join_str ''&'' (map query_part parts))"
proof -
  assume ok: "query_ok parts"
  have set_join: "set (join_str sep xs) \<subseteq> set sep \<union> (\<Union>x \<in> set xs. set x)" for sep xs
    by (induction sep xs rule: join_str.induct) auto
  have "CHR ''#'' \<notin> set (query_part p)" if "p \<in> set parts" for p
    using ok that query_part_chars by (auto simp: query_ok_def list_all_iff)
  then show ?thesis using set_join [of "''&''" "map query_part parts"] by auto
qed

text \<open>C34: what the audit log holds of an address. Of an address with a query it holds everything up to the query,
  passwords before the host included, and the query, in its order, with the value of every part replaced whose name or
  value says key, token, secret, auth, password or api in any letter case; the fragment is dropped. An address without
  any question mark is held as it is, its fragment and whatever secrets stand in that included; a question mark that
  stands in the fragment only has the fragment dropped and nothing else. So the function does less than its comments
  say, which speak of no secrets in the log and of fragments that would carry them there (\<open>secrets_kept\<close>).\<close>

theorem redact_url_exact:
  assumes base: "CHR ''?'' \<notin> set base" "CHR ''#'' \<notin> set base" and parts: "query_ok parts"
    and frag: "frag = [] \<or> hd frag = CHR ''#''"
  shows "redact_url (base @ ''?'' @ join_str ''&'' (map query_part parts) @ frag)
      = base @ ''?'' @ join_str ''&'' (map (\<lambda>p. query_part (hidden_part p)) parts)
    \<and> redact_url (base @ frag) = (if CHR ''?'' \<in> set frag then base else base @ frag)"
proof
  let ?q = "join_str ''&'' (map query_part parts)"
  have nofrag: "(case split_once CHR ''#'' (base @ ''?'' @ ?q @ frag) of Some (u, _) \<Rightarrow> u | None \<Rightarrow> base @ ''?'' @ ?q @ frag) = base @ ''?'' @ ?q"
  proof (cases frag)
    case Nil
    then show ?thesis using base query_text_clean [OF parts] by simp
  next
    case (Cons c rest)
    with frag have "base @ ''?'' @ ?q @ frag = (base @ ''?'' @ ?q) @ CHR ''#'' # rest" by simp
    moreover have "CHR ''#'' \<notin> set (base @ ''?'' @ ?q)" using base query_text_clean [OF parts] by simp
    ultimately show ?thesis by (simp only: split_once_append) simp
  qed
  have hid: "map redact_pair (split_on CHR ''&'' ?q) = map (\<lambda>p. query_part (hidden_part p)) parts"
    using split_on_join [OF query_parts_clean [OF parts]] parts
    by (auto simp: query_ok_def list_all_iff redact_pair_exact)
  show "redact_url (base @ ''?'' @ ?q @ frag)
      = base @ ''?'' @ join_str ''&'' (map (\<lambda>p. query_part (hidden_part p)) parts)"
    unfolding redact_url_def Let_def nofrag using base(1) hid by simp
  show "redact_url (base @ frag) = (if CHR ''?'' \<in> set frag then base else base @ frag)"
  proof (cases frag)
    case (Cons c rest)
    then show ?thesis using frag base by (simp add: redact_url_def Let_def)
  qed (use base in \<open>simp add: redact_url_def\<close>)
qed

lemma redact_url_exact_witness:
  "redact_url ''https://h/p?q=1&Api_Key=s#t'' = ''https://h/p?q=1&Api_Key=[REDACTED]''"
proof -
  have "query_ok [(''q'', Some ''1''), (''Api_Key'', Some ''s'')]" by (simp add: query_ok_def free_of_def)
  from redact_url_exact [OF _ _ this, of "''https://h/p''" "''#t''"]
  have "redact_url ''https://h/p?q=1&Api_Key=s#t'' =
      ''https://h/p?'' @ join_str ''&'' (map (\<lambda>p. query_part (hidden_part p)) [(''q'', Some ''1''), (''Api_Key'', Some ''s'')])"
    by simp
  moreover have "\<not> says_secret ''q'' \<and> \<not> says_secret ''1'' \<and> says_secret ''Api_Key''"
    unfolding is_sensitive_iff [symmetric] by code_simp
  ultimately show ?thesis by simp
qed

text \<open>What it lets through: a token in the fragment of an address without a query, and a password before the host.\<close>

lemma secrets_kept:
  "redact_url ''https://h/cb#access_token=s'' = ''https://h/cb#access_token=s''"
  "redact_url ''https://u:password@h/p?q=1'' = ''https://u:password@h/p?q=1''"
  by code_simp+

section \<open>Screened calls\<close>

primrec run_calls :: "'s dispatcher \<Rightarrow> (string \<times> string) list \<Rightarrow> 's \<Rightarrow> (dispatch_error + string) list \<times> 's" where
  "run_calls dispatch [] s = ([], s)"
| "run_calls dispatch (c # cs) s =
     (case dispatch (fst c) (snd c) s of (r, s) \<Rightarrow> (case run_calls dispatch cs s of (rs, s) \<Rightarrow> (r # rs, s)))"

text \<open>Why a call is denied, and what is written of it.\<close>

definition denial :: "(string \<Rightarrow> (string \<Rightarrow> string option) option) \<Rightarrow> EgressAwareDispatcher \<Rightarrow> string \<times> string \<Rightarrow> EgressDenialReason option" where
  "denial json d c =
     (if fst c \<in> set (network_tool_ids d) then
        (case extract_url_from_args json (snd c) of
           None \<Rightarrow> None
         | Some url \<Rightarrow> (case check_url (ed_guard d) url of Allow \<Rightarrow> None | Deny reason \<Rightarrow> Some reason))
      else None)"

definition written_entry :: "(string \<Rightarrow> (string \<Rightarrow> string option) option) \<Rightarrow> EgressAwareDispatcher \<Rightarrow> string \<times> string \<Rightarrow> AuditEntry option" where
  "written_entry json d c =
     (if fst c \<notin> set (network_tool_ids d) then None
      else let address = (case extract_url_from_args json (snd c) of None \<Rightarrow> ''(url embedded in tool driver)'' | Some url \<Rightarrow> redact_url url) in
        Some (case denial json d c of None \<Rightarrow> EgressRequested (fst c) address | Some reason \<Rightarrow> EgressBlocked (fst c) address reason))"

lemma egress_dispatch_cases:
  "egress_dispatch json d inner (fst c) (snd c) (buf, s) =
     (let buf = buf @ (case written_entry json d c of None \<Rightarrow> [] | Some e \<Rightarrow> [e]) in
      case denial json d c of
        Some reason \<Rightarrow> (Inl (EgressDenied reason), (buf, s))
      | None \<Rightarrow> (case inner (fst c) (snd c) s of (r, s) \<Rightarrow> (r, (buf, s))))"
  by (auto simp: egress_dispatch_def denial_def written_entry_def Let_def split: option.splits EgressVerdict.splits)

text \<open>C33: over any sequence of tool calls the wrapped dispatcher gets, in order, exactly the calls the egress policy
  does not deny, and its answers are passed on unchanged; a denied call is answered with the reason and has no effect
  beyond its audit entry; and every call of a network tool, and no other, writes one entry, in order, with the address
  redacted.\<close>

theorem egress_dispatch_exact:
  "case run_calls (egress_dispatch json d inner) calls (buf, s) of (rs, buf', s') \<Rightarrow>
     length rs = length calls
     \<and> (map snd (filter (\<lambda>(c, r). denial json d c = None) (zip calls rs)), s')
        = run_calls inner (filter (\<lambda>c. denial json d c = None) calls) s
     \<and> list_all (\<lambda>(c, r). case denial json d c of None \<Rightarrow> True | Some reason \<Rightarrow> r = Inl (EgressDenied reason)) (zip calls rs)
     \<and> buf' = buf @ List.map_filter (written_entry json d) calls"
proof (induction calls arbitrary: buf s)
  case Nil
  then show ?case by (simp add: map_filter_simps)
next
  case (Cons c calls)
  show ?case
  proof (cases "denial json d c")
    case None
    obtain r s1 where i: "inner (fst c) (snd c) s = (r, s1)" by (rule prod.exhaust)
    then show ?thesis using None Cons.IH [where buf = "buf @ (case written_entry json d c of None \<Rightarrow> [] | Some e \<Rightarrow> [e])" and s = s1]
      by (auto simp: egress_dispatch_cases Let_def map_filter_simps split: prod.splits option.splits)
  next
    case (Some reason)
    then show ?thesis using Cons.IH [where buf = "buf @ (case written_entry json d c of None \<Rightarrow> [] | Some e \<Rightarrow> [e])" and s = s]
      by (auto simp: egress_dispatch_cases Let_def map_filter_simps split: prod.splits option.splits)
  qed
qed

text \<open>Only the first of the five fields is screened: a second address in the same arguments is not.\<close>

lemma second_address_unscreened:
  "let json = (\<lambda>args. Some ((\<lambda>_. None)(''url'' := Some ''https://example.com/'', ''navigate_to'' := Some ''https://127.0.0.1/''))) in
   denial json (egress_aware_new guard_default) (''browser'', args) = None
   \<and> verdict_denied (check_url guard_default ''https://127.0.0.1/'')"
proof -
  have "check_url guard_default ''https://example.com/'' = Allow" "verdict_denied (check_url guard_default ''https://127.0.0.1/'')"
    by code_simp+
  then show ?thesis by (simp add: denial_def extract_url_from_args_def egress_aware_new_def Let_def)
qed

section \<open>Racing delegations\<close>

text \<open>A delegation takes its number, announces itself and, after the agent has run, writes how it ended; these steps of
  the threads that share the buffer come in any order, with flushes, and with numbers taken by other dispatchers.
  \<open>issued\<close> counts the numbers.\<close>

datatype phase =
    Waiting DelegatePayload
  | Numbered DelegatePayload u64
  | Announced DelegatePayload u64
  | Settled DelegatePayload u64

record delegations =
  next_number :: u64
  issued :: nat
  pending :: "AuditEntry list"
  logged :: "AuditEntry list"
  calls :: "phase list"

abbreviation announcement :: "string \<Rightarrow> DelegatePayload \<Rightarrow> u64 \<Rightarrow> AuditEntry" where
  "announcement parent p n \<equiv> AgentDelegated parent (dp_agent p) (delegation_id n) (dp_task p)"

fun closes :: "string \<Rightarrow> (string \<Rightarrow> bool) \<Rightarrow> DelegatePayload \<Rightarrow> u64 \<Rightarrow> AuditEntry \<Rightarrow> bool" where
  "closes parent known p n (AgentDelegationCompleted par target i _ _ _ _) \<longleftrightarrow>
     par = parent \<and> target = dp_agent p \<and> i = delegation_id n \<and> known (dp_agent p)"
| "closes parent known p n (AgentDelegationFailed par target i reason) \<longleftrightarrow>
     par = parent \<and> target = dp_agent p \<and> i = delegation_id n \<and> (known (dp_agent p) \<or> reason = ''unknown agent: '' @ dp_agent p)"
| "closes parent known p n _ \<longleftrightarrow> False"

inductive delegation_step :: "string \<Rightarrow> (string \<Rightarrow> bool) \<Rightarrow> delegations \<Rightarrow> delegations \<Rightarrow> bool" for parent known where
  arrive: "delegation_step parent known s (s\<lparr>calls := calls s @ [Waiting p]\<rparr>)"
| number: "i < length (calls s) \<Longrightarrow> calls s ! i = Waiting p \<Longrightarrow>
    delegation_step parent known s (s\<lparr>next_number := next_number s + 1, issued := issued s + 1,
      calls := (calls s)[i := Numbered p (next_number s)]\<rparr>)"
| elsewhere: "delegation_step parent known s (s\<lparr>next_number := next_number s + 1, issued := issued s + 1\<rparr>)"
| announce: "i < length (calls s) \<Longrightarrow> calls s ! i = Numbered p n \<Longrightarrow>
    delegation_step parent known s (s\<lparr>pending := pending s @ [announcement parent p n], calls := (calls s)[i := Announced p n]\<rparr>)"
| settle: "i < length (calls s) \<Longrightarrow> calls s ! i = Announced p n \<Longrightarrow> closes parent known p n e \<Longrightarrow>
    delegation_step parent known s (s\<lparr>pending := pending s @ [e], calls := (calls s)[i := Settled p n]\<rparr>)"
| flush: "delegation_step parent known s (s\<lparr>pending := [], logged := logged s @ pending s\<rparr>)"

definition no_delegations :: delegations where
  "no_delegations = \<lparr>next_number = 1, issued = 0, pending = [], logged = [], calls = []\<rparr>"

fun call_number :: "phase \<Rightarrow> u64 option" where
  "call_number (Waiting _) = None"
| "call_number (Numbered _ n) = Some n"
| "call_number (Announced _ n) = Some n"
| "call_number (Settled _ n) = Some n"

fun entry_id :: "AuditEntry \<Rightarrow> string option" where
  "entry_id (AgentDelegated _ _ i _) = Some i"
| "entry_id (AgentDelegationCompleted _ _ i _ _ _ _) = Some i"
| "entry_id (AgentDelegationFailed _ _ i _) = Some i"
| "entry_id _ = None"

definition trail :: "delegations \<Rightarrow> AuditEntry list" where
  "trail s = logged s @ pending s"

definition entries_of :: "u64 \<Rightarrow> AuditEntry list \<Rightarrow> AuditEntry list" where
  "entries_of n es = filter (\<lambda>e. entry_id e = Some (delegation_id n)) es"

fun paired :: "string \<Rightarrow> (string \<Rightarrow> bool) \<Rightarrow> AuditEntry list \<Rightarrow> phase \<Rightarrow> bool" where
  "paired parent known es (Waiting p) \<longleftrightarrow> True"
| "paired parent known es (Numbered p n) \<longleftrightarrow> entries_of n es = []"
| "paired parent known es (Announced p n) \<longleftrightarrow> entries_of n es = [announcement parent p n]"
| "paired parent known es (Settled p n) \<longleftrightarrow> (\<exists>e. entries_of n es = [announcement parent p n, e] \<and> closes parent known p n e)"

definition delegations_inv :: "string \<Rightarrow> (string \<Rightarrow> bool) \<Rightarrow> delegations \<Rightarrow> bool" where
  "delegations_inv parent known s \<longleftrightarrow>
     (\<forall>c \<in> set (calls s). \<forall>n. call_number c = Some n \<longrightarrow> (\<exists>k<issued s. n = 1 + of_nat k))
     \<and> (\<forall>i<length (calls s). \<forall>j<length (calls s). \<forall>n. call_number (calls s ! i) = Some n \<and> call_number (calls s ! j) = Some n \<longrightarrow> i = j)
     \<and> (\<forall>c \<in> set (calls s). paired parent known (trail s) c)
     \<and> (\<forall>e \<in> set (trail s). \<exists>c \<in> set (calls s). \<exists>n. call_number c = Some n \<and> entry_id e = Some (delegation_id n))"

lemma delegation_id_inj: "delegation_id n = delegation_id m \<longleftrightarrow> n = m"
proof -
  have "parse_u64 (decimal (unat n)) = Some (unat n)" for n :: u64 using unat_lt_pow [of n] by simp
  then have "decimal (unat n) = decimal (unat m) \<Longrightarrow> unat n = unat m" by (metis option.inject)
  then show ?thesis by (auto simp: delegation_id_def word_unat_eq_iff)
qed

lemma entries_of_append: "entries_of n (es @ [e]) = entries_of n es @ (if entry_id e = Some (delegation_id n) then [e] else [])"
  by (simp add: entries_of_def)

text \<open>Writing an entry of call \<open>i\<close> leaves the entries of the other calls.\<close>

lemma paired_other:
  assumes "entry_id e = Some (delegation_id n)" "call_number c \<noteq> Some n" "paired parent known es c"
  shows "paired parent known (es @ [e]) c"
  using assms by (cases c) (auto simp: entries_of_append delegation_id_inj)

lemma closes_id: "closes parent known p n e \<Longrightarrow> entry_id e = Some (delegation_id n)"
  by (cases e) auto

lemma inv_write:
  assumes inv: "delegations_inv parent known s" and i: "i < length (calls s)" "call_number (calls s ! i) = Some n"
    and e: "entry_id e = Some (delegation_id n)" and c: "call_number c = Some n" "paired parent known (trail s @ [e]) c"
  shows "delegations_inv parent known (s\<lparr>pending := pending s @ [e], calls := (calls s)[i := c]\<rparr>)"
proof -
  let ?cs = "(calls s)[i := c]"
  have num: "call_number (?cs ! j) = call_number (calls s ! j)" if "j < length (calls s)" for j
    using i c(1) that by (cases "j = i") simp_all
  have other: "paired parent known (trail s @ [e]) (?cs ! j)" if j: "j < length (calls s)" for j
  proof (cases "j = i")
    case True
    with i c show ?thesis by simp
  next
    case False
    with inv i j have "call_number (calls s ! j) \<noteq> Some n" by (auto simp: delegations_inv_def)
    with inv j have "paired parent known (trail s @ [e]) (calls s ! j)"
      by (intro paired_other [OF e]) (auto simp: delegations_inv_def)
    with False show ?thesis by simp
  qed
  have tr: "trail (s\<lparr>pending := pending s @ [e], calls := ?cs\<rparr>) = trail s @ [e]" by (simp add: trail_def)
  have nums: "(\<exists>x \<in> set ?cs. call_number x = Some m) \<longleftrightarrow> (\<exists>x \<in> set (calls s). call_number x = Some m)" for m
    using num by (metis (no_types, lifting) in_set_conv_nth length_list_update)
  show ?thesis unfolding delegations_inv_def tr
  proof (intro conjI)
    show "\<forall>x \<in> set (calls (s\<lparr>pending := pending s @ [e], calls := ?cs\<rparr>)). \<forall>m. call_number x = Some m \<longrightarrow>
        (\<exists>k<issued (s\<lparr>pending := pending s @ [e], calls := ?cs\<rparr>). m = 1 + of_nat k)"
      using inv nums by (auto simp: delegations_inv_def)
    show "\<forall>j<length (calls (s\<lparr>pending := pending s @ [e], calls := ?cs\<rparr>)). \<forall>k<length (calls (s\<lparr>pending := pending s @ [e], calls := ?cs\<rparr>)).
        \<forall>m. call_number (calls (s\<lparr>pending := pending s @ [e], calls := ?cs\<rparr>) ! j) = Some m
          \<and> call_number (calls (s\<lparr>pending := pending s @ [e], calls := ?cs\<rparr>) ! k) = Some m \<longrightarrow> j = k"
      using inv num by (simp add: delegations_inv_def)
    show "\<forall>x \<in> set (calls (s\<lparr>pending := pending s @ [e], calls := ?cs\<rparr>)). paired parent known (trail s @ [e]) x"
      using other by (auto simp: in_set_conv_nth)
    have "\<exists>x \<in> set (calls s). call_number x = Some n" using i by (metis nth_mem)
    then show "\<forall>x \<in> set (trail s @ [e]). \<exists>y \<in> set (calls (s\<lparr>pending := pending s @ [e], calls := ?cs\<rparr>)). \<exists>m.
        call_number y = Some m \<and> entry_id x = Some (delegation_id m)"
      using inv e nums by (fastforce simp: delegations_inv_def)
  qed
qed

lemma inv_paired: "delegations_inv parent known s \<Longrightarrow> i < length (calls s) \<Longrightarrow> paired parent known (trail s) (calls s ! i)"
  unfolding delegations_inv_def using nth_mem by blast

lemma inv_unique:
  "delegations_inv parent known s \<Longrightarrow> i < length (calls s) \<Longrightarrow> j < length (calls s) \<Longrightarrow>
     call_number (calls s ! i) = Some n \<Longrightarrow> call_number (calls s ! j) = Some n \<Longrightarrow> i = j"
  unfolding delegations_inv_def by blast

lemma inv_more_issued:
  "delegations_inv parent known s \<Longrightarrow> trail t = trail s \<Longrightarrow> calls t = calls s \<Longrightarrow> issued s \<le> issued t \<Longrightarrow> delegations_inv parent known t"
  unfolding delegations_inv_def by (simp only:) (meson order.strict_trans2)

lemma number_step:
  assumes inv: "delegations_inv parent known s" and i: "i < length (calls s)" "calls s ! i = Waiting p"
    and n: "next_number s = 1 + of_nat (issued s)" "issued s < 2 ^ 64"
  shows "delegations_inv parent known (s\<lparr>next_number := next_number s + 1, issued := issued s + 1,
      calls := (calls s)[i := Numbered p (next_number s)]\<rparr>)" (is "delegations_inv _ _ ?t")
proof -
  let ?n = "next_number s"
  have fresh: "call_number c \<noteq> Some ?n" if "c \<in> set (calls s)" for c
  proof
    assume "call_number c = Some ?n"
    with inv that obtain k where k: "k < issued s" "?n = 1 + of_nat k" unfolding delegations_inv_def by blast
    then have "(of_nat k :: u64) = of_nat (issued s)" using n(1) by simp
    then have "unat (of_nat k :: u64) = unat (of_nat (issued s) :: u64)" by simp
    then show False using k(1) n(2) by (simp add: unat_of_nat)
  qed
  have num: "call_number (calls ?t ! j) = (if j = i then Some ?n else call_number (calls s ! j))" if "j < length (calls s)" for j
    using that i by simp
  have cases: "c = Numbered p ?n \<or> c \<in> set (calls s)" if "c \<in> set (calls ?t)" for c
    using that set_update_subset_insert [of "calls s" i "Numbered p ?n"] by auto
  have tr: "trail ?t = trail s" by (simp add: trail_def)
  have silent: "entry_id e \<noteq> Some (delegation_id ?n)" if "e \<in> set (trail s)" for e
    using inv that fresh by (fastforce simp: delegations_inv_def delegation_id_inj)
  show ?thesis unfolding delegations_inv_def tr
  proof (intro conjI)
    show "\<forall>c \<in> set (calls ?t). \<forall>m. call_number c = Some m \<longrightarrow> (\<exists>k<issued ?t. m = 1 + of_nat k)"
    proof (intro ballI allI impI)
      fix c m assume c: "c \<in> set (calls ?t)" "call_number c = Some m"
      from cases [OF c(1)] show "\<exists>k<issued ?t. m = 1 + of_nat k"
      proof
        assume "c = Numbered p ?n"
        with c n(1) show ?thesis by (auto intro!: exI [of _ "issued s"])
      next
        assume "c \<in> set (calls s)"
        with inv c obtain k where "k < issued s" "m = 1 + of_nat k" unfolding delegations_inv_def by blast
        then show ?thesis by (auto intro!: exI [of _ k])
      qed
    qed
    show "\<forall>j<length (calls ?t). \<forall>k<length (calls ?t). \<forall>m. call_number (calls ?t ! j) = Some m \<and> call_number (calls ?t ! k) = Some m \<longrightarrow> j = k"
    proof (intro allI impI)
      fix j k m assume jk: "j < length (calls ?t)" "k < length (calls ?t)"
        "call_number (calls ?t ! j) = Some m \<and> call_number (calls ?t ! k) = Some m"
      then have len: "j < length (calls s)" "k < length (calls s)" by simp_all
      show "j = k"
        using jk(3) num len fresh [OF nth_mem, OF len(1)] fresh [OF nth_mem, OF len(2)] inv_unique [OF inv len, of m]
        by (cases "j = i"; cases "k = i") auto
    qed
    show "\<forall>c \<in> set (calls ?t). paired parent known (trail s) c"
      using inv cases silent by (fastforce simp: delegations_inv_def entries_of_def filter_empty_conv)
    show "\<forall>e \<in> set (trail s). \<exists>c \<in> set (calls ?t). \<exists>m. call_number c = Some m \<and> entry_id e = Some (delegation_id m)"
    proof
      fix e assume "e \<in> set (trail s)"
      with inv obtain c m where "c \<in> set (calls s)" "call_number c = Some m" "entry_id e = Some (delegation_id m)"
        unfolding delegations_inv_def by blast
      then obtain j where j: "j < length (calls s)" "call_number (calls s ! j) = Some m" "entry_id e = Some (delegation_id m)"
        by (auto simp: in_set_conv_nth)
      then have "j \<noteq> i" using i by auto
      with j have "calls s ! j \<in> set (calls ?t)" by (auto simp: in_set_conv_nth intro!: exI [of _ j])
      with j show "\<exists>c \<in> set (calls ?t). \<exists>m. call_number c = Some m \<and> entry_id e = Some (delegation_id m)" by blast
    qed
  qed
qed

lemma nth_append_waiting: "i < length cs + 1 \<Longrightarrow> (cs @ [Waiting p]) ! i = (if i < length cs then cs ! i else Waiting p)"
  by (simp add: nth_append)

lemma delegation_step_inv:
  assumes "delegation_step parent known s t" "next_number s = 1 + of_nat (issued s)"
    "issued t \<le> 2 ^ 64" "delegations_inv parent known s"
  shows "delegations_inv parent known t"
  using assms
proof cases
  case (arrive p)
  have "trail t = trail s" by (simp add: arrive trail_def)
  then show ?thesis using assms(4) by (auto simp: arrive delegations_inv_def nth_append_waiting split: if_splits)
next
  case (number i p)
  then show ?thesis using assms by (intro number_step [of parent known s i p, folded number(1)]) simp_all
next
  case elsewhere
  then show ?thesis by (intro inv_more_issued [OF assms(4)]) (simp_all add: trail_def)
next
  case (announce i p n)
  have "entries_of n (trail s) = []" using inv_paired [OF assms(4) announce(2)] announce(3) by simp
  then show ?thesis unfolding announce(1)
    by (intro inv_write [where n = n]) (use assms(4) announce in \<open>simp_all add: entries_of_append\<close>)
next
  case (settle i p n e)
  have "entries_of n (trail s) = [announcement parent p n]" using inv_paired [OF assms(4) settle(2)] settle(3) by simp
  then show ?thesis unfolding settle(1) using closes_id [OF settle(4)]
    by (intro inv_write [where n = n]) (use assms(4) settle in \<open>simp_all add: entries_of_append\<close>)
next
  case flush
  have "trail t = trail s" by (simp add: flush trail_def)
  then show ?thesis using assms(4) by (simp add: flush delegations_inv_def)
qed

lemma delegations_reachable:
  assumes "(delegation_step parent known)\<^sup>*\<^sup>* no_delegations s"
  shows "next_number s = 1 + of_nat (issued s) \<and> (issued s \<le> 2 ^ 64 \<longrightarrow> delegations_inv parent known s)"
  using assms
proof (induction rule: rtranclp_induct)
  case base
  show ?case by (simp add: no_delegations_def delegations_inv_def trail_def)
next
  case (step s t)
  have "next_number t = 1 + of_nat (issued t)" "issued s \<le> issued t" using step(2,3) by (cases; simp)+
  then show ?case using step delegation_step_inv [OF step(2)] by (metis order.trans)
qed

text \<open>C2: the audit trail tells every delegation in full. However the steps of racing delegations, flushes and the
  numbers taken by other dispatchers interleave, up to \<open>2 ^ 64\<close> numbers no two delegations share an identifier; and the
  entries under a delegation's identifier, in the log and the buffer together, are none before it is announced, its
  announcement while the agent runs, and in the end the announcement followed by one completion or one failure with the
  same parent and target, a completion only of an agent of the pool and a failure of an unknown agent with that reason.
  No other delegation entry exists.\<close>

theorem delegations_paired:
  assumes "(delegation_step parent known)\<^sup>*\<^sup>* no_delegations s" and "issued s \<le> 2 ^ 64"
  shows "distinct (map delegation_id (List.map_filter call_number (calls s)))
    \<and> list_all (paired parent known (logged s @ pending s)) (calls s)
    \<and> list_all (\<lambda>e. entry_id e \<in> (\<lambda>n. Some (delegation_id n)) ` set (List.map_filter call_number (calls s))) (logged s @ pending s)"
proof -
  have inv: "delegations_inv parent known s" using delegations_reachable [OF assms(1)] assms(2) by blast
  have dist: "distinct (List.map_filter call_number cs)"
    if "\<forall>i<length cs. \<forall>j<length cs. \<forall>n. call_number (cs ! i) = Some n \<and> call_number (cs ! j) = Some n \<longrightarrow> i = j" for cs
    using that
  proof (induction cs)
    case (Cons c cs)
    have apart: "call_number c \<noteq> Some n" if x: "x \<in> set cs" "call_number x = Some n" for x n
    proof
      assume "call_number c = Some n"
      moreover obtain j where "j < length cs" "cs ! j = x" using x(1) by (auto simp: in_set_conv_nth)
      ultimately show False using Cons.prems [rule_format, of 0 "Suc j" n] x(2) by simp
    qed
    have "i = j" if "i < length cs" "j < length cs" "call_number (cs ! i) = Some n" "call_number (cs ! j) = Some n" for i j n
      using Cons.prems [rule_format, of "Suc i" "Suc j" n] that by simp
    then have "distinct (List.map_filter call_number cs)" by (intro Cons.IH) blast
    then show ?case using apart by (force simp: map_filter_simps List.map_filter_def split: option.split)
  qed (simp add: map_filter_simps)
  have "distinct (List.map_filter call_number (calls s))" using inv by (intro dist) (simp add: delegations_inv_def)
  then have "distinct (map delegation_id (List.map_filter call_number (calls s)))"
    by (auto simp: distinct_map inj_on_def delegation_id_inj)
  moreover have "n \<in> set (List.map_filter call_number (calls s))" if "c \<in> set (calls s)" "call_number c = Some n" for c n
    using that by (force simp: List.map_filter_def)
  ultimately show ?thesis using inv unfolding delegations_inv_def trail_def list_all_iff by blast
qed

lemma delegations_paired_witness:
  "\<exists>s :: delegations. distinct (map delegation_id (List.map_filter call_number (calls s)))
    \<and> map call_number (calls s) = [Some 1, Some 2] \<and> length (pending s) = 3"
proof -
  let ?p = "\<lparr>dp_agent = ''helper'', dp_task = ''t'', dp_context = [], dp_max_turns = 4\<rparr>"
  let ?step = "delegation_step ''root'' (\<lambda>a. a = ''helper'')"
  let ?e = "AgentDelegationCompleted ''root'' ''helper'' (delegation_id 1) True 1 5 ''done''"
  let ?a = "announcement ''root'' ?p"
  let ?st = "\<lambda>n es cs. \<lparr>next_number = 1 + of_nat n, issued = n, pending = es, logged = [], calls = cs\<rparr>"
  have "?step no_delegations (?st 0 [] [Waiting ?p])"
    using arrive [of _ _ no_delegations ?p] by (simp add: no_delegations_def)
  moreover have "?step (?st 0 [] [Waiting ?p]) (?st 0 [] [Waiting ?p, Waiting ?p])" using arrive [of _ _ "?st 0 [] [Waiting ?p]" ?p] by simp
  moreover have "?step (?st 0 [] [Waiting ?p, Waiting ?p]) (?st 1 [] [Numbered ?p 1, Waiting ?p])"
    using number [of 0 "?st 0 [] [Waiting ?p, Waiting ?p]" ?p] by simp
  moreover have "?step (?st 1 [] [Numbered ?p 1, Waiting ?p]) (?st 2 [] [Numbered ?p 1, Numbered ?p 2])"
    using number [of 1 "?st 1 [] [Numbered ?p 1, Waiting ?p]" ?p] by (simp add: numeral_2_eq_2)
  moreover have "?step (?st 2 [] [Numbered ?p 1, Numbered ?p 2]) (?st 2 [?a 1] [Announced ?p 1, Numbered ?p 2])"
    using announce [of 0 "?st 2 [] [Numbered ?p 1, Numbered ?p 2]" ?p 1] by simp
  moreover have "?step (?st 2 [?a 1] [Announced ?p 1, Numbered ?p 2]) (?st 2 [?a 1, ?a 2] [Announced ?p 1, Announced ?p 2])"
    using announce [of 1 "?st 2 [?a 1] [Announced ?p 1, Numbered ?p 2]" ?p 2] by simp
  moreover have "?step (?st 2 [?a 1, ?a 2] [Announced ?p 1, Announced ?p 2]) (?st 2 [?a 1, ?a 2, ?e] [Settled ?p 1, Announced ?p 2])"
    using settle [of 0 "?st 2 [?a 1, ?a 2] [Announced ?p 1, Announced ?p 2]" ?p 1 "''root''" "\<lambda>a. a = ''helper''" ?e] by simp
  ultimately have "?step\<^sup>*\<^sup>* no_delegations (?st 2 [?a 1, ?a 2, ?e] [Settled ?p 1, Announced ?p 2])"
    by (meson converse_rtranclp_into_rtranclp rtranclp.rtrancl_refl)
  from delegations_paired [OF this]
  have "distinct (map delegation_id (List.map_filter call_number (calls (?st 2 [?a 1, ?a 2, ?e] [Settled ?p 1, Announced ?p 2]))))"
    by simp
  then show ?thesis
    by - (rule exI [of _ "?st 2 [?a 1, ?a 2, ?e] [Settled ?p 1, Announced ?p 2]"], rule conjI, assumption, simp)
qed

text \<open>One dispatcher run alone takes these steps. Agents may delegate in turn, with calls of their own.\<close>

definition delegation_view :: "nat \<Rightarrow> AuditEntry list \<Rightarrow> phase list \<Rightarrow> 's a2a_state \<Rightarrow> delegations" where
  "delegation_view n l cs s = \<lparr>next_number = delegation_counter s, issued = n, pending = a2a_buffer s, logged = l, calls = cs\<rparr>"

definition in_pool :: "'s AgentPool \<Rightarrow> string \<Rightarrow> bool" where
  "in_pool pool i \<longleftrightarrow> pool_get pool i \<noteq> None"

definition agents_delegate :: "string \<Rightarrow> 's a2a_state AgentPool \<Rightarrow> bool" where
  "agents_delegate parent pool \<longleftrightarrow> (\<forall>i ep req s n l cs. pool_get pool i = Some ep \<longrightarrow>
     (\<exists>n' more. (delegation_step parent (in_pool pool))\<^sup>*\<^sup>* (delegation_view n l cs s)
        (delegation_view n' l (cs @ more) (snd (invoke ep req s)))))"

text \<open>A dispatch is a run of the steps of a delegation. Whatever the other calls are, and with agents that may
  delegate in turn, a call to delegate with a readable payload takes the next number, announces itself, lets the agent
  run and settles under that number; every other call leaves the counter and the buffer alone.\<close>

theorem a2a_dispatch_refines:
  assumes agents: "agents_delegate parent pool"
    and run: "a2a_dispatch of_json to_json duration_ms pool parent inner tool_name args s = (r, s')"
  shows "\<exists>n' more. (delegation_step parent (in_pool pool))\<^sup>*\<^sup>* (delegation_view n l cs s) (delegation_view n' l (cs @ more) s')
    \<and> (if tool_name = ''delegate'' \<and> \<not> isl (of_json args)
       then \<exists>rest. more = Settled (delegate_payload (projr (of_json args))) (delegation_counter s) # rest
       else more = [] \<and> n' = n)"
proof (cases "tool_name = ''delegate'' \<and> \<not> isl (of_json args)")
  case False
  then have "delegation_view n l cs s' = delegation_view n l cs s"
    using run by (auto simp: a2a_dispatch_def delegation_view_def split: prod.splits sum.splits if_splits)
  then show ?thesis using False by (intro exI [of _ n] exI [of _ "[]"]) auto
next
  case True
  then obtain raw where raw: "of_json args = Inr raw" "tool_name = ''delegate''" by (cases "of_json args") auto
  define p where "p = delegate_payload raw"
  let ?step = "delegation_step parent (in_pool pool)" and ?k = "delegation_counter s" and ?i = "length cs"
  define s1 where "s1 = a2a_push_entry (announcement parent p ?k) (snd (next_delegation_id s))"
  note shapes = delegation_view_def s1_def a2a_push_entry_def next_delegation_id_def
  have start: "?step\<^sup>*\<^sup>* (delegation_view n l cs s) (delegation_view (n + 1) l (cs @ [Announced p ?k]) s1)"
  proof -
    have "?step (delegation_view n l cs s) (delegation_view n l (cs @ [Waiting p]) s)"
      using arrive [of parent "in_pool pool" "delegation_view n l cs s" p] by (simp add: shapes)
    moreover have "?step (delegation_view n l (cs @ [Waiting p]) s)
        (delegation_view (n + 1) l (cs @ [Numbered p ?k]) (snd (next_delegation_id s)))"
      using number [of ?i "delegation_view n l (cs @ [Waiting p]) s" p] by (simp add: shapes)
    moreover have "?step (delegation_view (n + 1) l (cs @ [Numbered p ?k]) (snd (next_delegation_id s)))
        (delegation_view (n + 1) l (cs @ [Announced p ?k]) s1)"
      using announce [of ?i "delegation_view (n + 1) l (cs @ [Numbered p ?k]) (snd (next_delegation_id s))" p ?k] by (simp add: shapes)
    ultimately show ?thesis by (meson converse_rtranclp_into_rtranclp rtranclp.rtrancl_refl)
  qed
  have finish: "?step (delegation_view m l (cs @ Announced p ?k # more) t)
      (delegation_view m l (cs @ Settled p ?k # more) (a2a_push_entry e t))" if "closes parent (in_pool pool) p ?k e" for m more t e
    using settle [of ?i "delegation_view m l (cs @ Announced p ?k # more) t" p ?k, OF _ _ that] by (simp add: shapes)
  obtain m more t e where t: "?step\<^sup>*\<^sup>* (delegation_view (n + 1) l (cs @ [Announced p ?k]) s1) (delegation_view m l (cs @ Announced p ?k # more) t)"
    and e: "closes parent (in_pool pool) p ?k e" "s' = a2a_push_entry e t"
  proof (cases "pool_get pool (dp_agent p)")
    case None
    show ?thesis
    proof (rule that [of "n + 1" "[]" s1 "AgentDelegationFailed parent (dp_agent p) (delegation_id ?k) (''unknown agent: '' @ dp_agent p)"])
      show "s' = a2a_push_entry (AgentDelegationFailed parent (dp_agent p) (delegation_id ?k) (''unknown agent: '' @ dp_agent p)) s1"
        using run None raw by (simp add: a2a_dispatch_def Let_def p_def s1_def next_delegation_id_def)
    qed simp_all
  next
    case (Some ep)
    let ?req = "\<lparr>req_task = dp_task p, req_context = dp_context p, req_max_turns = dp_max_turns p\<rparr>"
    obtain res t where i: "invoke ep ?req s1 = (res, t)" by (rule prod.exhaust)
    from agents Some obtain m more where
      m: "?step\<^sup>*\<^sup>* (delegation_view (n + 1) l (cs @ [Announced p ?k]) s1) (delegation_view m l ((cs @ [Announced p ?k]) @ more) t)"
      unfolding agents_delegate_def by (metis i snd_conv)
    let ?e = "case res of Inl err \<Rightarrow> AgentDelegationFailed parent (dp_agent p) (delegation_id ?k) err
      | Inr resp \<Rightarrow> AgentDelegationCompleted parent (dp_agent p) (delegation_id ?k) (resp_success resp) (tool_calls_made resp)
          duration_ms (resp_summary resp)"
    have "s' = a2a_push_entry ?e t"
      using run raw Some i by (cases res) (auto simp: a2a_dispatch_def Let_def p_def s1_def next_delegation_id_def)
    moreover have "closes parent (in_pool pool) p ?k ?e" using Some by (cases res) (simp_all add: in_pool_def)
    moreover note m
    ultimately show ?thesis by (auto intro: that)
  qed
  have "?step\<^sup>*\<^sup>* (delegation_view n l cs s) (delegation_view m l (cs @ Settled p ?k # more) s')"
    using rtranclp_trans [OF start t] finish [OF e(1), of m more t] e(2) by (auto intro: rtranclp.rtrancl_into_rtrancl)
  then show ?thesis using True raw by (intro exI [of _ m] exI [of _ "Settled p ?k # more"]) (simp add: p_def)
qed

lemma mock_agents_delegate: "agents_delegate parent (map (\<lambda>k. (mock_id k, mock_endpoint k)) ks)"
proof -
  have "\<exists>k. ep = mock_endpoint k" if "pool_get (map (\<lambda>k. (mock_id k, mock_endpoint k)) ks) i = Some ep" for i and ep :: "'a a2a_state AgentEndpoint"
    using that by (auto simp: pool_get_def dest!: map_of_SomeD)
  then have "\<exists>n' more. (delegation_step parent kn)\<^sup>*\<^sup>* (delegation_view n l cs s) (delegation_view n' l (cs @ more) (snd (invoke ep req s)))"
    if "pool_get (map (\<lambda>k. (mock_id k, mock_endpoint k)) ks) i = Some ep" for i req s n l cs kn and ep :: "'a a2a_state AgentEndpoint"
    using that by (fastforce intro: exI [of _ n] exI [of _ "[]"] simp: mock_endpoint_def)
  then show ?thesis unfolding agents_delegate_def by blast
qed

lemma a2a_dispatch_refines_witness:
  "\<exists>n' rest. (delegation_step ''root'' (in_pool (pool_register [] (mock_endpoint (mock_new ''helper'' ''done'') :: unit a2a_state AgentEndpoint))))\<^sup>*\<^sup>*
      (delegation_view 0 [] [] \<lparr>delegation_counter = 1, a2a_buffer = [], a2a_inner = ()\<rparr>)
      (delegation_view n' [] (Settled \<lparr>dp_agent = ''helper'', dp_task = ''t'', dp_context = [], dp_max_turns = 4\<rparr> 1 # rest)
         \<lparr>delegation_counter = 2,
          a2a_buffer = [AgentDelegated ''root'' ''helper'' (delegation_id 1) ''t'',
             AgentDelegationCompleted ''root'' ''helper'' (delegation_id 1) True 1 7 ''done (task: t)''], a2a_inner = ()\<rparr>)"
proof -
  let ?pool = "pool_register [] (mock_endpoint (mock_new ''helper'' ''done'') :: unit a2a_state AgentEndpoint)"
  let ?raw = "\<lparr>raw_agent = ''helper'', raw_task = ''t'', raw_context = None, raw_max_turns = None\<rparr>"
  have pool: "?pool = map (\<lambda>k. (mock_id k, mock_endpoint k)) [mock_new ''helper'' ''done'']"
    by (simp add: pool_register_def mock_endpoint_def mock_new_def)
  let ?run = "a2a_dispatch (\<lambda>_. Inr ?raw) (\<lambda>r. Inr (resp_summary r)) 7 ?pool ''root'' (\<lambda>_ _ s. (Inr [], s)) ''delegate'' ''{}''
      \<lparr>delegation_counter = 1, a2a_buffer = [], a2a_inner = ()\<rparr>"
  have "?run = (Inr ''done (task: t)'', \<lparr>delegation_counter = 2,
          a2a_buffer = [AgentDelegated ''root'' ''helper'' (delegation_id 1) ''t'',
             AgentDelegationCompleted ''root'' ''helper'' (delegation_id 1) True 1 7 ''done (task: t)''], a2a_inner = ()\<rparr>)"
    by (simp add: a2a_dispatch_def Let_def next_delegation_id_def a2a_push_entry_def delegate_payload_def pool_register_def
        pool_get_def mock_endpoint_def mock_invoke_def mock_new_def)
  moreover have "agents_delegate ''root'' ?pool" unfolding pool by (rule mock_agents_delegate)
  ultimately have run: "agents_delegate ''root'' ?pool" "?run = (Inr ''done (task: t)'', \<lparr>delegation_counter = 2,
          a2a_buffer = [AgentDelegated ''root'' ''helper'' (delegation_id 1) ''t'',
             AgentDelegationCompleted ''root'' ''helper'' (delegation_id 1) True 1 7 ''done (task: t)''], a2a_inner = ()\<rparr>)"
    by blast+
  from a2a_dispatch_refines [OF run, of 0 "[]" "[]"]
  show ?thesis by (auto simp: delegate_payload_def default_max_turns_def)
qed

text \<open>A second registration of a name replaces the first.\<close>

lemma pool_register_get: "pool_get (pool_register pool ep) i = (if i = endpoint_id ep then Some ep else pool_get pool i)"
  by (simp add: pool_get_def pool_register_def store_simps)

end
