(* ===== verification/Adapter_Library.thy ===== *)
theory Adapter_Library
  imports Approval_Queue Constitution Egress_Guard "HOL-Library.Char_ord" "HOL-Library.List_Lexorder" "HOL-Library.Product_Lexorder"
begin

unbundle bit_operations_syntax

text \<open>
  Self-trained adapters (\<^verbatim>\<open>crates/finetune/src\<close>: \<^verbatim>\<open>hash.rs\<close>, \<^verbatim>\<open>method.rs\<close>, \<^verbatim>\<open>dataset.rs\<close>, \<^verbatim>\<open>artifact.rs\<close>, \<^verbatim>\<open>tuner.rs\<close>,
  \<^verbatim>\<open>adoption.rs\<close>, \<^verbatim>\<open>library.rs\<close>), their way into the operator's queue (\<^verbatim>\<open>crates/lifecycle/src/adapter_bridge.rs\<close>) and the
  decisions the console passes on to the library (\<^verbatim>\<open>crates/console/src/server.rs\<close>). A floating-point number is its bit
  pattern, and the comparisons of scores are arguments of the adoption decision; the texts of errors and reasons are
  constructors.
\<close>

section \<open>The fixture hash\<close>

definition FNV_OFFSET_BASIS :: u64 where "FNV_OFFSET_BASIS = 0xcbf29ce484222325"
definition FNV_PRIME :: u64 where "FNV_PRIME = 0x00000100000001b3"

definition fnv_write :: "u64 \<Rightarrow> u8 list \<Rightarrow> u64" where
  "fnv_write h bs = foldl (\<lambda>h b. (h XOR ucast b) * FNV_PRIME) h bs"

definition le_bytes64 :: "u64 \<Rightarrow> u8 list" where
  "le_bytes64 v = map (\<lambda>k. ucast (drop_bit (8 * k) v)) [0..<8]"

definition write_field :: "u64 \<Rightarrow> u8 list \<Rightarrow> u64" where
  "write_field h bs = fnv_write (fnv_write h (le_bytes64 (of_nat (length bs)))) bs"

definition write_str :: "u64 \<Rightarrow> string \<Rightarrow> u64" where
  "write_str h s = write_field h (as_bytes s)"

definition write_u64 :: "u64 \<Rightarrow> u64 \<Rightarrow> u64" where
  "write_u64 h v = fnv_write h (le_bytes64 v)"

definition hash_bytes :: "u8 list \<Rightarrow> u64" where
  "hash_bytes bs = fnv_write FNV_OFFSET_BASIS bs"

definition hex64 :: "u64 \<Rightarrow> string" where
  "hex64 v = hex16 v"

section \<open>Methods\<close>

datatype HraKind = HyperAdapt | Ohora | Hira | Boha | Hrp

primrec is_hadamard :: "HraKind \<Rightarrow> bool" where
  "is_hadamard HyperAdapt = False"
| "is_hadamard Ohora = False"
| "is_hadamard Hira = True"
| "is_hadamard Boha = True"
| "is_hadamard Hrp = False"

primrec hra_str :: "HraKind \<Rightarrow> string" where
  "hra_str HyperAdapt = ''hyperadapt''"
| "hra_str Ohora = ''ohora''"
| "hra_str Hira = ''hira''"
| "hra_str Boha = ''boha''"
| "hra_str Hrp = ''hrp''"

datatype AdaptationMethod = Lora u32 u32 | QLora u32 u32 u8 | Hra HraKind u32 | FullFineTune

datatype MergePath = Clean | Hadamard

datatype ServingTier = MountableAdapter | BakedVariant

definition method_default :: AdaptationMethod where
  "method_default = QLora 16 32 4"

primrec method_label :: "AdaptationMethod \<Rightarrow> string" where
  "method_label (Lora _ _) = ''lora''"
| "method_label (QLora _ _ _) = ''qlora''"
| "method_label (Hra family _) = ''hra:'' @ hra_str family"
| "method_label FullFineTune = ''full''"

primrec method_rank :: "AdaptationMethod \<Rightarrow> u32 option" where
  "method_rank (Lora rank _) = Some rank"
| "method_rank (QLora rank _ _) = Some rank"
| "method_rank (Hra _ rank) = Some rank"
| "method_rank FullFineTune = None"

primrec merge_path_of :: "AdaptationMethod \<Rightarrow> MergePath" where
  "merge_path_of (Lora _ _) = Clean"
| "merge_path_of (QLora _ _ _) = Clean"
| "merge_path_of (Hra family _) = (if is_hadamard family then Hadamard else Clean)"
| "merge_path_of FullFineTune = Clean"

primrec serving_tier_of :: "AdaptationMethod \<Rightarrow> ServingTier" where
  "serving_tier_of (Lora _ _) = MountableAdapter"
| "serving_tier_of (QLora _ _ _) = MountableAdapter"
| "serving_tier_of (Hra family _) = (case family of
     Hrp \<Rightarrow> MountableAdapter | HyperAdapt \<Rightarrow> MountableAdapter | Ohora \<Rightarrow> BakedVariant | Hira \<Rightarrow> BakedVariant | Boha \<Rightarrow> BakedVariant)"
| "serving_tier_of FullFineTune = BakedVariant"

primrec hash_method :: "AdaptationMethod \<Rightarrow> u64 \<Rightarrow> u64" where
  "hash_method (Lora rank alpha) h = write_u64 (write_u64 (write_str h (method_label (Lora rank alpha))) (ucast rank)) (ucast alpha)"
| "hash_method (QLora rank alpha base_bits) h =
     write_u64 (write_u64 (write_u64 (write_str h (method_label (QLora rank alpha base_bits))) (ucast rank)) (ucast alpha)) (ucast base_bits)"
| "hash_method (Hra family rank) h = write_u64 (write_str (write_str h (method_label (Hra family rank))) (hra_str family)) (ucast rank)"
| "hash_method FullFineTune h = write_str h (method_label FullFineTune)"

section \<open>Artifacts\<close>

datatype AdapterFormat = LoraAdapter | StructuralTransform | BakedGguf

primrec format_for_method :: "AdaptationMethod \<Rightarrow> AdapterFormat" where
  "format_for_method (Lora _ _) = LoraAdapter"
| "format_for_method (QLora _ _ _) = LoraAdapter"
| "format_for_method (Hra family _) = (case family of
     Hrp \<Rightarrow> LoraAdapter | HyperAdapt \<Rightarrow> StructuralTransform | Ohora \<Rightarrow> BakedGguf | Hira \<Rightarrow> BakedGguf | Boha \<Rightarrow> BakedGguf)"
| "format_for_method FullFineTune = BakedGguf"

record Provenance =
  base_model :: string
  pv_method :: AdaptationMethod
  source_job :: string
  pv_created_at_ns :: u64

record AdapterArtifact =
  adapter_id :: string
  art_description :: string
  art_format :: AdapterFormat
  art_merge_path :: MergePath
  serving_tier :: ServingTier
  weights_digest :: string
  adapter_path :: "string option"
  merged_gguf_path :: "string option"
  art_provenance :: Provenance

definition is_mountable :: "AdapterArtifact \<Rightarrow> bool" where
  "is_mountable a \<longleftrightarrow> serving_tier a = MountableAdapter"

section \<open>The fixture trainer\<close>

record TrainingPair =
  tp_prompt :: string
  tp_response :: string

definition hash_pair :: "TrainingPair \<Rightarrow> u64 \<Rightarrow> u64" where
  "hash_pair p h = write_str (write_str h (tp_prompt p)) (tp_response p)"

definition set_fingerprint :: "TrainingPair list \<Rightarrow> u64" where
  "set_fingerprint pairs = fold hash_pair pairs (write_u64 FNV_OFFSET_BASIS (of_nat (length pairs)))"

record HyperParams =
  max_steps :: u32
  learning_rate_bits :: u32
  batch_size :: u32

definition hash_hyper :: "HyperParams \<Rightarrow> u64 \<Rightarrow> u64" where
  "hash_hyper p h = write_u64 (write_u64 (write_u64 h (ucast (max_steps p))) (ucast (learning_rate_bits p))) (ucast (batch_size p))"

record FineTuneConfig =
  ft_base_model :: string
  ft_method :: AdaptationMethod
  dataset_ref :: string
  output_adapter_id :: string
  ft_description :: string
  hyperparams :: HyperParams

datatype FineTuneError =
    BackendUnavailable string string
  | EmptyDataset
  | InvalidConfig string
  | UnsupportedMethod string
  | ExternalBackend string string

text \<open>The default learning rate, 0.0002, as an \<^verbatim>\<open>f32\<close>.\<close>

definition hyper_default :: HyperParams where
  "hyper_default = \<lparr>max_steps = 60, learning_rate_bits = 0x3951B717, batch_size = 2\<rparr>"

definition config_new :: "string \<Rightarrow> string \<Rightarrow> string \<Rightarrow> FineTuneConfig" where
  "config_new base dataset i = \<lparr>ft_base_model = base, ft_method = method_default, dataset_ref = dataset, output_adapter_id = i,
     ft_description = [], hyperparams = hyper_default\<rparr>"

definition config_validate :: "FineTuneConfig \<Rightarrow> FineTuneError + unit" where
  "config_validate c =
     (if method_rank (ft_method c) = Some 0 then Inl (InvalidConfig ''adapter rank must be > 0'')
      else if max_steps (hyperparams c) = 0 then Inl (InvalidConfig ''max_steps must be > 0'')
      else Inr ())"

definition hash_config :: "FineTuneConfig \<Rightarrow> u64 \<Rightarrow> u64" where
  "hash_config c h =
     hash_hyper (hyperparams c)
       (write_str (write_str (write_str (hash_method (ft_method c) (write_str h (ft_base_model c)))
          (dataset_ref c)) (output_adapter_id c)) (ft_description c))"

definition fixture_fingerprint :: "FineTuneConfig \<Rightarrow> TrainingPair list \<Rightarrow> u64" where
  "fixture_fingerprint c pairs =
     fold hash_pair pairs (write_u64 (hash_config c (write_str FNV_OFFSET_BASIS ''anima-finetune.fixture.v1'')) (of_nat (length pairs)))"

definition fixture_fine_tune :: "u64 \<Rightarrow> FineTuneConfig \<Rightarrow> TrainingPair list \<Rightarrow> FineTuneError + AdapterArtifact" where
  "fixture_fine_tune stamp c pairs =
     (case config_validate c of
        Inl e \<Rightarrow> Inl e
      | Inr _ \<Rightarrow>
          if pairs = [] then Inl EmptyDataset
          else (let fp = fixture_fingerprint c pairs in
            Inr \<lparr>adapter_id = output_adapter_id c @ ''-'' @ hex64 fp, art_description = ft_description c,
              art_format = format_for_method (ft_method c), art_merge_path = merge_path_of (ft_method c),
              serving_tier = serving_tier_of (ft_method c), weights_digest = hex64 (fp XOR 0x5bd1e9955bd1e995),
              adapter_path = None, merged_gguf_path = None,
              art_provenance = \<lparr>base_model = ft_base_model c, pv_method = ft_method c,
                source_job = output_adapter_id c, pv_created_at_ns = stamp\<rparr>\<rparr>))"

definition fixture_run_job :: "u64 \<Rightarrow> string \<Rightarrow> FineTuneConfig \<Rightarrow> TrainingPair list \<Rightarrow> FineTuneError + AdapterArtifact" where
  "fixture_run_job stamp job_id c pairs =
     (case fixture_fine_tune stamp c pairs of
        Inl e \<Rightarrow> Inl e
      | Inr a \<Rightarrow> Inr (a\<lparr>art_provenance := (art_provenance a)\<lparr>source_job := job_id\<rparr>\<rparr>))"

section \<open>Adoption\<close>

datatype AlignmentOutcome = AlignmentApproved | AlignmentVetoed "string list"

datatype adoption_reason = MissingProbes | NotBeaten | LowFidelity | Vetoed | VetoedBy string

record CaseCounts =
  cc_task_success :: nat
  cc_ood_generalisation :: nat
  cc_retention :: nat

record AdoptionDecision =
  ad_adapter_id :: string
  ad_weights_digest :: string
  ad_approved :: bool
  eval_passed :: bool
  alignment_passed :: bool
  ad_reasons :: "adoption_reason list"

text \<open>\<open>beats\<close> and \<open>fidelity_ok\<close> are the outcomes of the comparisons of scores.\<close>

definition decide_adoption :: "string \<Rightarrow> CaseCounts \<Rightarrow> bool \<Rightarrow> bool \<Rightarrow> AlignmentOutcome \<Rightarrow> string \<Rightarrow> AdoptionDecision" where
  "decide_adoption candidate_id cc beats fidelity_ok alignment digest =
     (let have_evidence = 0 < cc_task_success cc \<and> 0 < cc_ood_generalisation cc \<and> 0 < cc_retention cc;
          reasons = (if have_evidence then [] else [MissingProbes]) @ (if beats then [] else [NotBeaten])
            @ (if fidelity_ok then [] else [LowFidelity]);
          eval_ok = have_evidence \<and> beats \<and> fidelity_ok;
          aligned = (alignment = AlignmentApproved);
          reasons = reasons @ (case alignment of
              AlignmentApproved \<Rightarrow> []
            | AlignmentVetoed clauses \<Rightarrow> if clauses = [] then [Vetoed] else map VetoedBy clauses) in
      \<lparr>ad_adapter_id = candidate_id, ad_weights_digest = digest, ad_approved = eval_ok \<and> aligned, eval_passed = eval_ok,
       alignment_passed = aligned, ad_reasons = reasons\<rparr>)"

section \<open>The library\<close>

datatype MountId = MountId (mt_tier: string) (mt_model: string)

record MountPoint =
  mp_mount_id :: MountId
  mp_adapter_id :: string

datatype EvictionPolicy = OldestFirst | RejectWhenFull

datatype MountError =
    UnknownAdapter string
  | NotMountable string
  | CapacityExceeded nat
  | NotMounted MountId
  | NotAdopted string
  | NotOperatorApproved string

record AdapterLibrary =
  lib_capacity :: nat
  lib_policy :: EvictionPolicy
  lib_adapters :: "(string \<times> AdapterArtifact) list"
  lib_mounts :: "(MountId \<times> string) list"
  adopted :: "(string \<times> string) list"
  operator_approved :: "(string \<times> string) list"

definition library_with_policy :: "nat \<Rightarrow> EvictionPolicy \<Rightarrow> AdapterLibrary" where
  "library_with_policy capacity policy = \<lparr>lib_capacity = max capacity 1, lib_policy = policy, lib_adapters = [], lib_mounts = [],
     adopted = [], operator_approved = []\<rparr>"

definition library_new :: "nat \<Rightarrow> AdapterLibrary" where
  "library_new capacity = library_with_policy capacity OldestFirst"

definition library_len :: "AdapterLibrary \<Rightarrow> nat" where
  "library_len l = length (lib_adapters l)"

definition unmount_all :: "string \<Rightarrow> AdapterLibrary \<Rightarrow> AdapterLibrary" where
  "unmount_all i l = l\<lparr>lib_mounts := filter (\<lambda>(_, mounted). mounted \<noteq> i) (lib_mounts l)\<rparr>"

text \<open>The least of a list by a key; the key of an artifact is its creation time, then its identifier.\<close>

fun min_by_key :: "('a \<Rightarrow> 'k :: linorder) \<Rightarrow> 'a list \<Rightarrow> 'a option" where
  "min_by_key key [] = None"
| "min_by_key key (x # xs) =
     (case min_by_key key xs of None \<Rightarrow> Some x | Some y \<Rightarrow> if key x \<le> key y then Some x else Some y)"

definition older :: "AdapterArtifact \<Rightarrow> u64 \<times> string" where
  "older a = (pv_created_at_ns (art_provenance a), adapter_id a)"

definition evict_one :: "AdapterLibrary \<Rightarrow> (MountError + unit) \<times> AdapterLibrary" where
  "evict_one l =
     (if lib_policy l = RejectWhenFull then (Inl (CapacityExceeded (lib_capacity l)), l)
      else case min_by_key older (filter (\<lambda>a. adapter_id a \<notin> set (map snd (lib_mounts l))) (map snd (lib_adapters l))) of
          Some victim \<Rightarrow> (Inr (), l\<lparr>lib_adapters := hm_remove (adapter_id victim) (lib_adapters l),
            adopted := hm_remove (adapter_id victim) (adopted l),
            operator_approved := hm_remove (adapter_id victim) (operator_approved l)\<rparr>)
        | None \<Rightarrow> (Inl (CapacityExceeded (lib_capacity l)), l))"

definition library_register :: "AdapterLibrary \<Rightarrow> AdapterArtifact \<Rightarrow> (MountError + unit) \<times> AdapterLibrary" where
  "library_register l a =
     (let l = unmount_all (adapter_id a) (l\<lparr>adopted := hm_remove (adapter_id a) (adopted l),
                operator_approved := hm_remove (adapter_id a) (operator_approved l)\<rparr>);
          add = (\<lambda>l. l\<lparr>lib_adapters := hm_insert (adapter_id a) a (lib_adapters l)\<rparr>) in
      if hm_contains (lib_adapters l) (adapter_id a) then (Inr (), add l)
      else if lib_capacity l \<le> length (lib_adapters l) then
        (case evict_one l of (Inl e, l) \<Rightarrow> (Inl e, l) | (Inr _, l) \<Rightarrow> (Inr (), add l))
      else (Inr (), add l))"

definition library_get :: "AdapterLibrary \<Rightarrow> string \<Rightarrow> AdapterArtifact option" where
  "library_get l i = hm_get (lib_adapters l) i"

definition library_list :: "AdapterLibrary \<Rightarrow> AdapterArtifact list" where
  "library_list l = sort_key adapter_id (map snd (lib_adapters l))"

definition list_mountable :: "AdapterLibrary \<Rightarrow> AdapterArtifact list" where
  "list_mountable l = sort_key adapter_id (filter is_mountable (map snd (lib_adapters l)))"

definition library_mount :: "AdapterLibrary \<Rightarrow> MountId \<Rightarrow> string \<Rightarrow> (MountError + unit) \<times> AdapterLibrary" where
  "library_mount l m i =
     (case hm_get (lib_adapters l) i of
        None \<Rightarrow> (Inl (UnknownAdapter i), l)
      | Some a \<Rightarrow> if \<not> is_mountable a then (Inl (NotMountable i), l)
                  else (Inr (), l\<lparr>lib_mounts := hm_insert m i (lib_mounts l)\<rparr>))"

definition current_digest :: "AdapterLibrary \<Rightarrow> string \<Rightarrow> string option" where
  "current_digest l i = map_option weights_digest (hm_get (lib_adapters l) i)"

definition record_adoption :: "AdapterLibrary \<Rightarrow> AdoptionDecision \<Rightarrow> AdapterLibrary" where
  "record_adoption l d =
     (if current_digest l (ad_adapter_id d) \<noteq> Some (ad_weights_digest d) then l
      else if ad_approved d then l\<lparr>adopted := hm_insert (ad_adapter_id d) (ad_weights_digest d) (adopted l)\<rparr>
      else unmount_all (ad_adapter_id d) (l\<lparr>adopted := hm_remove (ad_adapter_id d) (adopted l),
             operator_approved := hm_remove (ad_adapter_id d) (operator_approved l)\<rparr>))"

definition record_operator_approval :: "AdapterLibrary \<Rightarrow> string \<Rightarrow> string \<Rightarrow> AdapterLibrary" where
  "record_operator_approval l i digest =
     (if current_digest l i \<noteq> Some digest then l
      else l\<lparr>operator_approved := hm_insert i digest (operator_approved l)\<rparr>)"

definition revoke_operator_approval :: "AdapterLibrary \<Rightarrow> string \<Rightarrow> string \<Rightarrow> AdapterLibrary" where
  "revoke_operator_approval l i digest =
     (if hm_get (operator_approved l) i \<noteq> Some digest then l
      else unmount_all i (l\<lparr>operator_approved := hm_remove i (operator_approved l)\<rparr>))"

definition is_adopted :: "AdapterLibrary \<Rightarrow> string \<Rightarrow> bool" where
  "is_adopted l i \<longleftrightarrow> (case (hm_get (adopted l) i, hm_get (lib_adapters l) i) of
     (Some digest, Some a) \<Rightarrow> digest = weights_digest a | _ \<Rightarrow> False)"

definition is_operator_approved :: "AdapterLibrary \<Rightarrow> string \<Rightarrow> bool" where
  "is_operator_approved l i \<longleftrightarrow> (case (hm_get (operator_approved l) i, hm_get (lib_adapters l) i) of
     (Some digest, Some a) \<Rightarrow> digest = weights_digest a | _ \<Rightarrow> False)"

definition mount_gated :: "AdapterLibrary \<Rightarrow> MountId \<Rightarrow> string \<Rightarrow> (MountError + unit) \<times> AdapterLibrary" where
  "mount_gated l m i =
     (if \<not> hm_contains (lib_adapters l) i then (Inl (UnknownAdapter i), l)
      else if \<not> is_adopted l i then (Inl (NotAdopted i), l)
      else if \<not> is_operator_approved l i then (Inl (NotOperatorApproved i), l)
      else library_mount l m i)"

definition library_unmount :: "AdapterLibrary \<Rightarrow> MountId \<Rightarrow> (MountError + string) \<times> AdapterLibrary" where
  "library_unmount l m =
     (case hm_get (lib_mounts l) m of
        None \<Rightarrow> (Inl (NotMounted m), l)
      | Some i \<Rightarrow> (Inr i, l\<lparr>lib_mounts := hm_remove m (lib_mounts l)\<rparr>))"

definition mounted_at :: "AdapterLibrary \<Rightarrow> MountId \<Rightarrow> string option" where
  "mounted_at l m = hm_get (lib_mounts l) m"

definition mounts_sorted :: "AdapterLibrary \<Rightarrow> MountPoint list" where
  "mounts_sorted l = sort_key (\<lambda>p. (mt_tier (mp_mount_id p), mt_model (mp_mount_id p)))
     (map (\<lambda>(m, i). \<lparr>mp_mount_id = m, mp_adapter_id = i\<rparr>) (lib_mounts l))"

section \<open>The way through the operator's queue\<close>

definition adapter_adoption_to_proposal :: "AdapterArtifact \<Rightarrow> AdoptionDecision \<Rightarrow> string \<Rightarrow> u64 \<Rightarrow> Proposal option" where
  "adapter_adoption_to_proposal a d training_summary now_ns =
     (if \<not> ad_approved d \<or> adapter_id a \<noteq> ad_adapter_id d \<or> weights_digest a \<noteq> ad_weights_digest d \<or> \<not> is_mountable a
      then None
      else Some \<lparr>prop_id = adapter_id a @ ''@'' @ weights_digest a,
        prop_kind = WeightUpdate (base_model (art_provenance a)) (weights_digest a) (method_rank (pv_method (art_provenance a))) training_summary,
        prop_created_at_ns = now_ns,
        prop_provenance = ''self-trained adapter `'' @ adapter_id a @ ''` ('' @ method_label (pv_method (art_provenance a))
          @ ''); cleared finetune adoption gate (eval + alignment), job `'' @ source_job (art_provenance a) @ ''`'',
        sandbox_result = None, defence_verdict = None, prop_status = Pending\<rparr>)"

text \<open>The console decides on the queue under one lock and notes what concerns the library, which it updates afterwards
  under the library's own lock.\<close>

type_synonym weight_op = "bool \<times> string \<times> string"

definition weight_op_of :: "Proposal \<Rightarrow> (string \<times> string) option" where
  "weight_op_of p =
     (case prop_kind p of
        WeightUpdate _ adapter_hash _ _ \<Rightarrow>
          Some ((case rsplit_once CHR ''@'' (prop_id p) of Some (i, _) \<Rightarrow> i | None \<Rightarrow> prop_id p), adapter_hash)
      | _ \<Rightarrow> None)"

definition console_decide :: "ApprovalQueue \<Rightarrow> bool \<Rightarrow> string \<Rightarrow> string \<Rightarrow> u64 \<Rightarrow> (ApprovalError + unit) \<times> weight_op option \<times> ApprovalQueue" where
  "console_decide q ok i why ts =
     (let op = Option.bind (queue_get q i) weight_op_of;
          (r, q) = (if ok then approve q i why ts else reject q i why ts) in
      (r, (case r of Inl _ \<Rightarrow> None | Inr _ \<Rightarrow> map_option (Pair ok) op), q))"

definition apply_weight_op :: "AdapterLibrary \<Rightarrow> weight_op \<Rightarrow> AdapterLibrary" where
  "apply_weight_op l op =
     (case op of (ok, i, digest) \<Rightarrow> if ok then record_operator_approval l i digest else revoke_operator_approval l i digest)"

section \<open>What is served has been cleared\<close>

datatype library_op =
    Register AdapterArtifact
  | Adoption AdoptionDecision
  | OperatorApproves string string
  | OperatorRevokes string string
  | Mount MountId string
  | MountUngated MountId string
  | Unmount MountId

fun library_step :: "AdapterLibrary \<Rightarrow> library_op \<Rightarrow> AdapterLibrary" where
  "library_step l (Register a) = snd (library_register l a)"
| "library_step l (Adoption d) = record_adoption l d"
| "library_step l (OperatorApproves i digest) = record_operator_approval l i digest"
| "library_step l (OperatorRevokes i digest) = revoke_operator_approval l i digest"
| "library_step l (Mount m i) = snd (mount_gated l m i)"
| "library_step l (MountUngated m i) = snd (library_mount l m i)"
| "library_step l (Unmount m) = snd (library_unmount l m)"

text \<open>A clearance stands after a history if a call gave it and no later one ended it. The evaluation's clearance of
  weights is ended by a new registration of the identifier and by a rejecting decision on the same weights; the
  operator's, besides, by a revocation for the same weights.\<close>

fun gives_adoption :: "string \<Rightarrow> string \<Rightarrow> library_op \<Rightarrow> bool" where
  "gives_adoption i d (Adoption dec) \<longleftrightarrow> ad_adapter_id dec = i \<and> ad_weights_digest dec = d \<and> ad_approved dec"
| "gives_adoption i d _ \<longleftrightarrow> False"

fun ends_adoption :: "string \<Rightarrow> string \<Rightarrow> library_op \<Rightarrow> bool" where
  "ends_adoption i d (Register a) \<longleftrightarrow> adapter_id a = i"
| "ends_adoption i d (Adoption dec) \<longleftrightarrow> ad_adapter_id dec = i \<and> ad_weights_digest dec = d \<and> \<not> ad_approved dec"
| "ends_adoption i d _ \<longleftrightarrow> False"

fun gives_approval :: "string \<Rightarrow> string \<Rightarrow> library_op \<Rightarrow> bool" where
  "gives_approval i d (OperatorApproves j e) \<longleftrightarrow> j = i \<and> e = d"
| "gives_approval i d _ \<longleftrightarrow> False"

fun ends_approval :: "string \<Rightarrow> string \<Rightarrow> library_op \<Rightarrow> bool" where
  "ends_approval i d (OperatorRevokes j e) \<longleftrightarrow> j = i \<and> e = d"
| "ends_approval i d x \<longleftrightarrow> ends_adoption i d x"

text \<open>A mount past the gates is one of the call that asks for no clearance, until the mount point is cleared or the
  identifier registered anew.\<close>

fun ends_ungated :: "MountId \<Rightarrow> string \<Rightarrow> library_op \<Rightarrow> bool" where
  "ends_ungated m i (Register a) \<longleftrightarrow> adapter_id a = i"
| "ends_ungated m i (Unmount k) \<longleftrightarrow> k = m"
| "ends_ungated m i _ \<longleftrightarrow> False"

definition stands :: "(library_op \<Rightarrow> bool) \<Rightarrow> (library_op \<Rightarrow> bool) \<Rightarrow> library_op list \<Rightarrow> bool" where
  "stands gives ends xs \<longleftrightarrow> foldl (\<lambda>b x. gives x \<or> b \<and> \<not> ends x) False xs"

abbreviation adoption_stands :: "string \<Rightarrow> string \<Rightarrow> library_op list \<Rightarrow> bool" where
  "adoption_stands i d \<equiv> stands (gives_adoption i d) (ends_adoption i d)"

abbreviation approval_stands :: "string \<Rightarrow> string \<Rightarrow> library_op list \<Rightarrow> bool" where
  "approval_stands i d \<equiv> stands (gives_approval i d) (ends_approval i d)"

abbreviation ungated_stands :: "MountId \<Rightarrow> string \<Rightarrow> library_op list \<Rightarrow> bool" where
  "ungated_stands m i \<equiv> stands (\<lambda>x. x = MountUngated m i) (ends_ungated m i)"

lemma stands_snoc: "stands gives ends (xs @ [x]) \<longleftrightarrow> gives x \<or> stands gives ends xs \<and> \<not> ends x"
  by (simp add: stands_def)

lemma hm_wf_retain: "hm_wf m \<Longrightarrow> hm_wf (filter p m)"
  by (simp add: hm_wf_def distinct_map_filter)

lemma hm_get_retain:
  "hm_wf m \<Longrightarrow> hm_get (filter (\<lambda>(_, v). p v) m) k = (case hm_get m k of None \<Rightarrow> None | Some v \<Rightarrow> if p v then Some v else None)"
  by (induction m) (auto simp: hm_wf_def map_of_eq_None_iff split: option.split)

lemma hm_values: "hm_wf m \<Longrightarrow> v \<in> set (map snd m) \<longleftrightarrow> (\<exists>k. hm_get m k = Some v)"
  by (force simp: hm_wf_def dest: map_of_SomeD intro: map_of_is_SomeI)

definition keyed :: "(string \<times> AdapterArtifact) list \<Rightarrow> bool" where
  "keyed m \<longleftrightarrow> (\<forall>i a. hm_get m i = Some a \<longrightarrow> adapter_id a = i)"

lemma keyedD: "keyed m \<Longrightarrow> hm_get m i = Some a \<Longrightarrow> adapter_id a = i"
  by (simp add: keyed_def)

lemma keyed_remove: "keyed m \<Longrightarrow> keyed (hm_remove i m)"
  by (auto simp only: keyed_def hm_get_remove split: if_splits)

lemma keyed_insert: "keyed m \<Longrightarrow> keyed (hm_insert (adapter_id a) a m)"
  by (auto simp only: keyed_def hm_get_insert split: if_splits)

definition library_wf :: "AdapterLibrary \<Rightarrow> bool" where
  "library_wf l \<longleftrightarrow> hm_wf (lib_adapters l) \<and> hm_wf (lib_mounts l) \<and> keyed (lib_adapters l)
     \<and> length (lib_adapters l) \<le> lib_capacity l \<and> 1 \<le> lib_capacity l"

definition library_cleared :: "library_op list \<Rightarrow> AdapterLibrary \<Rightarrow> bool" where
  "library_cleared xs l \<longleftrightarrow>
     (\<forall>i d. hm_get (adopted l) i = Some d \<longrightarrow> current_digest l i = Some d \<and> adoption_stands i d xs)
     \<and> (\<forall>i d. hm_get (operator_approved l) i = Some d \<longrightarrow> current_digest l i = Some d \<and> approval_stands i d xs)
     \<and> (\<forall>m i. hm_get (lib_mounts l) m = Some i \<longrightarrow> (\<exists>a. hm_get (lib_adapters l) i = Some a \<and> is_mountable a)
          \<and> (ungated_stands m i xs \<or> hm_get (adopted l) i \<noteq> None \<and> hm_get (operator_approved l) i \<noteq> None))"

lemma min_by_key_least:
  "min_by_key key xs = Some x \<Longrightarrow> x \<in> set xs \<and> (\<forall>y \<in> set xs. key x \<le> key y)"
  "min_by_key key xs = None \<longleftrightarrow> xs = []"
  by (induction xs arbitrary: x) (auto split: option.splits if_splits)

lemma evict_one_Some:
  assumes wf: "library_wf l" and e: "evict_one l = (Inr u, l')"
  obtains v where "hm_get (lib_adapters l) (adapter_id v) = Some v" "\<forall>m. hm_get (lib_mounts l) m \<noteq> Some (adapter_id v)"
    "\<forall>a \<in> set (map snd (lib_adapters l)). (\<forall>m. hm_get (lib_mounts l) m \<noteq> Some (adapter_id a)) \<longrightarrow> older v \<le> older a"
    "l' = l\<lparr>lib_adapters := hm_remove (adapter_id v) (lib_adapters l), adopted := hm_remove (adapter_id v) (adopted l),
       operator_approved := hm_remove (adapter_id v) (operator_approved l)\<rparr>"
proof -
  from wf have w: "hm_wf (lib_adapters l)" "hm_wf (lib_mounts l)" by (simp_all add: library_wf_def)
  obtain v where v: "min_by_key older (filter (\<lambda>a. adapter_id a \<notin> set (map snd (lib_mounts l))) (map snd (lib_adapters l))) = Some v"
    and l': "l' = l\<lparr>lib_adapters := hm_remove (adapter_id v) (lib_adapters l), adopted := hm_remove (adapter_id v) (adopted l),
       operator_approved := hm_remove (adapter_id v) (operator_approved l)\<rparr>"
    using e by (auto simp: evict_one_def split: if_splits option.splits)
  have least: "v \<in> set (filter (\<lambda>a. adapter_id a \<notin> set (map snd (lib_mounts l))) (map snd (lib_adapters l)))
      \<and> (\<forall>a \<in> set (filter (\<lambda>a. adapter_id a \<notin> set (map snd (lib_mounts l))) (map snd (lib_adapters l))). older v \<le> older a)"
    using v by (rule min_by_key_least(1))
  then have "v \<in> set (map snd (lib_adapters l))" and free: "adapter_id v \<notin> set (map snd (lib_mounts l))" by auto
  then obtain i where "hm_get (lib_adapters l) i = Some v" using hm_values [OF w(1), of v] by blast
  then have g: "hm_get (lib_adapters l) (adapter_id v) = Some v" using wf keyedD by (fastforce simp: library_wf_def)
  show thesis
  proof (rule that [OF g _ _ l'])
    show "\<forall>m. hm_get (lib_mounts l) m \<noteq> Some (adapter_id v)" using free hm_values [OF w(2)] by blast
    show "\<forall>a \<in> set (map snd (lib_adapters l)). (\<forall>m. hm_get (lib_mounts l) m \<noteq> Some (adapter_id a)) \<longrightarrow> older v \<le> older a"
      using least hm_values [OF w(2)] by auto
  qed
qed

text \<open>A library without the clearances and mounts of an identifier.\<close>

definition without :: "string \<Rightarrow> AdapterLibrary \<Rightarrow> AdapterLibrary" where
  "without i l = unmount_all i (l\<lparr>adopted := hm_remove i (adopted l), operator_approved := hm_remove i (operator_approved l)\<rparr>)"

lemma without_simps [simp]:
  "lib_capacity (without i l) = lib_capacity l" "lib_policy (without i l) = lib_policy l" "lib_adapters (without i l) = lib_adapters l"
  "hm_get (adopted (without i l)) j = (if j = i then None else hm_get (adopted l) j)"
  "hm_get (operator_approved (without i l)) j = (if j = i then None else hm_get (operator_approved l) j)"
  "current_digest (without i l) j = current_digest l j"
  by (simp_all add: without_def unmount_all_def store_simps current_digest_def)

lemma without_mounts:
  assumes "library_wf l"
  shows "hm_get (lib_mounts (without i l)) m = (if hm_get (lib_mounts l) m = Some i then None else hm_get (lib_mounts l) m)"
  using assms by (auto simp: without_def unmount_all_def library_wf_def hm_get_retain split: option.split)

lemma without_wf: "library_wf l \<Longrightarrow> library_wf (without i l)"
  by (simp add: library_wf_def) (simp add: without_def unmount_all_def hm_wf_retain)

lemma without_cleared:
  assumes "library_wf l" "library_cleared xs l"
    and "\<And>j d m. j \<noteq> i \<Longrightarrow> \<not> ends_approval j d x \<and> \<not> ends_adoption j d x \<and> \<not> ends_ungated m j x"
  shows "library_cleared (xs @ [x]) (without i l)"
  using assms by (auto simp: library_cleared_def without_mounts stands_snoc split: if_splits)

lemma register_unfold:
  "library_register l a =
     (let l = without (adapter_id a) l; add = (\<lambda>l. l\<lparr>lib_adapters := hm_insert (adapter_id a) a (lib_adapters l)\<rparr>) in
      if hm_contains (lib_adapters l) (adapter_id a) then (Inr (), add l)
      else if lib_capacity l \<le> length (lib_adapters l) then (case evict_one l of (Inl e, l) \<Rightarrow> (Inl e, l) | (Inr _, l) \<Rightarrow> (Inr (), add l))
      else (Inr (), add l))"
  by (simp add: library_register_def without_def)

lemma clearedI:
  assumes "\<And>i d. hm_get (adopted l) i = Some d \<Longrightarrow> current_digest l i = Some d \<and> adoption_stands i d xs"
    and "\<And>i d. hm_get (operator_approved l) i = Some d \<Longrightarrow> current_digest l i = Some d \<and> approval_stands i d xs"
    and "\<And>m i. hm_get (lib_mounts l) m = Some i \<Longrightarrow> (\<exists>a. hm_get (lib_adapters l) i = Some a \<and> is_mountable a)
          \<and> (ungated_stands m i xs \<or> hm_get (adopted l) i \<noteq> None \<and> hm_get (operator_approved l) i \<noteq> None)"
  shows "library_cleared xs l"
  using assms unfolding library_cleared_def by blast

lemma clearedD:
  assumes "library_cleared xs l"
  shows "hm_get (adopted l) i = Some d \<Longrightarrow> current_digest l i = Some d" "hm_get (adopted l) i = Some d \<Longrightarrow> adoption_stands i d xs"
    "hm_get (operator_approved l) i = Some d \<Longrightarrow> current_digest l i = Some d" "hm_get (operator_approved l) i = Some d \<Longrightarrow> approval_stands i d xs"
    "hm_get (lib_mounts l) m = Some i \<Longrightarrow> \<exists>a. hm_get (lib_adapters l) i = Some a \<and> is_mountable a"
    "hm_get (lib_mounts l) m = Some i \<Longrightarrow> ungated_stands m i xs \<or> hm_get (adopted l) i \<noteq> None \<and> hm_get (operator_approved l) i \<noteq> None"
  using assms unfolding library_cleared_def by blast+

lemma evict_one_wf:
  assumes wf: "library_wf l" and e: "evict_one l = (Inr u, l')"
  shows "library_wf l' \<and> length (lib_adapters l') < lib_capacity l'"
  using wf e
proof (rule evict_one_Some)
  fix v
  assume v: "hm_get (lib_adapters l) (adapter_id v) = Some v"
    and l': "l' = l\<lparr>lib_adapters := hm_remove (adapter_id v) (lib_adapters l), adopted := hm_remove (adapter_id v) (adopted l),
       operator_approved := hm_remove (adapter_id v) (operator_approved l)\<rparr>"
  from wf have w: "hm_wf (lib_adapters l)" by (simp add: library_wf_def)
  have "Suc (length (hm_remove (adapter_id v) (lib_adapters l))) = length (lib_adapters l)"
    by (rule hm_length_remove [OF w]) (simp add: hm_contains_def v)
  then have "length (hm_remove (adapter_id v) (lib_adapters l)) < length (lib_adapters l)" by linarith
  then show "library_wf l' \<and> length (lib_adapters l') < lib_capacity l'"
    using wf hm_wf_remove [OF w] unfolding l' library_wf_def by (simp add: keyed_remove)
qed

lemma evict_one_Inl: "evict_one l = (Inl e, l') \<Longrightarrow> l' = l"
  by (auto simp: evict_one_def split: if_splits option.splits)

lemma evict_one_cleared:
  assumes wf: "library_wf l" and c: "library_cleared xs l" and e: "evict_one l = (Inr u, l')"
  shows "library_cleared xs l'"
  using wf e
proof (rule evict_one_Some)
  fix v
  assume free: "\<forall>m. hm_get (lib_mounts l) m \<noteq> Some (adapter_id v)"
    and l': "l' = l\<lparr>lib_adapters := hm_remove (adapter_id v) (lib_adapters l), adopted := hm_remove (adapter_id v) (adopted l),
       operator_approved := hm_remove (adapter_id v) (operator_approved l)\<rparr>"
  have other: "i \<noteq> adapter_id v" if "hm_get (lib_mounts l) m = Some i" for m i using free that by blast
  show ?thesis
  proof (rule clearedI)
    fix i d assume "hm_get (adopted l') i = Some d"
    then have "i \<noteq> adapter_id v" "hm_get (adopted l) i = Some d" by (simp_all add: l' hm_get_remove split: if_splits)
    with clearedD(1,2) [OF c this(2)] show "current_digest l' i = Some d \<and> adoption_stands i d xs"
      by (simp add: l' current_digest_def hm_get_remove)
  next
    fix i d assume "hm_get (operator_approved l') i = Some d"
    then have "i \<noteq> adapter_id v" "hm_get (operator_approved l) i = Some d" by (simp_all add: l' hm_get_remove split: if_splits)
    with clearedD(3,4) [OF c this(2)] show "current_digest l' i = Some d \<and> approval_stands i d xs"
      by (simp add: l' current_digest_def hm_get_remove)
  next
    fix m i assume "hm_get (lib_mounts l') m = Some i"
    then have "hm_get (lib_mounts l) m = Some i" by (simp add: l')
    with clearedD(5,6) [OF c this] other [OF this] show "(\<exists>a. hm_get (lib_adapters l') i = Some a \<and> is_mountable a)
        \<and> (ungated_stands m i xs \<or> hm_get (adopted l') i \<noteq> None \<and> hm_get (operator_approved l') i \<noteq> None)"
      by (simp add: l' hm_get_remove)
  qed
qed

text \<open>Adding an artifact whose identifier has neither clearances nor mounts.\<close>

lemma add_cleared:
  assumes "library_cleared xs l" "hm_get (adopted l) (adapter_id a) = None" "hm_get (operator_approved l) (adapter_id a) = None"
    and free: "\<forall>m. hm_get (lib_mounts l) m \<noteq> Some (adapter_id a)"
  shows "library_cleared xs (l\<lparr>lib_adapters := hm_insert (adapter_id a) a (lib_adapters l)\<rparr>)"
proof (rule clearedI, goal_cases)
  case (3 m i)
  then have "hm_get (lib_mounts l) m = Some i" by simp
  note m = clearedD(5,6) [OF assms(1) this]
  from 3 free have "i \<noteq> adapter_id a" by auto
  with m show ?case by (simp add: store_simps)
qed (use clearedD [OF assms(1)] assms(2,3) in \<open>auto simp: current_digest_def store_simps split: if_splits\<close>)

lemma add_wf:
  assumes "library_wf l" "hm_contains (lib_adapters l) (adapter_id a) \<or> length (lib_adapters l) < lib_capacity l"
  shows "library_wf (l\<lparr>lib_adapters := hm_insert (adapter_id a) a (lib_adapters l)\<rparr>)"
proof -
  have "length (hm_insert (adapter_id a) a (lib_adapters l)) \<le> lib_capacity l"
    using assms hm_length_insert_old [of "lib_adapters l"] hm_length_insert_new [of "lib_adapters l"]
    by (cases "hm_contains (lib_adapters l) (adapter_id a)") (simp_all add: library_wf_def)
  moreover from assms(1) have "hm_wf (hm_insert (adapter_id a) a (lib_adapters l))" by (intro hm_wf_insert) (simp add: library_wf_def)
  ultimately show ?thesis using assms(1) unfolding library_wf_def by (simp add: keyed_insert)
qed

lemma register_good:
  assumes wf: "library_wf l" and c: "library_cleared xs l"
  shows "library_wf (snd (library_register l a)) \<and> library_cleared (xs @ [Register a]) (snd (library_register l a))"
proof -
  let ?l = "without (adapter_id a) l"
  have w: "library_wf ?l" and cl: "library_cleared (xs @ [Register a]) ?l"
    using without_wf [OF wf] without_cleared [OF wf c, of "adapter_id a" "Register a"] by auto
  have none: "hm_get (adopted ?l) (adapter_id a) = None" "hm_get (operator_approved ?l) (adapter_id a) = None"
    "\<forall>m. hm_get (lib_mounts ?l) m \<noteq> Some (adapter_id a)" by (simp_all add: without_mounts [OF wf])
  show ?thesis
  proof (cases "hm_contains (lib_adapters ?l) (adapter_id a) \<or> length (lib_adapters ?l) < lib_capacity ?l")
    case True
    then have "snd (library_register l a) = ?l\<lparr>lib_adapters := hm_insert (adapter_id a) a (lib_adapters ?l)\<rparr>"
      by (auto simp: register_unfold Let_def)
    with add_wf [OF w True] add_cleared [OF cl none] show ?thesis by simp
  next
    case False
    show ?thesis
    proof (cases "evict_one ?l")
      case (Pair r l')
      show ?thesis
      proof (cases r)
        case (Inl e)
        with Pair have "snd (library_register l a) = ?l" using False evict_one_Inl by (auto simp: register_unfold Let_def)
        with w cl show ?thesis by simp
      next
        case (Inr u)
        have e: "evict_one ?l = (Inr u, l')" using Pair Inr by simp
        have "hm_get (adopted l') (adapter_id a) = None" "hm_get (operator_approved l') (adapter_id a) = None"
          "\<forall>m. hm_get (lib_mounts l') m \<noteq> Some (adapter_id a)"
          using w e none(3) by (auto elim!: evict_one_Some simp: store_simps)
        with evict_one_wf [OF w e] evict_one_cleared [OF w cl e] have
          "library_wf (l'\<lparr>lib_adapters := hm_insert (adapter_id a) a (lib_adapters l')\<rparr>)"
          "library_cleared (xs @ [Register a]) (l'\<lparr>lib_adapters := hm_insert (adapter_id a) a (lib_adapters l')\<rparr>)"
          by (auto intro: add_wf add_cleared)
        moreover have "snd (library_register l a) = l'\<lparr>lib_adapters := hm_insert (adapter_id a) a (lib_adapters l')\<rparr>"
          using False e by (simp add: register_unfold Let_def)
        ultimately show ?thesis by simp
      qed
    qed
  qed
qed

lemma library_step_good:
  assumes wf: "library_wf l" and c: "library_cleared xs l"
  shows "library_wf (library_step l x) \<and> library_cleared (xs @ [x]) (library_step l x)"
proof (cases x)
  case (Register a)
  then show ?thesis using register_good [OF assms] by simp
next
  case (Adoption d)
  consider (stale) "current_digest l (ad_adapter_id d) \<noteq> Some (ad_weights_digest d)"
    | (grant) "current_digest l (ad_adapter_id d) = Some (ad_weights_digest d)" "ad_approved d"
    | (refuse) "current_digest l (ad_adapter_id d) = Some (ad_weights_digest d)" "\<not> ad_approved d" by blast
  then show ?thesis
  proof cases
    case stale
    then show ?thesis using wf c unfolding library_cleared_def by (auto simp: Adoption record_adoption_def stands_snoc)
  next
    case grant
    then show ?thesis using wf c unfolding library_cleared_def library_wf_def
      by (auto simp: Adoption record_adoption_def stands_snoc store_simps current_digest_def)
  next
    case refuse
    then have "library_step l x = without (ad_adapter_id d) l" by (simp add: Adoption record_adoption_def without_def)
    then show ?thesis using without_wf [OF wf] without_cleared [OF wf c, of "ad_adapter_id d" x] by (simp add: Adoption)
  qed
next
  case (OperatorApproves i d)
  then show ?thesis using wf c unfolding library_cleared_def library_wf_def
    by (auto simp: record_operator_approval_def stands_snoc store_simps current_digest_def)
next
  case (OperatorRevokes i d)
  show ?thesis
  proof (cases "hm_get (operator_approved l) i = Some d")
    case True
    let ?l = "l\<lparr>operator_approved := hm_remove i (operator_approved l)\<rparr>"
    have step: "library_step l x = unmount_all i ?l" using True by (simp add: OperatorRevokes revoke_operator_approval_def)
    have m: "hm_get (lib_mounts (unmount_all i ?l)) k = (if hm_get (lib_mounts l) k = Some i then None else hm_get (lib_mounts l) k)" for k
      using wf by (auto simp: unmount_all_def library_wf_def hm_get_retain split: option.split)
    have f: "lib_adapters (unmount_all i ?l) = lib_adapters l" "adopted (unmount_all i ?l) = adopted l"
      "hm_get (operator_approved (unmount_all i ?l)) j = (if j = i then None else hm_get (operator_approved l) j)" for j
      by (simp_all add: unmount_all_def store_simps)
    have "library_cleared (xs @ [x]) (unmount_all i ?l)"
      by (rule clearedI) (use clearedD [OF c] in \<open>auto simp: current_digest_def f m stands_snoc OperatorRevokes split: if_splits simp del: not_None_eq\<close>)
    moreover have "library_wf (unmount_all i ?l)" using wf by (simp add: unmount_all_def library_wf_def hm_wf_retain)
    ultimately show ?thesis unfolding step by blast
  next
    case False
    then show ?thesis using wf c unfolding library_cleared_def
      by (auto simp: OperatorRevokes revoke_operator_approval_def stands_snoc)
  qed
next
  case (Mount m i)
  then show ?thesis using wf c unfolding library_cleared_def library_wf_def
    by (auto simp: mount_gated_def library_mount_def stands_snoc store_simps is_adopted_def is_operator_approved_def current_digest_def
        hm_contains_def split: option.splits)
next
  case (MountUngated m i)
  then show ?thesis using wf c unfolding library_cleared_def library_wf_def
    by (auto simp: library_mount_def stands_snoc store_simps current_digest_def split: option.splits)
next
  case (Unmount m)
  then show ?thesis using wf c unfolding library_cleared_def library_wf_def
    by (auto simp: library_unmount_def stands_snoc store_simps current_digest_def split: option.splits)
qed

definition library_history :: "nat \<Rightarrow> EvictionPolicy \<Rightarrow> library_op list \<Rightarrow> AdapterLibrary" where
  "library_history capacity policy xs = foldl library_step (library_with_policy capacity policy) xs"

text \<open>The library together with its history is an operation machine whose invariant says that all clearances stand.\<close>

definition recorded_step :: "library_op list \<times> AdapterLibrary \<Rightarrow> library_op \<Rightarrow> library_op list \<times> AdapterLibrary" where
  "recorded_step hl x = (fst hl @ [x], library_step (snd hl) x)"

definition recorded_inv :: "library_op list \<times> AdapterLibrary \<Rightarrow> bool" where
  "recorded_inv hl \<longleftrightarrow> library_wf (snd hl) \<and> library_cleared (fst hl) (snd hl)"

interpretation library_machine: op_machine recorded_step recorded_inv
  by unfold_locales (metis recorded_step_def recorded_inv_def fst_conv snd_conv library_step_good)

lemma foldl_recorded: "foldl recorded_step hl xs = (fst hl @ xs, foldl library_step (snd hl) xs)"
  by (induction xs arbitrary: hl) (simp_all add: recorded_step_def)

lemma library_history_good: "library_wf (library_history c p xs) \<and> library_cleared xs (library_history c p xs)"
proof -
  have "recorded_inv ([], library_with_policy c p)"
    by (simp add: recorded_inv_def library_wf_def library_cleared_def library_with_policy_def hm_wf_def keyed_def)
  from library_machine.run_inv [OF this, of xs] show ?thesis by (simp add: foldl_recorded recorded_inv_def library_history_def)
qed

lemmas history_wf = library_history_good [THEN conjunct1]
  and history_cleared = library_history_good [THEN conjunct2]

text \<open>C13: what is served has passed both gates, for the very weights that are registered, unless it was mounted past
  them. After any sequence of registrations (retrained weights under an old identifier included), evaluations, operator
  decisions, mounts through the gate, mounts past it (the library's ungated call) and unmounts in any order: a mounted
  adapter is registered and of the mountable tier, and either it was mounted past the gates at this mount point, which
  was not cleared since nor the identifier registered anew, or the evaluation approved exactly its present weights and
  nothing ended that since (no new registration of the identifier, no rejecting evaluation of these weights), and the
  operator approved exactly these weights and nothing ended that either (no revocation besides). A new registration
  takes down even what was mounted past the gates.\<close>

theorem served_adapters_cleared:
  assumes "mounted_at (library_history c p xs) m = Some i"
  shows "\<exists>a. library_get (library_history c p xs) i = Some a \<and> adapter_id a = i \<and> is_mountable a
    \<and> (ungated_stands m i xs \<or> adoption_stands i (weights_digest a) xs \<and> approval_stands i (weights_digest a) xs)"
proof -
  let ?l = "library_history c p xs"
  note c = history_cleared [of xs c p]
  from clearedD(5,6) [OF c assms [unfolded mounted_at_def]] obtain a where a: "hm_get (lib_adapters ?l) i = Some a" "is_mountable a"
    and g: "ungated_stands m i xs \<or> hm_get (adopted ?l) i \<noteq> None \<and> hm_get (operator_approved ?l) i \<noteq> None" by blast
  have "adapter_id a = i" using history_wf [of c p xs] a(1) keyedD unfolding library_wf_def by blast
  moreover have "adoption_stands i (weights_digest a) xs \<and> approval_stands i (weights_digest a) xs"
    if "hm_get (adopted ?l) i = Some d" "hm_get (operator_approved ?l) i = Some e" for d e
    using clearedD(1,2) [OF c that(1)] clearedD(3,4) [OF c that(2)] a(1) by (simp add: current_digest_def)
  ultimately show ?thesis using a g by (auto simp: library_get_def)
qed

definition sample_artifact :: "string \<Rightarrow> AdapterArtifact" where
  "sample_artifact digest = \<lparr>adapter_id = ''n'', art_description = [], art_format = LoraAdapter, art_merge_path = Clean,
     serving_tier = MountableAdapter, weights_digest = digest, adapter_path = None, merged_gguf_path = None,
     art_provenance = \<lparr>base_model = ''b'', pv_method = Lora 8 16, source_job = ''j'', pv_created_at_ns = 1\<rparr>\<rparr>"

definition sample_decision :: "string \<Rightarrow> AdoptionDecision" where
  "sample_decision digest = \<lparr>ad_adapter_id = ''n'', ad_weights_digest = digest, ad_approved = True, eval_passed = True,
     alignment_passed = True, ad_reasons = []\<rparr>"

lemmas library_run_simps = library_history_def library_with_policy_def library_register_def unmount_all_def hm_contains_def
  record_adoption_def current_digest_def record_operator_approval_def mount_gated_def is_adopted_def is_operator_approved_def
  library_mount_def is_mountable_def mounted_at_def library_get_def sample_artifact_def sample_decision_def Let_def

lemma served_adapters_cleared_witness:
  "let xs = [Register (sample_artifact ''d''), Adoption (sample_decision ''d''), OperatorApproves ''n'' ''d'', Mount (MountId ''t'' ''b'') ''n''];
       ys = xs @ [Register (sample_artifact ''e''), Adoption (sample_decision ''d''), Mount (MountId ''t'' ''b'') ''n''];
       zs = [Register (sample_artifact ''d''), MountUngated (MountId ''t'' ''b'') ''n'']
   in approval_stands ''n'' ''d'' xs \<and> mounted_at (library_history 4 OldestFirst xs) (MountId ''t'' ''b'') = Some ''n''
      \<and> mounted_at (library_history 4 OldestFirst ys) (MountId ''t'' ''b'') = None
      \<and> mounted_at (library_history 4 OldestFirst zs) (MountId ''t'' ''b'') = Some ''n'' \<and> \<not> approval_stands ''n'' ''d'' zs"
proof -
  let ?xs = "[Register (sample_artifact ''d''), Adoption (sample_decision ''d''), OperatorApproves ''n'' ''d'', Mount (MountId ''t'' ''b'') ''n'']"
  let ?zs = "[Register (sample_artifact ''d''), MountUngated (MountId ''t'' ''b'') ''n'']"
  have m: "mounted_at (library_history 4 OldestFirst ?xs) (MountId ''t'' ''b'') = Some ''n''" by (simp add: library_run_simps)
  have d: "library_get (library_history 4 OldestFirst ?xs) ''n'' = Some (sample_artifact ''d'')" by (simp add: library_run_simps)
  have u: "\<not> ungated_stands (MountId ''t'' ''b'') ''n'' ?xs" by (simp add: stands_def)
  from served_adapters_cleared [OF m] d u have "approval_stands ''n'' (weights_digest (sample_artifact ''d'')) ?xs" by auto
  then have "approval_stands ''n'' ''d'' ?xs" by (simp add: sample_artifact_def)
  moreover have "mounted_at (library_history 4 OldestFirst (?xs @ [Register (sample_artifact ''e''), Adoption (sample_decision ''d''),
      Mount (MountId ''t'' ''b'') ''n''])) (MountId ''t'' ''b'') = None"
    by (simp add: library_run_simps)
  moreover have "mounted_at (library_history 4 OldestFirst ?zs) (MountId ''t'' ''b'') = Some ''n'' \<and> \<not> approval_stands ''n'' ''d'' ?zs"
    by (simp add: library_run_simps stands_def)
  ultimately show ?thesis using m unfolding Let_def by blast
qed

section \<open>From the training run to the operator and back\<close>

text \<open>The queue and the library have locks of their own. The console notes a decision under the queue's lock and
  forwards it under the library's later, so other steps can come between and decisions can be forwarded in any order; a
  poisoned lock of the library loses one.\<close>

record adoption_system =
  as_queue :: ApprovalQueue
  as_library :: AdapterLibrary
  as_noted :: "weight_op list"

datatype adoption_event =
    Trained AdapterArtifact
  | Judged AdoptionDecision
  | Bridged AdapterArtifact AdoptionDecision string u64
  | Submitted Proposal
  | Decided bool string string u64
  | Forwarded nat
  | Lost nat
  | Rescinded string string u64
  | Served MountId string
  | Withdrawn MountId

definition drop_at :: "nat \<Rightarrow> 'a list \<Rightarrow> 'a list" where
  "drop_at n xs = take n xs @ drop (Suc n) xs"

fun adoption_step :: "adoption_system \<Rightarrow> adoption_event \<Rightarrow> adoption_system" where
  "adoption_step s (Trained a) = s\<lparr>as_library := snd (library_register (as_library s) a)\<rparr>"
| "adoption_step s (Judged d) = s\<lparr>as_library := record_adoption (as_library s) d\<rparr>"
| "adoption_step s (Bridged a d summary now_ns) =
     (case adapter_adoption_to_proposal a d summary now_ns of
        None \<Rightarrow> s
      | Some p \<Rightarrow> s\<lparr>as_queue := snd (enqueue (as_queue s) p)\<rparr>)"
| "adoption_step s (Submitted p) = s\<lparr>as_queue := snd (enqueue (as_queue s) p)\<rparr>"
| "adoption_step s (Decided ok i why ts) =
     (case console_decide (as_queue s) ok i why ts of
        (_, op, q) \<Rightarrow> s\<lparr>as_queue := q, as_noted := as_noted s @ (case op of None \<Rightarrow> [] | Some x \<Rightarrow> [x])\<rparr>)"
| "adoption_step s (Forwarded n) =
     (if n < length (as_noted s)
      then s\<lparr>as_library := apply_weight_op (as_library s) (as_noted s ! n), as_noted := drop_at n (as_noted s)\<rparr> else s)"
| "adoption_step s (Lost n) = s\<lparr>as_noted := drop_at n (as_noted s)\<rparr>"
| "adoption_step s (Rescinded i why ts) = s\<lparr>as_queue := snd (rollback (as_queue s) i why ts)\<rparr>"
| "adoption_step s (Served m i) = s\<lparr>as_library := snd (mount_gated (as_library s) m i)\<rparr>"
| "adoption_step s (Withdrawn m) = s\<lparr>as_library := snd (library_unmount (as_library s) m)\<rparr>"

definition adoption_run :: "nat \<Rightarrow> EvictionPolicy \<Rightarrow> adoption_event list \<Rightarrow> adoption_system" where
  "adoption_run c p es = foldl adoption_step \<lparr>as_queue = queue_new, as_library = library_with_policy c p, as_noted = []\<rparr> es"

text \<open>Weight updates enter the queue through the bridge only, and a digest holds no at sign.\<close>

fun weight_digest :: "ProposalKind \<Rightarrow> string option" where
  "weight_digest (WeightUpdate _ digest _ _) = Some digest"
| "weight_digest _ = None"

fun by_the_bridge :: "adoption_event \<Rightarrow> bool" where
  "by_the_bridge (Bridged a _ _ _) \<longleftrightarrow> CHR ''@'' \<notin> set (weights_digest a)"
| "by_the_bridge (Submitted p) \<longleftrightarrow> weight_digest (prop_kind p) = None"
| "by_the_bridge _ \<longleftrightarrow> True"

fun was_approved :: "ProposalStatus \<Rightarrow> bool" where
  "was_approved (Approved _ _) \<longleftrightarrow> True"
| "was_approved (RolledBack _ _) \<longleftrightarrow> True"
| "was_approved _ \<longleftrightarrow> False"

definition decided_as :: "(ProposalStatus \<Rightarrow> bool) \<Rightarrow> ApprovalQueue \<Rightarrow> string \<Rightarrow> string \<Rightarrow> bool" where
  "decided_as st q i d \<longleftrightarrow> (\<exists>p. queue_get q (i @ ''@'' @ d) = Some p \<and> weight_digest (prop_kind p) = Some d \<and> st (prop_status p))"

fun was_rejected :: "ProposalStatus \<Rightarrow> bool" where
  "was_rejected (Rejected _ _) \<longleftrightarrow> True"
| "was_rejected _ \<longleftrightarrow> False"

text \<open>The queue's part of the invariant: a weight update is filed under its adapter and digest.\<close>

definition filed :: "ApprovalQueue \<Rightarrow> bool" where
  "filed q \<longleftrightarrow> (\<forall>k p d. queue_get q k = Some p \<longrightarrow> prop_id p = k
     \<and> (weight_digest (prop_kind p) = Some d \<longrightarrow> CHR ''@'' \<notin> set d \<and> (\<exists>i. k = i @ ''@'' @ d)))"

lemma rsplit_at: "CHR ''@'' \<notin> set d \<Longrightarrow> rsplit_once CHR ''@'' (i @ ''@'' @ d) = Some (i, d)"
  by (simp add: rsplit_once_def)

lemma weight_op_of_filed:
  assumes "filed q" "queue_get q k = Some p" "weight_op_of p = Some (i, d)"
  shows "k = i @ ''@'' @ d \<and> weight_digest (prop_kind p) = Some d"
proof -
  from assms(3) have d: "weight_digest (prop_kind p) = Some d" by (auto simp: weight_op_of_def split: ProposalKind.splits)
  with assms(1,2) obtain j where j: "prop_id p = k" "CHR ''@'' \<notin> set d" "k = j @ ''@'' @ d" unfolding filed_def by blast
  have "weight_op_of p = Some (j, d)"
    using d rsplit_at [OF j(2), of j] unfolding weight_op_of_def j(1) j(3) by (cases "prop_kind p") simp_all
  with assms(3) d j(3) show ?thesis by simp
qed

text \<open>A decision changes the status of one pending proposal, and no decided status goes back.\<close>

lemma decided_as_enqueue: "decided_as st q i d \<Longrightarrow> decided_as st (snd (enqueue q p)) i d"
  by (auto simp: decided_as_def enqueue_def queue_get_def hm_contains_def hm_get_insert)

lemma decided_as_decide:
  assumes "decided_as st q i d" "queue_get q k = Some p" "st (prop_status p) \<Longrightarrow> st s"
  shows "decided_as st (decide q k p s act ts r) i d"
  using assms by (auto simp: decided_as_def decide_def queue_get_def hm_get_insert)

lemma filed_enqueue:
  assumes "filed q" "\<And>d. weight_digest (prop_kind p) = Some d \<Longrightarrow> CHR ''@'' \<notin> set d \<and> (\<exists>i. prop_id p = i @ ''@'' @ d)"
  shows "filed (snd (enqueue q p))"
  using assms by (auto simp: filed_def enqueue_def queue_get_def hm_get_insert)

lemma filed_decide: "filed q \<Longrightarrow> queue_get q k = Some p \<Longrightarrow> filed (decide q k p s act ts r)"
  by (auto simp: filed_def decide_def queue_get_def hm_get_insert)

lemma decision_cases:
  assumes "(r, q') = (if ok then approve q k why ts else reject q k why ts)"
  obtains (fails) e where "r = Inl e" "q' = q"
  | (succeeds) p where "r = Inr ()" "queue_get q k = Some p" "prop_status p = Pending"
      "q' = decide q k p (if ok then Approved ts why else Rejected ts why) (if ok then ''approved'' else ''rejected'') ts why"
  using assms by (cases ok) (auto simp: approve_def reject_def queue_get_def is_pending_def split: option.splits if_splits)

definition answered :: "ApprovalQueue \<Rightarrow> weight_op \<Rightarrow> bool" where
  "answered q op \<longleftrightarrow> (case op of (ok, i, d) \<Rightarrow> decided_as (if ok then was_approved else was_rejected) q i d)"

definition backed :: "ApprovalQueue \<Rightarrow> adoption_event list \<Rightarrow> library_op \<Rightarrow> bool" where
  "backed q es x \<longleftrightarrow> (case x of OperatorApproves i d \<Rightarrow> decided_as was_approved q i d | Adoption dec \<Rightarrow> Judged dec \<in> set es
     | MountUngated m i \<Rightarrow> False | _ \<Rightarrow> True)"

definition system_inv :: "nat \<Rightarrow> EvictionPolicy \<Rightarrow> adoption_event list \<Rightarrow> adoption_system \<Rightarrow> bool" where
  "system_inv c p es s \<longleftrightarrow> filed (as_queue s) \<and> (\<forall>op \<in> set (as_noted s). answered (as_queue s) op)
     \<and> (\<exists>xs. as_library s = library_history c p xs \<and> (\<forall>x \<in> set xs. backed (as_queue s) es x))"

text \<open>A step on the queue keeps what is known when it keeps every decision; a step on the library when it is backed.\<close>

lemma queue_side:
  assumes inv: "system_inv c p es s" and q: "filed q"
    and keeps: "\<And>st i d. decided_as st (as_queue s) i d \<Longrightarrow> st = was_approved \<or> st = was_rejected \<Longrightarrow> decided_as st q i d"
    and new: "\<forall>op \<in> set ops. answered q op"
  shows "system_inv c p (es @ [e]) (s\<lparr>as_queue := q, as_noted := as_noted s @ ops\<rparr>)"
proof -
  from inv obtain xs where l: "as_library s = library_history c p xs" and b: "\<forall>x \<in> set xs. backed (as_queue s) es x"
    by (auto simp: system_inv_def)
  have "backed q (es @ [e]) x" if "x \<in> set xs" for x
    using bspec [OF b that] keeps by (auto simp: backed_def split: library_op.splits)
  moreover have "answered q op" if "op \<in> set (as_noted s)" for op
    using inv that keeps unfolding system_inv_def answered_def by (cases op) (auto split: if_splits)
  ultimately show ?thesis using l q new by (auto simp: system_inv_def)
qed

lemma library_side:
  assumes inv: "system_inv c p es s" and x: "backed (as_queue s) (es @ [e]) x" and ops: "set ops \<subseteq> set (as_noted s)"
  shows "system_inv c p (es @ [e]) (s\<lparr>as_library := library_step (as_library s) x, as_noted := ops\<rparr>)"
proof -
  from inv obtain xs where l: "as_library s = library_history c p xs" and b: "\<forall>x \<in> set xs. backed (as_queue s) es x"
    by (auto simp: system_inv_def)
  have "library_step (as_library s) x = library_history c p (xs @ [x])" by (simp add: l library_history_def)
  moreover have "\<forall>y \<in> set (xs @ [x]). backed (as_queue s) (es @ [e]) y"
    using b x by (auto simp: backed_def split: library_op.splits)
  moreover have "filed (as_queue s)" "\<forall>op \<in> set ops. answered (as_queue s) op" using inv ops by (auto simp: system_inv_def)
  ultimately show ?thesis unfolding system_inv_def by (auto intro!: exI [of _ "xs @ [x]"])
qed

lemma set_drop_at: "set (drop_at n xs) \<subseteq> set xs"
  unfolding drop_at_def set_append by (intro Un_least set_take_subset set_drop_subset)

lemma decide_side:
  assumes inv: "system_inv c p es s"
  shows "system_inv c p (es @ [Decided ok i why ts]) (adoption_step s (Decided ok i why ts))"
proof -
  let ?q = "as_queue s"
  obtain r q where rq: "(r, q) = (if ok then approve ?q i why ts else reject ?q i why ts)" by (metis surj_pair)
  define noted where "noted = (case r of Inl _ \<Rightarrow> None | Inr _ \<Rightarrow> map_option (Pair ok) (Option.bind (queue_get ?q i) weight_op_of))"
  define ops where "ops = (case noted of None \<Rightarrow> [] | Some x \<Rightarrow> [x])"
  have step: "adoption_step s (Decided ok i why ts) = s\<lparr>as_queue := q, as_noted := as_noted s @ ops\<rparr>"
    using rq [symmetric] by (simp add: console_decide_def noted_def ops_def Let_def)
  have f: "filed ?q" using inv by (simp add: system_inv_def)
  from rq show ?thesis
  proof (cases rule: decision_cases)
    case (fails e)
    then show ?thesis using queue_side [OF inv f, of "[]"] unfolding step by (simp add: ops_def noted_def)
  next
    case (succeeds u)
    let ?st = "if ok then Approved ts why else Rejected ts why"
    have "answered q op" if op: "op \<in> set ops" for op
    proof -
      from op succeeds(1,2) obtain j d where w: "weight_op_of u = Some (j, d)" "op = (ok, j, d)"
        by (auto simp: ops_def noted_def eq_commute [of "Some _" "weight_op_of u"] split: option.splits)
      from weight_op_of_filed [OF f succeeds(2) w(1)] have "i = j @ ''@'' @ d" "weight_digest (prop_kind u) = Some d" by simp_all
      then show ?thesis by (simp add: w(2) answered_def decided_as_def succeeds(4) decide_def queue_get_def hm_get_insert)
    qed
    moreover have "decided_as st q j d" if "decided_as st ?q j d" "st = was_approved \<or> st = was_rejected" for st j d
      unfolding succeeds(4) by (rule decided_as_decide [OF that(1) succeeds(2)]) (use that(2) succeeds(3) in auto)
    ultimately show ?thesis using queue_side [OF inv] filed_decide [OF f succeeds(2)] unfolding step succeeds(4) by blast
  qed
qed

lemma rescind_side:
  assumes inv: "system_inv c p es s"
  shows "system_inv c p (es @ [Rescinded i why ts]) (adoption_step s (Rescinded i why ts))"
proof (cases "\<exists>u. queue_get (as_queue s) i = Some u \<and> is_approved u")
  case True
  then obtain u where u: "queue_get (as_queue s) i = Some u" "is_approved u" by blast
  let ?q = "decide (as_queue s) i u (RolledBack ts why) ''rolled_back'' ts why"
  have f: "filed ?q" using filed_decide [OF _ u(1)] inv by (simp add: system_inv_def)
  have "decided_as st ?q j d" if "decided_as st (as_queue s) j d" "st = was_approved \<or> st = was_rejected" for st j d
    by (rule decided_as_decide [OF that(1) u(1)]) (use that(2) u(2) in \<open>auto simp: is_approved_def split: ProposalStatus.splits\<close>)
  with queue_side [OF inv f, of "[]"] u show ?thesis by (simp add: rollback_def queue_get_def)
next
  case False
  then have "adoption_step s (Rescinded i why ts) = s" by (auto simp: rollback_def queue_get_def split: option.split)
  with queue_side [OF inv, of "as_queue s" "[]"] inv show ?thesis by (simp add: system_inv_def)
qed

lemma enqueue_side:
  assumes inv: "system_inv c p es s"
    and u: "\<And>d. weight_digest (prop_kind u) = Some d \<Longrightarrow> CHR ''@'' \<notin> set d \<and> (\<exists>i. prop_id u = i @ ''@'' @ d)"
  shows "system_inv c p (es @ [e]) (s\<lparr>as_queue := snd (enqueue (as_queue s) u)\<rparr>)"
proof -
  have "filed (as_queue s)" using inv by (simp add: system_inv_def)
  from queue_side [OF inv filed_enqueue [OF this u] decided_as_enqueue, of "[]"] show ?thesis by simp
qed

lemma nothing_side: "system_inv c p es s \<Longrightarrow> system_inv c p (es @ [e]) s"
  using queue_side [of c p es s "as_queue s" "[]"] by (simp add: system_inv_def)

lemma adoption_step_inv:
  assumes inv: "system_inv c p es s" and e: "by_the_bridge e"
  shows "system_inv c p (es @ [e]) (adoption_step s e)"
proof (cases e)
  case (Trained a)
  with library_side [OF inv, of e "Register a" "as_noted s"] show ?thesis by (simp add: backed_def)
next
  case (Judged d)
  with library_side [OF inv, of e "Adoption d" "as_noted s"] show ?thesis by (simp add: backed_def)
next
  case (Bridged a d t n)
  show ?thesis
  proof (cases "adapter_adoption_to_proposal a d t n")
    case (Some u)
    then have "prop_id u = adapter_id a @ ''@'' @ weights_digest a" "weight_digest (prop_kind u) = Some (weights_digest a)"
      by (auto simp: adapter_adoption_to_proposal_def split: if_splits)
    with e have "\<And>d. weight_digest (prop_kind u) = Some d \<Longrightarrow> CHR ''@'' \<notin> set d \<and> (\<exists>i. prop_id u = i @ ''@'' @ d)"
      by (simp add: Bridged)
    from enqueue_side [OF inv this] Some show ?thesis by (simp add: Bridged)
  qed (simp add: Bridged nothing_side [OF inv])
next
  case (Submitted u)
  with e enqueue_side [OF inv, of u e] show ?thesis by simp
next
  case (Decided ok i why ts)
  then show ?thesis using decide_side [OF inv] by simp
next
  case (Forwarded n)
  show ?thesis
  proof (cases "n < length (as_noted s)")
    case True
    obtain ok i d where op: "as_noted s ! n = (ok, i, d)" by (cases "as_noted s ! n") auto
    let ?x = "if ok then OperatorApproves i d else OperatorRevokes i d"
    have "answered (as_queue s) (ok, i, d)" using inv True op unfolding system_inv_def by (metis nth_mem)
    then have "backed (as_queue s) (es @ [e]) ?x" by (auto simp: answered_def backed_def)
    from library_side [OF inv this set_drop_at [of n]] True op show ?thesis by (simp add: Forwarded apply_weight_op_def split: if_splits)
  qed (simp add: Forwarded nothing_side [OF inv])
next
  case (Lost n)
  have "set (drop_at n (as_noted s)) \<subseteq> set (as_noted s)" by (rule set_drop_at)
  with nothing_side [OF inv, of e] show ?thesis unfolding Lost by (auto simp: system_inv_def)
next
  case (Rescinded i why ts)
  then show ?thesis using rescind_side [OF inv] by simp
next
  case (Served m i)
  with library_side [OF inv, of e "Mount m i" "as_noted s"] show ?thesis by (simp add: backed_def)
next
  case (Withdrawn m)
  with library_side [OF inv, of e "Unmount m" "as_noted s"] show ?thesis by (simp add: backed_def)
qed

lemma adoption_run_inv: "list_all by_the_bridge es \<Longrightarrow> system_inv c p es (adoption_run c p es)"
proof (induction es rule: rev_induct)
  case Nil
  have "library_with_policy c p = library_history c p []" by (simp add: library_history_def)
  then show ?case by (simp add: adoption_run_def system_inv_def filed_def queue_get_def queue_new_def exI [of _ "[]"])
next
  case (snoc e es)
  then show ?case using adoption_step_inv [of c p es "adoption_run c p es" e] by (simp add: adoption_run_def)
qed

lemma stands_given: "stands gives ends xs \<Longrightarrow> \<exists>x \<in> set xs. gives x"
  by (induction xs rule: rev_induct) (auto simp: stands_snoc, auto simp: stands_def)

lemma gives_iff:
  "gives_approval i d x \<longleftrightarrow> x = OperatorApproves i d"
  "gives_adoption i d x \<longleftrightarrow> (\<exists>dec. x = Adoption dec \<and> ad_adapter_id dec = i \<and> ad_weights_digest dec = d \<and> ad_approved dec)"
  by (cases x; auto)+

text \<open>C7: nothing self-trained is served without a human's approval of those weights. Training runs, evaluations,
  proposals, decisions at the console, their forwarding (late, in any order, or lost), roll-backs, mounts and unmounts may interleave
  freely, as long as weight updates enter the queue through the bridge and digests hold no at sign. Then an adapter
  mounted through the gate is registered and mountable, its evaluation approved exactly its present weights, and the
  queue holds the weight update for exactly this adapter and these weights, on which the operator decided
  \<open>approve\<close>.\<close>

theorem served_adapters_signed_off:
  assumes "list_all by_the_bridge es" and "mounted_at (as_library (adoption_run c p es)) m = Some i"
  shows "\<exists>a u dec. library_get (as_library (adoption_run c p es)) i = Some a \<and> is_mountable a
    \<and> Judged dec \<in> set es \<and> ad_approved dec \<and> ad_adapter_id dec = i \<and> ad_weights_digest dec = weights_digest a
    \<and> queue_get (as_queue (adoption_run c p es)) (i @ ''@'' @ weights_digest a) = Some u
    \<and> weight_digest (prop_kind u) = Some (weights_digest a) \<and> was_approved (prop_status u)"
proof -
  let ?s = "adoption_run c p es"
  from adoption_run_inv [OF assms(1)] obtain xs where l: "as_library ?s = library_history c p xs"
    and b: "\<forall>x \<in> set xs. backed (as_queue ?s) es x" unfolding system_inv_def by blast
  note c = history_cleared [of xs c p]
  from assms(2) have m: "hm_get (lib_mounts (library_history c p xs)) m = Some i" by (simp add: l mounted_at_def)
  have "\<not> ungated_stands m i xs" using b stands_given [of "\<lambda>x. x = MountUngated m i" _ xs] by (fastforce simp: backed_def)
  with clearedD(5,6) [OF c m] obtain a d e where
    a: "hm_get (lib_adapters (library_history c p xs)) i = Some a" "is_mountable a"
    and g: "hm_get (adopted (library_history c p xs)) i = Some d" "hm_get (operator_approved (library_history c p xs)) i = Some e"
    by blast
  have d: "d = weights_digest a" "e = weights_digest a"
    using clearedD(1) [OF c g(1)] clearedD(3) [OF c g(2)] a(1) by (simp_all add: current_digest_def)
  from stands_given [OF clearedD(2) [OF c g(1)]] stands_given [OF clearedD(4) [OF c g(2)]] obtain dec where
    "Adoption dec \<in> set xs" "ad_adapter_id dec = i" "ad_weights_digest dec = d" "ad_approved dec" "OperatorApproves i e \<in> set xs"
    unfolding gives_iff by blast
  with bspec [OF b this(1)] bspec [OF b this(5)] a d show ?thesis by (auto simp: l library_get_def backed_def decided_as_def)
qed

definition sample_adoption :: "adoption_event list" where
  "sample_adoption = [Trained (sample_artifact ''d''), Judged (sample_decision ''d''),
     Bridged (sample_artifact ''d'') (sample_decision ''d'') ''s'' 5, Decided True ''n@d'' ''ok'' 6, Forwarded 0, Served (MountId ''t'' ''b'') ''n'']"

lemmas adoption_run_simps = library_run_simps adoption_run_def sample_adoption_def adapter_adoption_to_proposal_def enqueue_def
  queue_new_def console_decide_def queue_get_def approve_def is_pending_def decide_def weight_op_of_def rsplit_once_def
  apply_weight_op_def drop_at_def

lemma served_adapters_signed_off_witness:
  "list_all by_the_bridge sample_adoption
   \<and> mounted_at (as_library (adoption_run 4 OldestFirst sample_adoption)) (MountId ''t'' ''b'') = Some ''n''
   \<and> (\<exists>u. queue_get (as_queue (adoption_run 4 OldestFirst sample_adoption)) ''n@d'' = Some u \<and> was_approved (prop_status u))"
proof -
  have b: "list_all by_the_bridge sample_adoption" by (simp add: sample_adoption_def sample_artifact_def)
  have m: "mounted_at (as_library (adoption_run 4 OldestFirst sample_adoption)) (MountId ''t'' ''b'') = Some ''n''"
    by (simp add: adoption_run_simps)
  have "library_get (as_library (adoption_run 4 OldestFirst sample_adoption)) ''n'' = Some (sample_artifact ''d'')"
    by (simp add: adoption_run_simps)
  with served_adapters_signed_off [OF b m] have
    "\<exists>u. queue_get (as_queue (adoption_run 4 OldestFirst sample_adoption)) ''n@d'' = Some u \<and> was_approved (prop_status u)"
    by (auto simp: sample_artifact_def)
  with b m show ?thesis by blast
qed

text \<open>The console says a rejection revokes the library's approval, but only a pending proposal can be rejected, and
  weights whose proposal is rejected were never approved: forwarding a rejection changes nothing. A roll-back of an approval, which would
  need it, is not forwarded at all.\<close>

lemma rejection_never_revokes:
  assumes "list_all by_the_bridge es" "(False, i, d) \<in> set (as_noted (adoption_run c p es))"
  shows "apply_weight_op (as_library (adoption_run c p es)) (False, i, d) = as_library (adoption_run c p es)"
proof -
  let ?s = "adoption_run c p es"
  from adoption_run_inv [OF assms(1)] assms(2) obtain xs where l: "as_library ?s = library_history c p xs"
    and b: "\<forall>x \<in> set xs. backed (as_queue ?s) es x" and r: "decided_as was_rejected (as_queue ?s) i d"
    unfolding system_inv_def answered_def by fastforce
  have "hm_get (operator_approved (as_library ?s)) i \<noteq> Some d"
  proof
    assume "hm_get (operator_approved (as_library ?s)) i = Some d"
    from stands_given [OF clearedD(4) [OF history_cleared this [unfolded l]]] have "OperatorApproves i d \<in> set xs"
      unfolding gives_iff by blast
    from bspec [OF b this] r show False by (auto simp: backed_def decided_as_def elim: was_rejected.elims)
  qed
  then show ?thesis by (simp add: apply_weight_op_def revoke_operator_approval_def)
qed

lemma rescinded_still_served:
  "let s = adoption_run 4 OldestFirst (sample_adoption @ [Rescinded ''n@d'' ''regressed'' 9])
   in map_option prop_status (queue_get (as_queue s) ''n@d'') = Some (RolledBack 9 ''regressed'')
      \<and> mounted_at (as_library s) (MountId ''t'' ''b'') = Some ''n''"
  by (simp add: adoption_run_simps rollback_def is_approved_def)

section \<open>Trained and judged\<close>

text \<open>A decision approves exactly when it gives no reason against.\<close>

lemma approved_iff_no_reasons:
  "ad_approved (decide_adoption i cc beats fidelity_ok alignment d) \<longleftrightarrow> ad_reasons (decide_adoption i cc beats fidelity_ok alignment d) = []"
  by (cases alignment) (auto simp: decide_adoption_def Let_def)

text \<open>The trainer refuses a configuration without rank or steps and an empty dataset, in this order; what it makes is mountable
  exactly when it is not baked, a Hadamard merge is always baked, and its digest suits the bridge.\<close>

lemma hex_digit_at: "d < 16 \<Longrightarrow> hex_digit d \<noteq> CHR ''@''"
proof
  assume "d < 16" "hex_digit d = CHR ''@''"
  then have "of_char (hex_digit d) = (64 :: nat)" by simp
  with \<open>d < 16\<close> show False by (simp add: hex_digit_def of_char_of split: if_splits)
qed

lemma hex16_digits: "CHR ''@'' \<notin> set (hex16 v)"
  unfolding hex16_def by (auto dest: sym simp: hex_digit_at)

lemma fixture_fine_tune_errors:
  "fixture_fine_tune stamp c pairs = Inl e \<longleftrightarrow>
     (if method_rank (ft_method c) = Some 0 then e = InvalidConfig ''adapter rank must be > 0''
      else if max_steps (hyperparams c) = 0 then e = InvalidConfig ''max_steps must be > 0''
      else pairs = [] \<and> e = EmptyDataset)"
  by (auto simp: fixture_fine_tune_def config_validate_def Let_def)

lemma fixture_run_job_fits:
  assumes "fixture_run_job stamp job c pairs = Inr a"
  shows "(is_mountable a \<longleftrightarrow> art_format a \<noteq> BakedGguf) \<and> (art_merge_path a = Hadamard \<longrightarrow> \<not> is_mountable a)
    \<and> CHR ''@'' \<notin> set (weights_digest a) \<and> by_the_bridge (Bridged a d summary now_ns)"
proof -
  have k: "(serving_tier_of k = MountableAdapter \<longleftrightarrow> format_for_method k \<noteq> BakedGguf)
      \<and> (merge_path_of k = Hadamard \<longrightarrow> serving_tier_of k \<noteq> MountableAdapter)" for k
    by (cases k) (auto split: HraKind.splits)
  show ?thesis using assms hex16_digits k [of "ft_method c"]
    by (auto simp: fixture_run_job_def fixture_fine_tune_def config_validate_def Let_def hex64_def is_mountable_def
        split: sum.splits if_splits)
qed
end
