(* ===== verification/Spec2Isabelle.thy ===== *)
theory Spec2Isabelle
  imports Frame_Allocator Heap_Allocator Agent_Pcb Token_Pipe Mlfq Context_Window Arc_Cache Quota
    Cron_Schedule Job_Runner Circuit_Breaker Tool_Registry Tool_Cache Senses Syscall_Router Workspace
    Knowledge_Graph Watchdog Prospective Approval_Queue Skills Skill_Bridge Egress_Guard Session_Store Users
    Data_Commands Motor_Gate Constitution Defence_Layer Audit_Trail Tls_Handshake Webhooks Channels Tool_Dispatch Adapter_Library
begin

text \<open>
  AnimaOS: a verification development.

  \<^bold>\<open>The program.\<close> AnimaOS is an operating system for language-model agents, written in Rust. Agents
  are processes with a control block and a small syscall surface. A kernel (\<^verbatim>\<open>kernels/hosted\<close>,
  \<^verbatim>\<open>kernels/microvm\<close>) routes the syscalls to subsystems, each a crate under \<^verbatim>\<open>crates\<close>: \<^verbatim>\<open>corpus\<close> (frames,
  heap, control blocks, the syscall interface), \<^verbatim>\<open>scheduler\<close> (task agenda and token pipe), \<^verbatim>\<open>memory\<close>
  (context window and warm cache), \<^verbatim>\<open>senses\<close> (input packets), \<^verbatim>\<open>praxis\<close> and \<^verbatim>\<open>tool-cache\<close> (tools),
  and the services around them: \<^verbatim>\<open>quota\<close>, \<^verbatim>\<open>jobs\<close>, \<^verbatim>\<open>workspace\<close>, \<^verbatim>\<open>knowledge-graph\<close>, \<^verbatim>\<open>users\<close> and
  \<^verbatim>\<open>consent\<close> (who may store what), \<^verbatim>\<open>sessions\<close>, \<^verbatim>\<open>skills\<close> and \<^verbatim>\<open>lifecycle\<close> (what an agent may do by itself),
  \<^verbatim>\<open>vita\<close> (the loop of the agent, with its watchdog, intentions, delegation and audit log) and the guards in
  front of actions, \<^verbatim>\<open>actuators\<close>, \<^verbatim>\<open>constitution\<close> and \<^verbatim>\<open>defence\<close>. They interact by calls: the
  syscall router owns references to the scheduler, the frame allocator, the sensory bridge and the
  tool registry; the context window reports memory pressure by debiting the scheduler's token pipe;
  the tool cache wraps the tool registry, whose entries each own a circuit breaker; the job runner
  evaluates schedules with the cron evaluator; a skill an agent proposes becomes active only through the approval
  queue; the data commands of the hosted kernel read and change the user registry and the session store under the
  recorded consent; the defence layer asks the charter first and the motor gate next; every part leaves its trace in
  the audit log.

  \<^bold>\<open>Theories and sources.\<close> Each theory models one part; records have the fields of the structs,
  datatypes the variants of the enums, and an operation has the name of the Rust function, with a
  prefix where several types have a method of one name.

  \<^item> \<open>Anima_Prelude\<close>: machine integers with the saturating and checked operations of the standard
    library, hash maps as association lists, and the generic contracts below.
  \<^item> \<open>Atomic_Cursor\<close>: \<^verbatim>\<open>AtomicUsize::fetch_update\<close> as a compare-and-swap loop of any number of
    interleaved threads, a swap of which may fail without a reason, and the contract of a bump arena.
  \<^item> \<open>Frame_Allocator\<close>, \<open>Heap_Allocator\<close>: \<^verbatim>\<open>corpus/src/frame_allocator.rs\<close> and
    \<^verbatim>\<open>heap_allocator.rs\<close>. Success and failure of an allocation are characterised exactly, blocks
    handed out to racing threads are disjoint and inside the arena, and racing calls lose no frame.
  \<^item> \<open>Agent_Pcb\<close>: \<^verbatim>\<open>corpus/src/pcb.rs\<close> and \<^verbatim>\<open>syscall.rs\<close>. The life cycle of an agent, with its
    terminal state, and the dispatcher of syscalls to a handler.
  \<^item> \<open>Token_Pipe\<close>, \<open>Mlfq\<close>: \<^verbatim>\<open>scheduler/src\<close>. Credits are conserved and bounded; the agenda is a
    stable priority queue that loses and duplicates no task, also under the starvation boost, and a boosted
    task is selected before any later arrival.
  \<^item> \<open>Context_Window\<close>, \<open>Arc_Cache\<close>: \<^verbatim>\<open>memory/src/lib.rs\<close>, \<^verbatim>\<open>pressure.rs\<close>, \<^verbatim>\<open>l2_cache.rs\<close>. Block
    accounting and the classification of pressure; the four lists of the adaptive replacement cache
    stay disjoint and bounded, and lookups return the last value inserted.
  \<^item> \<open>Quota\<close>: \<^verbatim>\<open>quota/src/lib.rs\<close>. The lazily drained windows decide as the full log of grants would;
    snapshots predict decisions; the reported retry time.
  \<^item> \<open>Cron_Schedule\<close>, \<open>Job_Runner\<close>: \<^verbatim>\<open>jobs/src\<close>. The calendar conversion is the Gregorian calendar,
    a cron field has its documented meaning, a cron job fires at most once a minute and a one-shot job
    within its budget of attempts.
  \<^item> \<open>Circuit_Breaker\<close>, \<open>Tool_Registry\<close>, \<open>Tool_Cache\<close>: \<^verbatim>\<open>praxis/src\<close> and \<^verbatim>\<open>tool-cache/src\<close>. The
    breaker follows the trip, cooldown, probe protocol; an open breaker isolates its tool and no other;
    a cache hit is a fresh answer of the same tool to the same payload, the cache is bounded, and for
    the built-in deterministic tools it is transparent.
  \<^item> \<open>Senses\<close>: \<^verbatim>\<open>senses/src/lib.rs\<close>. A checked packetiser admits exactly what the bounds allow, and
    packets are delivered in the order they were admitted.
  \<^item> \<open>Syscall_Router\<close>: \<^verbatim>\<open>kernels/hosted/src/syscall_router.rs\<close>. Denied syscalls are inert; every batch
    of syscalls keeps the invariants of the four subsystems behind the router, each taken from the theory
    of its subsystem; handles decode; the agent table follows the life cycle.
  \<^item> \<open>Workspace\<close>: \<^verbatim>\<open>workspace/src\<close>. One owner per workspace, no escalation of roles, well-formed
    identifiers.
  \<^item> \<open>Ascii_Text\<close>: splitting, searching, letter case and numbers of the standard library's strings, with their
    round trips, for the parsers of the other theories.
  \<^item> \<open>Knowledge_Graph\<close>: \<^verbatim>\<open>knowledge-graph/src\<close>. No relation dangles; the breadth-first search finds exactly the
    entities within the depth asked for.
  \<^item> \<open>Users\<close>, \<open>Session_Store\<close>, \<open>Data_Commands\<close>: \<^verbatim>\<open>users/src\<close>, \<^verbatim>\<open>consent/src\<close>, \<^verbatim>\<open>sessions/src\<close> and the data
    commands of \<^verbatim>\<open>kernels/hosted/src/commands.rs\<close>. Consent is the last decision, expiry included; sessions only grow
    and acknowledged calls survive; an export is the profile, facts included, and the data of exactly the categories its
    owner consented to, each under its own label.
  \<^item> \<open>Watchdog\<close>, \<open>Prospective\<close>: \<^verbatim>\<open>vita/src/watchdog.rs\<close>, \<^verbatim>\<open>prospective.rs\<close>. The watchdog trips exactly when a detector
    says so; an intention is injected once per occurrence.
  \<^item> \<open>Approval_Queue\<close>, \<open>Skills\<close>, \<open>Skill_Bridge\<close>: \<^verbatim>\<open>lifecycle/src/approval.rs\<close>, \<^verbatim>\<open>skill_bridge.rs\<close>, \<^verbatim>\<open>skills/src\<close>. The
    log accounts for every proposal; an active skill of an agent was approved by the operator.
  \<^item> \<open>Egress_Guard\<close>, \<open>Motor_Gate\<close>: \<^verbatim>\<open>actuators/src/egress.rs\<close>, \<^verbatim>\<open>defence/src/motor_gate.rs\<close> and the address parsers of
    the standard library. On well-formed URLs both decide exactly as their policies over hosts, resolver notations and
    address blocks say; a write is screened by where its path leads.
  \<^item> \<open>Constitution\<close>, \<open>Defence_Layer\<close>: \<^verbatim>\<open>constitution/src\<close>, \<^verbatim>\<open>defence/src\<close>. Screening against the charter is
    characterised by words and phrases, and no operator layer lifts a core veto; the JSON text a seal covers is tamper-evident up
    to collisions among the texts hashed; the sliding window of vetoes counts as a log that forgets nothing.
  \<^item> \<open>Audit_Trail\<close>: \<^verbatim>\<open>vita/src/audit.rs\<close>. The ring in memory, the file and its chain of MACs: what is written verifies,
    is read back as far as its JSON text reads back, and without the key a forger can at best cut the end off.
  \<^item> \<open>Tls_Wire\<close>, \<open>Tls_Handshake\<close>: \<^verbatim>\<open>kernels/microvm/src/tls.rs\<close>. The records, hello messages and their parsers, the key
    schedule and the whole loopback handshake: it completes for all keys and random values, no bytes of a peer make a
    side panic, the parsers find exactly the first usable key share, and no two records are sealed under one nonce.
  \<^item> \<open>Webhooks\<close>: \<^verbatim>\<open>webhooks/src\<close>. Whatever file a registry was opened on, events go to public addresses only; which
    signatures verify; a delivery stops at the first acceptance and its counters are consistent.
  \<^item> \<open>Channels\<close>: \<^verbatim>\<open>comms/src\<close>, over the bridge of \<open>Senses\<close> and the guard of \<open>Egress_Guard\<close>. A poll delivers exactly what the
    route can serve and the bounds admit; a reply leaves only through the guard.
  \<^item> \<open>Tool_Dispatch\<close>: \<^verbatim>\<open>vita/src/dispatch.rs\<close>, \<^verbatim>\<open>agent_pool.rs\<close>, over the guard and the log of \<open>Audit_Trail\<close>. Denied calls
    never reach a tool; what redaction hides and what it keeps; every delegation has one announcement and one end in the trail however
    threads interleave, and one dispatch is a run of those steps.
  \<^item> \<open>Adapter_Library\<close>: \<^verbatim>\<open>finetune/src\<close>, \<^verbatim>\<open>lifecycle/src/adapter_bridge.rs\<close> and the decisions of \<^verbatim>\<open>console/src/server.rs\<close>,
    over \<open>Approval_Queue\<close>. What the library serves has passed the evaluation and the operator's decision with its present
    weights, however training, decisions and mounts interleave, unless it was mounted by the call that asks for neither.

  \<^bold>\<open>Interfaces.\<close> \<open>op_machine\<close> (operations keep an invariant; runs from a good state stay good),
  \<open>monotone_machine\<close> (and a measure never falls), \<open>life_cycle\<close> (a transition relation with absorbing
  states) and \<open>fifo_buffer\<close> are declared in the prelude and interpreted on the operations of the
  components. \<open>bump_arena\<close> is interpreted by both allocators, \<open>stable_priority_queue\<close> by the agenda,
  \<open>credit_sink\<close> by the token pipe for the context window, \<open>rolling_window\<close> by the two queues of the
  quota tracker, \<open>accepted_answers\<close> by the built-in tools for the cache, and \<open>screened_handler\<close> by the
  kernel's handler. \<open>op_machine\<close> is interpreted by the knowledge graph and by the adapter library with its history as well, and \<open>life_cycle\<close> by the proposals of the
  approval queue and by sessions.

  \<^bold>\<open>Conventions.\<close> An integer keeps its width as a word where it is stored or can overflow; sums that the
  source leaves unchecked wrap, as in a release build. Lengths of in-memory lists are natural numbers.
  Clock readings are arguments of the operation that takes them. Strings are lists of ASCII characters.
  Error texts are constructors. A method that holds a lock for its whole body is one step; where the source
  interleaves, in the compare-and-swap loop, between the two critical sections of a tool dispatch and during a delegation
  to another agent, or between a console decision and its way to the adapter library, there are separate steps. Every loop is a total recursion, so no definition needs fuel; the compare-and-swap loop, whose
  retries depend on the other threads and on the processor, is a step relation, and nothing is claimed about its end. Code outside the repository or behind a trait is an argument:
  the backend's token stream in \<open>dispatch_task\<close>, the behaviour of a tool driver, the capability policy of the router,
  the JSON and TOML codecs, the hash of \<^verbatim>\<open>sha2\<close>, the cryptographic crates of the handshake, the network. What a theorem asks of such an argument (the codec of the user and session files reads back what it
  wrote, a hash gives 32 bytes) is one of its hypotheses. Nothing of the kind is asked of the codecs of records with
  floats, the charter and the audit entries, since JSON has no text for infinities and for what is no number. The parsers of addresses and the string functions of the
  standard library are modelled.

  \<^bold>\<open>Not modelled.\<close> The subsystems whose decisions are floating-point scores (\<^verbatim>\<open>motivation\<close>, \<^verbatim>\<open>kv-controller\<close>,
  \<^verbatim>\<open>interoception\<close>, the gates and the router of \<^verbatim>\<open>vita\<close>, the embedding parts of \<^verbatim>\<open>memory\<close> and of the goal-drift
  monitor, the evaluation of adapters, metrics and alerts); HTTP clients and servers, consoles, the command line apart from the data commands, child
  processes; the drivers of the microVM kernel over third-party crates, and of its TLS module the test over a network
  socket and the random number instruction; the lifecycle director, an asynchronous loop
  over all other subsystems whose effects are the calls of the modelled ones. The components listed in the manifest as
  not modelled each give their reason.
\<close>

end
